(* ===== verification/Prelude.thy ===== *)
theory Prelude
  imports Main "HOL-Library.Word" "HOL-Library.Monad_Syntax"
begin

text \<open>
  Shared vocabulary of the development.

  \<^item> Checked array accesses. A C array is a list; reading or writing outside of it is
    undefined behaviour, which the model makes visible as \<open>None\<close>.
  \<^item> The two loop shapes of the sources, \<open>for_range\<close> (a counting loop that
    updates a state) and \<open>first_range\<close> (a counting loop that returns from its middle), with
    one rule each.
  \<^item> Little-endian encodings of machine words, which is how the structures of the file
    system are laid out in a sector.
  \<^item> The rounding macros of \<open>src/a3/fs/round.h\<close>.
\<close>

unbundle bit_operations_syntax

type_synonym byte = "8 word"
type_synonym block_sector_t = "32 word"

named_theorems arr_simps \<open>checked array accesses\<close>
named_theorems frame \<open>parts of the state an operation leaves alone\<close>
named_theorems layout_simps \<open>sizes and offsets of on-disk structures\<close>

subsection \<open>Checked array accesses\<close>

definition arr_get :: "'a list \<Rightarrow> nat \<Rightarrow> 'a option" where
  "arr_get xs i = (if i < length xs then Some (xs ! i) else None)"

definition arr_set :: "'a list \<Rightarrow> nat \<Rightarrow> 'a \<Rightarrow> 'a list option" where
  "arr_set xs i x = (if i < length xs then Some (xs[i := x]) else None)"

lemma arr_get_in [simp, arr_simps]: "i < length xs \<Longrightarrow> arr_get xs i = Some (xs ! i)"
  by (simp add: arr_get_def)

lemma arr_set_in [simp, arr_simps]: "i < length xs \<Longrightarrow> arr_set xs i x = Some (xs[i := x])"
  by (simp add: arr_set_def)

lemma arr_get_eq_Some: "arr_get xs i = Some x \<longleftrightarrow> i < length xs \<and> x = xs ! i"
  by (auto simp: arr_get_def)

lemma arr_set_eq_Some: "arr_set xs i x = Some ys \<longleftrightarrow> i < length xs \<and> ys = xs[i := x]"
  by (auto simp: arr_set_def)

text \<open>\<open>memcpy\<close> out of and into a buffer; a copy that leaves the buffer is undefined.\<close>

definition mem_get :: "'a list \<Rightarrow> int \<Rightarrow> int \<Rightarrow> 'a list option" where
  "mem_get xs i n =
     (if 0 \<le> i \<and> 0 \<le> n \<and> i + n \<le> int (length xs) then Some (take (nat n) (drop (nat i) xs)) else None)"

definition put_at :: "'a list \<Rightarrow> nat \<Rightarrow> 'a list \<Rightarrow> 'a list" where
  "put_at xs i ys = take i xs @ ys @ drop (i + length ys) xs"

definition mem_put :: "'a list \<Rightarrow> int \<Rightarrow> 'a list \<Rightarrow> 'a list option" where
  "mem_put xs i ys =
     (if 0 \<le> i \<and> i + int (length ys) \<le> int (length xs) then Some (put_at xs (nat i) ys) else None)"

text \<open>
  Signed 32-bit arithmetic: a sum or difference outside the type is undefined behaviour. The
  remainder of C takes the sign of the dividend.
\<close>

definition int32 :: "int \<Rightarrow> int option" where
  "int32 i = (if - (2 ^ 31) \<le> i \<and> i < 2 ^ 31 then Some i else None)"

definition c_rem :: "int \<Rightarrow> int \<Rightarrow> int" where
  "c_rem a b = (if a < 0 then - ((- a) mod b) else a mod b)"

text \<open>
  Heap objects of one C type: a list indexed by address, \<open>None\<close> for an object that was freed.
  A read of a freed or foreign address is undefined.
\<close>

definition deref :: "'a option list \<Rightarrow> nat \<Rightarrow> 'a option" where
  "deref h p = (case arr_get h p of None \<Rightarrow> None | Some x \<Rightarrow> x)"

lemma deref_eq_Some: "deref h p = Some x \<longleftrightarrow> p < length h \<and> h ! p = Some x"
  by (auto simp: deref_def arr_get_def)

text \<open>An operation that may end the program, followed by another one.\<close>

definition on_ok :: "int + 'a \<Rightarrow> ('a \<Rightarrow> (int + 'b) option) \<Rightarrow> (int + 'b) option" where
  "on_ok r f = (case r of Inl n \<Rightarrow> Some (Inl n) | Inr x \<Rightarrow> f x)"

lemma on_ok_simps [simp]: "on_ok (Inl n) f = Some (Inl n)" "on_ok (Inr x) f = f x"
  by (simp_all add: on_ok_def)

lemma length_put_at [simp]: "i + length ys \<le> length xs \<Longrightarrow> length (put_at xs i ys) = length xs"
  by (simp add: put_at_def)

lemma nth_put_at:
  assumes "i + length ys \<le> length xs" and "p < length xs"
  shows "put_at xs i ys ! p = (if i \<le> p \<and> p < i + length ys then ys ! (p - i) else xs ! p)"
  using assms by (auto simp: put_at_def nth_append)

lemma put_at_put_at:
  "i + length ys + length zs \<le> length xs \<Longrightarrow>
   put_at (put_at xs i ys) (i + length ys) zs = put_at xs i (ys @ zs)"
  by (intro nth_equalityI) (auto simp: nth_put_at nth_append)

lemma put_at_empty [simp]: "put_at xs i [] = xs"
  by (simp add: put_at_def)

lemma put_at_all: "length ys = length xs \<Longrightarrow> put_at xs 0 ys = ys"
  by (simp add: put_at_def)

lemma take_drop_put_at:
  "i + length ys \<le> length xs \<Longrightarrow> take (length ys) (drop i (put_at xs i ys)) = ys"
  by (simp add: put_at_def)

lemma int32_in [simp]: "- (2 ^ 31) \<le> i \<Longrightarrow> i < 2 ^ 31 \<Longrightarrow> int32 i = Some i"
  by (simp add: int32_def)

lemma c_rem_nonneg [simp]: "0 \<le> a \<Longrightarrow> c_rem a b = a mod b"
  by (simp add: c_rem_def)

subsection \<open>Counting loops\<close>

text \<open>\<open>for (i = lo; i < hi; i++) s = body(i, s)\<close>; \<open>None\<close> from the body ends the loop.\<close>

function for_range :: "nat \<Rightarrow> nat \<Rightarrow> (nat \<Rightarrow> 's \<Rightarrow> 's option) \<Rightarrow> 's \<Rightarrow> 's option" where
  "for_range i n body s =
     (if i < n then (case body i s of None \<Rightarrow> None | Some s' \<Rightarrow> for_range (Suc i) n body s')
      else Some s)"
  by pat_completeness auto
termination
  by (relation "measure (\<lambda>(i, n, _). n - i)") auto

text \<open>\<open>for (i = lo; i < hi; i++) if (p(i)) return i;\<close> with \<open>Some None\<close> for the exit at the end.\<close>

function first_range :: "nat \<Rightarrow> nat \<Rightarrow> (nat \<Rightarrow> bool option) \<Rightarrow> nat option option" where
  "first_range i n p =
     (if i < n
      then (case p i of
              None \<Rightarrow> None
            | Some hit \<Rightarrow> if hit then Some (Some i) else first_range (Suc i) n p)
      else Some None)"
  by pat_completeness auto
termination
  by (relation "measure (\<lambda>(i, n, _). n - i)") auto

declare for_range.simps [simp del] first_range.simps [simp del]

lemma for_range_done [simp]: "n \<le> i \<Longrightarrow> for_range i n body s = Some s"
  by (subst for_range.simps) simp

lemma for_range_step:
  "i < n \<Longrightarrow> body i s = Some s' \<Longrightarrow> for_range i n body s = for_range (Suc i) n body s'"
  by (subst for_range.simps) simp

lemma first_range_done [simp]: "n \<le> i \<Longrightarrow> first_range i n p = Some None"
  by (subst first_range.simps) simp

lemma for_range_inv:
  assumes "P i s" and "i \<le> n"
    and "\<And>j t. i \<le> j \<Longrightarrow> j < n \<Longrightarrow> P j t \<Longrightarrow> \<exists>t'. body j t = Some t' \<and> P (Suc j) t'"
  shows "\<exists>s'. for_range i n body s = Some s' \<and> P n s'"
  using assms
proof (induction i n body s rule: for_range.induct)
  case (1 i n body s)
  show ?case
  proof (cases "i < n")
    case True
    then obtain s' where s': "body i s = Some s'" "P (Suc i) s'"
      using "1.prems" by blast
    have "\<exists>r. for_range (Suc i) n body s' = Some r \<and> P n r"
      using "1.IH" [OF True s'(1) s'(2)] True "1.prems"(3) by simp
    with True s' show ?thesis by (simp add: for_range_step)
  next
    case False
    with "1.prems" show ?thesis by simp
  qed
qed

lemma for_range_pres:
  assumes "for_range i n body s = Some s'" and "P s"
    and "\<And>j t t'. i \<le> j \<Longrightarrow> j < n \<Longrightarrow> P t \<Longrightarrow> body j t = Some t' \<Longrightarrow> P t'"
  shows "P s'"
  using assms
proof (induction i n body s rule: for_range.induct)
  case (1 i n body s)
  show ?case
  proof (cases "i < n")
    case True
    with "1.prems"(1) obtain t where t: "body i s = Some t" "for_range (Suc i) n body t = Some s'"
      by (subst (asm) for_range.simps) (auto split: option.splits)
    have "P t" using "1.prems"(2,3) True t(1) by blast
    then show ?thesis
      by (rule "1.IH" [OF True t(1) t(2)]) (use "1.prems"(3) in \<open>auto dest: Suc_leD\<close>)
  next
    case False
    with "1.prems" show ?thesis by simp
  qed
qed

lemma first_range_find:
  assumes "\<And>j. i \<le> j \<Longrightarrow> j < n \<Longrightarrow> p j = Some (q j)"
  shows "first_range i n p = Some (find q [i..<n])"
  using assms
proof (induction i n p rule: first_range.induct)
  case (1 i n p)
  show ?case
  proof (cases "i < n")
    case True
    with "1.prems" have p: "p i = Some (q i)" by simp
    show ?thesis
      using "1.IH" [OF True p] "1.prems" True p
      by (subst first_range.simps) (auto simp: upt_conv_Cons)
  next
    case False
    then show ?thesis by simp
  qed
qed

lemma find_upt_Some:
  "find q [i..<n] = Some k \<longleftrightarrow> i \<le> k \<and> k < n \<and> q k \<and> (\<forall>j. i \<le> j \<longrightarrow> j < k \<longrightarrow> \<not> q j)"
proof
  assume "find q [i..<n] = Some k"
  then obtain m where m: "m < n - i" "q (i + m)" "k = i + m" "\<forall>j < m. \<not> q (i + j)"
    by (auto simp: find_Some_iff)
  have "\<not> q j" if "i \<le> j" "j < k" for j
    using m(3,4) that by (metis le_add_diff_inverse nat_add_left_cancel_less)
  with m show "i \<le> k \<and> k < n \<and> q k \<and> (\<forall>j. i \<le> j \<longrightarrow> j < k \<longrightarrow> \<not> q j)" by auto
next
  assume *: "i \<le> k \<and> k < n \<and> q k \<and> (\<forall>j. i \<le> j \<longrightarrow> j < k \<longrightarrow> \<not> q j)"
  then show "find q [i..<n] = Some k"
    by (auto simp: find_Some_iff intro!: exI [of _ "k - i"])
qed

lemma find_upt_None: "find q [i..<n] = None \<longleftrightarrow> (\<forall>j. i \<le> j \<longrightarrow> j < n \<longrightarrow> \<not> q j)"
  by (auto simp: find_None_iff)

subsection \<open>Rounding\<close>

definition ROUND_UP :: "nat \<Rightarrow> nat \<Rightarrow> nat" where
  "ROUND_UP x step = (x + step - 1) div step * step"

definition DIV_ROUND_UP :: "nat \<Rightarrow> nat \<Rightarrow> nat" where
  "DIV_ROUND_UP x step = (x + step - 1) div step"

definition ROUND_DOWN :: "nat \<Rightarrow> nat \<Rightarrow> nat" where
  "ROUND_DOWN x step = x div step * step"

lemma DIV_ROUND_UP_le:
  assumes "0 < step" shows "x \<le> DIV_ROUND_UP x step * step"
proof -
  have "(x + step - 1) mod step + DIV_ROUND_UP x step * step = x + step - 1"
    by (simp add: DIV_ROUND_UP_def mod_div_mult_eq)
  moreover have "(x + step - 1) mod step \<le> step - 1"
    using mod_less_divisor [OF assms, of "x + step - 1"] by linarith
  ultimately show ?thesis using assms by linarith
qed

lemma DIV_ROUND_UP_less:
  assumes "0 < step" and "i < x" shows "i div step < DIV_ROUND_UP x step"
proof -
  have "i < DIV_ROUND_UP x step * step"
    using DIV_ROUND_UP_le [OF assms(1), of x] assms(2) by linarith
  then show ?thesis using assms(1) by (simp add: less_mult_imp_div_less)
qed

lemma DIV_ROUND_UP_0 [simp]: "0 < step \<Longrightarrow> DIV_ROUND_UP 0 step = 0"
  by (simp add: DIV_ROUND_UP_def)

subsection \<open>Little-endian encodings\<close>

definition le_bytes :: "nat \<Rightarrow> 'a::len word \<Rightarrow> byte list" where
  "le_bytes n w = map (\<lambda>i. ucast (drop_bit (8 * i) w)) [0..<n]"

primrec le_word :: "byte list \<Rightarrow> 'a::len word" where
  "le_word [] = 0"
| "le_word (b # bs) = ucast b OR push_bit 8 (le_word bs)"

text \<open>A run of \<open>k\<close>-byte words.\<close>

definition le_words :: "nat \<Rightarrow> byte list \<Rightarrow> 'a::len word list" where
  "le_words k bs = map (\<lambda>i. le_word (take k (drop (k * i) bs))) [0..<length bs div k]"

lemma length_le_bytes [simp, layout_simps]: "length (le_bytes n w) = n"
  by (simp add: le_bytes_def)

lemma length_le_words [simp, layout_simps]: "length (le_words k bs) = length bs div k"
  by (simp add: le_words_def)

lemma bit_le_bytes:
  "i < n \<Longrightarrow> bit (le_bytes n (w :: 'a::len word) ! i) k \<longleftrightarrow> k < 8 \<and> bit w (8 * i + k)"
  by (auto simp: le_bytes_def bit_simps dest: bit_imp_le_length)

lemma bit_le_word:
  "bit (le_word bs :: 'a::len word) k \<longleftrightarrow>
     k < LENGTH('a) \<and> k div 8 < length bs \<and> bit (bs ! (k div 8)) (k mod 8)"
proof (induction bs arbitrary: k)
  case Nil
  show ?case by simp
next
  case (Cons b bs)
  show ?case
  proof (cases "k < 8")
    case True
    then show ?thesis by (auto simp: bit_simps)
  next
    case False
    then have "k div 8 = Suc ((k - 8) div 8)" "(k - 8) mod 8 = k mod 8"
      by (simp_all add: le_div_geq le_mod_geq)
    moreover have "\<not> bit b k" using False bit_imp_le_length [of b k] by auto
    ultimately show ?thesis using False by (auto simp: bit_simps Cons.IH)
  qed
qed

lemma le_word_le_bytes:
  assumes "LENGTH('a) \<le> 8 * n" shows "le_word (le_bytes n w) = (w :: 'a::len word)"
proof (rule bit_word_eqI)
  fix k assume k: "k < LENGTH('a)"
  then have "k div 8 < n" using assms by auto
  then have "bit (le_bytes n w ! (k div 8)) (k mod 8) = bit w (8 * (k div 8) + k mod 8)"
    by (simp add: bit_le_bytes)
  with k \<open>k div 8 < n\<close> show "bit (le_word (le_bytes n w) :: 'a word) k = bit w k"
    by (simp add: bit_le_word)
qed

lemma le_bytes_le_word:
  assumes "8 * length bs \<le> LENGTH('a)" and "n = length bs"
  shows "le_bytes n (le_word bs :: 'a::len word) = bs"
proof (rule nth_equalityI)
  show "length (le_bytes n (le_word bs :: 'a word)) = length bs" using assms by simp
next
  fix i assume "i < length (le_bytes n (le_word bs :: 'a word))"
  then have i: "i < length bs" using assms by simp
  show "le_bytes n (le_word bs :: 'a word) ! i = bs ! i"
  proof (rule bit_word_eqI)
    fix k assume "k < LENGTH(8)"
    then have "k < 8" by simp
    moreover have "8 * i + k < LENGTH('a)" using i assms \<open>k < 8\<close> by linarith
    ultimately show "bit (le_bytes n (le_word bs :: 'a word) ! i) k = bit (bs ! i) k"
      using i assms by (simp add: bit_le_bytes bit_le_word)
  qed
qed

lemma le_word_replicate [simp]: "le_word (replicate n 0) = 0"
  by (induction n) simp_all

lemma length_concat_le_bytes [simp, layout_simps]:
  "length (concat (map (le_bytes k) ws)) = k * length ws"
  by (induction ws) auto

lemma concat_le_bytes_slice:
  "i < length ws \<Longrightarrow> take k (drop (k * i) (concat (map (le_bytes k) ws))) = le_bytes k (ws ! i)"
proof (induction ws arbitrary: i)
  case Nil
  then show ?case by simp
next
  case (Cons w ws)
  then show ?case by (cases i) auto
qed

lemma le_words_concat:
  assumes "LENGTH('a) \<le> 8 * k" and "0 < k"
  shows "le_words k (concat (map (le_bytes k) ws)) = (ws :: 'a::len word list)"
  using assms
  by (intro nth_equalityI) (auto simp: le_words_def concat_le_bytes_slice le_word_le_bytes)

lemma concat_le_words:
  assumes "8 * k \<le> LENGTH('a)" and "length bs = k * n" and "0 < k"
  shows "concat (map (le_bytes k) (le_words k bs :: 'a::len word list)) = bs"
  using assms(2)
proof (induction n arbitrary: bs)
  case 0
  then show ?case by (simp add: le_words_def)
next
  case (Suc n)
  let ?a = "take k bs" and ?r = "drop k bs"
  have len: "length ?r = k * n" "length ?a = k" using Suc.prems by simp_all
  have "(le_words k bs :: 'a word list) = le_word ?a # le_words k ?r"
    using Suc.prems assms(3) len
    by (simp add: le_words_def upt_conv_Cons map_Suc_upt [symmetric] add.commute
        del: upt_Suc)
  moreover have "le_bytes k (le_word ?a :: 'a word) = ?a"
    using assms(1) len by (intro le_bytes_le_word) simp_all
  ultimately show ?case using Suc.IH [OF len(1)] by simp
qed

subsection \<open>Decimal output\<close>

text \<open>The digits \<open>%d\<close> prints for a number that is not negative.\<close>

fun dec_string :: "nat \<Rightarrow> string" where
  "dec_string n =
     (if n < 10 then [char_of (48 + n)] else dec_string (n div 10) @ [char_of (48 + n mod 10)])"

declare dec_string.simps [simp del]

definition dec_int :: "int \<Rightarrow> string" where
  "dec_int i = (if i < 0 then ''-'' @ dec_string (nat (- i)) else dec_string (nat i))"

end
