(* ===== verification/Links.thy ===== *)
theory Links
  imports Prelude "HOL-Library.Multiset"
begin

text \<open>
  Linked structures: objects with the fields \<open>next\<close> and \<open>prev\<close>, and the interface of the queues built from
  them.

  A pointer is an address or \<open>None\<close> for \<open>NULL\<close>. The two link fields are functions from addresses, one per
  field; \<open>valid\<close> tells which addresses hold an object. Following a null pointer or an address without an
  object is undefined, which is the result \<open>None\<close> of the accesses. The predicate \<open>linked\<close> says that
  neighbours in a list of addresses point to each other.
\<close>

type_synonym ptr = "nat option"

record links =
  nexts :: "nat \<Rightarrow> ptr"
  prevs :: "nat \<Rightarrow> ptr"
  valid :: "nat \<Rightarrow> bool"

definition get_next :: "ptr \<Rightarrow> 'z links_scheme \<Rightarrow> ptr option" where
  "get_next p s = do { a \<leftarrow> p; if valid s a then Some (nexts s a) else None }"

definition get_prev :: "ptr \<Rightarrow> 'z links_scheme \<Rightarrow> ptr option" where
  "get_prev p s = do { a \<leftarrow> p; if valid s a then Some (prevs s a) else None }"

definition set_next :: "ptr \<Rightarrow> ptr \<Rightarrow> 'z links_scheme \<Rightarrow> 'z links_scheme option" where
  "set_next p v s = do { a \<leftarrow> p; if valid s a then Some (s\<lparr>nexts := (nexts s)(a := v)\<rparr>) else None }"

definition set_prev :: "ptr \<Rightarrow> ptr \<Rightarrow> 'z links_scheme \<Rightarrow> 'z links_scheme option" where
  "set_prev p v s = do { a \<leftarrow> p; if valid s a then Some (s\<lparr>prevs := (prevs s)(a := v)\<rparr>) else None }"

lemmas link_defs = get_next_def get_prev_def set_next_def set_prev_def

lemma get_next_valid [simp]: "valid s a \<Longrightarrow> get_next (Some a) s = Some (nexts s a)"
  by (simp add: link_defs)

lemma get_prev_valid [simp]: "valid s a \<Longrightarrow> get_prev (Some a) s = Some (prevs s a)"
  by (simp add: link_defs)

lemma set_next_valid [simp]: "valid s a \<Longrightarrow> set_next (Some a) v s = Some (s\<lparr>nexts := (nexts s)(a := v)\<rparr>)"
  by (simp add: link_defs)

lemma set_prev_valid [simp]: "valid s a \<Longrightarrow> set_prev (Some a) v s = Some (s\<lparr>prevs := (prevs s)(a := v)\<rparr>)"
  by (simp add: link_defs)

lemma null_access [simp]:
  "get_next None s = None" "get_prev None s = None" "set_next None v s = None" "set_prev None v s = None"
  by (simp_all add: link_defs)

subsection \<open>Chains\<close>

fun linked :: "(nat \<Rightarrow> ptr) \<Rightarrow> (nat \<Rightarrow> ptr) \<Rightarrow> nat list \<Rightarrow> bool" where
  "linked nx pv (a # b # xs) \<longleftrightarrow> nx a = Some b \<and> pv b = Some a \<and> linked nx pv (b # xs)"
| "linked nx pv _ \<longleftrightarrow> True"

lemma linked_split:
  "linked nx pv (xs @ a # ys) \<longleftrightarrow> linked nx pv (xs @ [a]) \<and> linked nx pv (a # ys)"
  by (induction nx pv xs rule: linked.induct) auto

lemma linked_join:
  "linked nx pv (xs @ a # b # ys) \<longleftrightarrow>
   linked nx pv (xs @ [a]) \<and> nx a = Some b \<and> pv b = Some a \<and> linked nx pv (b # ys)"
  by (subst linked_split) simp

lemma linked_append:
  "xs \<noteq> [] \<Longrightarrow> ys \<noteq> [] \<Longrightarrow> linked nx pv (xs @ ys) \<longleftrightarrow>
   linked nx pv xs \<and> linked nx pv ys \<and> nx (last xs) = Some (hd ys) \<and> pv (hd ys) = Some (last xs)"
  by (cases xs rule: rev_cases; cases ys) (auto simp: linked_join)

lemma linked_upd_next: "a \<notin> set (butlast xs) \<Longrightarrow> linked (nx(a := v)) pv xs = linked nx pv xs"
  by (induction nx pv xs rule: linked.induct) auto

lemma linked_upd_prev: "a \<notin> set (tl xs) \<Longrightarrow> linked nx (pv(a := v)) xs = linked nx pv xs"
  by (induction nx pv xs rule: linked.induct) auto

lemma linked_Cons:
  "xs \<noteq> [] \<Longrightarrow> linked nx pv (a # xs) \<longleftrightarrow> nx a = Some (hd xs) \<and> pv (hd xs) = Some a \<and> linked nx pv xs"
  by (cases xs) auto

lemma linked_nth:
  "linked nx pv xs \<Longrightarrow> Suc i < length xs \<Longrightarrow> nx (xs ! i) = Some (xs ! Suc i) \<and> pv (xs ! Suc i) = Some (xs ! i)"
  by (induction nx pv xs arbitrary: i rule: linked.induct) (auto simp: nth_Cons split: nat.splits)

text \<open>
  A chain is unchanged when the \<open>next\<close> of its last element, the \<open>prev\<close> of its first or any field of a foreign
  object is.
\<close>

lemma mem_neq: "a \<in> A \<Longrightarrow> b \<notin> A \<Longrightarrow> a \<noteq> b"
  by blast

lemma notin_butlast: "a \<notin> set xs \<Longrightarrow> a \<notin> set (butlast xs)"
  by (auto dest: in_set_butlastD)

lemma notin_tl: "a \<notin> set xs \<Longrightarrow> a \<notin> set (tl xs)"
  by (cases xs) auto

lemma last_notin_butlast: "distinct xs \<Longrightarrow> xs \<noteq> [] \<Longrightarrow> last xs \<notin> set (butlast xs)"
  by (cases xs rule: rev_cases) auto

lemma hd_notin_tl: "distinct xs \<Longrightarrow> xs \<noteq> [] \<Longrightarrow> hd xs \<notin> set (tl xs)"
  by (cases xs) auto

lemmas chain_simps = linked_append linked_Cons linked_upd_next linked_upd_prev notin_butlast notin_tl last_notin_butlast hd_notin_tl

lemma linked_insert:
  assumes "linked nx pv (us @ vs)" and "distinct (us @ vs)" and "us \<noteq> []" "vs \<noteq> []" and "e \<notin> set (us @ vs)"
  shows "linked (nx(last us := Some e, e := Some (hd vs))) (pv(e := Some (last us), hd vs := Some e)) (us @ e # vs)"
proof -
  have "last us \<in> set us" "hd vs \<in> set vs" "set us \<inter> set vs = {}" "e \<notin> set us" "e \<notin> set vs" using assms by auto
  then have "last us \<notin> set vs" "hd vs \<notin> set us" "e \<noteq> last us" "e \<noteq> hd vs" by blast+
  then show ?thesis using assms by (simp add: chain_simps)
qed

lemma linked_delete:
  assumes "linked nx pv (us @ e # vs)" and "distinct (us @ e # vs)" and "us \<noteq> []" "vs \<noteq> []"
  shows "linked (nx(last us := Some (hd vs))) (pv(hd vs := Some (last us))) (us @ vs)"
proof -
  have "last us \<in> set us" "hd vs \<in> set vs" "set us \<inter> set vs = {}" "e \<notin> set us" "e \<notin> set vs" using assms by auto
  then have "last us \<notin> set vs" "hd vs \<notin> set us" "e \<noteq> last us" "e \<noteq> hd vs" by blast+
  then show ?thesis using assms by (simp add: chain_simps)
qed

text \<open>Exchanging the two fields turns a chain around.\<close>

lemma linked_rev: "linked nx pv (rev xs) = linked pv nx xs"
proof (induction pv nx xs rule: linked.induct)
  case (1 pv nx a b xs)
  have "linked nx pv (rev (a # b # xs)) \<longleftrightarrow> linked nx pv (rev xs @ b # [a])" by simp
  also have "\<dots> \<longleftrightarrow> linked nx pv (rev (b # xs)) \<and> nx b = Some a \<and> pv a = Some b"
    by (subst linked_split) simp
  finally show ?case using 1 by auto
qed simp_all

subsection \<open>Interfaces of queues\<close>

text \<open>A series of insertions and a series of removals, by the operations of any queue.\<close>

primrec push_all :: "('a \<Rightarrow> 's \<Rightarrow> 's option) \<Rightarrow> 'a list \<Rightarrow> 's \<Rightarrow> 's option" where
  "push_all push [] s = Some s"
| "push_all push (x # xs) s = do { s \<leftarrow> push x s; push_all push xs s }"

primrec pop_n :: "('s \<Rightarrow> ('a \<times> 's) option) \<Rightarrow> nat \<Rightarrow> 's \<Rightarrow> ('a list \<times> 's) option" where
  "pop_n pop 0 s = Some ([], s)"
| "pop_n pop (Suc n) s = do { (x, s) \<leftarrow> pop s; (xs, s) \<leftarrow> pop_n pop n s; Some (x # xs, s) }"

primrec fits_all :: "('a list \<Rightarrow> 'a \<Rightarrow> bool) \<Rightarrow> 'a list \<Rightarrow> 'a list \<Rightarrow> bool" where
  "fits_all fits xs [] = True"
| "fits_all fits xs (y # ys) = (fits xs y \<and> fits_all fits (xs @ [y]) ys)"

text \<open>
  A queue with insertion at both ends and removal at the front, seen as a list. \<open>fits xs x\<close> says that \<open>x\<close> may
  be inserted when the queue holds \<open>xs\<close>: an element that is linked into the queue may not be inserted again.
\<close>

locale queue_ops =
  fixes rep :: "'s \<Rightarrow> 'a list \<Rightarrow> bool" and fits :: "'a list \<Rightarrow> 'a \<Rightarrow> bool"
    and push_back :: "'a \<Rightarrow> 's \<Rightarrow> 's option" and push_front :: "'a \<Rightarrow> 's \<Rightarrow> 's option"
    and pop_front :: "'s \<Rightarrow> ('a \<times> 's) option"
  assumes push_back: "rep s xs \<Longrightarrow> fits xs x \<Longrightarrow> \<exists>s'. push_back x s = Some s' \<and> rep s' (xs @ [x])"
    and push_front: "rep s xs \<Longrightarrow> fits xs x \<Longrightarrow> \<exists>s'. push_front x s = Some s' \<and> rep s' (x # xs)"
    and pop_front: "rep s (x # xs) \<Longrightarrow> \<exists>s'. pop_front s = Some (x, s') \<and> rep s' xs"
begin

lemma push_all_rep: "rep s xs \<Longrightarrow> fits_all fits xs ys \<Longrightarrow> \<exists>s'. push_all push_back ys s = Some s' \<and> rep s' (xs @ ys)"
proof (induction ys arbitrary: s xs)
  case (Cons y ys)
  then obtain s1 where s1: "push_back y s = Some s1" "rep s1 (xs @ [y])" using push_back [of s xs y] by auto
  then show ?case using Cons.IH [OF s1(2)] Cons.prems(2) by simp
qed simp

lemma pop_n_rep: "rep s (xs @ ys) \<Longrightarrow> \<exists>s'. pop_n pop_front (length xs) s = Some (xs, s') \<and> rep s' ys"
proof (induction xs arbitrary: s)
  case (Cons x xs)
  then obtain s1 where s1: "pop_front s = Some (x, s1)" "rep s1 (xs @ ys)" using pop_front [of s x "xs @ ys"] by auto
  then show ?case using Cons.IH [OF s1(2)] by auto
qed simp

text \<open>First in, first out: what was pushed comes out in the same order, and the queue is empty again.\<close>

lemma fifo:
  assumes "rep s []" and "fits_all fits [] xs"
  shows "\<exists>s1 s2. push_all push_back xs s = Some s1 \<and> pop_n pop_front (length xs) s1 = Some (xs, s2) \<and> rep s2 []"
  using push_all_rep [OF assms] pop_n_rep [of _ xs "[]"] by fastforce

text \<open>Round robin: popping the front and pushing it to the back rotates the queue.\<close>

lemma rotate:
  assumes "rep s (x # xs)" and "fits xs x"
  shows "\<exists>s1 s2. pop_front s = Some (x, s1) \<and> push_back x s1 = Some s2 \<and> rep s2 (xs @ [x])"
  using pop_front [OF assms(1)] push_back [OF _ assms(2)] by fast

lemma push_front_pop_front:
  assumes "rep s xs" and "fits xs x"
  shows "\<exists>s1 s2. push_front x s = Some s1 \<and> pop_front s1 = Some (x, s2) \<and> rep s2 xs"
  using push_front [OF assms] pop_front by fast

end

text \<open>A queue that also gives up its last element.\<close>

locale deque = queue_ops rep fits push_back push_front pop_front
  for rep :: "'s \<Rightarrow> 'a list \<Rightarrow> bool" and fits :: "'a list \<Rightarrow> 'a \<Rightarrow> bool"
    and push_back :: "'a \<Rightarrow> 's \<Rightarrow> 's option" and push_front :: "'a \<Rightarrow> 's \<Rightarrow> 's option"
    and pop_front :: "'s \<Rightarrow> ('a \<times> 's) option" +
  fixes pop_back :: "'s \<Rightarrow> ('a \<times> 's) option"
  assumes pop_back: "rep s (xs @ [x]) \<Longrightarrow> \<exists>s'. pop_back s = Some (x, s') \<and> rep s' xs"
begin

text \<open>Last in, first out at the back.\<close>

lemma push_back_pop_back:
  assumes "rep s xs" and "fits xs x"
  shows "\<exists>s1 s2. push_back x s = Some s1 \<and> pop_back s1 = Some (x, s2) \<and> rep s2 xs"
  using push_back [OF assms] pop_back by fast

end

end
