(* ===== verification/Pintos_List.thy ===== *)
theory Pintos_List
  imports Links
begin

text \<open>
  The doubly linked lists of \<open>src/a3/fs/list.c\<close>.

  A \<open>struct list\<close> consists of two elements, \<open>head\<close> and \<open>tail\<close>, given by their addresses. A comparison function
  with its auxiliary data is an argument of the model, a relation on the addresses of elements. Assertions have
  no effect. Loops are partial functions: a loop that does not end, or that leaves the list, has no value, so a
  theorem with a result states termination as well. \<open>list_rep s L xs\<close> relates a list of the heap to the
  addresses of its interior elements. \<open>run_op\<close> and \<open>op_spec\<close> are the calls a program makes on one list and what
  they mean for that sequence.
\<close>

record list_hdr =
  head :: nat
  tail :: nat

subsection \<open>Operations\<close>

definition is_head :: "ptr \<Rightarrow> links \<Rightarrow> bool option" where
  "is_head elem s = (if elem = None then Some False else do {
     p \<leftarrow> get_prev elem s;
     n \<leftarrow> get_next elem s;
     Some (p = None \<and> n \<noteq> None)
   })"

definition is_interior :: "ptr \<Rightarrow> links \<Rightarrow> bool option" where
  "is_interior elem s = (if elem = None then Some False else do {
     p \<leftarrow> get_prev elem s;
     n \<leftarrow> get_next elem s;
     Some (p \<noteq> None \<and> n \<noteq> None)
   })"

definition is_tail :: "ptr \<Rightarrow> links \<Rightarrow> bool option" where
  "is_tail elem s = (if elem = None then Some False else do {
     p \<leftarrow> get_prev elem s;
     n \<leftarrow> get_next elem s;
     Some (p \<noteq> None \<and> n = None)
   })"

definition llist_init :: "list_hdr \<Rightarrow> links \<Rightarrow> links option" where
  "llist_init L s = do {
     s \<leftarrow> set_prev (Some (head L)) None s;
     s \<leftarrow> set_next (Some (head L)) (Some (tail L)) s;
     s \<leftarrow> set_prev (Some (tail L)) (Some (head L)) s;
     set_next (Some (tail L)) None s
   }"

definition list_begin :: "list_hdr \<Rightarrow> links \<Rightarrow> ptr option" where
  "list_begin L s = get_next (Some (head L)) s"

definition list_next :: "ptr \<Rightarrow> links \<Rightarrow> ptr option" where
  "list_next elem s = get_next elem s"

definition list_end :: "list_hdr \<Rightarrow> ptr" where
  "list_end L = Some (tail L)"

definition list_rbegin :: "list_hdr \<Rightarrow> links \<Rightarrow> ptr option" where
  "list_rbegin L s = get_prev (Some (tail L)) s"

definition list_prev :: "ptr \<Rightarrow> links \<Rightarrow> ptr option" where
  "list_prev elem s = get_prev elem s"

definition list_rend :: "list_hdr \<Rightarrow> ptr" where
  "list_rend L = Some (head L)"

definition list_head :: "list_hdr \<Rightarrow> ptr" where
  "list_head L = Some (head L)"

definition list_tail :: "list_hdr \<Rightarrow> ptr" where
  "list_tail L = Some (tail L)"

definition list_insert :: "ptr \<Rightarrow> ptr \<Rightarrow> links \<Rightarrow> links option" where
  "list_insert before elem s = do {
     p \<leftarrow> get_prev before s;
     s \<leftarrow> set_prev elem p s;
     s \<leftarrow> set_next elem before s;
     p \<leftarrow> get_prev before s;
     s \<leftarrow> set_next p elem s;
     set_prev before elem s
   }"

definition list_splice :: "ptr \<Rightarrow> ptr \<Rightarrow> ptr \<Rightarrow> links \<Rightarrow> links option" where
  "list_splice before first lst s =
     (if first = lst then Some s
      else do {
        lst \<leftarrow> list_prev lst s;
        p \<leftarrow> get_prev first s;
        n \<leftarrow> get_next lst s;
        s \<leftarrow> set_next p n s;
        n \<leftarrow> get_next lst s;
        p \<leftarrow> get_prev first s;
        s \<leftarrow> set_prev n p s;
        p \<leftarrow> get_prev before s;
        s \<leftarrow> set_prev first p s;
        s \<leftarrow> set_next lst before s;
        p \<leftarrow> get_prev before s;
        s \<leftarrow> set_next p first s;
        set_prev before lst s
      })"

definition list_push_front :: "list_hdr \<Rightarrow> ptr \<Rightarrow> links \<Rightarrow> links option" where
  "list_push_front L elem s = do { b \<leftarrow> list_begin L s; list_insert b elem s }"

definition list_push_back :: "list_hdr \<Rightarrow> ptr \<Rightarrow> links \<Rightarrow> links option" where
  "list_push_back L elem s = list_insert (list_end L) elem s"

definition list_remove :: "ptr \<Rightarrow> links \<Rightarrow> (ptr \<times> links) option" where
  "list_remove elem s = do {
     p \<leftarrow> get_prev elem s;
     n \<leftarrow> get_next elem s;
     s \<leftarrow> set_next p n s;
     n \<leftarrow> get_next elem s;
     p \<leftarrow> get_prev elem s;
     s \<leftarrow> set_prev n p s;
     r \<leftarrow> get_next elem s;
     Some (r, s)
   }"

definition list_front :: "list_hdr \<Rightarrow> links \<Rightarrow> ptr option" where
  "list_front L s = get_next (Some (head L)) s"

definition list_back :: "list_hdr \<Rightarrow> links \<Rightarrow> ptr option" where
  "list_back L s = get_prev (Some (tail L)) s"

definition list_pop_front :: "list_hdr \<Rightarrow> links \<Rightarrow> (ptr \<times> links) option" where
  "list_pop_front L s = do {
     front \<leftarrow> list_front L s;
     (_, s) \<leftarrow> list_remove front s;
     Some (front, s)
   }"

definition list_pop_back :: "list_hdr \<Rightarrow> links \<Rightarrow> (ptr \<times> links) option" where
  "list_pop_back L s = do {
     back \<leftarrow> list_back L s;
     (_, s) \<leftarrow> list_remove back s;
     Some (back, s)
   }"

partial_function (option) size_loop :: "list_hdr \<Rightarrow> ptr \<Rightarrow> nat \<Rightarrow> links \<Rightarrow> nat option" where
  "size_loop L e cnt s =
     (if e = list_end L then Some cnt
      else do { e \<leftarrow> list_next e s; size_loop L e (cnt + 1) s })"

definition list_size :: "list_hdr \<Rightarrow> links \<Rightarrow> nat option" where
  "list_size L s = do { e \<leftarrow> list_begin L s; size_loop L e 0 s }"

definition list_empty :: "list_hdr \<Rightarrow> links \<Rightarrow> bool option" where
  "list_empty L s = do { b \<leftarrow> list_begin L s; Some (b = list_end L) }"

text \<open>\<open>swap(&e->prev, &e->next)\<close>, and the loop of \<open>list_reverse\<close>, which follows the exchanged \<open>prev\<close>.\<close>

definition swap_links :: "ptr \<Rightarrow> links \<Rightarrow> links option" where
  "swap_links e s = do {
     t \<leftarrow> get_prev e s;
     n \<leftarrow> get_next e s;
     s \<leftarrow> set_prev e n s;
     set_next e t s
   }"

partial_function (option) reverse_loop :: "list_hdr \<Rightarrow> ptr \<Rightarrow> links \<Rightarrow> links option" where
  "reverse_loop L e s =
     (if e = list_end L then Some s
      else do { s \<leftarrow> swap_links e s; e \<leftarrow> get_prev e s; reverse_loop L e s })"

definition list_reverse :: "list_hdr \<Rightarrow> links \<Rightarrow> links option" where
  "list_reverse L s = do {
     em \<leftarrow> list_empty L s;
     if em then Some s
     else do {
       e \<leftarrow> list_begin L s;
       s \<leftarrow> reverse_loop L e s;
       t \<leftarrow> get_next (Some (head L)) s;
       u \<leftarrow> get_prev (Some (tail L)) s;
       s \<leftarrow> set_next (Some (head L)) u s;
       s \<leftarrow> set_prev (Some (tail L)) t s;
       f \<leftarrow> get_next (Some (head L)) s;
       l \<leftarrow> get_prev (Some (tail L)) s;
       t \<leftarrow> get_prev f s;
       u \<leftarrow> get_next l s;
       s \<leftarrow> set_prev f u s;
       set_next l t s
     }
   }"

partial_function (option) is_sorted_loop :: "(nat \<Rightarrow> nat \<Rightarrow> bool) \<Rightarrow> ptr \<Rightarrow> ptr \<Rightarrow> links \<Rightarrow> bool option" where
  "is_sorted_loop lt a b s = do {
     a \<leftarrow> list_next a s;
     if a = b then Some True
     else do {
       p \<leftarrow> list_prev a s;
       x \<leftarrow> a;
       y \<leftarrow> p;
       if lt x y then Some False else is_sorted_loop lt a b s
     }
   }"

definition is_sorted :: "(nat \<Rightarrow> nat \<Rightarrow> bool) \<Rightarrow> ptr \<Rightarrow> ptr \<Rightarrow> links \<Rightarrow> bool option" where
  "is_sorted lt a b s = (if a \<noteq> b then is_sorted_loop lt a b s else Some True)"

partial_function (option) find_end_of_run :: "(nat \<Rightarrow> nat \<Rightarrow> bool) \<Rightarrow> ptr \<Rightarrow> ptr \<Rightarrow> links \<Rightarrow> ptr option" where
  "find_end_of_run lt a b s = do {
     a \<leftarrow> list_next a s;
     if a = b then Some a
     else do {
       p \<leftarrow> list_prev a s;
       x \<leftarrow> a;
       y \<leftarrow> p;
       if lt x y then Some a else find_end_of_run lt a b s
     }
   }"

partial_function (option) inplace_merge ::
  "(nat \<Rightarrow> nat \<Rightarrow> bool) \<Rightarrow> ptr \<Rightarrow> ptr \<Rightarrow> ptr \<Rightarrow> links \<Rightarrow> links option" where
  "inplace_merge lt a0 a1b0 b1 s =
     (if a0 \<noteq> a1b0 \<and> a1b0 \<noteq> b1 then do {
        x \<leftarrow> a1b0;
        y \<leftarrow> a0;
        if \<not> lt x y then do { a0 \<leftarrow> list_next a0 s; inplace_merge lt a0 a1b0 b1 s }
        else do {
          a1b0 \<leftarrow> list_next a1b0 s;
          p \<leftarrow> list_prev a1b0 s;
          s \<leftarrow> list_splice a0 p a1b0 s;
          inplace_merge lt a0 a1b0 b1 s
        }
      } else Some s)"

text \<open>One pass of \<open>list_sort\<close> from \<open>a0\<close> on, and the outer loop.\<close>

partial_function (option) sort_pass ::
  "(nat \<Rightarrow> nat \<Rightarrow> bool) \<Rightarrow> list_hdr \<Rightarrow> ptr \<Rightarrow> nat \<Rightarrow> links \<Rightarrow> (nat \<times> links) option" where
  "sort_pass lt L a0 output_run_cnt s =
     (if a0 = list_end L then Some (output_run_cnt, s)
      else do {
        a1b0 \<leftarrow> find_end_of_run lt a0 (list_end L) s;
        if a1b0 = list_end L then Some (output_run_cnt + 1, s)
        else do {
          b1 \<leftarrow> find_end_of_run lt a1b0 (list_end L) s;
          s \<leftarrow> inplace_merge lt a0 a1b0 b1 s;
          sort_pass lt L b1 (output_run_cnt + 1) s
        }
      })"

partial_function (option) list_sort :: "(nat \<Rightarrow> nat \<Rightarrow> bool) \<Rightarrow> list_hdr \<Rightarrow> links \<Rightarrow> links option" where
  "list_sort lt L s = do {
     a0 \<leftarrow> list_begin L s;
     (output_run_cnt, s) \<leftarrow> sort_pass lt L a0 0 s;
     if output_run_cnt > 1 then list_sort lt L s else Some s
   }"

partial_function (option) ordered_pos :: "(nat \<Rightarrow> nat \<Rightarrow> bool) \<Rightarrow> list_hdr \<Rightarrow> nat \<Rightarrow> ptr \<Rightarrow> links \<Rightarrow> ptr option" where
  "ordered_pos lt L elem e s =
     (if e = list_end L then Some e
      else do {
        x \<leftarrow> e;
        if lt elem x then Some e else do { e \<leftarrow> list_next e s; ordered_pos lt L elem e s }
      })"

definition list_insert_ordered :: "(nat \<Rightarrow> nat \<Rightarrow> bool) \<Rightarrow> list_hdr \<Rightarrow> nat \<Rightarrow> links \<Rightarrow> links option" where
  "list_insert_ordered lt L elem s = do {
     e \<leftarrow> list_begin L s;
     e \<leftarrow> ordered_pos lt L elem e s;
     list_insert e (Some elem) s
   }"

partial_function (option) unique_loop ::
  "(nat \<Rightarrow> nat \<Rightarrow> bool) \<Rightarrow> list_hdr \<Rightarrow> list_hdr option \<Rightarrow> ptr \<Rightarrow> links \<Rightarrow> links option" where
  "unique_loop lt L duplicates elem s = do {
     nxt \<leftarrow> list_next elem s;
     if nxt = list_end L then Some s
     else do {
       x \<leftarrow> elem;
       y \<leftarrow> nxt;
       if \<not> lt x y \<and> \<not> lt y x then do {
         (_, s) \<leftarrow> list_remove nxt s;
         s \<leftarrow> (case duplicates of None \<Rightarrow> Some s | Some D \<Rightarrow> list_push_back D nxt s);
         unique_loop lt L duplicates elem s
       } else unique_loop lt L duplicates nxt s
     }
   }"

definition list_unique :: "(nat \<Rightarrow> nat \<Rightarrow> bool) \<Rightarrow> list_hdr \<Rightarrow> list_hdr option \<Rightarrow> links \<Rightarrow> links option" where
  "list_unique lt L duplicates s = do {
     em \<leftarrow> list_empty L s;
     if em then Some s else do { elem \<leftarrow> list_begin L s; unique_loop lt L duplicates elem s }
   }"

text \<open>The loops of \<open>list_max\<close> and \<open>list_min\<close> differ in the test that replaces the candidate.\<close>

partial_function (option) best_loop :: "(nat \<Rightarrow> nat \<Rightarrow> bool) \<Rightarrow> list_hdr \<Rightarrow> nat \<Rightarrow> ptr \<Rightarrow> links \<Rightarrow> ptr option" where
  "best_loop better L best e s =
     (if e = list_end L then Some (Some best)
      else do {
        x \<leftarrow> e;
        e \<leftarrow> list_next e s;
        best_loop better L (if better x best then x else best) e s
      })"

definition list_max :: "(nat \<Rightarrow> nat \<Rightarrow> bool) \<Rightarrow> list_hdr \<Rightarrow> links \<Rightarrow> ptr option" where
  "list_max lt L s = do {
     mx \<leftarrow> list_begin L s;
     if mx \<noteq> list_end L then do {
       e \<leftarrow> list_next mx s;
       m \<leftarrow> mx;
       best_loop (\<lambda>e m. lt m e) L m e s
     } else Some mx
   }"

definition list_min :: "(nat \<Rightarrow> nat \<Rightarrow> bool) \<Rightarrow> list_hdr \<Rightarrow> links \<Rightarrow> ptr option" where
  "list_min lt L s = do {
     mn \<leftarrow> list_begin L s;
     if mn \<noteq> list_end L then do {
       e \<leftarrow> list_next mn s;
       m \<leftarrow> mn;
       best_loop (\<lambda>e m. lt e m) L m e s
     } else Some mn
   }"

subsection \<open>Lists of the heap\<close>

definition list_rep :: "links \<Rightarrow> list_hdr \<Rightarrow> nat list \<Rightarrow> bool" where
  "list_rep s L xs \<longleftrightarrow>
     distinct (head L # xs @ [tail L]) \<and> (\<forall>a \<in> set (head L # xs @ [tail L]). valid s a) \<and>
     linked (nexts s) (prevs s) (head L # xs @ [tail L]) \<and>
     prevs s (head L) = None \<and> nexts s (tail L) = None"

text \<open>The objects a list consists of.\<close>

definition footprint :: "list_hdr \<Rightarrow> nat list \<Rightarrow> nat set" where
  "footprint L xs = insert (head L) (insert (tail L) (set xs))"

text \<open>What an operation on some objects leaves alone.\<close>

definition only_links :: "nat set \<Rightarrow> links \<Rightarrow> links \<Rightarrow> bool" where
  "only_links A s s' \<longleftrightarrow> valid s' = valid s \<and> (\<forall>a. a \<notin> A \<longrightarrow> nexts s' a = nexts s a \<and> prevs s' a = prevs s a)"

lemma linked_cong:
  "(\<And>a. a \<in> set xs \<Longrightarrow> nx a = nx' a \<and> pv a = pv' a) \<Longrightarrow> linked nx pv xs = linked nx' pv' xs"
  by (induction nx pv xs rule: linked.induct) auto

lemma list_rep_frame:
  assumes "only_links A s s'" and "list_rep s L xs" and "A \<inter> footprint L xs = {}"
  shows "list_rep s' L xs"
proof -
  have *: "nexts s a = nexts s' a \<and> prevs s a = prevs s' a" if "a \<in> footprint L xs" for a
    using assms(1,3) that by (auto simp: only_links_def)
  then have "linked (nexts s) (prevs s) (head L # xs @ [tail L]) = linked (nexts s') (prevs s') (head L # xs @ [tail L])"
    by (intro linked_cong) (auto simp: footprint_def)
  moreover have "prevs s (head L) = prevs s' (head L)" "nexts s (tail L) = nexts s' (tail L)"
    using * by (auto simp: footprint_def)
  ultimately show ?thesis using assms(1,2) by (auto simp: list_rep_def only_links_def)
qed

lemma only_links_refl [simp]: "only_links A s s"
  by (simp add: only_links_def)

lemma only_links_trans: "only_links A s t \<Longrightarrow> only_links B t u \<Longrightarrow> A \<union> B \<subseteq> C \<Longrightarrow> only_links C s u"
  unfolding only_links_def by (metis Un_iff subsetD)

lemma list_rep_distinct: "list_rep s L xs \<Longrightarrow> distinct (head L # xs @ [tail L])"
  by (simp add: list_rep_def)

lemma list_rep_valid: "list_rep s L xs \<Longrightarrow> a \<in> footprint L xs \<Longrightarrow> valid s a"
  by (auto simp: list_rep_def footprint_def)

text \<open>Splitting a list at a place gives two chains, each with one header.\<close>

lemma list_rep_append:
  "list_rep s L (ys @ zs) \<longleftrightarrow>
     distinct ((head L # ys) @ zs @ [tail L]) \<and> (\<forall>a \<in> footprint L (ys @ zs). valid s a) \<and>
     linked (nexts s) (prevs s) (head L # ys) \<and> linked (nexts s) (prevs s) (zs @ [tail L]) \<and>
     nexts s (last (head L # ys)) = Some (hd (zs @ [tail L])) \<and>
     prevs s (hd (zs @ [tail L])) = Some (last (head L # ys)) \<and>
     prevs s (head L) = None \<and> nexts s (tail L) = None"
  using linked_append [of "head L # ys" "zs @ [tail L]" "nexts s" "prevs s"]
  by (auto simp: list_rep_def footprint_def)

lemma list_insert_rep:
  assumes "list_rep s L (ys @ zs)" and "e \<notin> footprint L (ys @ zs)" and "valid s e"
  shows "\<exists>s'. list_insert (Some (hd (zs @ [tail L]))) (Some e) s = Some s' \<and> list_rep s' L (ys @ e # zs) \<and>
    only_links (insert e (footprint L (ys @ zs))) s s'"
proof -
  define U V where "U = head L # ys" and "V = zs @ [tail L]"
  have ne: "U \<noteq> []" "V \<noteq> []" by (simp_all add: U_def V_def)
  have r: "distinct (U @ V)" "linked (nexts s) (prevs s) U" "linked (nexts s) (prevs s) V"
    "prevs s (hd V) = Some (last U)" "prevs s (head L) = None" "nexts s (tail L) = None"
    using assms(1) by (simp_all add: list_rep_append U_def V_def)
  have v: "valid s a" if "a \<in> set U \<union> set V" for a
    using assms(1) that by (auto simp: list_rep_append footprint_def U_def V_def)
  have e: "e \<notin> set U" "e \<notin> set V" using assms(2) by (auto simp: footprint_def U_def V_def)
  have p: "last U \<in> set U" "hd V \<in> set V" using ne by simp_all
  then have pn: "last U \<notin> set V" "hd V \<notin> set U" "e \<noteq> last U" "e \<noteq> hd V" "last U \<noteq> hd V"
    using r(1) e by auto
  define s' where "s' = s\<lparr>nexts := (nexts s)(e := Some (hd V), last U := Some e),
    prevs := (prevs s)(e := Some (last U), hd V := Some e)\<rparr>"
  have "list_insert (Some (hd V)) (Some e) s = Some s'"
    using p pn r(4) v assms(3) by (simp add: list_insert_def s'_def)
  moreover have "linked (nexts s') (prevs s') (U @ [e] @ V)"
    using ne r(1-3) e pn by (simp add: s'_def chain_simps)
  moreover have "head L \<noteq> hd V" "tail L \<noteq> last U" "head L \<noteq> e" "tail L \<noteq> e"
    using pn e by (auto simp: U_def V_def)
  ultimately show ?thesis
    using r v e p assms(2,3)
    by (intro exI [of _ s']) (auto simp: list_rep_def U_def V_def s'_def only_links_def footprint_def)
qed

lemma list_remove_rep:
  assumes "list_rep s L (ys @ e # zs)"
  shows "\<exists>s'. list_remove (Some e) s = Some (Some (hd (zs @ [tail L])), s') \<and> list_rep s' L (ys @ zs) \<and>
    only_links (footprint L (ys @ zs)) s s'"
proof -
  define U V where "U = head L # ys" and "V = zs @ [tail L]"
  have ne: "U \<noteq> []" "V \<noteq> []" by (simp_all add: U_def V_def)
  have "linked (nexts s) (prevs s) (U @ [e] @ V)" using assms by (simp add: list_rep_def U_def V_def)
  then have l: "linked (nexts s) (prevs s) U" "linked (nexts s) (prevs s) V" "prevs s e = Some (last U)" "nexts s e = Some (hd V)"
    using ne by (simp_all add: linked_append linked_Cons)
  have r: "distinct (U @ [e] @ V)" "prevs s (head L) = None" "nexts s (tail L) = None"
    using assms by (auto simp: list_rep_def U_def V_def)
  have v: "valid s a" if "a \<in> insert e (set U \<union> set V)" for a
    using assms that by (auto simp: list_rep_def U_def V_def)
  have p: "last U \<in> set U" "hd V \<in> set V" using ne by simp_all
  then have pn: "last U \<notin> set V" "hd V \<notin> set U" "e \<noteq> last U" "e \<noteq> hd V" "last U \<noteq> hd V"
    using r(1) by auto
  define s' where "s' = s\<lparr>nexts := (nexts s)(last U := Some (hd V)), prevs := (prevs s)(hd V := Some (last U))\<rparr>"
  have "list_remove (Some e) s = Some (Some (hd V), s')"
    using p pn l v by (simp add: list_remove_def s'_def)
  moreover have "linked (nexts s') (prevs s') (U @ V)"
    using ne r(1) l pn by (simp add: s'_def chain_simps)
  moreover have "head L \<noteq> hd V" "tail L \<noteq> last U" using pn by (auto simp: U_def V_def)
  ultimately show ?thesis
    using r v p by (intro exI [of _ s']) (auto simp: list_rep_def U_def V_def s'_def only_links_def footprint_def)
qed

subsection \<open>Walking along a list\<close>

lemma list_rep_next:
  assumes "list_rep s L (xs @ y # zs)"
  shows "list_next (Some y) s = Some (Some (hd (zs @ [tail L])))"
    and "list_prev (Some y) s = Some (Some (last (head L # xs)))" and "y \<noteq> tail L" and "y \<noteq> head L"
proof -
  have "linked (nexts s) (prevs s) ((head L # xs) @ [y] @ zs @ [tail L])" using assms by (simp add: list_rep_def)
  then have "linked (nexts s) (prevs s) ([y] @ zs @ [tail L])" "prevs s y = Some (last (head L # xs))"
    using linked_append [of "head L # xs" "[y] @ zs @ [tail L]"] by simp_all
  then show "list_next (Some y) s = Some (Some (hd (zs @ [tail L])))"
    "list_prev (Some y) s = Some (Some (last (head L # xs)))"
    using assms by (simp_all add: list_next_def list_prev_def list_rep_def linked_Cons)
  show "y \<noteq> tail L" "y \<noteq> head L" using assms by (auto simp: list_rep_def)
qed

lemma list_rep_prev:
  assumes "list_rep s L (xs @ ys)"
  shows "list_prev (Some (hd (ys @ [tail L]))) s = Some (Some (last (head L # xs)))"
proof -
  have "hd (ys @ [tail L]) \<in> footprint L (xs @ ys)" by (cases ys) (simp_all add: footprint_def)
  then show ?thesis using assms by (simp add: list_rep_append list_prev_def)
qed

lemma list_rep_begin: "list_rep s L xs \<Longrightarrow> list_begin L s = Some (Some (hd (xs @ [tail L])))"
  by (cases xs) (simp_all add: list_begin_def list_rep_def)

lemma list_rep_rbegin: "list_rep s L xs \<Longrightarrow> list_rbegin L s = Some (Some (last (head L # xs)))"
  using list_rep_append [of s L xs "[]"] by (simp add: list_rbegin_def footprint_def)

lemma list_empty_rep: "list_rep s L xs \<Longrightarrow> list_empty L s = Some (xs = [])"
  using list_rep_distinct [of s L xs] by (cases xs) (auto simp: list_empty_def list_rep_begin list_end_def)

lemma size_loop_rep:
  "list_rep s L (xs @ ys) \<Longrightarrow> size_loop L (Some (hd (ys @ [tail L]))) n s = Some (n + length ys)"
proof (induction ys arbitrary: xs n)
  case Nil
  show ?case by (subst size_loop.simps) (simp add: list_end_def)
next
  case (Cons y ys)
  then have "size_loop L (Some (hd (ys @ [tail L]))) (n + 1) s = Some (n + 1 + length ys)"
    using Cons.IH [of "xs @ [y]" "n + 1"] by simp
  then show ?case
    using list_rep_next [OF Cons.prems] by (subst size_loop.simps) (simp add: list_end_def)
qed

lemma list_size_rep: "list_rep s L xs \<Longrightarrow> list_size L s = Some (length xs)"
  using size_loop_rep [of s L "[]" xs 0] by (simp add: list_size_def list_rep_begin)

subsection \<open>The list as a double-ended queue\<close>

lemma llist_init_rep:
  assumes "valid s (head L)" and "valid s (tail L)" and "head L \<noteq> tail L"
  shows "\<exists>s'. llist_init L s = Some s' \<and> list_rep s' L [] \<and> only_links {head L, tail L} s s'"
  using assms by (auto simp: llist_init_def list_rep_def only_links_def)

lemma list_push_back_rep:
  assumes "list_rep s L xs" and "e \<notin> footprint L xs" and "valid s e"
  shows "\<exists>s'. list_push_back L (Some e) s = Some s' \<and> list_rep s' L (xs @ [e]) \<and> only_links (insert e (footprint L xs)) s s'"
  using list_insert_rep [of s L xs "[]" e] assms by (simp add: list_push_back_def list_end_def)

lemma list_push_front_rep:
  assumes "list_rep s L xs" and "e \<notin> footprint L xs" and "valid s e"
  shows "\<exists>s'. list_push_front L (Some e) s = Some s' \<and> list_rep s' L (e # xs) \<and> only_links (insert e (footprint L xs)) s s'"
  using list_insert_rep [of s L "[]" xs e] assms by (simp add: list_push_front_def list_rep_begin)

lemma list_pop_front_rep:
  assumes "list_rep s L (x # xs)"
  shows "\<exists>s'. list_pop_front L s = Some (Some x, s') \<and> list_rep s' L xs \<and> only_links (footprint L xs) s s'"
  using list_remove_rep [of s L "[]" x xs] list_rep_begin [OF assms] assms
  by (auto simp: list_pop_front_def list_front_def list_begin_def)

lemma list_pop_back_rep:
  assumes "list_rep s L (xs @ [x])"
  shows "\<exists>s'. list_pop_back L s = Some (Some x, s') \<and> list_rep s' L xs \<and> only_links (footprint L xs) s s'"
  using list_remove_rep [of s L xs x "[]"] list_rep_rbegin [OF assms] assms
  by (auto simp: list_pop_back_def list_back_def list_rbegin_def)

lemma only_links_validD: "only_links A s s' \<Longrightarrow> valid s' = valid s"
  by (simp add: only_links_def)

text \<open>The elements are objects of a fixed set \<open>obj\<close>; an element that is in the list cannot be inserted again.\<close>

interpretation pl: deque "\<lambda>s xs. list_rep s L xs \<and> valid s = obj" "\<lambda>xs x. obj x \<and> x \<notin> footprint L xs"
  "\<lambda>x s. list_push_back L (Some x) s" "\<lambda>x s. list_push_front L (Some x) s"
  "\<lambda>s. do { (p, s) \<leftarrow> list_pop_front L s; a \<leftarrow> p; Some (a, s) }"
  "\<lambda>s. do { (p, s) \<leftarrow> list_pop_back L s; a \<leftarrow> p; Some (a, s) }"
  for L :: list_hdr and obj :: "nat \<Rightarrow> bool"
proof (unfold_locales, goal_cases)
  case (1 s xs x)
  then show ?case using list_push_back_rep [of s L xs x] only_links_validD by fastforce
next
  case (2 s xs x)
  then show ?case using list_push_front_rep [of s L xs x] only_links_validD by fastforce
next
  case (3 s x xs)
  then show ?case using list_pop_front_rep [of s L x xs] only_links_validD by fastforce
next
  case (4 s xs x)
  then show ?case using list_pop_back_rep [of s L xs x] only_links_validD by fastforce
qed

subsection \<open>Splicing\<close>

text \<open>The assignments of \<open>list_splice\<close> when a run from \<open>f\<close> to \<open>g\<close> moves between \<open>d\<close> and \<open>c\<close>.\<close>

lemma list_splice_eq:
  assumes "\<forall>a \<in> {c, d, f, g, x, y}. valid s a"
    and "prevs s y = Some g" "prevs s f = Some x" "nexts s g = Some y" "prevs s c = Some d"
    and "f \<noteq> y" "x \<noteq> g" "y \<noteq> f" "c \<noteq> y" "c \<noteq> f" "d \<noteq> g"
  shows "list_splice (Some c) (Some f) (Some y) s = Some (s\<lparr>nexts := (nexts s)(x := Some y, g := Some c, d := Some f),
    prevs := (prevs s)(y := Some x, f := Some d, c := Some g)\<rparr>)"
  using assms by (simp add: list_splice_def list_prev_def)

lemma only_links_upd3:
  "{a, b, c, d, e, f} \<subseteq> A \<Longrightarrow>
   only_links A s (s\<lparr>nexts := (nexts s)(a := u, b := v, c := w), prevs := (prevs s)(d := x, e := y, f := z)\<rparr>)"
  by (auto simp: only_links_def)

lemma linked_upd3:
  "set (butlast xs) \<inter> {a, b, c} = {} \<Longrightarrow> set (tl xs) \<inter> {d, e, f} = {} \<Longrightarrow> linked nx pv xs \<Longrightarrow>
   linked (nx(a := u, b := v, c := w)) (pv(d := x, e := y, f := z)) xs"
  by (simp add: linked_upd_next linked_upd_prev)

text \<open>Moving a run to an earlier place of the same list.\<close>

lemma list_splice_earlier:
  assumes "list_rep s L (us @ ms @ fs @ ws)" and ne: "ms \<noteq> []" "fs \<noteq> []"
  shows "\<exists>s'. list_splice (Some (hd ms)) (Some (hd fs)) (Some (hd (ws @ [tail L]))) s = Some s' \<and>
    list_rep s' L (us @ fs @ ms @ ws) \<and> only_links (footprint L (us @ ms @ fs @ ws)) s s'"
proof -
  define U W where "U = head L # us" and "W = ws @ [tail L]"
  have nU: "U \<noteq> []" "W \<noteq> []" by (simp_all add: U_def W_def)
  have r: "distinct (U @ ms @ fs @ W)" "prevs s (head L) = None" "nexts s (tail L) = None"
    "linked (nexts s) (prevs s) (U @ ms @ fs @ W)"
    using assms by (auto simp: list_rep_def U_def W_def)
  have v: "valid s a" if "a \<in> set U \<union> set ms \<union> set fs \<union> set W" for a
    using assms that by (auto simp: list_rep_def U_def W_def)
  have l: "linked (nexts s) (prevs s) U" "linked (nexts s) (prevs s) ms" "linked (nexts s) (prevs s) fs" "linked (nexts s) (prevs s) W"
    "prevs s (hd ms) = Some (last U)" "prevs s (hd fs) = Some (last ms)" "nexts s (last fs) = Some (hd W)" "prevs s (hd W) = Some (last fs)"
    using r(4) nU ne by (simp_all add: linked_append)
  have m: "last U \<in> set U" "hd ms \<in> set ms" "last ms \<in> set ms" "hd fs \<in> set fs" "last fs \<in> set fs" "hd W \<in> set W"
    using nU ne by simp_all
  have fp: "footprint L (us @ ms @ fs @ ws) = set U \<union> set ms \<union> set fs \<union> set W"
    by (auto simp: footprint_def U_def W_def)
  have vm: "\<forall>a \<in> {hd ms, last U, hd fs, last fs, last ms, hd W}. valid s a" using m by (simp add: v)
  have d: "distinct U" "distinct ms" "distinct fs" "distinct W" using r(1) by auto
  have disj: "a \<notin> set ms \<and> a \<notin> set fs \<and> a \<notin> set W" if "a \<in> set U" for a using that r(1) by auto
  have disj2: "a \<notin> set U \<and> a \<notin> set fs \<and> a \<notin> set W" if "a \<in> set ms" for a using that r(1) by auto
  have disj3: "a \<notin> set U \<and> a \<notin> set ms \<and> a \<notin> set W" if "a \<in> set fs" for a using that r(1) by auto
  have disj4: "a \<notin> set U \<and> a \<notin> set ms \<and> a \<notin> set fs" if "a \<in> set W" for a using that r(1) by auto
  note nin = disj [OF m(1)] disj2 [OF m(2)] disj2 [OF m(3)] disj3 [OF m(4)] disj3 [OF m(5)] disj4 [OF m(6)]
  have neq: "hd fs \<noteq> hd W" "last ms \<noteq> last fs" "hd ms \<noteq> hd W" "hd ms \<noteq> hd fs" "last U \<noteq> last fs" "last U \<noteq> last ms"
    "hd W \<noteq> hd fs" "last fs \<noteq> last ms" "hd W \<noteq> hd ms" "hd fs \<noteq> hd ms" "last fs \<noteq> last U" "last ms \<noteq> last U"
    using nin by (simp_all add: mem_neq [OF m(1)] mem_neq [OF m(2)] mem_neq [OF m(3)] mem_neq [OF m(4)] mem_neq [OF m(5)] mem_neq [OF m(6)])
  define s' where "s' = s\<lparr>nexts := (nexts s)(last ms := Some (hd W), last fs := Some (hd ms), last U := Some (hd fs)),
    prevs := (prevs s)(hd W := Some (last ms), hd fs := Some (last U), hd ms := Some (last fs))\<rparr>"
  have sp: "list_splice (Some (hd ms)) (Some (hd fs)) (Some (hd W)) s = Some s'"
    unfolding s'_def by (rule list_splice_eq [OF vm l(8,6,7,5) neq(1,2,7,3,4,5)])
  have ns: "nexts s' = (nexts s)(last ms := Some (hd W), last fs := Some (hd ms), last U := Some (hd fs))"
    "prevs s' = (prevs s)(hd W := Some (last ms), hd fs := Some (last U), hd ms := Some (last fs))"
    by (simp_all add: s'_def)
  have keep: "linked (nexts s') (prevs s') xs" if "linked (nexts s) (prevs s) xs"
    "set (butlast xs) \<inter> {last ms, last fs, last U} = {}" "set (tl xs) \<inter> {hd W, hd fs, hd ms} = {}" for xs
    unfolding ns using that by (intro linked_upd3)
  have "linked (nexts s') (prevs s') U" "linked (nexts s') (prevs s') ms" "linked (nexts s') (prevs s') fs"
    "linked (nexts s') (prevs s') W"
    by (rule keep; use l(1-4) nin d nU ne in \<open>simp add: notin_butlast notin_tl last_notin_butlast hd_notin_tl\<close>)+
  then have lk: "linked (nexts s') (prevs s') (U @ fs @ ms @ W)"
    using nU ne neq by (simp add: linked_append) (simp add: ns)
  have "head L \<in> set U" "tail L \<in> set W" by (simp_all add: U_def W_def)
  then have hn: "head L \<notin> {hd W, hd fs, hd ms}" "tail L \<notin> {last ms, last fs, last U}"
    using nin by (simp_all add: mem_neq)
  have ol: "only_links (footprint L (us @ ms @ fs @ ws)) s s'"
    unfolding s'_def fp using m by (intro only_links_upd3) simp
  have ends: "prevs s' (head L) = None" "nexts s' (tail L) = None" "valid s' = valid s"
    using hn r(2,3) by (simp_all add: s'_def)
  have "distinct (U @ fs @ ms @ W)" using r(1) by auto
  moreover have "\<forall>a \<in> set (U @ fs @ ms @ W). valid s' a" using ends(3) by (auto intro: v)
  ultimately have "list_rep s' L (us @ fs @ ms @ ws)"
    using lk ends(1,2) by (simp add: list_rep_def U_def W_def)
  then show ?thesis using sp ol unfolding W_def by blast
qed

subsection \<open>Merging runs\<close>

text \<open>What the sort computes, on lists: stable merging, the first run, and a pass that merges pairs of runs.\<close>

fun merge_runs :: "(nat \<Rightarrow> nat \<Rightarrow> bool) \<Rightarrow> nat list \<Rightarrow> nat list \<Rightarrow> nat list" where
  "merge_runs lt [] ys = ys"
| "merge_runs lt (x # xs) [] = x # xs"
| "merge_runs lt (x # xs) (y # ys) =
     (if lt y x then y # merge_runs lt (x # xs) ys else x # merge_runs lt xs (y # ys))"

fun split_run :: "(nat \<Rightarrow> nat \<Rightarrow> bool) \<Rightarrow> nat list \<Rightarrow> nat list \<times> nat list" where
  "split_run lt (x # y # ys) =
     (if lt y x then ([x], y # ys) else (case split_run lt (y # ys) of (r, rest) \<Rightarrow> (x # r, rest)))"
| "split_run lt xs = (xs, [])"

lemma split_run_append: "split_run lt xs = (r, rest) \<Longrightarrow> xs = r @ rest \<and> (xs \<noteq> [] \<longrightarrow> r \<noteq> [])"
  by (induction lt xs arbitrary: r rest rule: split_run.induct) (auto split: if_splits prod.splits)

function pass_runs :: "(nat \<Rightarrow> nat \<Rightarrow> bool) \<Rightarrow> nat list \<Rightarrow> nat list \<times> nat" where
  "pass_runs lt xs =
     (if xs = [] then ([], 0)
      else let (r1, rest) = split_run lt xs
           in if rest = [] then (r1, 1)
              else let (r2, rest2) = split_run lt rest;
                       (ys, n) = pass_runs lt rest2
                   in (merge_runs lt r1 r2 @ ys, n + 1))"
  by pat_completeness auto
termination
proof (relation "measure (length \<circ> snd)", goal_cases)
  case (2 lt xs p r1 rest q r2 rest2)
  then have "xs = r1 @ rest" "r1 \<noteq> []" "rest = r2 @ rest2"
    using split_run_append [of lt xs r1 rest] split_run_append [of lt rest r2 rest2] by simp_all
  then show ?case by simp
qed simp

declare pass_runs.simps [simp del]

lemma mset_merge_runs [simp]: "mset (merge_runs lt xs ys) = mset xs + mset ys"
  by (induction lt xs ys rule: merge_runs.induct) auto

lemma set_merge_runs [simp]: "set (merge_runs lt xs ys) = set xs \<union> set ys"
  by (metis mset_merge_runs set_mset_mset set_mset_union)

lemma footprint_mset: "mset xs = mset ys \<Longrightarrow> footprint L xs = footprint L ys"
  using mset_eq_setD [of xs ys] by (simp add: footprint_def)

lemma inplace_merge_rep:
  assumes "list_rep s L (us @ xs @ ys @ ws)"
  shows "\<exists>s'. inplace_merge lt (Some (hd (xs @ ys @ ws @ [tail L]))) (Some (hd (ys @ ws @ [tail L]))) (Some (hd (ws @ [tail L]))) s = Some s' \<and>
    list_rep s' L (us @ merge_runs lt xs ys @ ws) \<and> only_links (footprint L (us @ xs @ ys @ ws)) s s'"
  using assms
proof (induction lt xs ys arbitrary: us s rule: merge_runs.induct)
  case (1 lt ys)
  then show ?case by (subst inplace_merge.simps) auto
next
  case (2 lt x xs)
  then show ?case by (subst inplace_merge.simps) auto
next
  case (3 lt x xs y ys)
  define z where "z = hd (ws @ [tail L])"
  have ne: "x \<noteq> y" "y \<noteq> z" using list_rep_distinct [OF 3(3)] by (cases ws; auto simp: z_def)+
  have next_y: "list_next (Some y) s = Some (Some (hd (ys @ ws @ [tail L])))"
    using list_rep_next(1) [of s L "us @ x # xs" y "ys @ ws"] 3(3) by simp
  show ?case
  proof (cases "lt y x")
    case True
    have prev: "list_prev (Some (hd (ys @ ws @ [tail L]))) s = Some (Some y)"
      using list_rep_prev [of s L "us @ x # xs @ [y]" "ys @ ws"] 3(3) by simp
    obtain s1 where s1: "list_splice (Some x) (Some y) (Some (hd (ys @ ws @ [tail L]))) s = Some s1"
      "list_rep s1 L (us @ [y] @ (x # xs) @ ys @ ws)" "only_links (footprint L (us @ (x # xs) @ [y] @ ys @ ws)) s s1"
      using list_splice_earlier [of s L us "x # xs" "[y]" "ys @ ws"] 3(3) by auto
    obtain s2 where s2: "inplace_merge lt (Some x) (Some (hd (ys @ ws @ [tail L]))) (Some z) s1 = Some s2"
      "list_rep s2 L ((us @ [y]) @ merge_runs lt (x # xs) ys @ ws)"
      "only_links (footprint L ((us @ [y]) @ (x # xs) @ ys @ ws)) s1 s2"
      using 3(1) [OF True, of s1 "us @ [y]"] s1(2) unfolding z_def by auto
    have "inplace_merge lt (Some x) (Some y) (Some z) s = Some s2"
      using ne True next_y prev s1(1) s2(1) by (subst inplace_merge.simps) simp
    moreover have "only_links (footprint L (us @ (x # xs) @ (y # ys) @ ws)) s s2"
      by (rule only_links_trans [OF s1(3) s2(3)]) (auto simp: footprint_def)
    ultimately show ?thesis using s2(2) True by (auto simp: z_def)
  next
    case False
    have next_x: "list_next (Some x) s = Some (Some (hd (xs @ y # ys @ ws @ [tail L])))"
      using list_rep_next(1) [of s L us x "xs @ y # ys @ ws"] 3(3) by simp
    obtain s2 where s2: "inplace_merge lt (Some (hd (xs @ y # ys @ ws @ [tail L]))) (Some y) (Some z) s = Some s2"
      "list_rep s2 L ((us @ [x]) @ merge_runs lt xs (y # ys) @ ws)"
      "only_links (footprint L ((us @ [x]) @ xs @ (y # ys) @ ws)) s s2"
      using 3(2) [OF False, of s "us @ [x]"] 3(3) unfolding z_def by auto
    have "inplace_merge lt (Some x) (Some y) (Some z) s = Some s2"
      using ne False next_x s2(1) by (subst inplace_merge.simps) simp
    then show ?thesis using s2(2,3) False by (auto simp: z_def)
  qed
qed

lemma find_end_of_run_rep:
  "list_rep s L (us @ x # ys) \<Longrightarrow>
   find_end_of_run lt (Some x) (Some (tail L)) s = Some (Some (hd (snd (split_run lt (x # ys)) @ [tail L])))"
proof (induction ys arbitrary: us x)
  case Nil
  then show ?case using list_rep_next(1) [of s L us x "[]"] by (subst find_end_of_run.simps) simp
next
  case (Cons y ys)
  have r: "list_rep s L ((us @ [x]) @ y # ys)" using Cons.prems by simp
  show ?case
    using list_rep_next(1) [OF Cons.prems] list_rep_next(2,3) [OF r] Cons.IH [OF r]
    by (subst find_end_of_run.simps) (auto split: prod.splits)
qed

lemma sort_pass_rep:
  "list_rep s L (us @ xs) \<Longrightarrow> \<exists>s'. sort_pass lt L (Some (hd (xs @ [tail L]))) n s = Some (n + snd (pass_runs lt xs), s') \<and>
     list_rep s' L (us @ fst (pass_runs lt xs)) \<and> only_links (footprint L (us @ xs)) s s'"
proof (induction lt xs arbitrary: us s n rule: pass_runs.induct)
  case (1 lt xs)
  show ?case
  proof (cases "xs = []")
    case True
    then show ?thesis using 1(2) by (subst sort_pass.simps) (simp add: list_end_def pass_runs.simps)
  next
    case False
    obtain r1 rest where r1: "split_run lt xs = (r1, rest)" by fastforce
    then have xs: "xs = r1 @ rest" "r1 \<noteq> []" using split_run_append [of lt xs] False by auto
    obtain x xs' where x: "xs = x # xs'" using False by (cases xs) auto
    have e1: "find_end_of_run lt (Some (hd (xs @ [tail L]))) (Some (tail L)) s = Some (Some (hd (rest @ [tail L])))"
      using find_end_of_run_rep [of s L us x xs' lt] 1(2) x r1 by simp
    have h: "hd (xs @ [tail L]) \<noteq> tail L" using list_rep_distinct [OF 1(2)] x by auto
    show ?thesis
    proof (cases "rest = []")
      case True
      then have "pass_runs lt xs = (xs, 1)" using False xs r1 by (subst pass_runs.simps) simp
      then show ?thesis using 1(2) e1 h True by (subst sort_pass.simps) (simp add: list_end_def)
    next
      case ne: False
      obtain r2 rest2 where r2: "split_run lt rest = (r2, rest2)" by fastforce
      then have rest: "rest = r2 @ rest2" "r2 \<noteq> []" using split_run_append [of lt rest] ne by auto
      obtain y ys where y: "rest = y # ys" using ne by (cases rest) auto
      have rep: "list_rep s L (us @ r1 @ r2 @ rest2)" using 1(2) xs rest by simp
      have e2: "find_end_of_run lt (Some (hd (rest @ [tail L]))) (Some (tail L)) s = Some (Some (hd (rest2 @ [tail L])))"
        using find_end_of_run_rep [of s L "us @ r1" y ys lt] 1(2) xs(1) y r2 by simp
      have h2: "hd (rest @ [tail L]) \<noteq> tail L" using list_rep_distinct [OF 1(2)] xs(1) y by auto
      obtain s1 where s1: "inplace_merge lt (Some (hd (xs @ [tail L]))) (Some (hd (rest @ [tail L]))) (Some (hd (rest2 @ [tail L]))) s = Some s1"
        "list_rep s1 L ((us @ merge_runs lt r1 r2) @ rest2)" "only_links (footprint L (us @ xs)) s s1"
        using inplace_merge_rep [OF rep, of lt] xs rest by auto
      obtain s2 where s2: "sort_pass lt L (Some (hd (rest2 @ [tail L]))) (n + 1) s1 = Some (n + 1 + snd (pass_runs lt rest2), s2)"
        "list_rep s2 L ((us @ merge_runs lt r1 r2) @ fst (pass_runs lt rest2))"
        "only_links (footprint L ((us @ merge_runs lt r1 r2) @ rest2)) s1 s2"
        using 1(1) [OF False r1 [symmetric] refl ne r2 [symmetric] refl s1(2), of "n + 1"] by auto
      have "only_links (footprint L (us @ xs)) s s2"
        by (rule only_links_trans [OF s1(3) s2(3)]) (auto simp: footprint_def xs(1) rest(1))
      moreover have "pass_runs lt xs = (merge_runs lt r1 r2 @ fst (pass_runs lt rest2), snd (pass_runs lt rest2) + 1)"
        using False r1 r2 ne by (simp add: pass_runs.simps [of lt xs] split: prod.splits)
      ultimately show ?thesis
        using e1 e2 h h2 s1(1) s2(1,2) by (subst sort_pass.simps) (simp add: list_end_def)
    qed
  qed
qed

subsection \<open>Sorting\<close>

text \<open>A comparison function orders the elements by a key.\<close>

definition orders_by :: "(nat \<Rightarrow> nat \<Rightarrow> bool) \<Rightarrow> (nat \<Rightarrow> 'k::linorder) \<Rightarrow> bool" where
  "orders_by lt key \<longleftrightarrow> (\<forall>a b. lt a b = (key a < key b))"

text \<open>The number of places where a run ends.\<close>

fun descents :: "(nat \<Rightarrow> nat \<Rightarrow> bool) \<Rightarrow> nat list \<Rightarrow> nat" where
  "descents lt (x # y # ys) = (if lt y x then 1 else 0) + descents lt (y # ys)"
| "descents lt _ = 0"

lemma descents_append: "descents lt (xs @ ys) \<le> descents lt xs + 1 + descents lt ys"
  by (induction lt xs rule: descents.induct) (auto, (cases ys; auto)+)

lemma descents_sorted:
  assumes "orders_by lt key"
  shows "descents lt xs = 0 \<longleftrightarrow> sorted (map key xs)"
  using assms by (induction lt xs rule: descents.induct) (auto simp: orders_by_def not_less simp del: sorted_wrt.simps simp: sorted0 sorted2_simps)

lemma split_run_descents:
  "split_run lt xs = (r, rest) \<Longrightarrow>
   descents lt r = 0 \<and> (rest \<noteq> [] \<longrightarrow> descents lt xs = descents lt rest + 1)"
proof (induction lt xs arbitrary: r rest rule: split_run.induct)
  case (1 lt x y ys)
  show ?case
  proof (cases "lt y x")
    case True
    then show ?thesis using 1(2) by auto
  next
    case False
    obtain r' where r': "split_run lt (y # ys) = (r', rest)" "r = x # r'"
      using 1(2) False by (auto split: prod.splits)
    then obtain r'' where "r' = y # r''" using split_run_append [OF r'(1)] by (cases r') auto
    then show ?thesis using 1(1) [OF False r'(1)] False r'(2) by auto
  qed
qed auto

lemma merge_runs_sorted:
  assumes "orders_by lt key"
  shows "sorted (map key xs) \<Longrightarrow> sorted (map key ys) \<Longrightarrow> sorted (map key (merge_runs lt xs ys))"
  using assms by (induction lt xs ys rule: merge_runs.induct) (auto simp: orders_by_def)

lemma merge_runs_stable:
  assumes "orders_by lt key"
  shows "sorted (map key xs) \<Longrightarrow>
    filter (\<lambda>x. k = key x) (merge_runs lt xs ys) = filter (\<lambda>x. k = key x) xs @ filter (\<lambda>x. k = key x) ys"
  using assms
proof (induction lt xs ys rule: merge_runs.induct)
  case (3 lt x xs y ys)
  show ?case
  proof (cases "lt y x")
    case True
    then have "key y < key a" if "a \<in> set (x # xs)" for a
      using 3(3,4) that unfolding orders_by_def by auto
    then have "k = key y \<Longrightarrow> filter (\<lambda>a. k = key a) (x # xs) = []" by (fastforce simp: filter_empty_conv)
    then show ?thesis using 3(1) [OF True 3(3,4)] True by (cases "k = key y") (auto split: if_splits)
  next
    case False
    then show ?thesis using 3(2) [OF False _ 3(4)] 3(3) by auto
  qed
qed auto

text \<open>A pass permutes the list stably, keeps no more descents than it counts runs, and halves their number.\<close>

lemma pass_runs_props:
  assumes "orders_by lt key"
  shows "mset (fst (pass_runs lt xs)) = mset xs \<and>
    filter (\<lambda>x. k = key x) (fst (pass_runs lt xs)) = filter (\<lambda>x. k = key x) xs \<and>
    (xs \<noteq> [] \<longrightarrow> descents lt (fst (pass_runs lt xs)) + 1 \<le> snd (pass_runs lt xs)) \<and>
    2 * snd (pass_runs lt xs) \<le> descents lt xs + 2"
  using assms
proof (induction lt xs rule: pass_runs.induct)
  case (1 lt xs)
  show ?case
  proof (cases "xs = []")
    case False
    obtain r1 rest where r1: "split_run lt xs = (r1, rest)" by fastforce
    have xs: "xs = r1 @ rest" "r1 \<noteq> []" using split_run_append [OF r1] False by auto
    have d1: "descents lt r1 = 0" "rest \<noteq> [] \<Longrightarrow> descents lt xs = descents lt rest + 1"
      using split_run_descents [OF r1] by auto
    show ?thesis
    proof (cases "rest = []")
      case True
      then have "pass_runs lt xs = (xs, 1)" using False xs r1 by (subst pass_runs.simps) simp
      then show ?thesis using d1(1) xs True by simp
    next
      case ne: False
      obtain r2 rest2 where r2: "split_run lt rest = (r2, rest2)" by fastforce
      have rest: "rest = r2 @ rest2" using split_run_append [OF r2] by simp
      have d2: "descents lt r2 = 0" "rest2 \<noteq> [] \<Longrightarrow> descents lt rest = descents lt rest2 + 1"
        using split_run_descents [OF r2] by auto
      define p where "p = pass_runs lt rest2"
      have eq: "pass_runs lt xs = (merge_runs lt r1 r2 @ fst p, snd p + 1)"
        using False r1 r2 ne by (simp add: pass_runs.simps [of lt xs] p_def split: prod.splits)
      have IH: "mset (fst p) = mset rest2" "filter (\<lambda>x. k = key x) (fst p) = filter (\<lambda>x. k = key x) rest2"
        "rest2 \<noteq> [] \<Longrightarrow> descents lt (fst p) + 1 \<le> snd p" "2 * snd p \<le> descents lt rest2 + 2"
        using 1(1) [OF False r1 [symmetric] refl ne r2 [symmetric] refl 1(2)] unfolding p_def by blast+
      have s1: "sorted (map key r1)" "sorted (map key r2)" using d1(1) d2(1) descents_sorted [OF 1(2)] by blast+
      have dm: "descents lt (merge_runs lt r1 r2) = 0"
        using merge_runs_sorted [OF 1(2) s1] descents_sorted [OF 1(2)] by blast
      have p0: "p = ([], 0)" if "rest2 = []" using that by (simp add: p_def pass_runs.simps)
      show ?thesis
        unfolding eq using IH xs rest dm d1(2) [OF ne] d2(2) p0 merge_runs_stable [OF 1(2) s1(1), of k r2]
          descents_append [of lt "merge_runs lt r1 r2" "fst p"]
        by (cases "rest2 = []") auto
    qed
  qed (simp add: pass_runs.simps)
qed

lemma sort_key_filter: "filter (\<lambda>x. k = key x) (sort_key key xs) = filter (\<lambda>x. k = key x) xs"
proof -
  have e: "(\<lambda>x. k = key x) = (\<lambda>x. key x = k)" by auto
  show ?thesis unfolding e by (rule sort_key_stable)
qed

lemma list_sort_rep:
  assumes "orders_by lt key"
  shows "list_rep s L xs \<Longrightarrow> \<exists>s'. list_sort lt L s = Some s' \<and> list_rep s' L (sort_key key xs) \<and> only_links (footprint L xs) s s'"
proof (induction "descents lt xs" arbitrary: s xs rule: less_induct)
  case less
  define ys where "ys = fst (pass_runs lt xs)"
  define n where "n = snd (pass_runs lt xs)"
  have p: "mset ys = mset xs" "xs \<noteq> [] \<Longrightarrow> descents lt ys + 1 \<le> n" "2 * n \<le> descents lt xs + 2"
    using pass_runs_props [OF assms, of xs] unfolding ys_def n_def by blast+
  have st: "filter (\<lambda>x. k = key x) ys = filter (\<lambda>x. k = key x) xs" for k
    using pass_runs_props [OF assms, of xs] unfolding ys_def by blast
  obtain s1 where s1: "sort_pass lt L (Some (hd (xs @ [tail L]))) 0 s = Some (n, s1)" "list_rep s1 L ys"
    "only_links (footprint L xs) s s1"
    using sort_pass_rep [of s L "[]" xs lt 0] less.prems unfolding ys_def n_def by auto
  show ?case
  proof (cases "n > 1")
    case True
    then have "xs \<noteq> []" by (auto simp: n_def pass_runs.simps)
    then have "descents lt ys < descents lt xs" using p(2,3) True by linarith
    then obtain s2 where s2: "list_sort lt L s1 = Some s2" "list_rep s2 L (sort_key key ys)" "only_links (footprint L ys) s1 s2"
      using less.hyps [OF _ s1(2)] by blast
    have "sort_key key xs = sort_key key ys"
      by (rule properties_for_sort_key) (simp_all add: p(1) sort_key_filter st)
    moreover have "only_links (footprint L xs) s s2"
      using footprint_mset [OF p(1), of L] by (intro only_links_trans [OF s1(3) s2(3)]) simp
    ultimately show ?thesis
      using s2 s1(1) True list_rep_begin [OF less.prems] by (subst list_sort.simps) simp
  next
    case False
    have "descents lt ys = 0" using p(2) False by (cases "xs = []") (auto simp: ys_def pass_runs.simps)
    then have "sorted (map key ys)" using descents_sorted [OF assms] by blast
    then have "sort_key key xs = ys" using p(1) st by (intro properties_for_sort_key) simp_all
    then show ?thesis
      using s1 False list_rep_begin [OF less.prems] by (subst list_sort.simps) simp
  qed
qed

subsection \<open>Reversal, ordered insertion, extrema and duplicates\<close>

lemma is_sorted_loop_rep:
  "list_rep s L (us @ x # ys) \<Longrightarrow> is_sorted_loop lt (Some x) (Some (tail L)) s = Some (descents lt (x # ys) = 0)"
proof (induction ys arbitrary: us x)
  case Nil
  then show ?case using list_rep_next(1) [of s L us x "[]"] by (subst is_sorted_loop.simps) simp
next
  case (Cons y ys)
  have r: "list_rep s L ((us @ [x]) @ y # ys)" using Cons.prems by simp
  show ?case
    using list_rep_next(1) [OF Cons.prems] list_rep_next(2,3) [OF r] Cons.IH [OF r]
    by (subst is_sorted_loop.simps) auto
qed

lemma is_sorted_rep:
  assumes "orders_by lt key" and "list_rep s L xs"
  shows "is_sorted lt (Some (hd (xs @ [tail L]))) (list_end L) s = Some (sorted (map key xs))"
proof (cases xs)
  case (Cons x ys)
  then have "x \<noteq> tail L" using list_rep_distinct [OF assms(2)] by auto
  then show ?thesis
    using is_sorted_loop_rep [of s L "[]" x ys lt] assms Cons descents_sorted [OF assms(1), of xs]
    by (simp add: is_sorted_def list_end_def)
qed (simp add: is_sorted_def list_end_def)

lemma reverse_loop_rep:
  assumes "linked (nexts s) (prevs s) (xs @ [tail L])" and "distinct (xs @ [tail L])" and "\<forall>a \<in> set xs. valid s a"
  shows "\<exists>s'. reverse_loop L (Some (hd (xs @ [tail L]))) s = Some s' \<and> only_links (set xs) s s' \<and>
    (\<forall>a \<in> set xs. nexts s' a = prevs s a \<and> prevs s' a = nexts s a)"
  using assms
proof (induction xs arbitrary: s)
  case Nil
  then show ?case by (subst reverse_loop.simps) (simp add: list_end_def)
next
  case (Cons x xs)
  define s1 where "s1 = s\<lparr>prevs := (prevs s)(x := nexts s x), nexts := (nexts s)(x := prevs s x)\<rparr>"
  have nx: "nexts s x = Some (hd (xs @ [tail L]))" using Cons.prems(1) by (simp add: linked_Cons)
  have "linked (nexts s1) (prevs s1) (xs @ [tail L])" "\<forall>a \<in> set xs. valid s1 a"
    using Cons.prems by (auto simp: s1_def linked_Cons chain_simps)
  then obtain s2 where s2: "reverse_loop L (Some (hd (xs @ [tail L]))) s1 = Some s2" "only_links (set xs) s1 s2"
    "\<forall>a \<in> set xs. nexts s2 a = prevs s1 a \<and> prevs s2 a = nexts s1 a"
    using Cons.IH [of s1] Cons.prems(2) by auto
  have "reverse_loop L (Some x) s = Some s2"
    using s2(1) nx Cons.prems(2,3)
    by (subst reverse_loop.simps) (simp add: swap_links_def list_end_def s1_def)
  moreover have "only_links (set (x # xs)) s s2"
    by (rule only_links_trans [of "{x}" s s1 "set xs"]) (use s2(2) in \<open>auto simp: only_links_def s1_def\<close>)
  moreover have "nexts s2 x = nexts s1 x" "prevs s2 x = prevs s1 x"
    using s2(2) Cons.prems(2) by (auto simp: only_links_def)
  ultimately show ?case using s2(3) Cons.prems(2) by (auto simp: s1_def)
qed

lemma linked_flip:
  "(\<And>a. a \<in> set xs \<Longrightarrow> nx' a = pv a \<and> pv' a = nx a) \<Longrightarrow> linked nx' pv' (rev xs) = linked nx pv xs"
  using linked_cong [of xs pv' nx nx' pv] by (simp add: linked_rev)

lemma list_reverse_rep:
  assumes "list_rep s L xs"
  shows "\<exists>s'. list_reverse L s = Some s' \<and> list_rep s' L (rev xs) \<and> only_links (footprint L xs) s s'"
proof (cases "xs = []")
  case True
  then show ?thesis using assms by (simp add: list_reverse_def list_empty_rep)
next
  case False
  have d: "distinct xs" "head L \<notin> set xs" "tail L \<notin> set xs" "head L \<noteq> tail L" "\<forall>a \<in> set xs. valid s a"
    "valid s (head L)" "valid s (tail L)" "prevs s (head L) = None" "nexts s (tail L) = None"
    using assms by (auto simp: list_rep_def)
  have "linked (nexts s) (prevs s) ([head L] @ xs @ [tail L])" using assms by (simp add: list_rep_def)
  then have l: "linked (nexts s) (prevs s) (xs @ [tail L])" "linked (nexts s) (prevs s) xs" "nexts s (head L) = Some (hd xs)"
    "prevs s (hd xs) = Some (head L)" "nexts s (last xs) = Some (tail L)" "prevs s (tail L) = Some (last xs)"
    using False by (simp_all add: linked_append linked_Cons)
  obtain s1 where s1: "reverse_loop L (Some (hd xs)) s = Some s1" "only_links (set xs) s s1"
    "\<forall>a \<in> set xs. nexts s1 a = prevs s a \<and> prevs s1 a = nexts s a"
    using reverse_loop_rep [OF l(1)] d False by auto
  have m: "hd xs \<in> set xs" "last xs \<in> set xs" using False by simp_all
  have o: "nexts s1 (head L) = Some (hd xs)" "prevs s1 (tail L) = Some (last xs)" "valid s1 = valid s"
    "prevs s1 (head L) = None" "nexts s1 (tail L) = None"
    using s1(2) d l by (auto simp: only_links_def)
  have neq: "head L \<noteq> hd xs" "tail L \<noteq> hd xs" "head L \<noteq> last xs" "tail L \<noteq> last xs" using m d(2,3) by (metis)+
  define s2 where "s2 = s1\<lparr>nexts := (nexts s1)(head L := Some (last xs), hd xs := Some (tail L)),
    prevs := (prevs s1)(tail L := Some (hd xs), last xs := Some (head L))\<rparr>"
  have lr: "list_reverse L s = Some s2"
    using assms False s1 m l o d neq
    by (simp add: list_reverse_def list_empty_rep list_rep_begin s2_def)
  have "linked (nexts s1) (prevs s1) (rev xs)"
    using linked_flip [of xs "nexts s1" "prevs s" "prevs s1" "nexts s"] s1(3) l(2) by blast
  moreover have "hd xs \<notin> set (butlast (rev xs))" "last xs \<notin> set (tl (rev xs))"
    using last_notin_butlast [of "rev xs"] hd_notin_tl [of "rev xs"] d(1) False by (simp_all add: hd_rev last_rev)
  ultimately have "linked (nexts s2) (prevs s2) (rev xs)"
    using d(2,3) by (simp add: s2_def linked_upd_next linked_upd_prev notin_tl)
  then have "linked (nexts s2) (prevs s2) ([head L] @ rev xs @ [tail L])"
    using False neq by (simp add: linked_append linked_Cons hd_rev last_rev) (simp add: s2_def)
  moreover have "only_links (footprint L xs) s s2"
    by (rule only_links_trans [of "set xs" s s1 "footprint L xs"]) (use s1(2) m in \<open>auto simp: only_links_def s2_def footprint_def\<close>)
  moreover have "prevs s2 (head L) = None" "nexts s2 (tail L) = None" "valid s2 = valid s"
    using d(4) o neq by (simp_all add: s2_def)
  ultimately show ?thesis using lr d by (simp add: list_rep_def)
qed

lemma ordered_pos_rep:
  "list_rep s L (us @ ys) \<Longrightarrow>
   ordered_pos lt L e (Some (hd (ys @ [tail L]))) s = Some (Some (hd (dropWhile (\<lambda>x. \<not> lt e x) ys @ [tail L])))"
proof (induction ys arbitrary: us)
  case Nil
  show ?case by (subst ordered_pos.simps) (simp add: list_end_def)
next
  case (Cons y ys)
  then show ?case
    using list_rep_next(1,3) [OF Cons.prems] Cons.IH [of "us @ [y]"]
    by (subst ordered_pos.simps) (simp add: list_end_def)
qed

lemma list_insert_ordered_rep:
  assumes "list_rep s L xs" and "e \<notin> footprint L xs" and "valid s e"
  shows "\<exists>s'. list_insert_ordered lt L e s = Some s' \<and>
    list_rep s' L (takeWhile (\<lambda>x. \<not> lt e x) xs @ e # dropWhile (\<lambda>x. \<not> lt e x) xs) \<and> only_links (insert e (footprint L xs)) s s'"
  using list_insert_rep [of s L "takeWhile (\<lambda>x. \<not> lt e x) xs" "dropWhile (\<lambda>x. \<not> lt e x) xs" e] assms
    ordered_pos_rep [of s L "[]" xs lt e]
  by (simp add: list_insert_ordered_def list_rep_begin)

lemma best_loop_rep:
  "list_rep s L (us @ ys) \<Longrightarrow>
   best_loop better L m (Some (hd (ys @ [tail L]))) s = Some (Some (fold (\<lambda>x m. if better x m then x else m) ys m))"
proof (induction ys arbitrary: us m)
  case Nil
  show ?case by (subst best_loop.simps) (simp add: list_end_def)
next
  case (Cons y ys)
  then show ?case
    using list_rep_next(1,3) [OF Cons.prems] Cons.IH [of "us @ [y]"]
    by (subst best_loop.simps) (simp add: list_end_def)
qed

text \<open>The kept and the removed elements behind \<open>x\<close>.\<close>

fun uniq :: "(nat \<Rightarrow> nat \<Rightarrow> bool) \<Rightarrow> nat \<Rightarrow> nat list \<Rightarrow> nat list \<times> nat list" where
  "uniq lt x [] = ([x], [])"
| "uniq lt x (y # ys) =
     (if \<not> lt x y \<and> \<not> lt y x then (case uniq lt x ys of (k, d) \<Rightarrow> (k, y # d))
      else (case uniq lt y ys of (k, d) \<Rightarrow> (x # k, d)))"

lemma uniq_props:
  "mset (fst (uniq lt x ys)) + mset (snd (uniq lt x ys)) = mset (x # ys)"
  "orders_by lt key \<Longrightarrow> map key (fst (uniq lt x ys)) = remdups_adj (map key (x # ys))"
  by (induction lt x ys rule: uniq.induct) (auto simp: orders_by_def neq_iff split: prod.splits)

lemma unique_loop_rep:
  assumes "list_rep s L (us @ x # ys)"
    and "\<And>D. dup = Some D \<Longrightarrow> list_rep s D ds \<and> footprint D ds \<inter> footprint L (us @ x # ys) = {}"
  shows "\<exists>s'. unique_loop lt L dup (Some x) s = Some s' \<and> list_rep s' L (us @ fst (uniq lt x ys)) \<and>
    (\<forall>D. dup = Some D \<longrightarrow> list_rep s' D (ds @ snd (uniq lt x ys)))"
  using assms
proof (induction lt x ys arbitrary: us s ds rule: uniq.induct)
  case (1 lt x)
  then show ?case using list_rep_next(1) [OF 1(1)] by (subst unique_loop.simps) (simp add: list_end_def)
next
  case (2 lt x y ys)
  have nx: "list_next (Some x) s = Some (Some y)" "y \<noteq> tail L"
    using list_rep_next(1) [OF 2(3)] list_rep_next(3) [of s L "us @ [x]" y ys] 2(3) by simp_all
  show ?case
  proof (cases "\<not> lt x y \<and> \<not> lt y x")
    case True
    obtain n s1 where s1: "list_remove (Some y) s = Some (n, s1)" "list_rep s1 L (us @ x # ys)" "only_links (footprint L (us @ x # ys)) s s1"
      using list_remove_rep [of s L "us @ [x]" y ys] 2(3) by auto
    have y: "y \<notin> footprint L (us @ x # ys)" "valid s y"
      using list_rep_distinct [OF 2(3)] list_rep_valid [OF 2(3)] by (auto simp: footprint_def)
    have D: "\<exists>s2. (case dup of None \<Rightarrow> Some s1 | Some D \<Rightarrow> list_push_back D (Some y) s1) = Some s2 \<and> list_rep s2 L (us @ x # ys) \<and>
      (\<forall>D. dup = Some D \<longrightarrow> list_rep s2 D (ds @ [y]) \<and> footprint D (ds @ [y]) \<inter> footprint L (us @ x # ys) = {})"
    proof (cases dup)
      case (Some D)
      have dj: "list_rep s D ds" "footprint D ds \<inter> footprint L (us @ x # y # ys) = {}" using 2(4) [OF Some] by auto
      have sub: "footprint L (us @ x # ys) \<subseteq> footprint L (us @ x # y # ys)" "y \<in> footprint L (us @ x # y # ys)"
        by (auto simp: footprint_def)
      have r: "list_rep s1 D ds" using dj sub by (intro list_rep_frame [OF s1(3)]) auto
      have "y \<notin> footprint D ds" "valid s1 y" using dj sub y only_links_validD [OF s1(3)] by auto
      then obtain s2 where s2: "list_push_back D (Some y) s1 = Some s2" "list_rep s2 D (ds @ [y])"
        "only_links (insert y (footprint D ds)) s1 s2"
        using list_push_back_rep [OF r] by blast
      have "list_rep s2 L (us @ x # ys)" using dj sub y by (intro list_rep_frame [OF s2(3) s1(2)]) auto
      moreover have "footprint D (ds @ [y]) = insert y (footprint D ds)" by (auto simp: footprint_def)
      ultimately show ?thesis using s2 Some dj sub y by auto
    qed (use s1 in simp)
    then obtain s2 where s2: "(case dup of None \<Rightarrow> Some s1 | Some D \<Rightarrow> list_push_back D (Some y) s1) = Some s2" "list_rep s2 L (us @ x # ys)"
      "\<And>D. dup = Some D \<Longrightarrow> list_rep s2 D (ds @ [y]) \<and> footprint D (ds @ [y]) \<inter> footprint L (us @ x # ys) = {}" by blast
    show ?thesis
      using 2(1) [OF True s2(2,3)] s2(1) s1(1) nx True
      by (subst unique_loop.simps) (auto simp: list_end_def split: prod.splits)
  next
    case False
    show ?thesis
      using 2(2) [OF False, of s "us @ [x]" ds] 2(3,4) nx False
      by (subst unique_loop.simps) (auto simp: list_end_def split: prod.splits)
  qed
qed

lemma list_unique_rep:
  assumes "list_rep s L (x # xs)"
    and "\<And>D. dup = Some D \<Longrightarrow> list_rep s D ds \<and> footprint D ds \<inter> footprint L (x # xs) = {}"
  shows "\<exists>s'. list_unique lt L dup s = Some s' \<and> list_rep s' L (fst (uniq lt x xs)) \<and>
    (\<forall>D. dup = Some D \<longrightarrow> list_rep s' D (ds @ snd (uniq lt x xs)))"
  using unique_loop_rep [of s L "[]" x xs dup ds lt] assms list_rep_begin [OF assms(1)]
  by (simp add: list_unique_def list_empty_rep)

text \<open>The first of the best elements: better than all before it, and none behind it is better.\<close>

definition first_best :: "(nat \<Rightarrow> nat \<Rightarrow> bool) \<Rightarrow> nat list \<Rightarrow> nat \<Rightarrow> bool" where
  "first_best better xs m \<longleftrightarrow>
     (\<exists>us vs. xs = us @ m # vs \<and> (\<forall>u \<in> set us. better m u) \<and> (\<forall>v \<in> set vs. \<not> better v m))"

lemma first_best_snoc:
  assumes "first_best better xs m" and "\<And>x y z. better x y \<Longrightarrow> better y z \<Longrightarrow> better x z"
    and "\<And>x y z. better x y \<Longrightarrow> \<not> better z y \<Longrightarrow> better x z"
  shows "first_best better (xs @ [x]) (if better x m then x else m)"
proof -
  obtain us vs where xs: "xs = us @ m # vs" "\<forall>u \<in> set us. better m u" "\<forall>v \<in> set vs. \<not> better v m"
    using assms(1) by (auto simp: first_best_def)
  show ?thesis
  proof (cases "better x m")
    case True
    have "\<forall>u \<in> set xs. better x u" using xs True assms(2) [OF True] assms(3) [OF True] by auto
    then have "xs @ [x] = xs @ x # [] \<and> (\<forall>u \<in> set xs. better x u) \<and> (\<forall>v \<in> set []. \<not> better v x)" by simp
    then show ?thesis using True unfolding first_best_def by metis
  next
    case False
    then have "xs @ [x] = us @ m # vs @ [x] \<and> (\<forall>v \<in> set (vs @ [x]). \<not> better v m)" using xs by simp
    then show ?thesis using False xs(2) unfolding first_best_def by metis
  qed
qed

lemma first_best_single: "first_best better [x] x"
  unfolding first_best_def by (rule exI [of _ "[]"]) simp

lemma fold_first_best:
  assumes "\<And>x y z. better x y \<Longrightarrow> better y z \<Longrightarrow> better x z" and "\<And>x y z. better x y \<Longrightarrow> \<not> better z y \<Longrightarrow> better x z"
  shows "first_best better ys m \<Longrightarrow> first_best better (ys @ xs) (fold (\<lambda>x m. if better x m then x else m) xs m)"
proof (induction xs arbitrary: ys m)
  case (Cons x xs)
  have "first_best better (ys @ [x]) (if better x m then x else m)" by (rule first_best_snoc [OF Cons.prems assms])
  then show ?case using Cons.IH [of "ys @ [x]" "if better x m then x else m"] by simp
qed simp

lemma orders_by_trans: "orders_by lt key \<Longrightarrow> lt x y \<Longrightarrow> lt y z \<Longrightarrow> lt x z"
  unfolding orders_by_def by (metis order.strict_trans)

lemma orders_by_neg:
  "orders_by lt key \<Longrightarrow> lt x y \<Longrightarrow> \<not> lt z y \<Longrightarrow> lt x z"
  "orders_by lt key \<Longrightarrow> lt y x \<Longrightarrow> \<not> lt y z \<Longrightarrow> lt z x"
  unfolding orders_by_def by (metis not_less order.strict_trans1 order.strict_trans2)+

lemma list_max_rep:
  assumes "orders_by lt key" and "list_rep s L (x # xs)"
  shows "\<exists>m. list_max lt L s = Some (Some m) \<and> first_best (\<lambda>a b. lt b a) (x # xs) m"
proof -
  have "list_rep s L ([x] @ xs)" using assms(2) by simp
  from best_loop_rep [OF this, of "\<lambda>e m. lt m e" x]
  have "list_max lt L s = Some (Some (fold (\<lambda>e m. if lt m e then e else m) xs x))"
    using list_rep_begin [OF assms(2)] list_rep_next [of s L "[]" x xs] assms(2) by (simp add: list_max_def list_end_def)
  moreover have "first_best (\<lambda>a b. lt b a) ([x] @ xs) (fold (\<lambda>e m. if lt m e then e else m) xs x)"
  proof (rule fold_first_best [where better = "\<lambda>a b. lt b a"])
    show "lt c a" if "lt b a" "lt c b" for a b c using orders_by_trans [OF assms(1) that(2,1)] .
    show "lt c a" if "lt b a" "\<not> lt b c" for a b c using orders_by_neg(2) [OF assms(1) that] .
  qed (rule first_best_single)
  ultimately show ?thesis by simp
qed

lemma list_min_rep:
  assumes "orders_by lt key" and "list_rep s L (x # xs)"
  shows "\<exists>m. list_min lt L s = Some (Some m) \<and> first_best lt (x # xs) m"
proof -
  have "list_rep s L ([x] @ xs)" using assms(2) by simp
  from best_loop_rep [OF this, of lt x]
  have "list_min lt L s = Some (Some (fold (\<lambda>e m. if lt e m then e else m) xs x))"
    using list_rep_begin [OF assms(2)] list_rep_next [of s L "[]" x xs] assms(2) by (simp add: list_min_def list_end_def)
  moreover have "first_best lt ([x] @ xs) (fold (\<lambda>e m. if lt e m then e else m) xs x)"
    by (rule fold_first_best [OF orders_by_trans [OF assms(1)] orders_by_neg(1) [OF assms(1)] first_best_single])
  ultimately show ?thesis by simp
qed

subsection \<open>The list as an abstract data type\<close>

text \<open>
  The calls a program makes on one list, what they do to the sequence of the list's elements with the pointer they
  return, and when they are allowed: an element is inserted only when it is an object that is not in the list, and
  in front of an element of the list or of its tail; it is removed only when it is in the list.
\<close>

datatype list_op = Push_front nat | Push_back nat | Insert nat nat | Insert_ordered nat | Remove nat
  | Pop_front | Pop_back | Reverse | Sort

fun run_op :: "list_hdr \<Rightarrow> (nat \<Rightarrow> nat \<Rightarrow> bool) \<Rightarrow> list_op \<Rightarrow> links \<Rightarrow> (ptr \<times> links) option" where
  "run_op L lt (Push_front e) s = map_option (Pair None) (list_push_front L (Some e) s)"
| "run_op L lt (Push_back e) s = map_option (Pair None) (list_push_back L (Some e) s)"
| "run_op L lt (Insert b e) s = map_option (Pair None) (list_insert (Some b) (Some e) s)"
| "run_op L lt (Insert_ordered e) s = map_option (Pair None) (list_insert_ordered lt L e s)"
| "run_op L lt (Remove e) s = list_remove (Some e) s"
| "run_op L lt Pop_front s = list_pop_front L s"
| "run_op L lt Pop_back s = list_pop_back L s"
| "run_op L lt Reverse s = map_option (Pair None) (list_reverse L s)"
| "run_op L lt Sort s = map_option (Pair None) (list_sort lt L s)"

fun op_spec :: "list_hdr \<Rightarrow> (nat \<Rightarrow> nat \<Rightarrow> bool) \<Rightarrow> (nat \<Rightarrow> 'k::linorder) \<Rightarrow> list_op \<Rightarrow> nat list \<Rightarrow> ptr \<times> nat list" where
  "op_spec L lt key (Push_front e) xs = (None, e # xs)"
| "op_spec L lt key (Push_back e) xs = (None, xs @ [e])"
| "op_spec L lt key (Insert b e) xs = (None, takeWhile (\<lambda>x. x \<noteq> b) xs @ e # dropWhile (\<lambda>x. x \<noteq> b) xs)"
| "op_spec L lt key (Insert_ordered e) xs = (None, takeWhile (\<lambda>x. \<not> lt e x) xs @ e # dropWhile (\<lambda>x. \<not> lt e x) xs)"
| "op_spec L lt key (Remove e) xs = (Some (hd (tl (dropWhile (\<lambda>x. x \<noteq> e) xs) @ [tail L])), remove1 e xs)"
| "op_spec L lt key Pop_front xs = (Some (hd xs), tl xs)"
| "op_spec L lt key Pop_back xs = (Some (last xs), butlast xs)"
| "op_spec L lt key Reverse xs = (None, rev xs)"
| "op_spec L lt key Sort xs = (None, sort_key key xs)"

fun op_allowed :: "(nat \<Rightarrow> bool) \<Rightarrow> list_hdr \<Rightarrow> list_op \<Rightarrow> nat list \<Rightarrow> bool" where
  "op_allowed obj L (Push_front e) xs = (obj e \<and> e \<notin> footprint L xs)"
| "op_allowed obj L (Push_back e) xs = (obj e \<and> e \<notin> footprint L xs)"
| "op_allowed obj L (Insert b e) xs = (obj e \<and> e \<notin> footprint L xs \<and> b \<in> insert (tail L) (set xs))"
| "op_allowed obj L (Insert_ordered e) xs = (obj e \<and> e \<notin> footprint L xs)"
| "op_allowed obj L (Remove e) xs = (e \<in> set xs)"
| "op_allowed obj L Pop_front xs = (xs \<noteq> [])"
| "op_allowed obj L Pop_back xs = (xs \<noteq> [])"
| "op_allowed obj L _ xs = True"

fun run_ops :: "list_hdr \<Rightarrow> (nat \<Rightarrow> nat \<Rightarrow> bool) \<Rightarrow> list_op list \<Rightarrow> links \<Rightarrow> (ptr list \<times> links) option" where
  "run_ops L lt [] s = Some ([], s)"
| "run_ops L lt (c # cs) s = do { (p, s) \<leftarrow> run_op L lt c s; (ps, s) \<leftarrow> run_ops L lt cs s; Some (p # ps, s) }"

fun ops_spec :: "list_hdr \<Rightarrow> (nat \<Rightarrow> nat \<Rightarrow> bool) \<Rightarrow> (nat \<Rightarrow> 'k::linorder) \<Rightarrow> list_op list \<Rightarrow> nat list \<Rightarrow> ptr list \<times> nat list" where
  "ops_spec L lt key [] xs = ([], xs)"
| "ops_spec L lt key (c # cs) xs =
    (let (p, xs) = op_spec L lt key c xs; (ps, xs) = ops_spec L lt key cs xs in (p # ps, xs))"

fun ops_allowed :: "(nat \<Rightarrow> bool) \<Rightarrow> list_hdr \<Rightarrow> (nat \<Rightarrow> nat \<Rightarrow> bool) \<Rightarrow> (nat \<Rightarrow> 'k::linorder) \<Rightarrow> list_op list \<Rightarrow> nat list \<Rightarrow> bool" where
  "ops_allowed obj L lt key [] xs = True"
| "ops_allowed obj L lt key (c # cs) xs = (op_allowed obj L c xs \<and> ops_allowed obj L lt key cs (snd (op_spec L lt key c xs)))"

lemma until_split: "b \<notin> set ys \<Longrightarrow> takeWhile (\<lambda>x. x \<noteq> b) (ys @ b # zs) = ys \<and> dropWhile (\<lambda>x. x \<noteq> b) (ys @ b # zs) = b # zs"
  by (induction ys) auto

lemma insert_op_rep:
  assumes "list_rep s L xs" and "op_allowed (valid s) L (Insert b e) xs"
  shows "\<exists>s'. list_insert (Some b) (Some e) s = Some s' \<and> list_rep s' L (snd (op_spec L lt key (Insert b e) xs)) \<and>
    only_links (insert e (footprint L xs)) s s'"
proof (cases "b = tail L")
  case True
  have "b \<notin> set xs" using list_rep_distinct [OF assms(1)] True by auto
  then have "takeWhile (\<lambda>x. x \<noteq> b) xs = xs" "dropWhile (\<lambda>x. x \<noteq> b) xs = []" by (auto simp: takeWhile_eq_all_conv)
  then have "snd (op_spec L lt key (Insert b e) xs) = xs @ [e]" by (simp only: op_spec.simps snd_conv)
  then show ?thesis using list_insert_rep [of s L xs "[]" e] assms True by simp
next
  case False
  then have "b \<in> set xs" using assms(2) by auto
  then obtain ys zs where yz: "xs = ys @ b # zs" "b \<notin> set ys" by (meson split_list_first)
  then show ?thesis using list_insert_rep [of s L ys "b # zs" e] assms until_split [OF yz(2), of zs] by simp
qed

lemma remove_op_rep:
  assumes "list_rep s L xs" and "e \<in> set xs"
  shows "\<exists>s'. list_remove (Some e) s = Some (fst (op_spec L lt key (Remove e) xs), s') \<and>
    list_rep s' L (snd (op_spec L lt key (Remove e) xs)) \<and> only_links (footprint L xs) s s'"
proof -
  obtain ys zs where yz: "xs = ys @ e # zs" "e \<notin> set ys" using assms(2) by (meson split_list_first)
  then have "only_links (footprint L (ys @ zs)) s t \<Longrightarrow> only_links (footprint L xs) s t" for t
    by (auto simp: only_links_def footprint_def)
  then show ?thesis using list_remove_rep [of s L ys e zs] assms(1) until_split [OF yz(2), of zs] yz
    by (fastforce simp: remove1_append)
qed

text \<open>An allowed call is defined, and does to the linked objects what its specification does to the sequence.\<close>

lemma run_op_rep:
  assumes "list_rep s L xs" and "op_allowed (valid s) L c xs" and "orders_by lt key"
  shows "\<exists>s'. run_op L lt c s = Some (fst (op_spec L lt key c xs), s') \<and> list_rep s' L (snd (op_spec L lt key c xs)) \<and>
    valid s' = valid s"
proof (cases c)
  case (Push_front e)
  then show ?thesis using list_push_front_rep [of s L xs e] assms by (auto dest: only_links_validD)
next
  case (Push_back e)
  then show ?thesis using list_push_back_rep [of s L xs e] assms by (auto dest: only_links_validD)
next
  case (Insert b e)
  then show ?thesis using insert_op_rep [of s L xs b e lt key] assms by (auto dest: only_links_validD)
next
  case (Insert_ordered e)
  then show ?thesis using list_insert_ordered_rep [of s L xs e lt] assms by (auto dest: only_links_validD)
next
  case (Remove e)
  then show ?thesis using remove_op_rep [of s L xs e lt key] assms by (auto dest: only_links_validD)
next
  case Pop_front
  then show ?thesis using list_pop_front_rep [of s L "hd xs" "tl xs"] assms by (auto dest: only_links_validD)
next
  case Pop_back
  then show ?thesis using list_pop_back_rep [of s L "butlast xs" "last xs"] assms by (auto dest: only_links_validD)
next
  case Reverse
  then show ?thesis using list_reverse_rep [of s L xs] assms by (auto dest: only_links_validD)
next
  case Sort
  then show ?thesis using list_sort_rep [OF assms(3), of s L xs] assms by (auto dest: only_links_validD)
qed

lemma run_ops_rep:
  assumes "orders_by lt key"
  shows "list_rep s L xs \<Longrightarrow> ops_allowed (valid s) L lt key cs xs \<Longrightarrow>
    \<exists>s'. run_ops L lt cs s = Some (fst (ops_spec L lt key cs xs), s') \<and> list_rep s' L (snd (ops_spec L lt key cs xs)) \<and>
      valid s' = valid s"
proof (induction cs arbitrary: s xs)
  case (Cons c cs)
  obtain s1 where "run_op L lt c s = Some (fst (op_spec L lt key c xs), s1)"
    "list_rep s1 L (snd (op_spec L lt key c xs))" "valid s1 = valid s"
    using run_op_rep [OF Cons.prems(1) _ assms] Cons.prems(2) by auto
  then show ?case using Cons.IH [of s1 "snd (op_spec L lt key c xs)"] Cons.prems(2) by (auto split: prod.split)
qed simp

subsection \<open>Properties\<close>

text \<open>
  C21. \<open>list_sort\<close> is a stable sort. On a well-formed list and a comparison that orders the elements by a key it
  terminates, and the list is then, forwards and backwards, the list that the reference function \<open>sort_key\<close> of the
  library gives. The final assertion of the code, \<open>is_sorted\<close>, holds, and a list that shares no element with the
  sorted one is untouched.
\<close>

theorem list_sort_sorts:
  assumes "orders_by lt key" and "list_rep s L xs"
  shows "\<exists>s'. list_sort lt L s = Some s' \<and> list_rep s' L (sort_key key xs) \<and>
    is_sorted lt (Some (hd (sort_key key xs @ [tail L]))) (list_end L) s' = Some True \<and>
    (\<forall>M ys. list_rep s M ys \<longrightarrow> footprint M ys \<inter> footprint L xs = {} \<longrightarrow> list_rep s' M ys)"
proof -
  obtain s' where s': "list_sort lt L s = Some s'" "list_rep s' L (sort_key key xs)" "only_links (footprint L xs) s s'"
    using list_sort_rep [OF assms] by blast
  then show ?thesis using is_sorted_rep [OF assms(1) s'(2)] list_rep_frame [OF s'(3)] by (auto simp: Int_commute)
qed

text \<open>An example list with the elements 2, 3 and 4 between the headers 0 and 1.\<close>

definition links_example :: links where
  "links_example = \<lparr>nexts = (\<lambda>_. None)(0 := Some 3, 3 := Some 2, 2 := Some 4, 4 := Some 1),
     prevs = (\<lambda>_. None)(3 := Some 0, 2 := Some 3, 4 := Some 2, 1 := Some 4), valid = (\<lambda>a. a < 10)\<rparr>"

abbreviation hdr_example :: list_hdr where
  "hdr_example \<equiv> \<lparr>head = 0, tail = 1\<rparr>"

lemma links_example_rep: "list_rep links_example hdr_example [3, 2, 4]"
  by (simp add: list_rep_def links_example_def)

theorem list_sort_sorts_witness:
  "\<exists>s'. list_sort (<) hdr_example links_example = Some s' \<and> list_rep s' hdr_example [2, 3, 4]"
  using list_sort_sorts [of "(<)" id, OF _ links_example_rep] by (auto simp: orders_by_def)

text \<open>
  C22. The linked list implements sequences. Any calls on an initialised list, among insertions at either end, before
  an element or in order, removals, reversals and sorts, run to their end as long as each inserts only an element
  that is not in the list and removes only one that is. They return the pointers that the specification over plain
  sequences gives; afterwards the list is linked consistently in both directions and holds the sequence of the
  specification, \<open>list_size\<close> and \<open>list_empty\<close> tell its length, and any further allowed call is defined as well.
\<close>

theorem list_refines_sequence:
  assumes "valid s (head L)" and "valid s (tail L)" and "head L \<noteq> tail L" and "orders_by lt key"
    and "ops_allowed (valid s) L lt key cs []" and "ops_spec L lt key cs [] = (ps, xs)"
  shows "\<exists>s0 s'. llist_init L s = Some s0 \<and> run_ops L lt cs s0 = Some (ps, s') \<and> list_rep s' L xs \<and>
    list_size L s' = Some (length xs) \<and> list_empty L s' = Some (xs = []) \<and>
    (\<forall>c. op_allowed (valid s) L c xs \<longrightarrow>
      (\<exists>s''. run_op L lt c s' = Some (fst (op_spec L lt key c xs), s'') \<and> list_rep s'' L (snd (op_spec L lt key c xs))))"
proof -
  obtain s0 where s0: "llist_init L s = Some s0" "list_rep s0 L []" "valid s0 = valid s"
    using llist_init_rep [OF assms(1-3)] by (auto dest: only_links_validD)
  obtain s' where "run_ops L lt cs s0 = Some (ps, s')" "list_rep s' L xs" "valid s' = valid s"
    using run_ops_rep [OF assms(4) s0(2), of cs] s0(3) assms(5,6) by auto
  then show ?thesis
    using s0(1) list_size_rep [of s' L xs] list_empty_rep [of s' L xs] run_op_rep [OF _ _ assms(4), of s' L xs] by auto
qed

theorem list_refines_sequence_witness:
  "\<exists>s0 s'. llist_init hdr_example links_example = Some s0 \<and>
    run_ops hdr_example (<) [Push_back 5, Push_front 7, Insert 5 6, Reverse, Sort, Insert_ordered 4, Remove 6, Pop_back] s0 =
      Some ([None, None, None, None, None, None, Some 7, Some 7], s') \<and> list_rep s' hdr_example [4, 5]"
  using list_refines_sequence [of links_example hdr_example "(<)" id
      "[Push_back 5, Push_front 7, Insert 5 6, Reverse, Sort, Insert_ordered 4, Remove 6, Pop_back]"
      "[None, None, None, None, None, None, Some 7, Some 7]" "[4, 5]"]
  by (force simp: links_example_def orders_by_def footprint_def)

text \<open>
  Elements pushed to the back of an empty list come out of its front in the same order, and leave it empty.
\<close>

lemma list_fifo:
  assumes "list_rep s L []" and "distinct xs" and "\<forall>x \<in> set xs. valid s x \<and> x \<notin> {head L, tail L}"
  shows "\<exists>s1 s2. push_all (\<lambda>x s. list_push_back L (Some x) s) xs s = Some s1 \<and>
    pop_n (\<lambda>s. do { (p, s) \<leftarrow> list_pop_front L s; a \<leftarrow> p; Some (a, s) }) (length xs) s1 = Some (xs, s2) \<and> list_rep s2 L []"
proof -
  have "fits_all (\<lambda>ys x. valid s x \<and> x \<notin> footprint L ys) ys xs" if "set ys \<inter> set xs = {}" for ys
    using that assms(2,3) by (induction xs arbitrary: ys) (auto simp: footprint_def)
  then show ?thesis using pl.fifo [of s L "valid s" xs] assms(1) by fastforce
qed


definition links_example2 :: links where
  "links_example2 = links_example\<lparr>nexts := (nexts links_example)(8 := Some 9), prevs := (prevs links_example)(9 := Some 8)\<rparr>"


end
