(* ===== verification/Linked_List.thy ===== *)
theory Linked_List
  imports Links
begin

text \<open>
  The linked lists of the third shell's kernel, \<open>src/a3/linked_list.c\<close>.

  A node is an object with links and data. The data of the two dummy nodes is never written; reading it is
  undefined (\<open>None\<close> in the field \<open>datas\<close>). \<open>malloc\<close> succeeds and returns a new address; nodes are never freed.
  A \<open>LINKED_LIST\<close> is a value that an operation returns updated. The program ends with status 99 when a list
  is popped that is empty, which is the result \<open>Inl 99\<close>. The size is an \<open>int\<close>, whose overflow is undefined.
\<close>

record 'd nodes = links +
  datas :: "nat \<Rightarrow> 'd option"
  brk :: nat

record 'd linked_list =
  lsize :: int
  dummy_head :: ptr
  dummy_tail :: ptr
  equal :: "'d \<Rightarrow> 'd \<Rightarrow> bool"

type_synonym exit_status = int

definition malloc_node :: "'d nodes \<Rightarrow> ptr \<times> 'd nodes" where
  "malloc_node h = (Some (brk h), h\<lparr>valid := (valid h)(brk h := True), datas := (datas h)(brk h := None), brk := brk h + 1\<rparr>)"

definition get_data :: "ptr \<Rightarrow> 'd nodes \<Rightarrow> 'd option" where
  "get_data p h = do { a \<leftarrow> p; if valid h a then datas h a else None }"

definition set_data :: "ptr \<Rightarrow> 'd \<Rightarrow> 'd nodes \<Rightarrow> 'd nodes option" where
  "set_data p d h = do { a \<leftarrow> p; if valid h a then Some (h\<lparr>datas := (datas h)(a := Some d)\<rparr>) else None }"

subsection \<open>Operations\<close>

definition has_next :: "ptr \<Rightarrow> 'd nodes \<Rightarrow> bool option" where
  "has_next elem h = do { n \<leftarrow> get_next elem h; Some (n \<noteq> None) }"

text \<open>The result is the node and the advanced pointer.\<close>

definition next_node :: "ptr \<Rightarrow> 'd nodes \<Rightarrow> (ptr \<times> ptr) option" where
  "next_node node h = do { n \<leftarrow> get_next node h; Some (node, n) }"

definition next_data :: "ptr \<Rightarrow> 'd nodes \<Rightarrow> ('d \<times> ptr) option" where
  "next_data elem h = do { (ret, elem) \<leftarrow> next_node elem h; d \<leftarrow> get_data ret h; Some (d, elem) }"

definition list_clear :: "'d linked_list \<Rightarrow> 'd nodes \<Rightarrow> ('d linked_list \<times> 'd nodes) option" where
  "list_clear l h = do {
     let l = l\<lparr>lsize := 0\<rparr>;
     h \<leftarrow> set_next (dummy_head l) (dummy_tail l) h;
     h \<leftarrow> set_prev (dummy_tail l) (dummy_head l) h;
     Some (l, h)
   }"

definition add_tail :: "'d \<Rightarrow> 'd linked_list \<Rightarrow> 'd nodes \<Rightarrow> (int \<times> 'd linked_list \<times> 'd nodes) option" where
  "add_tail data l h = do {
     let (new_node, h) = malloc_node h;
     old_tail \<leftarrow> get_prev (dummy_tail l) h;
     h \<leftarrow> set_data new_node data h;
     h \<leftarrow> set_next old_tail new_node h;
     h \<leftarrow> set_prev new_node old_tail h;
     h \<leftarrow> set_next new_node (dummy_tail l) h;
     h \<leftarrow> set_prev (dummy_tail l) new_node h;
     n \<leftarrow> int32 (lsize l + 1);
     Some (0, l\<lparr>lsize := n\<rparr>, h)
   }"

definition add_head :: "'d \<Rightarrow> 'd linked_list \<Rightarrow> 'd nodes \<Rightarrow> (int \<times> 'd linked_list \<times> 'd nodes) option" where
  "add_head data l h = do {
     let (new_node, h) = malloc_node h;
     old_head \<leftarrow> get_next (dummy_head l) h;
     h \<leftarrow> set_data new_node data h;
     h \<leftarrow> set_prev old_head new_node h;
     h \<leftarrow> set_next new_node old_head h;
     h \<leftarrow> set_prev new_node (dummy_head l) h;
     h \<leftarrow> set_next (dummy_head l) new_node h;
     n \<leftarrow> int32 (lsize l + 1);
     Some (0, l\<lparr>lsize := n\<rparr>, h)
   }"

text \<open>The assignments with which \<open>pop_head\<close>, \<open>pop_tail\<close> and \<open>remove_elem\<close> end.\<close>

definition unlink :: "ptr \<Rightarrow> 'd linked_list \<Rightarrow> 'd nodes \<Rightarrow> ('d \<times> 'd linked_list \<times> 'd nodes) option" where
  "unlink to_be_deleted l h = do {
     p \<leftarrow> get_prev to_be_deleted h;
     n \<leftarrow> get_next to_be_deleted h;
     h \<leftarrow> set_next p n h;
     n \<leftarrow> get_next to_be_deleted h;
     p \<leftarrow> get_prev to_be_deleted h;
     h \<leftarrow> set_prev n p h;
     k \<leftarrow> int32 (lsize l - 1);
     d \<leftarrow> get_data to_be_deleted h;
     Some (d, l\<lparr>lsize := k\<rparr>, h)
   }"

definition pop_head :: "'d linked_list \<Rightarrow> 'd nodes \<Rightarrow> (exit_status + 'd \<times> 'd linked_list \<times> 'd nodes) option" where
  "pop_head l h =
     (if lsize l \<le> 0 then Some (Inl 99)
      else do {
        to_be_deleted \<leftarrow> get_next (dummy_head l) h;
        r \<leftarrow> unlink to_be_deleted l h;
        Some (Inr r)
      })"

definition pop_tail :: "'d linked_list \<Rightarrow> 'd nodes \<Rightarrow> (exit_status + 'd \<times> 'd linked_list \<times> 'd nodes) option" where
  "pop_tail l h =
     (if lsize l \<le> 0 then Some (Inl 99)
      else do {
        to_be_deleted \<leftarrow> get_prev (dummy_tail l) h;
        r \<leftarrow> unlink to_be_deleted l h;
        Some (Inr r)
      })"

definition get_node_by_index :: "'d linked_list \<Rightarrow> int \<Rightarrow> 'd nodes \<Rightarrow> ptr option" where
  "get_node_by_index l index h =
     (if index \<ge> lsize l \<or> index < 0 then Some None
      else do {
        cur \<leftarrow> get_next (dummy_head l) h;
        for_range 0 (nat index) (\<lambda>_ cur. get_next cur h) cur
      })"

partial_function (option) by_value_loop :: "('d \<Rightarrow> 'd \<Rightarrow> bool) \<Rightarrow> 'd \<Rightarrow> ptr \<Rightarrow> 'd nodes \<Rightarrow> ptr option" where
  "by_value_loop eq target_data cur h =
     (if cur = None then Some None
      else do {
        d \<leftarrow> get_data cur h;
        if eq target_data d then Some cur
        else do { cur \<leftarrow> get_next cur h; by_value_loop eq target_data cur h }
      })"

definition get_node_by_value :: "'d linked_list \<Rightarrow> 'd \<Rightarrow> 'd nodes \<Rightarrow> ptr option" where
  "get_node_by_value l target_data h = do {
     cur \<leftarrow> get_next (dummy_head l) h;
     by_value_loop (equal l) target_data cur h
   }"

definition get_by_index :: "'d linked_list \<Rightarrow> int \<Rightarrow> 'd nodes \<Rightarrow> 'd option" where
  "get_by_index l index h = do { target_node \<leftarrow> get_node_by_index l index h; get_data target_node h }"

definition get_by_value :: "'d linked_list \<Rightarrow> 'd \<Rightarrow> 'd nodes \<Rightarrow> 'd option" where
  "get_by_value l elem h = do { target_node \<leftarrow> get_node_by_value l elem h; get_data target_node h }"

definition remove_elem :: "'d \<Rightarrow> 'd linked_list \<Rightarrow> 'd nodes \<Rightarrow> ('d \<times> 'd linked_list \<times> 'd nodes) option" where
  "remove_elem data_to_del l h = do {
     to_be_deleted \<leftarrow> get_node_by_value l data_to_del h;
     unlink to_be_deleted l h
   }"

definition swap_nodes :: "ptr \<Rightarrow> ptr \<Rightarrow> 'd nodes \<Rightarrow> 'd nodes option" where
  "swap_nodes node1 node2 h = do {
     tmp \<leftarrow> get_data node1 h;
     d \<leftarrow> get_data node2 h;
     h \<leftarrow> set_data node1 d h;
     set_data node2 tmp h
   }"

definition list_init :: "('d \<Rightarrow> 'd \<Rightarrow> bool) \<Rightarrow> 'd nodes \<Rightarrow> ('d linked_list \<times> 'd nodes) option" where
  "list_init eq h = do {
     let (dh, h) = malloc_node h;
     let (dt, h) = malloc_node h;
     h \<leftarrow> set_next dt None h;
     h \<leftarrow> set_next dh dt h;
     h \<leftarrow> set_prev dt dh h;
     Some (\<lparr>lsize = 0, dummy_head = dh, dummy_tail = dt, equal = eq\<rparr>, h)
   }"

subsection \<open>Lists of the heap\<close>

text \<open>The objects of the heap are those below \<open>brk\<close>.\<close>

definition heap_ok :: "'d nodes \<Rightarrow> bool" where
  "heap_ok h \<longleftrightarrow> (\<forall>a. valid h a \<longleftrightarrow> a < brk h)"

text \<open>The nodes of a list, from one dummy to the other, and the data in them.\<close>

definition nodes_rep :: "'d nodes \<Rightarrow> 'd linked_list \<Rightarrow> nat \<Rightarrow> nat \<Rightarrow> nat list \<Rightarrow> bool" where
  "nodes_rep h l dh dt xs \<longleftrightarrow>
     dummy_head l = Some dh \<and> dummy_tail l = Some dt \<and> distinct (dh # xs @ [dt]) \<and> (\<forall>a \<in> set (dh # xs @ [dt]). a < brk h) \<and>
     linked (nexts h) (prevs h) (dh # xs @ [dt]) \<and> nexts h dt = None \<and> datas h dt = None"

definition llist_rep :: "'d nodes \<Rightarrow> 'd linked_list \<Rightarrow> 'd list \<Rightarrow> bool" where
  "llist_rep h l ds \<longleftrightarrow> heap_ok h \<and> lsize l = int (length ds) \<and> length ds < 2 ^ 31 \<and>
     (\<exists>dh dt xs. nodes_rep h l dh dt xs \<and> map (datas h) xs = map Some ds)"

lemma llist_repI:
  "heap_ok h \<Longrightarrow> lsize l = int (length ds) \<Longrightarrow> length ds < 2 ^ 31 \<Longrightarrow> nodes_rep h l dh dt xs \<Longrightarrow>
   map (datas h) xs = map Some ds \<Longrightarrow> llist_rep h l ds"
  unfolding llist_rep_def by blast

lemma get_data_valid [simp]: "valid h a \<Longrightarrow> get_data (Some a) h = datas h a"
  by (simp add: get_data_def)

lemma set_data_valid [simp]: "valid h a \<Longrightarrow> set_data (Some a) d h = Some (h\<lparr>datas := (datas h)(a := Some d)\<rparr>)"
  by (simp add: set_data_def)

text \<open>The heap after \<open>malloc\<close>.\<close>

lemma malloc_node_facts:
  assumes "heap_ok h" and "malloc_node h = (p, h')"
  shows "p = Some (brk h)" "heap_ok h'" "brk h' = Suc (brk h)" "nexts h' = nexts h" "prevs h' = prevs h"
    "datas h' = (datas h)(brk h := None)" "valid h' a \<longleftrightarrow> a < Suc (brk h)"
proof -
  have v: "valid h a \<longleftrightarrow> a < brk h" for a using assms(1) by (simp add: heap_ok_def)
  have h': "h' = h\<lparr>valid := (valid h)(brk h := True), datas := (datas h)(brk h := None), brk := brk h + 1\<rparr>" "p = Some (brk h)"
    using assms(2) by (simp_all add: malloc_node_def)
  show "p = Some (brk h)" "brk h' = Suc (brk h)" "nexts h' = nexts h" "prevs h' = prevs h" "datas h' = (datas h)(brk h := None)"
    by (simp_all add: h')
  show "valid h' a \<longleftrightarrow> a < Suc (brk h)" by (auto simp: h' v less_Suc_eq)
  show "heap_ok h'" by (auto simp: heap_ok_def h' v less_Suc_eq)
qed

lemma list_init_rep:
  assumes "heap_ok h"
  shows "\<exists>l h'. list_init eq h = Some (l, h') \<and> llist_rep h' l [] \<and> equal l = eq"
proof -
  define b where "b = brk h"
  obtain p1 h1 where m1: "malloc_node h = (p1, h1)" by fastforce
  note f1 = malloc_node_facts [OF assms m1]
  obtain p2 h2 where m2: "malloc_node h1 = (p2, h2)" by fastforce
  note f2 = malloc_node_facts [OF f1(2) m2]
  define l where "l = \<lparr>lsize = 0, dummy_head = Some b, dummy_tail = Some (Suc b), equal = eq\<rparr>"
  define h' where "h' = h2\<lparr>nexts := (nexts h2)(Suc b := None, b := Some (Suc b)), prevs := (prevs h2)(Suc b := Some b)\<rparr>"
  have "list_init eq h = Some (l, h')"
    using m1 m2 f1(1,3) f2(1,3,7) by (simp add: list_init_def l_def h'_def b_def)
  moreover have "heap_ok h'" using f2(2) by (simp add: heap_ok_def h'_def)
  moreover have "nodes_rep h' l b (Suc b) []"
    using f1(3) f2(3,6) by (simp add: nodes_rep_def l_def h'_def b_def)
  ultimately show ?thesis
    using llist_repI [of h' l "[]" b "Suc b" "[]"] by (auto simp: l_def)
qed

text \<open>Inserting a new node between \<open>us\<close> and \<open>vs\<close>, which end and begin with a dummy node.\<close>

lemma insert_node_rep:
  assumes ok: "heap_ok h" and n: "nodes_rep h l dh dt (xs @ ys)" and d: "map (datas h) (xs @ ys) = map Some (ds @ es)"
    and len: "length xs = length ds" "lsize l = int (length (ds @ es))" "length (ds @ es) < 2 ^ 31 - 1"
    and "malloc_node h = (p, h1)" and "a = brk h"
    and h': "nexts h' = (nexts h1)(last (dh # xs) := Some a, a := Some (hd (ys @ [dt])))"
      "prevs h' = (prevs h1)(a := Some (last (dh # xs)), hd (ys @ [dt]) := Some a)"
      "datas h' = (datas h1)(a := Some x)" "valid h' = valid h1" "brk h' = brk h1"
  shows "llist_rep h' (l\<lparr>lsize := lsize l + 1\<rparr>) (ds @ x # es)"
proof -
  note f = malloc_node_facts [OF ok assms(7)]
  have nn: "distinct ((dh # xs) @ ys @ [dt])" "linked (nexts h) (prevs h) ((dh # xs) @ ys @ [dt])"
    "\<forall>c \<in> set ((dh # xs) @ ys @ [dt]). c < a" "nexts h dt = None" "datas h dt = None"
    using n assms(8) by (simp_all add: nodes_rep_def)
  have a: "a \<notin> set ((dh # xs) @ ys @ [dt])" using nn(3) by blast
  have "linked (nexts h') (prevs h') ((dh # xs) @ a # ys @ [dt])"
    using linked_insert [OF nn(2,1) _ _ a] f h' by simp
  moreover have "last (dh # xs) \<noteq> dt" using nn(1) last_in_set [of "dh # xs"] by auto
  then have "nexts h' dt = None" using a nn(4) f h' by simp
  ultimately have "nodes_rep h' (l\<lparr>lsize := lsize l + 1\<rparr>) dh dt (xs @ a # ys)"
    using n a nn(5) f(3,6) h'(3,5) assms(8) by (auto simp: nodes_rep_def intro: less_SucI)
  moreover have "map (datas h') (xs @ a # ys) = map Some (ds @ x # es)"
    using d len(1) a f(6) h'(3) assms(8) by simp
  moreover have "heap_ok h'" using f(2) h'(4,5) by (simp add: heap_ok_def)
  ultimately show ?thesis using len(2,3) by (intro llist_repI [where xs = "xs @ a # ys"]) simp_all
qed

lemma add_tail_rep:
  assumes "llist_rep h l ds" and "length ds < 2 ^ 31 - 1"
  shows "\<exists>l' h'. add_tail x l h = Some (0, l', h') \<and> llist_rep h' l' (ds @ [x]) \<and> equal l' = equal l"
proof -
  obtain dh dt xs where n: "heap_ok h" "lsize l = int (length ds)" "nodes_rep h l dh dt xs" "map (datas h) xs = map Some ds"
    using assms(1) by (auto simp: llist_rep_def)
  obtain p h1 where m: "malloc_node h = (p, h1)" by fastforce
  note f = malloc_node_facts [OF n(1) m]
  define h' where "h' = h1\<lparr>datas := (datas h1)(brk h := Some x),
    nexts := (nexts h1)(last (dh # xs) := Some (brk h), brk h := Some dt),
    prevs := (prevs h1)(brk h := Some (last (dh # xs)), dt := Some (brk h))\<rparr>"
  have nn: "dummy_tail l = Some dt" "dt < brk h" "last (dh # xs) < brk h" "prevs h dt = Some (last (dh # xs))"
    using n(3) linked_append [of "dh # xs" "[dt]"] last_in_set [of "dh # xs"] by (auto simp: nodes_rep_def)
  have "add_tail x l h = Some (0, l\<lparr>lsize := lsize l + 1\<rparr>, h')"
    using m f nn n(2) assms(2) by (simp add: add_tail_def h'_def)
  moreover have "llist_rep h' (l\<lparr>lsize := lsize l + 1\<rparr>) (ds @ x # [])"
    using n assms(2) map_eq_imp_length_eq [OF n(4)]
    by (intro insert_node_rep [OF n(1) _ _ _ _ _ m refl, where xs = xs and ys = "[]"]) (simp_all add: h'_def)
  ultimately show ?thesis by auto
qed

lemma add_head_rep:
  assumes "llist_rep h l ds" and "length ds < 2 ^ 31 - 1"
  shows "\<exists>l' h'. add_head x l h = Some (0, l', h') \<and> llist_rep h' l' (x # ds) \<and> equal l' = equal l"
proof -
  obtain dh dt xs where n: "heap_ok h" "lsize l = int (length ds)" "nodes_rep h l dh dt xs" "map (datas h) xs = map Some ds"
    using assms(1) by (auto simp: llist_rep_def)
  obtain p h1 where m: "malloc_node h = (p, h1)" by fastforce
  note f = malloc_node_facts [OF n(1) m]
  define b where "b = hd (xs @ [dt])"
  have "b \<in> set (dh # xs @ [dt])" by (cases xs) (simp_all add: b_def)
  then have nn: "dummy_head l = Some dh" "dh < brk h" "b < brk h" "nexts h dh = Some b" "dh \<noteq> b"
    using n(3) linked_Cons [of "xs @ [dt]"] by (auto simp: nodes_rep_def b_def, cases xs, auto)
  define h' where "h' = h1\<lparr>datas := (datas h1)(brk h := Some x),
    prevs := (prevs h1)(brk h := Some dh, b := Some (brk h)),
    nexts := (nexts h1)(dh := Some (brk h), brk h := Some b)\<rparr>"
  have "add_head x l h = Some (0, l\<lparr>lsize := lsize l + 1\<rparr>, h')"
    using m f nn n(2) assms(2) by (simp add: add_head_def h'_def fun_upd_twist)
  moreover have "llist_rep h' (l\<lparr>lsize := lsize l + 1\<rparr>) ([] @ x # ds)"
    using n assms(2)
    by (intro insert_node_rep [OF n(1) _ _ _ _ _ m refl, where xs = "[]" and ys = xs]) (simp_all add: h'_def b_def)
  ultimately show ?thesis by auto
qed

lemma unlink_rep:
  assumes ok: "heap_ok h" and n: "nodes_rep h l dh dt (xs @ a # ys)" and d: "map (datas h) (xs @ a # ys) = map Some (ds @ x # es)"
    and len: "length xs = length ds" "lsize l = int (length (ds @ x # es))" "length (ds @ x # es) < 2 ^ 31"
  shows "\<exists>l' h'. unlink (Some a) l h = Some (x, l', h') \<and> llist_rep h' l' (ds @ es) \<and> equal l' = equal l"
proof -
  define U V where "U = dh # xs" and "V = ys @ [dt]"
  have ne: "U \<noteq> []" "V \<noteq> []" by (simp_all add: U_def V_def)
  have nn: "distinct (U @ a # V)" "linked (nexts h) (prevs h) (U @ a # V)" "\<forall>c \<in> set (U @ a # V). c < brk h" "nexts h dt = None" "datas h dt = None"
    using n by (simp_all add: nodes_rep_def U_def V_def)
  have l: "prevs h a = Some (last U)" "nexts h a = Some (hd V)" using nn(2) ne by (simp_all add: linked_append linked_Cons)
  have m: "last U \<in> set U" "hd V \<in> set V" using ne by simp_all
  have v: "valid h c" if "c \<in> set (U @ a # V)" for c using that nn(3) ok by (auto simp: heap_ok_def)
  have vv: "valid h a" "valid h (last U)" "valid h (hd V)" using m by (auto intro: v)
  have neq: "a \<noteq> last U" "a \<noteq> hd V" using nn(1) m by (auto simp: mem_neq)
  have dt: "last U \<noteq> dt" using m(1) nn(1) by (auto simp: V_def)
  have dx: "datas h a = Some x" "map (datas h) (xs @ ys) = map Some (ds @ es)" using d len(1) by simp_all
  define h' where "h' = h\<lparr>nexts := (nexts h)(last U := Some (hd V)), prevs := (prevs h)(hd V := Some (last U))\<rparr>"
  have "unlink (Some a) l h = Some (x, l\<lparr>lsize := lsize l - 1\<rparr>, h')"
    using l vv neq dx len(2,3) by (simp add: unlink_def h'_def)
  moreover have "linked (nexts h') (prevs h') (U @ V)"
    using linked_delete [OF nn(2,1) ne] by (simp add: h'_def)
  then have "nodes_rep h' (l\<lparr>lsize := lsize l - 1\<rparr>) dh dt (xs @ ys)"
    using n dt by (auto simp: nodes_rep_def U_def V_def h'_def)
  then have "llist_rep h' (l\<lparr>lsize := lsize l - 1\<rparr>) (ds @ es)"
    using len dx(2) ok by (intro llist_repI [where xs = "xs @ ys"]) (simp_all add: h'_def heap_ok_def)
  ultimately show ?thesis by auto
qed

lemma llist_repE:
  assumes "llist_rep h l ds"
  obtains dh dt xs where "heap_ok h" "lsize l = int (length ds)" "length ds < 2 ^ 31" "nodes_rep h l dh dt xs" "map (datas h) xs = map Some ds"
    "length xs = length ds"
  using assms map_eq_imp_length_eq unfolding llist_rep_def by blast

lemma nodes_rep_ends:
  assumes "nodes_rep h l dh dt xs" and "heap_ok h"
  shows "get_next (dummy_head l) h = Some (Some (hd (xs @ [dt])))" and "get_prev (dummy_tail l) h = Some (Some (last (dh # xs)))"
proof -
  have "linked (nexts h) (prevs h) ([dh] @ xs @ [dt])" "linked (nexts h) (prevs h) ((dh # xs) @ [dt])" "valid h dh" "valid h dt"
    "dummy_head l = Some dh" "dummy_tail l = Some dt"
    using assms by (simp_all add: nodes_rep_def heap_ok_def)
  moreover from this have "nexts h dh = Some (hd (xs @ [dt]))" "prevs h dt = Some (last (dh # xs))"
    using linked_append [of "dh # xs" "[dt]" "nexts h" "prevs h"] linked_append [of "[dh]" "xs @ [dt]" "nexts h" "prevs h"] by simp_all
  ultimately show "get_next (dummy_head l) h = Some (Some (hd (xs @ [dt])))" "get_prev (dummy_tail l) h = Some (Some (last (dh # xs)))"
    by simp_all
qed

lemma pop_head_rep:
  assumes "llist_rep h l (d # ds)"
  shows "\<exists>l' h'. pop_head l h = Some (Inr (d, l', h')) \<and> llist_rep h' l' ds \<and> equal l' = equal l"
proof -
  obtain dh dt xs where n: "heap_ok h" "lsize l = int (length (d # ds))" "length (d # ds) < 2 ^ 31" "nodes_rep h l dh dt xs"
    "map (datas h) xs = map Some (d # ds)" by (rule llist_repE [OF assms])
  then obtain a ys where xs: "xs = a # ys" by (cases xs) auto
  then show ?thesis
    using unlink_rep [OF n(1), of l dh dt "[]" a ys "[]" d ds] n nodes_rep_ends(1) [OF n(4,1)] by (auto simp: pop_head_def)
qed

lemma pop_tail_rep:
  assumes "llist_rep h l (ds @ [d])"
  shows "\<exists>l' h'. pop_tail l h = Some (Inr (d, l', h')) \<and> llist_rep h' l' ds \<and> equal l' = equal l"
proof -
  obtain dh dt xs where n: "heap_ok h" "lsize l = int (length (ds @ [d]))" "length (ds @ [d]) < 2 ^ 31" "nodes_rep h l dh dt xs"
    "map (datas h) xs = map Some (ds @ [d])" "length xs = length (ds @ [d])" by (rule llist_repE [OF assms])
  then obtain a ys where xs: "xs = ys @ [a]" by (cases xs rule: rev_cases) auto
  then show ?thesis
    using unlink_rep [OF n(1), of l dh dt ys a "[]" ds d "[]"] n nodes_rep_ends(2) [OF n(4,1)] by (auto simp: pop_tail_def)
qed

lemma pop_empty: "llist_rep h l [] \<Longrightarrow> pop_head l h = Some (Inl 99) \<and> pop_tail l h = Some (Inl 99)"
  by (simp add: llist_rep_def pop_head_def pop_tail_def)

lemma get_by_index_rep:
  assumes "llist_rep h l ds" and "i < length ds"
  shows "get_by_index l (int i) h = Some (ds ! i)"
proof -
  obtain dh dt xs where n: "heap_ok h" "lsize l = int (length ds)" "nodes_rep h l dh dt xs"
    "map (datas h) xs = map Some ds" "length xs = length ds" by (rule llist_repE [OF assms(1)])
  have lk: "linked (nexts h) (prevs h) (xs @ [dt])" using n(3) by (simp add: nodes_rep_def linked_Cons)
  have v: "valid h c" if "c \<in> set xs" for c using that n(1,3) by (simp add: nodes_rep_def heap_ok_def)
  have "\<exists>r. for_range 0 i (\<lambda>_ cur. get_next cur h) (Some (xs ! 0)) = Some r \<and> r = Some (xs ! i)"
  proof (rule for_range_inv [where P = "\<lambda>j r. r = Some (xs ! j)"])
    fix j t assume "j < i" "t = Some (xs ! j)"
    then show "\<exists>t'. get_next t h = Some t' \<and> t' = Some (xs ! Suc j)"
      using linked_nth [OF lk, of j] assms(2) n(5) v by (simp add: nth_append)
  qed simp_all
  moreover have "xs \<noteq> []" "xs ! i \<in> set xs" "datas h (xs ! i) = Some (ds ! i)"
    using assms(2) n(4,5) nth_map [of i xs "datas h"] nth_map [of i ds Some] by auto
  moreover have "hd (xs @ [dt]) = xs ! 0" using \<open>xs \<noteq> []\<close> by (cases xs) simp_all
  ultimately show ?thesis
    using assms(2) n(2) nodes_rep_ends(1) [OF n(3,1)] v by (simp add: get_by_index_def get_node_by_index_def)
qed

lemma by_value_loop_rep:
  assumes "heap_ok h" and "nodes_rep h l dh dt (us @ xs)" and "map (datas h) xs = map Some ds"
  shows "by_value_loop eq x (Some (hd (xs @ [dt]))) h =
    (if \<forall>d \<in> set ds. \<not> eq x d then None else Some (Some (xs ! length (takeWhile (\<lambda>d. \<not> eq x d) ds))))"
  using assms(2,3)
proof (induction xs arbitrary: us ds)
  case Nil
  then show ?case using assms(1) by (subst by_value_loop.simps) (simp add: nodes_rep_def heap_ok_def)
next
  case (Cons a xs)
  obtain d es where ds: "ds = d # es" "datas h a = Some d" "map (datas h) xs = map Some es" using Cons.prems(2) by (cases ds) auto
  have "valid h a" using Cons.prems(1) assms(1) by (simp add: nodes_rep_def heap_ok_def)
  moreover have "linked (nexts h) (prevs h) ((dh # us) @ [a] @ xs @ [dt])" using Cons.prems(1) by (simp add: nodes_rep_def)
  then have "nexts h a = Some (hd (xs @ [dt]))" using linked_append [of "dh # us" "[a] @ xs @ [dt]"] linked_Cons [of "xs @ [dt]"] by simp
  ultimately show ?case
    using Cons.IH [of "us @ [a]" es] Cons.prems(1) ds
    by (subst by_value_loop.simps) auto
qed

lemma get_node_by_value_rep:
  assumes "heap_ok h" and "nodes_rep h l dh dt xs" and "map (datas h) xs = map Some ds"
  shows "get_node_by_value l x h =
    (if \<forall>d \<in> set ds. \<not> equal l x d then None else Some (Some (xs ! length (takeWhile (\<lambda>d. \<not> equal l x d) ds))))"
  using by_value_loop_rep [OF assms(1), of l dh dt "[]" xs ds "equal l" x] assms nodes_rep_ends(1) [OF assms(2,1)]
  by (simp add: get_node_by_value_def)

text \<open>The list as a double-ended queue of data, with the equality function it was made with.\<close>

interpretation ll: deque "\<lambda>(l, h) ds. llist_rep h l ds \<and> equal l = eq" "\<lambda>ds _. length ds < 2 ^ 31 - 1"
  "\<lambda>x (l, h). do { (_, l, h) \<leftarrow> add_tail x l h; Some (l, h) }" "\<lambda>x (l, h). do { (_, l, h) \<leftarrow> add_head x l h; Some (l, h) }"
  "\<lambda>(l, h). do { r \<leftarrow> pop_head l h; (case r of Inl _ \<Rightarrow> None | Inr (d, l, h) \<Rightarrow> Some (d, l, h)) }"
  "\<lambda>(l, h). do { r \<leftarrow> pop_tail l h; (case r of Inl _ \<Rightarrow> None | Inr (d, l, h) \<Rightarrow> Some (d, l, h)) }"
  for eq :: "'d \<Rightarrow> 'd \<Rightarrow> bool"
proof (unfold_locales, goal_cases)
  case (1 s xs x)
  then show ?case using add_tail_rep [of "snd s" "fst s" xs x] by (fastforce split: prod.splits)
next
  case (2 s xs x)
  then show ?case using add_head_rep [of "snd s" "fst s" xs x] by (fastforce split: prod.splits)
next
  case (3 s x xs)
  then show ?case using pop_head_rep [of "snd s" "fst s" x xs] by (fastforce split: prod.splits)
next
  case (4 s xs x)
  then show ?case using pop_tail_rep [of "snd s" "fst s" xs x] by (fastforce split: prod.splits)
qed

subsection \<open>Properties\<close>

text \<open>
  C36. A list of the kernel is a queue: data added at the tail of a list that \<open>list_init\<close> made come out of its
  head in the same order, whatever they are and however often they occur, and the list is then empty, so that
  another \<open>pop_head\<close> ends the program with status 99.
\<close>

theorem kernel_list_fifo:
  assumes "heap_ok h" and "length ds < 2 ^ 31"
  shows "\<exists>l h0 l1 h1 l2 h2. list_init eq h = Some (l, h0) \<and>
    push_all (\<lambda>x (l, h). do { (_, l, h) \<leftarrow> add_tail x l h; Some (l, h) }) ds (l, h0) = Some (l1, h1) \<and>
    pop_n (\<lambda>(l, h). do { r \<leftarrow> pop_head l h; (case r of Inl _ \<Rightarrow> None | Inr (d, l, h) \<Rightarrow> Some (d, l, h)) }) (length ds) (l1, h1) =
      Some (ds, l2, h2) \<and> pop_head l2 h2 = Some (Inl 99)"
proof -
  obtain l h0 where i: "list_init eq h = Some (l, h0)" "llist_rep h0 l []" "equal l = eq" using list_init_rep [OF assms(1)] by blast
  have "fits_all (\<lambda>ds _. length ds < 2 ^ 31 - 1) es ds" if "length es + length ds < 2 ^ 31" for es
    using that by (induction ds arbitrary: es) simp_all
  then have "fits_all (\<lambda>ds _. length ds < 2 ^ 31 - 1) [] ds" using assms(2) by simp
  then show ?thesis using ll.fifo [of eq "(l, h0)" ds] i pop_empty by fastforce
qed

definition empty_nodes :: "'d nodes" where
  "empty_nodes = \<lparr>nexts = (\<lambda>_. None), prevs = (\<lambda>_. None), valid = (\<lambda>_. False), datas = (\<lambda>_. None), brk = 0\<rparr>"

lemma empty_nodes_ok: "heap_ok empty_nodes"
  by (simp add: heap_ok_def empty_nodes_def)

theorem kernel_list_fifo_witness:
  "\<exists>l h0 l1 h1 l2 h2. list_init (=) empty_nodes = Some (l, h0) \<and>
    push_all (\<lambda>x (l, h). do { (_, l, h) \<leftarrow> add_tail x l h; Some (l, h) }) [5, 5, 7 :: nat] (l, h0) = Some (l1, h1) \<and>
    pop_n (\<lambda>(l, h). do { r \<leftarrow> pop_head l h; (case r of Inl _ \<Rightarrow> None | Inr (d, l, h) \<Rightarrow> Some (d, l, h)) }) 3 (l1, h1) =
      Some ([5, 5, 7], l2, h2) \<and> pop_head l2 h2 = Some (Inl 99)"
  using kernel_list_fifo [OF empty_nodes_ok, of "[5, 5, 7]" "(=)"] by (simp add: numeral_3_eq_3)

text \<open>
  \<open>remove_elem\<close> takes out the first element equal to the given one. When there is none, its search does not
  stop at the end of the list but compares with the data of the dummy node, which was never written: the call is
  undefined.
\<close>

theorem remove_elem_first:
  assumes "llist_rep h l ds"
  shows "if \<exists>d \<in> set ds. equal l x d
    then \<exists>us d vs l' h'. ds = us @ d # vs \<and> (\<forall>u \<in> set us. \<not> equal l x u) \<and> equal l x d \<and>
        remove_elem x l h = Some (d, l', h') \<and> llist_rep h' l' (us @ vs)
    else remove_elem x l h = None"
proof -
  obtain dh dt xs where n: "heap_ok h" "lsize l = int (length ds)" "length ds < 2 ^ 31" "nodes_rep h l dh dt xs"
    "map (datas h) xs = map Some ds" "length xs = length ds" by (rule llist_repE [OF assms])
  define us where "us = takeWhile (\<lambda>d. \<not> equal l x d) ds"
  note gv = get_node_by_value_rep [OF n(1,4,5), of x]
  show ?thesis
  proof (cases "dropWhile (\<lambda>d. \<not> equal l x d) ds")
    case Nil
    then have none: "\<forall>d \<in> set ds. \<not> equal l x d" by (auto simp: dropWhile_eq_Nil_conv)
    then have "remove_elem x l h = None" using gv by (simp add: remove_elem_def)
    then show ?thesis using none by (simp only: if_False ball_simps bex_simps) auto
  next
    case (Cons d vs)
    have ds: "ds = us @ d # vs" using Cons takeWhile_dropWhile_id [of "\<lambda>d. \<not> equal l x d" ds] by (simp add: us_def)
    have us: "\<forall>u \<in> set us. \<not> equal l x u" by (auto simp: us_def dest: set_takeWhileD)
    have d: "equal l x d" using hd_dropWhile [of "\<lambda>d. \<not> equal l x d" ds] Cons by simp
    define k where "k = length us"
    have k: "k < length xs" using n(6) ds by (simp add: k_def)
    then have xs: "xs = take k xs @ xs ! k # drop (Suc k) xs" by (rule id_take_nth_drop)
    have ex: "\<exists>d \<in> set ds. equal l x d" using ds d by auto
    then have "remove_elem x l h = unlink (Some (xs ! k)) l h" using gv by (auto simp: remove_elem_def k_def us_def)
    moreover have "\<exists>l' h'. unlink (Some (xs ! k)) l h = Some (d, l', h') \<and> llist_rep h' l' (us @ vs) \<and> equal l' = equal l"
      using n ds xs k by (intro unlink_rep [OF n(1), where xs = "take k xs" and ys = "drop (Suc k) xs"]) (simp_all add: k_def)
    ultimately have "\<exists>us d vs l' h'. ds = us @ d # vs \<and> (\<forall>u \<in> set us. \<not> equal l x u) \<and> equal l x d \<and>
        remove_elem x l h = Some (d, l', h') \<and> llist_rep h' l' (us @ vs)"
      using ds us d by metis
    then show ?thesis using ex by (simp only: if_True)
  qed
qed

theorem remove_elem_first_witness:
  "\<exists>l h. llist_rep h l [5 :: nat] \<and> remove_elem 6 l h = None \<and> (\<exists>l' h'. remove_elem 5 l h = Some (5, l', h') \<and> llist_rep h' l' [])"
proof -
  obtain l0 h0 where i: "list_init (=) (empty_nodes :: nat nodes) = Some (l0, h0)" "llist_rep h0 l0 []" "equal l0 = (=)"
    using list_init_rep [OF empty_nodes_ok, of "(=)"] by blast
  then obtain l h where r: "llist_rep h l [5 :: nat]" "equal l = (=)" using add_tail_rep [of h0 l0 "[]" "5 :: nat"] by auto
  then show ?thesis using remove_elem_first [OF r(1), of 5] remove_elem_first [OF r(1), of 6] by (auto simp: Cons_eq_append_conv)
qed

end
