(* ===== verification/Bitmap.thy ===== *)
theory Bitmap
  imports Prelude
begin

text \<open>
  The bitmap of \<open>src/a3/fs/bitmap.c\<close>: an array of bits kept in an array of 64-bit elements
  (\<open>unsigned long\<close> on the 64-bit targets the shell is built for).

  The model keeps the two fields of \<open>struct bitmap\<close>. A function that reads or writes the element
  array outside of its bounds has undefined behaviour in C and returns \<open>None\<close> here. An
  \<open>ASSERT\<close> only prints a message (\<open>debug_panic\<close> returns), so it has no effect on
  the model; the lemmas state the condition of each assertion as a premise where the code
  relies on it. Memory allocation succeeds.

  The abstraction \<open>bitmap_bits\<close> reads a bitmap as a list of booleans. The locale
  \<open>bit_array\<close> is the interface between the single-bit operations and the
  loops built on them; it is interpreted on the operations of the model.
\<close>

subsection \<open>State and helpers\<close>

record bitmap =
  bit_cnt :: nat
  bits :: "64 word list"

definition ELEM_BITS :: nat where
  "ELEM_BITS = 64"

definition BITMAP_ERROR :: nat where
  "BITMAP_ERROR = 4294967295"

definition elem_idx :: "nat \<Rightarrow> nat" where
  "elem_idx bit_idx = bit_idx div ELEM_BITS"

definition bit_mask :: "nat \<Rightarrow> 64 word" where
  "bit_mask bit_idx = push_bit (bit_idx mod ELEM_BITS) 1"

definition elem_cnt :: "nat \<Rightarrow> nat" where
  "elem_cnt n = DIV_ROUND_UP n ELEM_BITS"

definition byte_cnt :: "nat \<Rightarrow> nat" where
  "byte_cnt n = 8 * elem_cnt n"

definition last_mask :: "bitmap \<Rightarrow> 64 word" where
  "last_mask b =
     (let last_bits = bit_cnt b mod ELEM_BITS
      in if last_bits \<noteq> 0 then push_bit last_bits 1 - 1 else - 1)"

subsection \<open>Setting and testing single bits\<close>

definition bitmap_size :: "bitmap \<Rightarrow> nat" where
  "bitmap_size b = bit_cnt b"

definition bitmap_get_bits :: "bitmap \<Rightarrow> 64 word list" where
  "bitmap_get_bits b = bits b"

definition bitmap_mark :: "bitmap \<Rightarrow> nat \<Rightarrow> bitmap option" where
  "bitmap_mark b bit_idx = do {
     let idx = elem_idx bit_idx;
     let mask = bit_mask bit_idx;
     e \<leftarrow> arr_get (bits b) idx;
     es \<leftarrow> arr_set (bits b) idx (e OR mask);
     Some (b\<lparr>bits := es\<rparr>)
   }"

definition bitmap_reset :: "bitmap \<Rightarrow> nat \<Rightarrow> bitmap option" where
  "bitmap_reset b bit_idx = do {
     let idx = elem_idx bit_idx;
     let mask = bit_mask bit_idx;
     e \<leftarrow> arr_get (bits b) idx;
     es \<leftarrow> arr_set (bits b) idx (e AND NOT mask);
     Some (b\<lparr>bits := es\<rparr>)
   }"

definition bitmap_flip :: "bitmap \<Rightarrow> nat \<Rightarrow> bitmap option" where
  "bitmap_flip b bit_idx = do {
     let idx = elem_idx bit_idx;
     let mask = bit_mask bit_idx;
     e \<leftarrow> arr_get (bits b) idx;
     es \<leftarrow> arr_set (bits b) idx (e XOR mask);
     Some (b\<lparr>bits := es\<rparr>)
   }"

definition bitmap_set :: "bitmap \<Rightarrow> nat \<Rightarrow> bool \<Rightarrow> bitmap option" where
  "bitmap_set b idx v = (if v then bitmap_mark b idx else bitmap_reset b idx)"

definition bitmap_test :: "bitmap \<Rightarrow> nat \<Rightarrow> bool option" where
  "bitmap_test b idx = do {
     e \<leftarrow> arr_get (bits b) (elem_idx idx);
     Some (e AND bit_mask idx \<noteq> 0)
   }"

subsection \<open>Setting and testing multiple bits\<close>

definition bitmap_set_multiple :: "bitmap \<Rightarrow> nat \<Rightarrow> nat \<Rightarrow> bool \<Rightarrow> bitmap option" where
  "bitmap_set_multiple b start cnt v = for_range 0 cnt (\<lambda>i b. bitmap_set b (start + i) v) b"

definition bitmap_set_all :: "bitmap \<Rightarrow> bool \<Rightarrow> bitmap option" where
  "bitmap_set_all b v = bitmap_set_multiple b 0 (bitmap_size b) v"

definition bitmap_count :: "bitmap \<Rightarrow> nat \<Rightarrow> nat \<Rightarrow> bool \<Rightarrow> nat option" where
  "bitmap_count b start cnt v =
     for_range 0 cnt
       (\<lambda>i value_cnt. do {
          t \<leftarrow> bitmap_test b (start + i);
          Some (if t = v then value_cnt + 1 else value_cnt)
        }) 0"

definition bitmap_contains :: "bitmap \<Rightarrow> nat \<Rightarrow> nat \<Rightarrow> bool \<Rightarrow> bool option" where
  "bitmap_contains b start cnt v = do {
     hit \<leftarrow> first_range 0 cnt (\<lambda>i. do { t \<leftarrow> bitmap_test b (start + i); Some (t = v) });
     Some (hit \<noteq> None)
   }"

definition bitmap_any :: "bitmap \<Rightarrow> nat \<Rightarrow> nat \<Rightarrow> bool option" where
  "bitmap_any b start cnt = bitmap_contains b start cnt True"

definition bitmap_none :: "bitmap \<Rightarrow> nat \<Rightarrow> nat \<Rightarrow> bool option" where
  "bitmap_none b start cnt = map_option Not (bitmap_contains b start cnt True)"

definition bitmap_all :: "bitmap \<Rightarrow> nat \<Rightarrow> nat \<Rightarrow> bool option" where
  "bitmap_all b start cnt = map_option Not (bitmap_contains b start cnt False)"

subsection \<open>Finding set or unset bits\<close>

definition bitmap_scan :: "bitmap \<Rightarrow> nat \<Rightarrow> nat \<Rightarrow> bool \<Rightarrow> nat option" where
  "bitmap_scan b start cnt v =
     (if cnt \<le> bit_cnt b then do {
        let last = bit_cnt b - cnt;
        hit \<leftarrow> first_range start (last + 1)
                 (\<lambda>i. map_option Not (bitmap_contains b i cnt (\<not> v)));
        Some (case hit of Some i \<Rightarrow> i | None \<Rightarrow> BITMAP_ERROR)
      }
      else Some BITMAP_ERROR)"

definition bitmap_scan_and_flip :: "bitmap \<Rightarrow> nat \<Rightarrow> nat \<Rightarrow> bool \<Rightarrow> (nat \<times> bitmap) option" where
  "bitmap_scan_and_flip b start cnt v = do {
     idx \<leftarrow> bitmap_scan b start cnt v;
     b' \<leftarrow> (if idx \<noteq> BITMAP_ERROR then bitmap_set_multiple b idx cnt (\<not> v) else Some b);
     Some (idx, b')
   }"

subsection \<open>Creation\<close>

definition bitmap_create :: "nat \<Rightarrow> bitmap option" where
  "bitmap_create n =
     bitmap_set_all \<lparr>bit_cnt = n, bits = replicate (elem_cnt n) 0\<rparr> False"

text \<open>
  \<open>bitmap_create_in_buf\<close> places the elements in storage the caller supplies; \<open>elems\<close> is
  what that storage holds behind the \<open>struct bitmap\<close> header.
\<close>

definition bitmap_create_in_buf :: "nat \<Rightarrow> 64 word list \<Rightarrow> bitmap option" where
  "bitmap_create_in_buf n elems = bitmap_set_all \<lparr>bit_cnt = n, bits = elems\<rparr> False"

text \<open>\<open>bitmap_create_from_buf\<close> copies \<open>byte_cnt n\<close> bytes over the elements.\<close>

definition bitmap_create_from_buf :: "nat \<Rightarrow> byte list \<Rightarrow> bitmap option" where
  "bitmap_create_from_buf n buf = do {
     b \<leftarrow> bitmap_create n;
     if length buf < byte_cnt n then None
     else Some (b\<lparr>bits := le_words 8 (take (byte_cnt n) buf)\<rparr>)
   }"

text \<open>\<open>sizeof(struct bitmap)\<close> is 16: a \<open>size_t\<close> and a pointer.\<close>

definition bitmap_buf_size :: "nat \<Rightarrow> nat" where
  "bitmap_buf_size n = 16 + byte_cnt n"

definition bitmap_file_size :: "bitmap \<Rightarrow> nat" where
  "bitmap_file_size b = byte_cnt (bit_cnt b)"

text \<open>
  The memory image of the elements, which \<open>bitmap_write\<close> stores in a file, and the two
  assignments \<open>bitmap_read\<close> makes with the bytes it gets back.
\<close>

definition bitmap_image :: "bitmap \<Rightarrow> byte list" where
  "bitmap_image b = concat (map (le_bytes 8) (bits b))"

definition bitmap_load :: "bitmap \<Rightarrow> byte list \<Rightarrow> bitmap option" where
  "bitmap_load b bs = do {
     let es = le_words 8 bs;
     let k = elem_cnt (bit_cnt b) - 1;
     e \<leftarrow> arr_get es k;
     es' \<leftarrow> arr_set es k (e AND last_mask b);
     Some (b\<lparr>bits := es'\<rparr>)
   }"

subsection \<open>Abstraction\<close>

definition bitmap_inv :: "bitmap \<Rightarrow> bool" where
  "bitmap_inv b \<longleftrightarrow> length (bits b) = elem_cnt (bit_cnt b)"

definition bval :: "bitmap \<Rightarrow> nat \<Rightarrow> bool" where
  "bval b i = bit (bits b ! (i div 64)) (i mod 64)"

definition bitmap_bits :: "bitmap \<Rightarrow> bool list" where
  "bitmap_bits b = map (bval b) [0..<bit_cnt b]"

lemmas bitmap_op_defs = bitmap_mark_def bitmap_reset_def bitmap_flip_def bitmap_test_def
  elem_idx_def bit_mask_def ELEM_BITS_def

lemma length_bitmap_bits [simp]: "length (bitmap_bits b) = bit_cnt b"
  by (simp add: bitmap_bits_def)

lemma nth_bitmap_bits [simp]: "i < bit_cnt b \<Longrightarrow> bitmap_bits b ! i = bval b i"
  by (simp add: bitmap_bits_def)

lemma bitmap_inv_elem: "bitmap_inv b \<Longrightarrow> i < bit_cnt b \<Longrightarrow> i div 64 < length (bits b)"
  by (simp add: bitmap_inv_def elem_cnt_def ELEM_BITS_def DIV_ROUND_UP_less)

lemma bit_mask_bit: "bit (bit_mask i) k \<longleftrightarrow> k = i mod 64"
  by (auto simp: bit_mask_def ELEM_BITS_def bit_simps)

lemma and_bit_mask: "(w AND bit_mask i \<noteq> 0) = bit w (i mod 64)"
proof -
  have "(w AND bit_mask i \<noteq> 0) \<longleftrightarrow> (\<exists>k. bit (w AND bit_mask i) k)"
    by (metis bit_0_eq bit_eq_iff bot_apply bot_bool_def)
  then show ?thesis by (auto simp: bit_and_iff bit_mask_bit)
qed

lemma div_mod_64_eq: "(j div 64 = i div 64 \<and> j mod 64 = i mod 64) \<longleftrightarrow> j = (i::nat)"
  by (metis div_mult_mod_eq)

lemma bitmap_test_bval:
  "bitmap_inv b \<Longrightarrow> i < bit_cnt b \<Longrightarrow> bitmap_test b i = Some (bval b i)"
  using bitmap_inv_elem [of b i]
  by (simp add: bitmap_test_def elem_idx_def ELEM_BITS_def and_bit_mask bval_def)

text \<open>Every single-bit update changes exactly one bit of the abstraction.\<close>

lemma bval_update:
  assumes "i div 64 < length (bits b)"
    and "\<And>k. k < 64 \<Longrightarrow> bit w k = (if k = i mod 64 then v else bit (bits b ! (i div 64)) k)"
  shows "bval (b\<lparr>bits := (bits b)[i div 64 := w]\<rparr>) j = (if j = i then v else bval b j)"
proof (cases "j div 64 = i div 64")
  case True
  then have "(j = i) = (j mod 64 = i mod 64)" using div_mod_64_eq [of j i] by blast
  with True assms(1) show ?thesis by (simp add: bval_def assms(2))
next
  case False
  then have "j \<noteq> i" by auto
  with False show ?thesis by (simp add: bval_def)
qed

lemma bitmap_bits_update:
  assumes "\<And>j. bval b' j = (if j = i then v else bval b j)" and "bit_cnt b' = bit_cnt b"
  shows "bitmap_bits b' = (bitmap_bits b)[i := v]"
  by (rule nth_equalityI) (auto simp: assms nth_list_update)

lemma bitmap_single_update:
  assumes "bitmap_inv b" and "i < bit_cnt b"
    and "r = Some (b\<lparr>bits := (bits b)[i div 64 := w]\<rparr>)"
    and "\<And>k. k < 64 \<Longrightarrow> bit w k = (if k = i mod 64 then v else bit (bits b ! (i div 64)) k)"
  shows "\<exists>b'. r = Some b' \<and> bitmap_inv b' \<and> bitmap_bits b' = (bitmap_bits b)[i := v]"
proof -
  have len: "i div 64 < length (bits b)" using assms(1,2) by (rule bitmap_inv_elem)
  have "bitmap_bits (b\<lparr>bits := (bits b)[i div 64 := w]\<rparr>) = (bitmap_bits b)[i := v]"
    by (rule bitmap_bits_update) (simp_all add: bval_update [OF len assms(4)])
  with assms(1,3) show ?thesis by (simp add: bitmap_inv_def)
qed

lemma bitmap_mark_correct:
  assumes "bitmap_inv b" and "i < bit_cnt b"
  shows "\<exists>b'. bitmap_mark b i = Some b' \<and> bitmap_inv b' \<and> bitmap_bits b' = (bitmap_bits b)[i := True]"
  using bitmap_inv_elem [OF assms]
  by (intro bitmap_single_update [OF assms, where w = "bits b ! (i div 64) OR bit_mask i"])
    (auto simp: bitmap_mark_def elem_idx_def ELEM_BITS_def Let_def bit_or_iff bit_mask_bit)

lemma bitmap_reset_correct:
  assumes "bitmap_inv b" and "i < bit_cnt b"
  shows "\<exists>b'. bitmap_reset b i = Some b' \<and> bitmap_inv b' \<and> bitmap_bits b' = (bitmap_bits b)[i := False]"
  using bitmap_inv_elem [OF assms]
  by (intro bitmap_single_update [OF assms, where w = "bits b ! (i div 64) AND NOT (bit_mask i)"])
    (auto simp: bitmap_reset_def elem_idx_def ELEM_BITS_def Let_def bit_and_iff bit_not_iff bit_mask_bit)

lemma bitmap_flip_correct:
  assumes "bitmap_inv b" and "i < bit_cnt b"
  shows "\<exists>b'. bitmap_flip b i = Some b' \<and> bitmap_inv b' \<and>
           bitmap_bits b' = (bitmap_bits b)[i := \<not> bitmap_bits b ! i]"
  using bitmap_inv_elem [OF assms] assms(2)
  by (intro bitmap_single_update [OF assms, where w = "bits b ! (i div 64) XOR bit_mask i"])
    (auto simp: bitmap_flip_def elem_idx_def ELEM_BITS_def Let_def bit_xor_iff bit_mask_bit bval_def)

lemma bitmap_set_correct:
  assumes "bitmap_inv b" and "i < bit_cnt b"
  shows "\<exists>b'. bitmap_set b i v = Some b' \<and> bitmap_inv b' \<and> bitmap_bits b' = (bitmap_bits b)[i := v]"
  using bitmap_mark_correct [OF assms] bitmap_reset_correct [OF assms]
  by (cases v) (simp_all add: bitmap_set_def)

subsection \<open>The interface of an array of bits\<close>

text \<open>
  A bit array offers a test and an update of one bit; \<open>bits_of\<close> is the list of booleans it
  stands for. Everything the multi-bit loops do follows from these two laws.
\<close>

locale bit_array =
  fixes test :: "'b \<Rightarrow> nat \<Rightarrow> bool option"
    and upd :: "'b \<Rightarrow> nat \<Rightarrow> bool \<Rightarrow> 'b option"
    and bits_of :: "'b \<Rightarrow> bool list"
    and inv :: "'b \<Rightarrow> bool"
  assumes test_law: "inv b \<Longrightarrow> i < length (bits_of b) \<Longrightarrow> test b i = Some (bits_of b ! i)"
    and upd_law: "inv b \<Longrightarrow> i < length (bits_of b) \<Longrightarrow>
      \<exists>b'. upd b i v = Some b' \<and> inv b' \<and> bits_of b' = (bits_of b)[i := v]"
begin

definition fill :: "bool list \<Rightarrow> nat \<Rightarrow> nat \<Rightarrow> bool \<Rightarrow> bool list" where
  "fill bs start n v = take start bs @ replicate n v @ drop (start + n) bs"

lemma fill_Suc:
  "start + n < length bs \<Longrightarrow> (fill bs start n v)[start + n := v] = fill bs start (Suc n) v"
  by (auto simp: fill_def list_update_append replicate_append_same [symmetric] upd_conv_take_nth_drop
      drop_Suc min_def Cons_nth_drop_Suc [symmetric] split: nat.split)

lemma set_loop:
  assumes "inv b" and "start + cnt \<le> length (bits_of b)"
  shows "\<exists>b'. for_range 0 cnt (\<lambda>i b. upd b (start + i) v) b = Some b' \<and> inv b' \<and>
           bits_of b' = fill (bits_of b) start cnt v"
proof -
  let ?P = "\<lambda>i t. inv t \<and> bits_of t = fill (bits_of b) start i v"
  have "\<exists>b'. for_range 0 cnt (\<lambda>i b. upd b (start + i) v) b = Some b' \<and> ?P cnt b'"
  proof (rule for_range_inv)
    show "?P 0 b" using assms by (simp add: fill_def)
    show "\<exists>t'. upd t (start + j) v = Some t' \<and> ?P (Suc j) t'" if "j < cnt" "?P j t" for j t
      using upd_law [of t "start + j" v] that assms(2) fill_Suc [of start j "bits_of b" v]
      by (auto simp: fill_def)
  qed simp
  then show ?thesis by blast
qed

lemma contains_loop:
  assumes "inv b" and "start + cnt \<le> length (bits_of b)"
  shows "first_range 0 cnt (\<lambda>i. do { t \<leftarrow> test b (start + i); Some (t = v) }) =
           Some (find (\<lambda>i. bits_of b ! (start + i) = v) [0..<cnt])"
  by (rule first_range_find) (use assms in \<open>simp add: test_law\<close>)

lemma count_loop:
  assumes "inv b" and "start + cnt \<le> length (bits_of b)"
  shows "for_range 0 cnt
           (\<lambda>i n. do { t \<leftarrow> test b (start + i); Some (if t = v then n + 1 else n) }) 0 =
         Some (length (filter (\<lambda>x. x = v) (take cnt (drop start (bits_of b)))))"
proof -
  let ?P = "\<lambda>i n. n = length (filter (\<lambda>x. x = v) (take i (drop start (bits_of b))))"
  have "\<exists>n. for_range 0 cnt
           (\<lambda>i n. do { t \<leftarrow> test b (start + i); Some (if t = v then n + 1 else n) }) 0 = Some n \<and> ?P cnt n"
    by (rule for_range_inv) (use assms in \<open>auto simp: test_law take_Suc_conv_app_nth\<close>)
  then show ?thesis by blast
qed

end

interpretation bm: bit_array bitmap_test bitmap_set bitmap_bits bitmap_inv
  by unfold_locales (simp_all add: bitmap_test_bval bitmap_set_correct)

subsection \<open>The loops\<close>

lemma bitmap_set_multiple_correct:
  assumes "bitmap_inv b" and "start + cnt \<le> bit_cnt b"
  shows "\<exists>b'. bitmap_set_multiple b start cnt v = Some b' \<and> bitmap_inv b' \<and>
           bitmap_bits b' = take start (bitmap_bits b) @ replicate cnt v @ drop (start + cnt) (bitmap_bits b)"
  using bm.set_loop [of b start cnt v] assms by (simp add: bitmap_set_multiple_def bm.fill_def)

lemma bitmap_contains_correct:
  assumes "bitmap_inv b" and "start + cnt \<le> bit_cnt b"
  shows "bitmap_contains b start cnt v = Some (v \<in> set (take cnt (drop start (bitmap_bits b))))"
proof -
  have "(find (\<lambda>i. bitmap_bits b ! (start + i) = v) [0..<cnt] \<noteq> None) \<longleftrightarrow>
          (\<exists>i < cnt. bitmap_bits b ! (start + i) = v)"
    by (auto simp: find_None_iff simp del: nth_bitmap_bits)
  also have "\<dots> \<longleftrightarrow> v \<in> set (take cnt (drop start (bitmap_bits b)))"
    using assms(2) by (auto simp: in_set_conv_nth simp del: nth_bitmap_bits)
  finally show ?thesis
    using bm.contains_loop [of b start cnt v] assms by (simp add: bitmap_contains_def)
qed

lemma replicate_iff_notin: "length xs = n \<Longrightarrow> ((\<not> v) \<notin> set xs) = (xs = replicate n v)"
  by (induction xs arbitrary: n) auto

lemma bitmap_all_correct:
  assumes "bitmap_inv b" and "start + cnt \<le> bit_cnt b"
  shows "bitmap_all b start cnt = Some (take cnt (drop start (bitmap_bits b)) = replicate cnt True)"
  using replicate_iff_notin [of "take cnt (drop start (bitmap_bits b))" cnt True] assms
  by (simp add: bitmap_all_def bitmap_contains_correct)

lemma bitmap_count_correct:
  assumes "bitmap_inv b" and "start + cnt \<le> bit_cnt b"
  shows "bitmap_count b start cnt v =
           Some (length (filter (\<lambda>x. x = v) (take cnt (drop start (bitmap_bits b)))))"
  using bm.count_loop [of b start cnt v] assms by (simp add: bitmap_count_def)

subsection \<open>Scanning\<close>

text \<open>A run of \<open>cnt\<close> bits equal to \<open>v\<close> at \<open>i\<close>.\<close>

definition run_at :: "bool list \<Rightarrow> nat \<Rightarrow> bool \<Rightarrow> nat \<Rightarrow> bool" where
  "run_at bs cnt v i \<longleftrightarrow> i + cnt \<le> length bs \<and> take cnt (drop i bs) = replicate cnt v"

lemma run_at_contains:
  assumes "bitmap_inv b" and "i + cnt \<le> bit_cnt b"
  shows "map_option Not (bitmap_contains b i cnt (\<not> v)) = Some (run_at (bitmap_bits b) cnt v i)"
  using replicate_iff_notin [of "take cnt (drop i (bitmap_bits b))" cnt v] assms
  by (simp add: bitmap_contains_correct run_at_def)

lemma bitmap_scan_find:
  assumes "bitmap_inv b"
  shows "bitmap_scan b start cnt v =
     Some (if cnt \<le> bit_cnt b
           then (case find (run_at (bitmap_bits b) cnt v) [start..<bit_cnt b - cnt + 1] of
                   Some i \<Rightarrow> i | None \<Rightarrow> BITMAP_ERROR)
           else BITMAP_ERROR)"
proof (cases "cnt \<le> bit_cnt b")
  case True
  have "first_range start (bit_cnt b - cnt + 1)
          (\<lambda>i. map_option Not (bitmap_contains b i cnt (\<not> v))) =
        Some (find (run_at (bitmap_bits b) cnt v) [start..<bit_cnt b - cnt + 1])"
    by (rule first_range_find) (use True assms in \<open>simp add: run_at_contains\<close>)
  with True show ?thesis by (simp add: bitmap_scan_def)
next
  case False
  then show ?thesis by (simp add: bitmap_scan_def)
qed

lemma bitmap_scan_hit:
  assumes "bitmap_inv b" and "bitmap_scan b start cnt v = Some i" and "i \<noteq> BITMAP_ERROR"
  shows "start \<le> i \<and> run_at (bitmap_bits b) cnt v i \<and>
           (\<forall>j. start \<le> j \<longrightarrow> j < i \<longrightarrow> \<not> run_at (bitmap_bits b) cnt v j)"
  using assms
  by (auto simp: bitmap_scan_find find_upt_Some split: if_splits option.splits simp del: upt_Suc)

lemma bitmap_scan_miss:
  assumes "bitmap_inv b" and "bit_cnt b < BITMAP_ERROR"
  shows "bitmap_scan b start cnt v = Some BITMAP_ERROR \<longleftrightarrow>
           (\<forall>j. start \<le> j \<longrightarrow> \<not> run_at (bitmap_bits b) cnt v j)"
proof (cases "cnt \<le> bit_cnt b")
  case False
  then show ?thesis using assms by (auto simp: bitmap_scan_find run_at_def)
next
  case True
  show ?thesis
  proof (cases "find (run_at (bitmap_bits b) cnt v) [start..<bit_cnt b - cnt + 1]")
    case None
    then have "\<not> run_at (bitmap_bits b) cnt v j" if "start \<le> j" for j
      using that by (cases "j < bit_cnt b - cnt + 1") (auto simp: find_upt_None run_at_def simp del: upt_Suc)
    with None True assms show ?thesis by (simp add: bitmap_scan_find)
  next
    case (Some i)
    then have "start \<le> i" "run_at (bitmap_bits b) cnt v i" "i < bit_cnt b - cnt + 1"
      by (simp_all add: find_upt_Some del: upt_Suc)
    moreover have "i \<noteq> BITMAP_ERROR" using \<open>i < bit_cnt b - cnt + 1\<close> assms(2) by linarith
    ultimately show ?thesis using Some True assms by (auto simp: bitmap_scan_find)
  qed
qed

lemma bitmap_scan_total: "bitmap_inv b \<Longrightarrow> \<exists>i. bitmap_scan b start cnt v = Some i"
  by (simp add: bitmap_scan_find)

lemma bitmap_scan_and_flip_correct:
  assumes "bitmap_inv b"
  obtains idx b' where "bitmap_scan_and_flip b start cnt v = Some (idx, b')"
    and "bitmap_inv b'" and "bit_cnt b' = bit_cnt b"
    and "idx \<noteq> BITMAP_ERROR \<Longrightarrow> start \<le> idx \<and> run_at (bitmap_bits b) cnt v idx \<and>
      bitmap_bits b' = take idx (bitmap_bits b) @ replicate cnt (\<not> v) @ drop (idx + cnt) (bitmap_bits b)"
    and "idx = BITMAP_ERROR \<Longrightarrow> b' = b"
proof -
  obtain i where i: "bitmap_scan b start cnt v = Some i"
    using bitmap_scan_total [OF assms] by blast
  show ?thesis
  proof (cases "i = BITMAP_ERROR")
    case True
    with i assms show ?thesis by (intro that [of i b]) (simp_all add: bitmap_scan_and_flip_def)
  next
    case False
    have hit: "start \<le> i" "run_at (bitmap_bits b) cnt v i"
      using bitmap_scan_hit [OF assms i False] by simp_all
    then obtain b' where b': "bitmap_set_multiple b i cnt (\<not> v) = Some b'" "bitmap_inv b'"
      "bitmap_bits b' = take i (bitmap_bits b) @ replicate cnt (\<not> v) @ drop (i + cnt) (bitmap_bits b)"
      using bitmap_set_multiple_correct [OF assms, of i cnt "\<not> v"] by (auto simp: run_at_def)
    have "i + cnt \<le> bit_cnt b" using hit(2) by (simp add: run_at_def)
    then have "length (bitmap_bits b') = bit_cnt b" unfolding b'(3) by simp
    then have "bit_cnt b' = bit_cnt b" by simp
    with False i b' hit show ?thesis by (intro that [of i b']) (simp_all add: bitmap_scan_and_flip_def)
  qed
qed

text \<open>The allocation of a single bit, as the free map uses it.\<close>

lemma run_at_one [simp]: "run_at bs (Suc 0) v i \<longleftrightarrow> i < length bs \<and> bs ! i = v"
  by (auto simp: run_at_def take_Suc hd_drop_conv_nth)

lemma bitmap_take_one:
  assumes "bitmap_inv b" and "bit_cnt b < BITMAP_ERROR"
  shows "\<exists>idx b'. bitmap_scan_and_flip b 0 1 False = Some (idx, b') \<and> bitmap_inv b' \<and> bit_cnt b' = bit_cnt b \<and>
    (if idx = BITMAP_ERROR then b' = b \<and> (\<forall>i < bit_cnt b. bval b i)
     else idx < bit_cnt b \<and> \<not> bval b idx \<and> (\<forall>i < bit_cnt b. bval b' i \<longleftrightarrow> i = idx \<or> bval b i))"
proof -
  obtain idx b' where sf: "bitmap_scan_and_flip b 0 1 False = Some (idx, b')"
      "bitmap_inv b'" "bit_cnt b' = bit_cnt b"
      "idx \<noteq> BITMAP_ERROR \<Longrightarrow> 0 \<le> idx \<and> run_at (bitmap_bits b) 1 False idx \<and>
        bitmap_bits b' = take idx (bitmap_bits b) @ replicate 1 (\<not> False) @ drop (idx + 1) (bitmap_bits b)"
      "idx = BITMAP_ERROR \<Longrightarrow> b' = b"
    using bitmap_scan_and_flip_correct [OF assms(1)] by blast
  show ?thesis
  proof (cases "idx = BITMAP_ERROR")
    case True
    then have "bitmap_scan b 0 1 False = Some BITMAP_ERROR"
      using sf(1) by (auto simp: bitmap_scan_and_flip_def split: bind_splits)
    then have "\<not> run_at (bitmap_bits b) 1 False i" for i using bitmap_scan_miss [OF assms] by blast
    then have "bval b i" if "i < bit_cnt b" for i using that by (auto simp: run_at_one)
    then show ?thesis using True sf by auto
  next
    case False
    then have r: "run_at (bitmap_bits b) 1 False idx" and
      u: "bitmap_bits b' = take idx (bitmap_bits b) @ replicate 1 (\<not> False) @ drop (idx + 1) (bitmap_bits b)"
      using sf(4) by blast+
    have i: "idx < bit_cnt b" "\<not> bval b idx" using r by (auto simp: run_at_one)
    have "bval b' j \<longleftrightarrow> j = idx \<or> bval b j" if "j < bit_cnt b" for j
    proof -
      have "bval b' j = bitmap_bits b' ! j" using that sf(3) by simp
      also have "bitmap_bits b' = (bitmap_bits b)[idx := True]"
        using u i by (simp add: upd_conv_take_nth_drop)
      finally show ?thesis using that i(1) by (auto simp: nth_list_update)
    qed
    then show ?thesis using False sf i by auto
  qed
qed

subsection \<open>Creation and the image on disk\<close>

lemma byte_cnt_pos: "0 < n \<Longrightarrow> 0 < byte_cnt n"
  by (simp add: byte_cnt_def elem_cnt_def DIV_ROUND_UP_def ELEM_BITS_def div_greater_zero_iff)

lemma bitmap_create_correct:
  "\<exists>b. bitmap_create n = Some b \<and> bitmap_inv b \<and> bit_cnt b = n \<and> bitmap_bits b = replicate n False"
proof -
  let ?b0 = "\<lparr>bit_cnt = n, bits = replicate (elem_cnt n) 0\<rparr>"
  have "bitmap_inv ?b0" by (simp add: bitmap_inv_def)
  then obtain b where b: "bitmap_set_multiple ?b0 0 n False = Some b" "bitmap_inv b"
      "bitmap_bits b = replicate n False"
    using bitmap_set_multiple_correct [of ?b0 0 n False] by auto
  then have "length (bitmap_bits b) = n" by simp
  then have "bit_cnt b = n" by simp
  with b show ?thesis by (simp add: bitmap_create_def bitmap_set_all_def bitmap_size_def)
qed

lemma bitmap_set_all_correct:
  assumes "bitmap_inv b"
  shows "\<exists>b'. bitmap_set_all b v = Some b' \<and> bitmap_inv b' \<and> bitmap_bits b' = replicate (bit_cnt b) v"
  using bitmap_set_multiple_correct [OF assms, of 0 "bit_cnt b" v]
  by (simp add: bitmap_set_all_def bitmap_size_def)

lemma length_bitmap_image [layout_simps]:
  "bitmap_inv b \<Longrightarrow> length (bitmap_image b) = byte_cnt (bit_cnt b)"
  by (simp add: bitmap_image_def bitmap_inv_def byte_cnt_def)

lemma bit_last_mask:
  "bit (last_mask b) k \<longleftrightarrow> k < 64 \<and> (bit_cnt b mod 64 \<noteq> 0 \<longrightarrow> k < bit_cnt b mod 64)"
  by (auto simp: last_mask_def Let_def ELEM_BITS_def mask_eq_exp_minus_1 [symmetric]
      bit_mask_iff dest: bit_imp_le_length)

lemma last_elem_bit:
  fixes i n :: nat
  assumes "i < n" and "i div 64 = DIV_ROUND_UP n 64 - 1" and "n mod 64 \<noteq> 0"
  shows "i mod 64 < n mod 64"
proof -
  have n: "64 * (n div 64) + n mod 64 = n" and i: "64 * (i div 64) + i mod 64 = i"
    by (simp_all only: mult_div_mod_eq)
  obtain r where r: "n mod 64 = Suc r" using assms(3) not0_implies_Suc by blast
  have "n + 64 - 1 = r + 64 * (n div 64 + 1)" using n unfolding r by simp
  moreover have "r < 64" using mod_less_divisor [of 64 n] r by linarith
  ultimately have "DIV_ROUND_UP n 64 = n div 64 + 1" by (simp add: DIV_ROUND_UP_def)
  then have "i div 64 = n div 64" using assms(2) by simp
  with n i assms(1) show ?thesis by linarith
qed

lemma bitmap_load_image:
  assumes "bitmap_inv b" and "bit_cnt b0 = bit_cnt b" and "0 < bit_cnt b"
  shows "\<exists>b'. bitmap_load b0 (bitmap_image b) = Some b' \<and> bitmap_inv b' \<and> bitmap_bits b' = bitmap_bits b"
proof -
  let ?k = "elem_cnt (bit_cnt b) - 1"
  let ?b' = "b0\<lparr>bits := (bits b)[?k := bits b ! ?k AND last_mask b0]\<rparr>"
  have es: "le_words 8 (bitmap_image b) = bits b"
    by (simp add: bitmap_image_def le_words_concat)
  have len: "length (bits b) = elem_cnt (bit_cnt b)" using assms(1) by (simp add: bitmap_inv_def)
  have "0 < length (bits b)" using bitmap_inv_elem [OF assms(1,3)] by simp
  then have k: "?k < length (bits b)" using len by simp
  have "bval ?b' i = bval b i" if "i < bit_cnt b" for i
  proof (cases "i div 64 = ?k")
    case True
    then have "bit (last_mask b0) (i mod 64)"
      using last_elem_bit [of i "bit_cnt b"] that assms(2)
      by (auto simp: bit_last_mask elem_cnt_def ELEM_BITS_def)
    with True k show ?thesis by (simp add: bval_def bit_and_iff)
  next
    case False
    then show ?thesis by (simp add: bval_def)
  qed
  then have "bitmap_bits ?b' = bitmap_bits b"
    using assms(2) by (intro nth_equalityI) simp_all
  moreover have "bitmap_inv ?b'" using len assms(2) by (simp add: bitmap_inv_def)
  ultimately show ?thesis using k es assms(2) by (simp add: bitmap_load_def Let_def)
qed

lemma bitmap_create_from_buf_image:
  assumes "bitmap_inv b"
  shows "bitmap_create_from_buf (bit_cnt b) (bitmap_image b) = Some b"
proof -
  obtain c where c: "bitmap_create (bit_cnt b) = Some c" "bit_cnt c = bit_cnt b"
    using bitmap_create_correct by blast
  have "take (byte_cnt (bit_cnt b)) (bitmap_image b) = bitmap_image b"
    using length_bitmap_image [OF assms] by simp
  moreover have "le_words 8 (bitmap_image b) = bits b"
    by (simp add: bitmap_image_def le_words_concat)
  ultimately show ?thesis
    using c length_bitmap_image [OF assms] by (simp add: bitmap_create_from_buf_def)
qed

subsection \<open>Properties\<close>

text \<open>
  C34. \<open>bitmap_scan_and_flip\<close> is a first-fit allocator: it returns the first run of \<open>cnt\<close> bits
  equal to \<open>v\<close> at or after \<open>start\<close>, inverts exactly that run, and leaves the
  bitmap alone and returns \<open>BITMAP_ERROR\<close> when there is no such run. With \<open>cnt = 0\<close> every position of the
  bitmap is the start of such a run: \<open>start\<close> is returned, not 0 as the comment in \<open>bitmap.c\<close> says, and nothing changes.
\<close>

theorem bitmap_scan_and_flip_first_fit:
  assumes "bitmap_inv b" and "bit_cnt b < BITMAP_ERROR"
  shows "\<exists>idx b'. bitmap_scan_and_flip b start cnt v = Some (idx, b') \<and> bitmap_inv b' \<and> bit_cnt b' = bit_cnt b \<and>
    (if idx = BITMAP_ERROR then b' = b \<and> (\<forall>j \<ge> start. \<not> run_at (bitmap_bits b) cnt v j)
     else start \<le> idx \<and> run_at (bitmap_bits b) cnt v idx \<and>
       (\<forall>j. start \<le> j \<longrightarrow> j < idx \<longrightarrow> \<not> run_at (bitmap_bits b) cnt v j) \<and>
       bitmap_bits b' = take idx (bitmap_bits b) @ replicate cnt (\<not> v) @ drop (idx + cnt) (bitmap_bits b))"
proof -
  obtain idx b' where sf: "bitmap_scan_and_flip b start cnt v = Some (idx, b')"
      "bitmap_inv b'" "bit_cnt b' = bit_cnt b"
      "idx \<noteq> BITMAP_ERROR \<Longrightarrow> start \<le> idx \<and> run_at (bitmap_bits b) cnt v idx \<and>
        bitmap_bits b' = take idx (bitmap_bits b) @ replicate cnt (\<not> v) @ drop (idx + cnt) (bitmap_bits b)"
      "idx = BITMAP_ERROR \<Longrightarrow> b' = b"
    using bitmap_scan_and_flip_correct [OF assms(1)] by blast
  then have "bitmap_scan b start cnt v = Some idx"
    by (auto simp: bitmap_scan_and_flip_def split: bind_splits)
  then show ?thesis
    using sf bitmap_scan_hit [OF assms(1)] bitmap_scan_miss [OF assms] by (cases "idx = BITMAP_ERROR") auto
qed

theorem bitmap_scan_and_flip_first_fit_witness:
  "\<exists>idx b'. bitmap_scan_and_flip \<lparr>bit_cnt = 70, bits = [5, 0]\<rparr> 0 2 False = Some (idx, b') \<and> bitmap_inv b'"
  using bitmap_scan_and_flip_first_fit [of "\<lparr>bit_cnt = 70, bits = [5, 0]\<rparr>" 0 2 False]
  by (auto simp: bitmap_inv_def elem_cnt_def ELEM_BITS_def DIV_ROUND_UP_def BITMAP_ERROR_def)

text \<open>
  Writing the elements of a bitmap to a file and reading them back into a bitmap of the same
  size restores every bit, although \<open>bitmap_read\<close> masks the last element.
\<close>

theorem bitmap_image_round_trip:
  assumes "bitmap_inv b" and "bit_cnt b0 = bit_cnt b" and "0 < bit_cnt b"
  shows "length (bitmap_image b) = bitmap_file_size b \<and>
    (\<exists>b'. bitmap_load b0 (bitmap_image b) = Some b' \<and> bitmap_inv b' \<and> bitmap_bits b' = bitmap_bits b)"
  using bitmap_load_image [OF assms] length_bitmap_image [OF assms(1)]
  by (simp add: bitmap_file_size_def)

theorem bitmap_image_round_trip_witness:
  "\<exists>b'. bitmap_load \<lparr>bit_cnt = 70, bits = [0, 0]\<rparr> (bitmap_image \<lparr>bit_cnt = 70, bits = [5, 33]\<rparr>) = Some b' \<and>
     bitmap_bits b' = bitmap_bits \<lparr>bit_cnt = 70, bits = [5, 33]\<rparr>"
  using bitmap_image_round_trip [of "\<lparr>bit_cnt = 70, bits = [5, 33]\<rparr>" "\<lparr>bit_cnt = 70, bits = [0, 0]\<rparr>"]
  by (auto simp: bitmap_inv_def elem_cnt_def ELEM_BITS_def DIV_ROUND_UP_def)

text \<open>
  \<open>bitmap_count\<close> counts, \<open>bitmap_contains\<close> searches and \<open>bitmap_set_multiple\<close> fills exactly the bits
  from \<open>start\<close> to \<open>start + cnt\<close> of the bitmap, none of them leaves the element array, and the
  fill keeps every other bit.
\<close>

theorem bitmap_range_operations:
  assumes "bitmap_inv b" and "start + cnt \<le> bit_cnt b"
  shows "bitmap_count b start cnt v = Some (length (filter (\<lambda>x. x = v) (take cnt (drop start (bitmap_bits b))))) \<and>
    bitmap_contains b start cnt v = Some (v \<in> set (take cnt (drop start (bitmap_bits b)))) \<and>
    (\<exists>b'. bitmap_set_multiple b start cnt v = Some b' \<and> bitmap_inv b' \<and>
       bitmap_bits b' = take start (bitmap_bits b) @ replicate cnt v @ drop (start + cnt) (bitmap_bits b))"
  using bitmap_count_correct [OF assms] bitmap_contains_correct [OF assms]
    bitmap_set_multiple_correct [OF assms] by simp

theorem bitmap_range_operations_witness:
  "\<exists>b'. bitmap_set_multiple \<lparr>bit_cnt = 70, bits = [5, 0]\<rparr> 60 8 True = Some b' \<and> bitmap_inv b'"
  using bitmap_range_operations [of "\<lparr>bit_cnt = 70, bits = [5, 0]\<rparr>" 60 8 True]
  by (auto simp: bitmap_inv_def elem_cnt_def ELEM_BITS_def DIV_ROUND_UP_def)

end
