(* ===== verification/Debug.thy ===== *)
theory Debug
  imports Bitmap
begin

text \<open>
  The diagnostic output of \<open>src/a3/fs/debug.c\<close>: the hexadecimal dump that \<open>cat\<close> and \<open>bitmap_dump\<close> print, sizes for
  human readers, and the message of a panic, which does not stop anything. What is printed is the result, a string.
  Offsets are natural numbers with the wrap-around of \<open>uintptr_t\<close> written out.

  The dump is read back by \<open>dump_bytes\<close>, and its column of addresses by \<open>dump_addresses\<close>.
\<close>

subsection \<open>Hexadecimal numbers\<close>

definition hex_digit :: "nat \<Rightarrow> char" where
  "hex_digit d = char_of (if d < 10 then 48 + d else 87 + d)"

fun hex_digits :: "nat \<Rightarrow> string" where
  "hex_digits n = (if n < 16 then [hex_digit n] else hex_digits (n div 16) @ [hex_digit (n mod 16)])"

declare hex_digits.simps [simp del]

text \<open>The formats \<open>%08jx\<close> and \<open>%02hhx\<close>.\<close>

definition hex8 :: "nat \<Rightarrow> string" where
  "hex8 n = replicate (8 - length (hex_digits n)) CHR ''0'' @ hex_digits n"

definition hex2 :: "byte \<Rightarrow> string" where
  "hex2 b = [hex_digit (unat b div 16), hex_digit (unat b mod 16)]"

subsection \<open>The dump\<close>

text \<open>
  One line: the \<open>n\<close> bytes \<open>bs\<close> stand in the columns from \<open>start\<close> on. In the C locale the characters from the space to
  the tilde are printable.
\<close>

definition shown_char :: "byte \<Rightarrow> char" where
  "shown_char b = (if 32 \<le> unat b \<and> unat b \<le> 126 then char_of (unat b) else CHR ''.'')"

definition hex_field :: "nat \<Rightarrow> byte \<Rightarrow> string" where
  "hex_field i b = hex2 b @ [if i = 7 then CHR ''-'' else CHR '' '']"

definition hex_line :: "nat \<Rightarrow> byte list \<Rightarrow> bool \<Rightarrow> string" where
  "hex_line ofs bs ascii =
     (let start = ofs mod 16; n = length bs
      in hex8 (ROUND_DOWN ofs 16) @ ''  '' @ concat (replicate start ''   '') @
         concat (map (\<lambda>i. hex_field i (bs ! (i - start))) [start..<start + n]) @
         (if ascii
          then concat (replicate (16 - (start + n)) ''   '') @ ''|'' @ replicate start CHR '' '' @
               map (\<lambda>i. shown_char (bs ! (i - start))) [start..<start + n] @ replicate (16 - (start + n)) CHR '' '' @ ''|''
          else []) @ [CHR 0x0A])"

text \<open>The number of bytes on the line that starts at \<open>ofs\<close>.\<close>

definition line_bytes :: "nat \<Rightarrow> nat \<Rightarrow> nat" where
  "line_bytes ofs cnt = (if 16 - ofs mod 16 > cnt then cnt else 16 - ofs mod 16)"

function hex_dump :: "nat \<Rightarrow> byte list \<Rightarrow> bool \<Rightarrow> string" where
  "hex_dump ofs buf ascii =
     (if length buf > 0 then
        (let n = line_bytes ofs (length buf)
         in hex_line ofs (take n buf) ascii @ hex_dump ((ofs + n) mod 2 ^ 64) (drop n buf) ascii)
      else [])"
  by pat_completeness auto
termination
  by (relation "measure (\<lambda>(_, buf, _). length buf)") (auto simp: line_bytes_def)

declare hex_dump.simps [simp del]

text \<open>\<open>bitmap_dump\<close> reads as many bytes as the bits need.\<close>

definition bitmap_dump :: "bitmap \<Rightarrow> string option" where
  "bitmap_dump b =
     (if byte_cnt (bit_cnt b) \<le> length (bitmap_image b)
      then Some (hex_dump 0 (take (byte_cnt (bit_cnt b)) (bitmap_image b)) False) else None)"

subsection \<open>Sizes and panics\<close>

definition size_factors :: "string list" where
  "size_factors = [''bytes'', ''kB'', ''MB'', ''GB'', ''TB'']"

text \<open>The loop over the factors; the last one is followed by the null pointer.\<close>

fun scale_size :: "nat \<Rightarrow> string list \<Rightarrow> nat \<times> string list" where
  "scale_size sz (f # g # fs) = (if sz \<ge> 1024 then scale_size (sz div 1024) (g # fs) else (sz, f # g # fs))"
| "scale_size sz fs = (sz, fs)"

definition print_human_readable_size :: "64 word \<Rightarrow> string" where
  "print_human_readable_size sz =
     (if sz = 1 then ''1 byte''
      else (case scale_size (unat sz) size_factors of (n, fs) \<Rightarrow> dec_string n @ '' '' @ hd fs))"

text \<open>Only the format of the message is printed, not its arguments, and the function returns.\<close>

definition debug_panic :: "string \<Rightarrow> int \<Rightarrow> string \<Rightarrow> string \<Rightarrow> string" where
  "debug_panic file line function_name message =
     ''Kernel PANIC at '' @ file @ '':'' @ dec_int line @ '' in '' @ function_name @ ''(): '' @ message @ '' ''"

subsection \<open>Reading a dump\<close>

definition hex_value :: "char \<Rightarrow> nat" where
  "hex_value c = (let k = of_char c in if k < 58 then k - 48 else k - 87)"

definition hex_number :: "string \<Rightarrow> nat" where
  "hex_number cs = foldl (\<lambda>n c. 16 * n + hex_value c) 0 cs"

text \<open>The fields of three characters; a field that starts with a space is empty.\<close>

fun fields_bytes :: "string \<Rightarrow> byte list" where
  "fields_bytes (a # b # c # cs) = (if a = CHR '' '' then [] else [of_nat (hex_number [a, b])]) @ fields_bytes cs"
| "fields_bytes _ = []"

definition line_data :: "string \<Rightarrow> byte list" where
  "line_data l = fields_bytes (take 48 (drop 10 l))"

function lines_of :: "string \<Rightarrow> string list" where
  "lines_of cs = (if cs = [] then [] else takeWhile (\<lambda>c. c \<noteq> CHR 0x0A) cs # lines_of (tl (dropWhile (\<lambda>c. c \<noteq> CHR 0x0A) cs)))"
  by pat_completeness auto
termination
proof (relation "measure length", goal_cases)
  case (2 cs)
  have "length (dropWhile (\<lambda>c. c \<noteq> CHR 0x0A) cs) \<le> length cs" by (rule length_dropWhile_le)
  then show ?case using 2 by (cases cs) auto
qed simp

declare lines_of.simps [simp del]

definition dump_bytes :: "string \<Rightarrow> byte list" where
  "dump_bytes d = concat (map line_data (lines_of d))"

definition dump_addresses :: "string \<Rightarrow> nat list" where
  "dump_addresses d = map (\<lambda>l. hex_number (take 8 l)) (lines_of d)"

subsection \<open>Lemmas\<close>

lemma hex_digit_cases:
  assumes "d < 16"
  shows "hex_value (hex_digit d) = d" and "hex_digit d \<noteq> CHR '' ''" and "hex_digit d \<noteq> CHR 0x0A"
proof -
  have of: "of_char (hex_digit d) = (if d < 10 then 48 + d else 87 + d)" using assms by (simp add: hex_digit_def)
  then show "hex_value (hex_digit d) = d" using assms by (simp add: hex_value_def)
  show "hex_digit d \<noteq> CHR '' ''" "hex_digit d \<noteq> CHR 0x0A"
    using of by (auto split: if_splits dest!: arg_cong [where f = "of_char :: char \<Rightarrow> nat"])
qed

lemma hex_number_snoc: "hex_number (cs @ [c]) = 16 * hex_number cs + hex_value c"
  by (simp add: hex_number_def)

lemma hex_number_digits: "hex_number (hex_digits n) = n"
proof (induction n rule: hex_digits.induct)
  case (1 n)
  then show ?case
    by (subst hex_digits.simps)
      (auto simp: hex_number_snoc hex_digit_cases hex_number_def)
qed

lemma length_hex_digits: "n < 16 ^ k \<Longrightarrow> 0 < k \<Longrightarrow> length (hex_digits n) \<le> k"
proof (induction k arbitrary: n)
  case (Suc k)
  show ?case
  proof (cases "n < 16")
    case False
    then have "k \<noteq> 0" using Suc.prems by (cases k) auto
    moreover have "n div 16 < 16 ^ k" using Suc.prems(1) by (simp add: less_mult_imp_div_less mult.commute)
    ultimately show ?thesis using Suc.IH [of "n div 16"] False by (subst hex_digits.simps) simp
  qed (simp add: hex_digits.simps)
qed simp

lemma hex_digits_chars: "CHR 0x0A \<notin> set (hex_digits n)"
proof (induction n rule: hex_digits.induct)
  case (1 n)
  then show ?case using hex_digit_cases(3) [of n] hex_digit_cases(3) [of "n mod 16", symmetric]
    by (subst hex_digits.simps) auto
qed

lemma hex8:
  assumes "n < 2 ^ 32"
  shows "length (hex8 n) = 8" and "hex_number (hex8 n) = n" and "CHR 0x0A \<notin> set (hex8 n)"
proof -
  show "length (hex8 n) = 8" using length_hex_digits [of n 8] assms by (simp add: hex8_def)
  have "hex_number (replicate k CHR ''0'' @ cs) = hex_number cs" for k cs
    by (induction k) (simp_all add: hex_number_def hex_value_def)
  then show "hex_number (hex8 n) = n" by (simp add: hex8_def hex_number_digits)
  show "CHR 0x0A \<notin> set (hex8 n)" using hex_digits_chars by (auto simp: hex8_def)
qed

lemma unat_byte: "unat (b :: byte) < 256"
  by (rule order.strict_trans2 [OF unsigned_less]) simp

lemma hex_field: "fields_bytes (hex_field i b @ r) = b # fields_bytes r" "CHR 0x0A \<notin> set (hex_field i b)" "length (hex_field i b) = 3"
proof -
  have d: "unat b div 16 < 16" "unat b mod 16 < 16" using unat_byte [of b] by (simp_all add: less_mult_imp_div_less)
  then have "hex_number [hex_digit (unat b div 16), hex_digit (unat b mod 16)] = unat b"
    by (simp add: hex_number_def hex_digit_cases)
  then show "fields_bytes (hex_field i b @ r) = b # fields_bytes r" "CHR 0x0A \<notin> set (hex_field i b)" "length (hex_field i b) = 3"
    using d hex_digit_cases(2) [OF d(1)] hex_digit_cases(3) [OF d(1)] hex_digit_cases(3) [OF d(2)]
    by (simp_all add: hex_field_def hex2_def)
qed

lemma fields_bytes_parts:
  "fields_bytes (concat (replicate k ''   '') @ r) = fields_bytes r"
  "fields_bytes (concat (map (\<lambda>i. hex_field i (f i)) is) @ r) = map f is @ fields_bytes r"
  "length (concat (replicate k ''   '')) = 3 * k"
  "length (concat (map (\<lambda>i. hex_field i (f i)) is)) = 3 * length is"
proof -
  show "fields_bytes (concat (replicate k ''   '') @ r) = fields_bytes r" by (induction k) simp_all
  show "fields_bytes (concat (map (\<lambda>i. hex_field i (f i)) is) @ r) = map f is @ fields_bytes r"
    by (induction "is") (simp_all add: hex_field)
  show "length (concat (replicate k ''   '')) = 3 * k" by (induction k) simp_all
  show "length (concat (map (\<lambda>i. hex_field i (f i)) is)) = 3 * length is" by (induction "is") (simp_all add: hex_field)
qed

lemma shown_char: "shown_char b \<noteq> CHR 0x0A"
proof -
  have "char_of (unat b) \<noteq> CHR 0x0A" if "32 \<le> unat b"
    using that unat_byte [of b] by (auto dest!: arg_cong [where f = "of_char :: char \<Rightarrow> nat"])
  then show ?thesis by (simp add: shown_char_def)
qed

lemma lines_of_line: "CHR 0x0A \<notin> set l \<Longrightarrow> lines_of (l @ CHR 0x0A # r) = l # lines_of r"
proof -
  assume "CHR 0x0A \<notin> set l"
  then have "takeWhile (\<lambda>c. c \<noteq> CHR 0x0A) (l @ CHR 0x0A # r) = l \<and> dropWhile (\<lambda>c. c \<noteq> CHR 0x0A) (l @ CHR 0x0A # r) = CHR 0x0A # r"
    by (induction l) auto
  then show ?thesis by (subst lines_of.simps) simp
qed

text \<open>A line without its end, and what is read from it.\<close>

lemma hex_line_reads:
  assumes "ofs < 2 ^ 32" and "ofs mod 16 + length bs \<le> 16"
  obtains l where "hex_line ofs bs ascii = l @ [CHR 0x0A]" "CHR 0x0A \<notin> set l" "line_data l = bs" "hex_number (take 8 l) = ROUND_DOWN ofs 16"
proof -
  let ?s = "ofs mod 16" and ?n = "length bs"
  let ?h = "hex8 (ROUND_DOWN ofs 16)"
  let ?fields = "concat (replicate ?s ''   '') @ concat (map (\<lambda>i. hex_field i (bs ! (i - ?s))) [?s..<?s + ?n])"
  let ?pad = "concat (replicate (16 - (?s + ?n)) ''   '')"
  let ?text = "''|'' @ replicate ?s CHR '' '' @ map (\<lambda>i. shown_char (bs ! (i - ?s))) [?s..<?s + ?n] @ replicate (16 - (?s + ?n)) CHR '' '' @ ''|''"
  define l where "l = ?h @ ''  '' @ ?fields @ (if ascii then ?pad @ ?text else [])"
  have h: "length ?h = 8" "hex_number ?h = ROUND_DOWN ofs 16" "CHR 0x0A \<notin> set ?h"
    using hex8 [of "ROUND_DOWN ofs 16"] assms(1) by (simp_all add: ROUND_DOWN_def)
  have "map (\<lambda>i. bs ! (i - ?s)) [?s..<?s + ?n] = bs" by (rule nth_equalityI) simp_all
  then have f: "fields_bytes (?fields @ r) = bs @ fields_bytes r" for r by (simp add: fields_bytes_parts)
  have len: "length ?fields = 3 * (?s + ?n)" "length (?fields @ ?pad) = 48" using assms(2) by (simp_all add: fields_bytes_parts)
  have "take 48 (drop 10 l) = (if ascii then ?fields @ ?pad else ?fields)"
  proof (cases ascii)
    case True
    have "drop 10 l = (?fields @ ?pad) @ ?text" using True h(1) by (simp add: l_def)
    moreover have "length u = 48 \<Longrightarrow> take 48 (u @ v) = u" for u v :: string by simp
    ultimately show ?thesis using True len(2) by (simp only: if_True)
  next
    case False
    have "drop 10 l = ?fields" using False h(1) by (simp add: l_def)
    moreover have "length ?fields \<le> 48" unfolding len(1) using assms(2) by simp
    ultimately show ?thesis using False by (simp only: take_all if_False)
  qed
  then have "line_data l = bs" using f [of ?pad] f [of "[]"] fields_bytes_parts(1) [of _ "[]"] by (simp add: line_data_def)
  moreover have "CHR 0x0A \<notin> set l"
    using h(3) hex_field(2) shown_char [symmetric] by (auto simp: l_def)
  moreover have "hex_line ofs bs ascii = l @ [CHR 0x0A]" by (simp add: hex_line_def l_def Let_def)
  moreover have "hex_number (take 8 l) = ROUND_DOWN ofs 16" using h by (simp add: l_def)
  ultimately show ?thesis using that by blast
qed

subsection \<open>Properties\<close>

lemma hex_dump_lines:
  assumes "ofs + length buf \<le> 2 ^ 32"
  shows "dump_bytes (hex_dump ofs buf ascii) = buf \<and>
    dump_addresses (hex_dump ofs buf ascii) = map ((*) 16) (if buf = [] then [] else [ofs div 16..<DIV_ROUND_UP (ofs + length buf) 16])"
  using assms
proof (induction ofs buf ascii rule: hex_dump.induct)
  case (1 ofs buf ascii)
  show ?case
  proof (cases "buf = []")
    case True
    then show ?thesis by (simp add: hex_dump.simps dump_bytes_def dump_addresses_def lines_of.simps)
  next
    case False
    let ?n = "line_bytes ofs (length buf)"
    have n: "0 < ?n" "?n \<le> length buf" "ofs mod 16 + ?n \<le> 16" using False by (auto simp: line_bytes_def)
    have ofs: "ofs < 2 ^ 32" "(ofs + ?n) mod 2 ^ 64 = ofs + ?n" using 1(2) n False by (cases buf; simp)+
    obtain l where l: "hex_line ofs (take ?n buf) ascii = l @ [CHR 0x0A]" "CHR 0x0A \<notin> set l" "line_data l = take ?n buf"
        "hex_number (take 8 l) = ROUND_DOWN ofs 16"
      using hex_line_reads [of ofs "take ?n buf" ascii] ofs n by auto
    have d: "hex_dump ofs buf ascii = l @ CHR 0x0A # hex_dump (ofs + ?n) (drop ?n buf) ascii"
      using False l(1) ofs(2) by (subst hex_dump.simps) (simp add: Let_def)
    have IH: "dump_bytes (hex_dump (ofs + ?n) (drop ?n buf) ascii) = drop ?n buf"
      "dump_addresses (hex_dump (ofs + ?n) (drop ?n buf) ascii) =
        map ((*) 16) (if drop ?n buf = [] then [] else [(ofs + ?n) div 16..<DIV_ROUND_UP (ofs + length buf) 16])"
      using 1(1) [OF _ refl] 1(2) False n ofs(2) by simp_all
    have "ofs div 16 # (if drop ?n buf = [] then [] else [(ofs + ?n) div 16..<DIV_ROUND_UP (ofs + length buf) 16]) =
        [ofs div 16..<DIV_ROUND_UP (ofs + length buf) 16]"
    proof (cases "drop ?n buf = []")
      case True
      then have "length buf = ?n" using n by simp
      moreover have "DIV_ROUND_UP (ofs + k) 16 = Suc (ofs div 16)" if "0 < k" "ofs mod 16 + k \<le> 16" for k
      proof -
        have "ofs + k + 15 = (ofs mod 16 + k - 1) + Suc (ofs div 16) * 16" using that by (cases k) simp_all
        moreover have "DIV_ROUND_UP (ofs + k) 16 = (ofs + k + 15) div 16" by (simp add: DIV_ROUND_UP_def)
        ultimately show ?thesis using that by (simp only: div_mult_self1) (use that in simp)
      qed
      ultimately have "DIV_ROUND_UP (ofs + length buf) 16 = Suc (ofs div 16)" using n by metis
      then show ?thesis using True by simp
    next
      case nonempty: False
      then have k: "?n = 16 - ofs mod 16" "?n < length buf" by (auto simp: line_bytes_def split: if_splits)
      have "ofs + (16 - ofs mod 16) = Suc (ofs div 16) * 16" using mult_div_mod_eq [of 16 ofs] mod_less_divisor [of 16 ofs, simplified] by arith
      then have "ofs + ?n = Suc (ofs div 16) * 16" using k(1) by simp
      then have "(ofs + ?n) div 16 = Suc (ofs div 16)" by simp
      moreover have "(ofs + ?n) div 16 \<le> DIV_ROUND_UP (ofs + length buf) 16"
        unfolding DIV_ROUND_UP_def by (rule div_le_mono) (use k(2) in simp)
      ultimately have "(ofs + ?n) div 16 = Suc (ofs div 16)" "ofs div 16 < DIV_ROUND_UP (ofs + length buf) 16" by simp_all
      then show ?thesis using nonempty by (simp add: upt_conv_Cons)
    qed
    from arg_cong [OF this, of "map ((*) 16)"]
    have "map ((*) 16) (if buf = [] then [] else [ofs div 16..<DIV_ROUND_UP (ofs + length buf) 16]) =
        16 * (ofs div 16) # dump_addresses (hex_dump (ofs + ?n) (drop ?n buf) ascii)"
      unfolding IH(2) if_not_P [OF False] by (simp only: list.map)
    moreover have "dump_addresses (hex_dump ofs buf ascii) =
        16 * (ofs div 16) # dump_addresses (hex_dump (ofs + ?n) (drop ?n buf) ascii)"
      unfolding d dump_addresses_def lines_of_line [OF l(2)] using l(4) by (simp add: ROUND_DOWN_def)
    moreover have "dump_bytes (hex_dump ofs buf ascii) = line_data l @ dump_bytes (hex_dump (ofs + ?n) (drop ?n buf) ascii)"
      unfolding d dump_bytes_def lines_of_line [OF l(2)] by simp
    then have "dump_bytes (hex_dump ofs buf ascii) = buf" unfolding IH(1) l(3) by simp
    ultimately show ?thesis by simp
  qed
qed

text \<open>
  C12. A hexadecimal dump shows what it dumps: on any buffer below an offset of 2^32 the hexadecimal columns read
  back as the bytes of the buffer, with or without the column of characters and also when the first line starts in the
  middle; the lines are numbered by the multiples of 16 from the first to the last offset.
\<close>

theorem hex_dump_reads_back:
  assumes "ofs + length buf \<le> 2 ^ 32" and "buf \<noteq> []"
  shows "dump_bytes (hex_dump ofs buf ascii) = buf \<and>
    dump_addresses (hex_dump ofs buf ascii) = map ((*) 16) [ofs div 16..<DIV_ROUND_UP (ofs + length buf) 16]"
  using hex_dump_lines [OF assms(1)] assms(2) by simp

theorem hex_dump_reads_back_witness:
  "hex_dump 14 [72, 105, 10] True =
     ''00000000                                            48 69 |              Hi|'' @ [CHR 0x0A] @
     ''00000010  0a                                              |.               |'' @ [CHR 0x0A] \<and>
   dump_bytes (hex_dump 14 [72, 105, 10] True) = [72, 105, 10] \<and> dump_addresses (hex_dump 14 [72, 105, 10] True) = [0, 16]"
proof -
  have "dump_bytes (hex_dump 14 [72, 105, 10] True) = [72, 105, 10] \<and>
      dump_addresses (hex_dump 14 [72, 105, 10] True) = map ((*) 16) [14 div 16..<DIV_ROUND_UP (14 + length [72, 105, 10 :: byte]) 16]"
    by (rule hex_dump_reads_back) simp_all
  moreover have "map ((*) 16) [14 div 16..<DIV_ROUND_UP (14 + length [72, 105, 10 :: byte]) 16] = [0, 16]" by code_simp
  moreover have "hex_dump 14 [72, 105, 10] True =
     ''00000000                                            48 69 |              Hi|'' @ [CHR 0x0A] @
     ''00000010  0a                                              |.               |'' @ [CHR 0x0A]"
    by (simp add: hex_dump.simps line_bytes_def hex_line_def Let_def hex8_def hex_digits.simps hex_digit_def hex2_def hex_field_def
        shown_char_def ROUND_DOWN_def char_of_def bit_0) (simp add: numeral_eq_Suc)
  ultimately show ?thesis by metis
qed

text \<open>The dump of a bitmap shows its elements in memory order.\<close>

lemma bitmap_dump_reads_back:
  assumes "bitmap_dump b = Some d" and "byte_cnt (bit_cnt b) \<le> 2 ^ 32"
  shows "dump_bytes d = take (byte_cnt (bit_cnt b)) (bitmap_image b)"
  using assms hex_dump_lines [of 0 "take (byte_cnt (bit_cnt b)) (bitmap_image b)" False]
  by (auto simp: bitmap_dump_def split: if_splits)

text \<open>The loop over the factors divides until the number is below 1024 or the factors are used up.\<close>

lemma scale_size:
  assumes "fs \<noteq> []"
  shows "\<exists>k < length fs. scale_size n fs = (n div 1024 ^ k, drop k fs) \<and> (0 < k \<longrightarrow> 1024 ^ k \<le> n) \<and> (Suc k < length fs \<longrightarrow> n div 1024 ^ k < 1024)"
  using assms
proof (induction n fs rule: scale_size.induct)
  case (1 n f g fs)
  show ?case
  proof (cases "1024 \<le> n")
    case True
    obtain k where k: "k < length (g # fs)" "scale_size (n div 1024) (g # fs) = (n div 1024 div 1024 ^ k, drop k (g # fs))"
        "0 < k \<longrightarrow> 1024 ^ k \<le> n div 1024" "Suc k < length (g # fs) \<longrightarrow> n div 1024 div 1024 ^ k < 1024"
      using 1(1) [OF True] by blast
    have "1024 ^ Suc k \<le> n" using k(3) True by (cases k) (auto simp: less_eq_div_iff_mult_less_eq mult.commute)
    then show ?thesis using k True by (intro exI [of _ "Suc k"]) (simp add: div_mult2_eq)
  next
    case False
    then show ?thesis by (intro exI [of _ 0]) simp
  qed
qed auto

text \<open>
  C13. A size is printed with the unit that fits: the number in front of the unit is the size divided by the power of
  1024 of that unit, the size has at least one such unit, and, below terabytes, fewer than 1024.
\<close>

theorem print_human_readable_size_unit:
  assumes "sz \<noteq> 1"
  shows "\<exists>k < 5. print_human_readable_size sz = dec_string (unat sz div 1024 ^ k) @ '' '' @ size_factors ! k \<and>
    (0 < k \<longrightarrow> 1024 ^ k \<le> unat sz) \<and> (k < 4 \<longrightarrow> unat sz < 1024 ^ Suc k)"
proof -
  obtain k where k: "k < 5" "scale_size (unat sz) size_factors = (unat sz div 1024 ^ k, drop k size_factors)"
      "0 < k \<longrightarrow> 1024 ^ k \<le> unat sz" "Suc k < 5 \<longrightarrow> unat sz div 1024 ^ k < 1024"
  proof -
    have "size_factors \<noteq> []" "length size_factors = 5" by (simp_all add: size_factors_def)
    then show ?thesis using scale_size [of size_factors "unat sz"] that by metis
  qed
  have "k < 4 \<longrightarrow> unat sz < 1024 ^ Suc k" using k(4) by (simp add: div_less_iff_less_mult)
  moreover have "hd (drop k size_factors) = size_factors ! k" using k(1) by (simp add: hd_drop_conv_nth size_factors_def)
  ultimately show ?thesis using k assms by (auto simp: print_human_readable_size_def)
qed

theorem print_human_readable_size_unit_witness:
  "print_human_readable_size 5242880 = ''5 MB'' \<and>
   (\<exists>k < 5. print_human_readable_size 5242880 = dec_string (unat (5242880 :: 64 word) div 1024 ^ k) @ '' '' @ size_factors ! k)"
proof
  show "print_human_readable_size 5242880 = ''5 MB''"
    by (simp add: print_human_readable_size_def size_factors_def dec_string.simps char_of_def bit_0)
  show "\<exists>k < 5. print_human_readable_size 5242880 = dec_string (unat (5242880 :: 64 word) div 1024 ^ k) @ '' '' @ size_factors ! k"
    using print_human_readable_size_unit [of 5242880] by fastforce
qed

end
