(* ===== verification/Shell_Memory.thy ===== *)
theory Shell_Memory
  imports Prelude
begin

text \<open>
  The memories of the three shells: \<open>src/a1/shellmemory.c\<close>, \<open>src/a2/shellmemory.c\<close> and \<open>src/a3/shellmemory.c\<close>.

  A memory is an array of pairs of a name and a value; the name \<open>none\<close> marks a free
  line. The first shell uses all of it for variables, the second keeps variables in front of frames of program
  lines, the third keeps the frames in front. The sizes, which the
  second and third shell get from the compiler's command line, are arguments. Definitions whose name would be
  the same in several shells carry the prefix \<open>a1_\<close>, \<open>a2_\<close> or \<open>a3_\<close>.
\<close>

record memory_struct =
  var :: string
  val :: string

type_synonym shellmemory = "memory_struct list"

definition none_line :: memory_struct where
  "none_line = \<lparr>var = ''none'', val = ''none''\<rparr>"

subsection \<open>Helper functions\<close>

text \<open>The character of a C string at an index; behind the terminator the access is undefined.\<close>

definition c_at :: "string \<Rightarrow> nat \<Rightarrow> char option" where
  "c_at str i = (if i < length str then Some (str ! i) else if i = length str then Some (CHR 0x00) else None)"

definition match_var :: "string \<Rightarrow> string \<Rightarrow> bool option" where
  "match_var model v = do {
     n \<leftarrow> for_range 0 (length v)
            (\<lambda>i matchCount. do {
               c \<leftarrow> c_at model i;
               d \<leftarrow> c_at v i;
               Some (if c = d then matchCount + 1 else matchCount)
             }) (0 :: nat);
     Some (n = length v)
   }"

text \<open>The value is collected in an array of 1000 characters.\<close>

definition extract_value :: "string \<Rightarrow> string option" where
  "extract_value model =
     (let v = drop 1 (dropWhile (\<lambda>c. c \<noteq> CHR ''='') model)
      in if length v < 1000 then Some v else None)"

subsection \<open>Variables\<close>

text \<open>
  The two loops of \<open>mem_set_value\<close> and the loop of \<open>mem_get_value\<close>, over the lines from \<open>lo\<close> to \<open>hi\<close>: the first
  line with the name, otherwise the first free line, otherwise nothing.
\<close>

definition find_var :: "nat \<Rightarrow> nat \<Rightarrow> string \<Rightarrow> shellmemory \<Rightarrow> nat option" where
  "find_var lo hi v mem = find (\<lambda>i. var (mem ! i) = v) [lo..<hi]"

definition set_var :: "nat \<Rightarrow> nat \<Rightarrow> string \<Rightarrow> string \<Rightarrow> shellmemory \<Rightarrow> shellmemory" where
  "set_var lo hi var_in value_in mem =
     (case find_var lo hi var_in mem of
        Some i \<Rightarrow> mem[i := (mem ! i)\<lparr>val := value_in\<rparr>]
      | None \<Rightarrow>
          (case find_var lo hi ''none'' mem of
             Some i \<Rightarrow> mem[i := \<lparr>var = var_in, val = value_in\<rparr>]
           | None \<Rightarrow> mem))"

definition get_var :: "nat \<Rightarrow> nat \<Rightarrow> string \<Rightarrow> shellmemory \<Rightarrow> string option" where
  "get_var lo hi var_in mem = map_option (\<lambda>i. val (mem ! i)) (find_var lo hi var_in mem)"

subsection \<open>The first shell\<close>

definition a1_mem_init :: shellmemory where
  "a1_mem_init = replicate 1000 none_line"

definition a1_mem_set_value :: "string \<Rightarrow> string \<Rightarrow> shellmemory \<Rightarrow> shellmemory" where
  "a1_mem_set_value = set_var 0 1000"

definition a1_mem_get_value :: "string \<Rightarrow> shellmemory \<Rightarrow> string" where
  "a1_mem_get_value var_in mem =
     (case get_var 0 1000 var_in mem of Some x \<Rightarrow> x | None \<Rightarrow> ''Variable does not exist'')"

subsection \<open>The second shell\<close>

text \<open>The arguments \<open>vs\<close> and \<open>fs\<close> are \<open>varmemsize\<close> and \<open>framesize\<close>.\<close>

definition a2_mem_init :: "nat \<Rightarrow> nat \<Rightarrow> shellmemory" where
  "a2_mem_init vs fs = replicate (vs + fs) none_line"

definition a2_resetvarmem :: "nat \<Rightarrow> shellmemory \<Rightarrow> shellmemory" where
  "a2_resetvarmem vs mem = replicate vs none_line @ drop vs mem"

definition a2_mem_set_value :: "nat \<Rightarrow> string \<Rightarrow> string \<Rightarrow> shellmemory \<Rightarrow> shellmemory" where
  "a2_mem_set_value vs = set_var 0 vs"

text \<open>The lookup runs over the frames too.\<close>

definition a2_mem_get_value :: "nat \<Rightarrow> nat \<Rightarrow> string \<Rightarrow> shellmemory \<Rightarrow> string option" where
  "a2_mem_get_value vs fs = get_var 0 (vs + fs)"

text \<open>
  \<open>fgets\<close> with a buffer of \<open>n\<close> characters, on what is left of a file: the line, the rest, and whether the
  end of the file was met.
\<close>

fun fgets_take :: "nat \<Rightarrow> string \<Rightarrow> string \<times> string \<times> bool" where
  "fgets_take 0 cs = ([], cs, False)"
| "fgets_take (Suc n) [] = ([], [], True)"
| "fgets_take (Suc n) (c # cs) =
     (if c = CHR 0x0A then ([c], cs, False)
      else (case fgets_take n cs of (l, r, e) \<Rightarrow> (c # l, r, e)))"

definition fgets :: "nat \<Rightarrow> string \<Rightarrow> string option \<times> string \<times> bool" where
  "fgets n cs = (case fgets_take (n - 1) cs of (l, r, e) \<Rightarrow> (if l = [] then None else Some l, r, e))"

lemma fgets_take_rest: "fgets_take n cs = (l, r, e) \<Longrightarrow> cs = l @ r"
  by (induction n cs arbitrary: l r e rule: fgets_take.induct) (auto split: if_splits prod.splits)

lemma fgets_take_consumes: "fgets_take (Suc n) cs = (l, r, e) \<Longrightarrow> \<not> e \<Longrightarrow> length r < length cs"
  using fgets_take_rest [of "Suc n" cs l r e] by (cases cs) (auto split: if_splits prod.splits)

text \<open>\<open>while (!feof(f)) { fgets(temp, 100, f); total_lines++; }\<close> on a file that can be opened.\<close>

function count_loop :: "string \<Rightarrow> nat" where
  "count_loop cs = (case fgets 100 cs of (_, r, e) \<Rightarrow> if e then 1 else 1 + count_loop r)"
  by pat_completeness auto
termination
  by (relation "measure length")
    (auto simp: fgets_def split: prod.splits intro: fgets_take_consumes [of 98, simplified])

declare count_loop.simps [simp del]

definition countLines :: "string \<Rightarrow> nat" where
  "countLines content = count_loop content"

definition countPages :: "string \<Rightarrow> nat" where
  "countPages content =
     (let total_lines = countLines content
      in total_lines div 3 + (if total_lines mod 3 \<noteq> 0 then 1 else 0))"

record a2_pcb =
  priority :: bool
  pid :: int
  PC :: int
  start :: int
  endl :: int
  job_length_score :: int
  pagetable :: "int list"
  num_pages :: nat
  current_page :: nat
  next_page :: nat
  pages_needed :: nat
  lru_timer :: "int list"
  pcb_filename :: "string option"
  pagefault :: bool
  line_offset :: int

definition get_victim :: "a2_pcb \<Rightarrow> nat option" where
  "get_victim pcb = do {
     (_, victim) \<leftarrow> for_range 0 (num_pages pcb)
        (\<lambda>i (mn, victim). do {
           t \<leftarrow> arr_get (lru_timer pcb) i;
           Some (if t < mn then (t, i) else (mn, victim))
         }) (1000, 0);
     Some victim
   }"

definition a2_mem_get_value_at_line :: "nat \<Rightarrow> nat \<Rightarrow> int \<Rightarrow> shellmemory \<Rightarrow> string option option" where
  "a2_mem_get_value_at_line vs fs index mem =
     (if index < 0 \<or> index > int (vs + fs) then Some None
      else map_option (\<lambda>l. Some (val l)) (arr_get mem (nat index)))"

definition mem_free_lines_frame :: "nat \<Rightarrow> nat \<Rightarrow> shellmemory \<Rightarrow> shellmemory option" where
  "mem_free_lines_frame st en mem = for_range st (en + 1) (\<lambda>i mem. arr_set mem i none_line) mem"

text \<open>
  The name of a free line is the literal \<open>none\<close>, which \<open>free\<close> may not be applied to; the names and values of
  other lines are allocated. The loop is bounded by the memory.
\<close>

definition mem_free_lines_between :: "nat \<Rightarrow> nat \<Rightarrow> nat \<Rightarrow> nat \<Rightarrow> shellmemory \<Rightarrow> shellmemory option" where
  "mem_free_lines_between vs fs st en mem =
     for_range st (min (en + 1) (vs + fs))
       (\<lambda>i mem. do {
          l \<leftarrow> arr_get mem i;
          if var l = ''none'' then None else arr_set mem i none_line
        }) mem"

text \<open>The frames start every third line. The victim's page number is used as its frame number.\<close>

definition frame_starts :: "nat \<Rightarrow> nat \<Rightarrow> nat list" where
  "frame_starts vs fs = map (\<lambda>k. vs + 3 * k) [0..<(fs + 2) div 3]"

definition find_free_frame :: "nat \<Rightarrow> nat \<Rightarrow> a2_pcb \<Rightarrow> shellmemory \<Rightarrow> (nat \<times> a2_pcb \<times> shellmemory) option" where
  "find_free_frame vs fs pcb mem =
     (case find (\<lambda>i. var (mem ! i) = ''none'') (frame_starts vs fs) of
        Some i \<Rightarrow> Some (i, pcb, mem)
      | None \<Rightarrow> do {
          victim \<leftarrow> get_victim pcb;
          let index = vs + victim * 3;
          mem \<leftarrow> mem_free_lines_frame index (index + 2) mem;
          ts \<leftarrow> arr_set (lru_timer pcb) victim 0;
          Some (index, pcb\<lparr>lru_timer := ts\<rparr>, mem)
        })"

text \<open>
  A \<open>FILE\<close> opened for reading is what is left of it and whether its end has been met. The loop of
  \<open>load_page\<close> over at most three lines; the flag is \<open>False\<close> for the error return 21.
\<close>

type_synonym stream = "string \<times> bool"

primrec load_lines :: "nat \<Rightarrow> string \<Rightarrow> stream \<Rightarrow> nat \<Rightarrow> shellmemory \<Rightarrow> (bool \<times> stream \<times> shellmemory) option" where
  "load_lines 0 filename fp frame_index mem = Some (True, fp, mem)"
| "load_lines (Suc m) filename fp frame_index mem =
     (case fgets 100 (fst fp) of
        (Some line, r, e) \<Rightarrow> do {
          mem \<leftarrow> arr_set mem frame_index \<lparr>var = filename, val = line\<rparr>;
          load_lines m filename (r, e) (frame_index + 1) mem
        }
      | (None, r, e) \<Rightarrow> Some (e, (r, e), mem))"

definition load_page ::
  "nat \<Rightarrow> nat \<Rightarrow> stream \<Rightarrow> string \<Rightarrow> a2_pcb \<Rightarrow> shellmemory \<Rightarrow> (int \<times> stream \<times> a2_pcb \<times> shellmemory) option" where
  "load_page vs fs fp filename pcb mem = do {
     (initial_frame, pcb, mem) \<leftarrow> find_free_frame vs fs pcb mem;
     (ok, fp, mem) \<leftarrow> load_lines 3 filename fp initial_frame mem;
     if \<not> ok then Some (21, fp, pcb, mem)
     else do {
       let frame_number = (initial_frame - vs) div 3 + 1;
       pt \<leftarrow> arr_set (pagetable pcb) (current_page pcb) (int frame_number);
       Some (0, fp, pcb\<lparr>pagetable := pt, num_pages := num_pages pcb + 1\<rparr>, mem)
     }
   }"

subsection \<open>The third shell\<close>

text \<open>The arguments \<open>fss\<close> and \<open>vss\<close> are \<open>FRAME_STORE_SIZE\<close> and \<open>VAR_STORE_SIZE\<close>.\<close>

definition a3_mem_init :: "nat \<Rightarrow> nat \<Rightarrow> shellmemory" where
  "a3_mem_init fss vss = replicate (fss + vss) none_line"

definition mem_free_at :: "nat \<Rightarrow> shellmemory \<Rightarrow> shellmemory option" where
  "mem_free_at ps mem = arr_set mem ps none_line"

text \<open>
  \<open>frame_alloc\<close>: the inner loop over \<open>j\<close> reaches \<open>i + 3\<close> when the three lines lie below the border and are
  free. The values are not cleared. The result is the array \<open>index\<close>, or \<open>None\<close> for the return value 1;
  the three valid bits become 0 with it.
\<close>

definition frame_free :: "nat \<Rightarrow> shellmemory \<Rightarrow> nat \<Rightarrow> bool" where
  "frame_free border mem i \<longleftrightarrow> i + 3 \<le> border \<and> (\<forall>j \<in> set [i..<i + 3]. var (mem ! j) = ''none'')"

definition frame_alloc :: "nat \<Rightarrow> string \<Rightarrow> shellmemory \<Rightarrow> (nat list option \<times> shellmemory) option" where
  "frame_alloc border p mem =
     (case find (frame_free border mem) [0..<border] of
        None \<Rightarrow> Some (None, mem)
      | Some i \<Rightarrow> do {
          mem \<leftarrow> for_range i (i + 3)
             (\<lambda>k mem. do { l \<leftarrow> arr_get mem k; arr_set mem k (l\<lparr>var := p\<rparr>) }) mem;
          Some (Some [i, i + 1, i + 2], mem)
        })"

text \<open>The valid bit is set as well.\<close>

definition mem_set_value_at :: "nat \<Rightarrow> string \<Rightarrow> string \<Rightarrow> shellmemory \<Rightarrow> shellmemory option" where
  "mem_set_value_at ps p value_in mem = arr_set mem ps \<lparr>var = p, val = value_in\<rparr>"

definition mem_get_value_at :: "nat \<Rightarrow> shellmemory \<Rightarrow> string option" where
  "mem_get_value_at ps mem = map_option val (arr_get mem ps)"

definition a3_mem_set_value :: "nat \<Rightarrow> nat \<Rightarrow> string \<Rightarrow> string \<Rightarrow> shellmemory \<Rightarrow> shellmemory" where
  "a3_mem_set_value fss vss = set_var fss (fss + vss)"

definition a3_mem_get_value :: "nat \<Rightarrow> nat \<Rightarrow> string \<Rightarrow> char \<Rightarrow> shellmemory \<Rightarrow> string" where
  "a3_mem_get_value fss vss var_in caller mem =
     (case get_var fss (fss + vss) var_in mem of
        Some x \<Rightarrow> x
      | None \<Rightarrow> if caller = CHR ''p'' then ''Variable does not exist'' else '''')"

definition reset_var_zone :: "nat \<Rightarrow> nat \<Rightarrow> shellmemory \<Rightarrow> shellmemory option" where
  "reset_var_zone fss vss mem = for_range fss (fss + vss) mem_free_at mem"

definition clear_frame :: "nat \<Rightarrow> shellmemory \<Rightarrow> shellmemory option" where
  "clear_frame start_pos mem = for_range start_pos (start_pos + 3) mem_free_at mem"

text \<open>The numbers \<open>printShellMemory\<close> prints: lines in total, in use and free.\<close>

definition memory_usage :: "shellmemory \<Rightarrow> nat \<times> nat \<times> nat" where
  "memory_usage mem =
     (let count_empty = length (filter (\<lambda>l. var l = ''none'') mem)
      in (length mem, length mem - count_empty, count_empty))"

subsection \<open>The contract of a store of variables\<close>

locale var_store =
  fixes get :: "'s \<Rightarrow> string \<Rightarrow> string option" and put :: "'s \<Rightarrow> string \<Rightarrow> string \<Rightarrow> 's"
    and room :: "'s \<Rightarrow> bool" and ok :: "'s \<Rightarrow> bool"
  assumes put_ok: "ok s \<Longrightarrow> ok (put s v x)"
    and get_put_same: "ok s \<Longrightarrow> v \<noteq> ''none'' \<Longrightarrow> get s v \<noteq> None \<or> room s \<Longrightarrow> get (put s v x) v = Some x"
    and get_put_other: "ok s \<Longrightarrow> w \<noteq> ''none'' \<Longrightarrow> w \<noteq> v \<Longrightarrow> get (put s v x) w = get s w"
    and put_full: "ok s \<Longrightarrow> get s v = None \<Longrightarrow> \<not> room s \<Longrightarrow> put s v x = s"
begin

lemma last_put_wins:
  assumes "ok s" and "v \<noteq> ''none''" and "get s v \<noteq> None \<or> room s"
  shows "get (put (put s v x) v y) v = Some y"
proof -
  have "get (put s v x) v \<noteq> None" using get_put_same [OF assms] by simp
  then show ?thesis using put_ok [OF assms(1)] assms(2) by (intro get_put_same) auto
qed

lemma put_history:
  assumes "ok s" and "v \<noteq> ''none''" and "get s v \<noteq> None"
  shows "get (fold (\<lambda>(w, x) s. put s w x) ps s) v = (if v \<in> fst ` set ps then map_of (rev ps) v else get s v)"
  using assms
proof (induction ps arbitrary: s)
  case Nil
  then show ?case by simp
next
  case (Cons p ps)
  obtain w x where p: "p = (w, x)" by (cases p)
  have g: "get (put s w x) v = (if v = w then Some x else get s v)"
    using Cons.prems get_put_same [of s v x] get_put_other [of s v w x] by auto
  have "get (fold (\<lambda>(w, x) s. put s w x) ps (put s w x)) v =
      (if v \<in> fst ` set ps then map_of (rev ps) v else get (put s w x) v)"
    using Cons.prems put_ok g by (intro Cons.IH) auto
  moreover have "map_of (rev ps) v = None \<longleftrightarrow> v \<notin> fst ` set ps" by (simp add: map_of_eq_None_iff)
  ultimately show ?case using g p by (auto simp: map_add_def split: option.splits)
qed

end

definition has_room :: "nat \<Rightarrow> nat \<Rightarrow> shellmemory \<Rightarrow> bool" where
  "has_room lo hi mem \<longleftrightarrow> find_var lo hi ''none'' mem \<noteq> None"

lemma find_var_Some:
  "find_var lo hi v mem = Some i \<Longrightarrow> lo \<le> i \<and> i < hi \<and> var (mem ! i) = v \<and> (\<forall>j. lo \<le> j \<longrightarrow> j < i \<longrightarrow> var (mem ! j) \<noteq> v)"
  by (simp add: find_var_def find_upt_Some)

lemma find_var_None: "find_var lo hi v mem = None \<Longrightarrow> lo \<le> j \<Longrightarrow> j < hi \<Longrightarrow> var (mem ! j) \<noteq> v"
  by (simp add: find_var_def find_upt_None)

lemma find_var_upd_same:
  assumes "i < length mem" "lo \<le> i" "i < hi" "var l = v" "\<And>j. lo \<le> j \<Longrightarrow> j < i \<Longrightarrow> var (mem ! j) \<noteq> v"
  shows "find_var lo hi v (mem[i := l]) = Some i"
  using assms by (auto simp: find_var_def find_upt_Some)

lemma find_var_upd_other:
  "i < length mem \<Longrightarrow> var l \<noteq> w \<Longrightarrow> var (mem ! i) \<noteq> w \<Longrightarrow> find_var lo hi w (mem[i := l]) = find_var lo hi w mem"
  by (auto simp: find_var_def nth_list_update intro!: arg_cong [of _ _ "\<lambda>p. find p _"])

lemma set_var_cases:
  assumes "hi \<le> length mem"
  obtains (found) i where "find_var lo hi v mem = Some i" "i < length mem"
      "set_var lo hi v x mem = mem[i := (mem ! i)\<lparr>val := x\<rparr>]"
  | (free) i where "find_var lo hi v mem = None" "find_var lo hi ''none'' mem = Some i" "i < length mem"
      "set_var lo hi v x mem = mem[i := \<lparr>var = v, val = x\<rparr>]"
  | (full) "find_var lo hi v mem = None" "find_var lo hi ''none'' mem = None" "set_var lo hi v x mem = mem"
proof (cases "find_var lo hi v mem")
  case (Some i)
  then show ?thesis using assms find_var_Some [OF Some] by (intro found) (auto simp: set_var_def)
next
  case None
  show ?thesis
  proof (cases "find_var lo hi ''none'' mem")
    case (Some i)
    then show ?thesis using assms None find_var_Some [OF Some] by (intro free) (auto simp: set_var_def)
  qed (use None in \<open>intro full; simp add: set_var_def\<close>)
qed

lemma get_set_var_same:
  assumes "hi \<le> length mem" and "v \<noteq> ''none''" and "get_var lo hi v mem \<noteq> None \<or> has_room lo hi mem"
  shows "get_var lo hi v (set_var lo hi v x mem) = Some x"
  using assms(1)
proof (cases rule: set_var_cases [of hi mem lo v x])
  case (found i)
  then have "find_var lo hi v (mem[i := (mem ! i)\<lparr>val := x\<rparr>]) = Some i"
    using find_var_Some [OF found(1)] by (intro find_var_upd_same) auto
  then show ?thesis using found by (simp add: get_var_def)
next
  case (free i)
  then have "find_var lo hi v (mem[i := \<lparr>var = v, val = x\<rparr>]) = Some i"
    using find_var_Some [OF free(2)] find_var_None [OF free(1)] by (intro find_var_upd_same) auto
  then show ?thesis using free by (simp add: get_var_def)
next
  case full
  then show ?thesis using assms(3) by (simp add: get_var_def has_room_def)
qed

lemma get_var_upd_other:
  assumes "i < length mem" and "var l \<noteq> w" "var (mem ! i) \<noteq> w"
  shows "get_var lo hi w (mem[i := l]) = get_var lo hi w mem"
proof (cases "find_var lo hi w mem")
  case (Some j)
  then have "j \<noteq> i" using find_var_Some [OF Some] assms(3) by auto
  then show ?thesis using Some find_var_upd_other [OF assms] by (simp add: get_var_def)
qed (use find_var_upd_other [OF assms] in \<open>simp add: get_var_def\<close>)

lemma get_set_var_other:
  assumes "hi \<le> length mem" and "w \<noteq> ''none''" and "w \<noteq> v"
  shows "get_var lo hi w (set_var lo hi v x mem) = get_var lo hi w mem"
  using assms(1)
proof (cases rule: set_var_cases [of hi mem lo v x])
  case (found i)
  then show ?thesis using find_var_Some [OF found(1)] assms(3) by (simp add: get_var_upd_other)
next
  case (free i)
  then show ?thesis using find_var_Some [OF free(2)] assms(2,3) by (simp add: get_var_upd_other)
qed simp

lemma length_set_var [simp]: "length (set_var lo hi v x mem) = length mem"
  by (simp add: set_var_def split: option.splits)

text \<open>All three shells keep the contract, on their own range of lines.\<close>

interpretation vs: var_store "\<lambda>mem v. get_var lo hi v mem" "\<lambda>mem v x. set_var lo hi v x mem"
    "has_room lo hi" "\<lambda>mem. hi \<le> length mem" for lo hi
proof unfold_locales
  fix mem :: shellmemory and v x w assume ok: "hi \<le> length mem"
  show "hi \<le> length (set_var lo hi v x mem)" using ok by simp
  show "v \<noteq> ''none'' \<Longrightarrow> get_var lo hi v mem \<noteq> None \<or> has_room lo hi mem \<Longrightarrow> get_var lo hi v (set_var lo hi v x mem) = Some x"
    using ok by (rule get_set_var_same)
  show "w \<noteq> ''none'' \<Longrightarrow> w \<noteq> v \<Longrightarrow> get_var lo hi w (set_var lo hi v x mem) = get_var lo hi w mem"
    using ok by (rule get_set_var_other)
  show "get_var lo hi v mem = None \<Longrightarrow> \<not> has_room lo hi mem \<Longrightarrow> set_var lo hi v x mem = mem"
    by (simp add: get_var_def has_room_def set_var_def)
qed

text \<open>A variable is only ever stored in the range of the variables.\<close>

lemma set_var_outside: "hi \<le> length mem \<Longrightarrow> i < lo \<or> hi \<le> i \<Longrightarrow> set_var lo hi v x mem ! i = mem ! i"
  by (cases rule: set_var_cases [of hi mem lo v x]) (auto simp: nth_list_update dest!: find_var_Some)

subsection \<open>Frames\<close>

lemma for_range_lines:
  assumes "i \<le> n" "n \<le> length mem" and "\<And>k xs. k < length xs \<Longrightarrow> body k xs = Some (xs[k := f (xs ! k)])"
  shows "\<exists>m. for_range i n body mem = Some m \<and> length m = length mem \<and>
    (\<forall>k < length mem. m ! k = (if i \<le> k \<and> k < n then f (mem ! k) else mem ! k))"
proof -
  let ?P = "\<lambda>j m. length m = length mem \<and> (\<forall>k < length mem. m ! k = (if i \<le> k \<and> k < j then f (mem ! k) else mem ! k))"
  have "\<exists>m. for_range i n body mem = Some m \<and> ?P n m"
    using assms by (intro for_range_inv [where P = ?P]) (auto simp: nth_list_update less_Suc_eq)
  then show ?thesis .
qed

lemma mem_free_at_line: "k < length xs \<Longrightarrow> mem_free_at k xs = Some (xs[k := (\<lambda>_. none_line) (xs ! k)])"
  by (simp add: mem_free_at_def)

lemma frame_alloc_step:
  assumes b: "border \<le> length mem"
  shows "(frame_alloc border p mem = Some (None, mem) \<and> (\<forall>i. \<not> frame_free border mem i)) \<or>
    (\<exists>i m. frame_alloc border p mem = Some (Some [i, i + 1, i + 2], m) \<and> frame_free border mem i \<and> length m = length mem \<and>
       (\<forall>k < length mem. m ! k = (if i \<le> k \<and> k < i + 3 then (mem ! k)\<lparr>var := p\<rparr> else mem ! k)))"
proof (cases "find (frame_free border mem) [0..<border]")
  case None
  then have "\<not> frame_free border mem i" for i by (cases "i < border") (auto simp: find_upt_None frame_free_def)
  then show ?thesis using None by (simp add: frame_alloc_def)
next
  case (Some i)
  then have f: "frame_free border mem i" by (simp add: find_upt_Some)
  then have "i + 3 \<le> length mem" using b by (simp add: frame_free_def)
  then obtain m where "for_range i (i + 3) (\<lambda>k mem. do { l \<leftarrow> arr_get mem k; arr_set mem k (l\<lparr>var := p\<rparr>) }) mem = Some m"
      "length m = length mem" "\<forall>k < length mem. m ! k = (if i \<le> k \<and> k < i + 3 then (mem ! k)\<lparr>var := p\<rparr> else mem ! k)"
    using for_range_lines [of i "i + 3" mem "\<lambda>k mem. do { l \<leftarrow> arr_get mem k; arr_set mem k (l\<lparr>var := p\<rparr>) }" "\<lambda>l. l\<lparr>var := p\<rparr>"]
    by auto
  then show ?thesis using Some f by (auto simp: frame_alloc_def)
qed

lemma clear_frame_step:
  assumes "i + 3 \<le> length mem"
  shows "\<exists>m. clear_frame i mem = Some m \<and> length m = length mem \<and>
    (\<forall>k < length mem. m ! k = (if i \<le> k \<and> k < i + 3 then none_line else mem ! k))"
  using for_range_lines [of i "i + 3" mem mem_free_at "\<lambda>_. none_line"] assms mem_free_at_line
  by (auto simp: clear_frame_def)

lemma get_victim_none: "num_pages pcb = 0 \<Longrightarrow> get_victim pcb = Some 0"
  by (simp add: get_victim_def)

subsection \<open>Properties\<close>

text \<open>
  Variables of the first shell: after \<open>mem_set_value\<close> the variable has the new value, provided that it
  existed or that a line was free, and every other variable keeps its value; when the memory is full, a new
  variable is dropped and nothing changes.
\<close>

theorem a1_variable_store:
  assumes "length mem = 1000" and "v \<noteq> ''none''" and "w \<noteq> ''none''"
  shows "(if get_var 0 1000 v mem \<noteq> None \<or> has_room 0 1000 mem
          then a1_mem_get_value w (a1_mem_set_value v x mem) = (if w = v then x else a1_mem_get_value w mem)
          else a1_mem_set_value v x mem = mem) \<and> length (a1_mem_set_value v x mem) = 1000"
proof -
  have ok: "1000 \<le> length mem" using assms by simp
  show ?thesis
    using vs.get_put_same [OF ok assms(2), of 0 x] vs.get_put_other [OF ok assms(3), of v 0 x] vs.put_full [OF ok, of 0 v x] assms(1)
    by (auto simp: a1_mem_get_value_def a1_mem_set_value_def)
qed

theorem a1_variable_store_witness:
  "a1_mem_get_value ''x'' (a1_mem_set_value ''x'' ''5'' a1_mem_init) = ''5'' \<and>
   a1_mem_get_value ''y'' (a1_mem_set_value ''x'' ''5'' a1_mem_init) = ''Variable does not exist''"
proof -
  have "find_var 0 1000 ''none'' a1_mem_init = Some 0" and "find_var 0 1000 ''y'' a1_mem_init = None"
    by (auto simp: find_var_def a1_mem_init_def none_line_def find_upt_None find_upt_Some)
  then have "has_room 0 1000 a1_mem_init" and n: "get_var 0 1000 ''y'' a1_mem_init = None"
    by (simp_all add: has_room_def get_var_def)
  then show ?thesis
    using a1_variable_store [of a1_mem_init "''x''" "''x''" "''5''"] a1_variable_store [of a1_mem_init "''x''" "''y''" "''5''"]
    by (simp add: a1_mem_init_def a1_mem_get_value_def)
qed

text \<open>
  In the third shell variables and frames do not disturb each other: setting a variable changes no line of
  the frame store, and loading a line of a program into the frame store changes no variable.
\<close>

theorem a3_zones_isolated:
  assumes "length mem = fss + vss" and "ps < fss"
  shows "a3_mem_set_value fss vss v x mem ! ps = mem ! ps \<and>
    (case mem_set_value_at ps p line mem of
       None \<Rightarrow> False
     | Some m \<Rightarrow> mem_get_value_at ps m = Some line \<and> a3_mem_get_value fss vss w caller m = a3_mem_get_value fss vss w caller mem)"
proof -
  have "find_var fss (fss + vss) w (mem[ps := l]) = find_var fss (fss + vss) w mem" for l
    using assms(2) by (auto simp: find_var_def nth_list_update intro!: find_cong)
  moreover have "mem[ps := l] ! j = mem ! j" if "find_var fss (fss + vss) w mem = Some j" for l j
    using find_var_Some [OF that] assms(2) by simp
  ultimately have "get_var fss (fss + vss) w (mem[ps := l]) = get_var fss (fss + vss) w mem" for l
    by (cases "find_var fss (fss + vss) w mem") (simp_all add: get_var_def)
  then show ?thesis
    using assms set_var_outside [of "fss + vss" mem ps fss v x]
    by (simp add: a3_mem_set_value_def mem_set_value_at_def mem_get_value_at_def a3_mem_get_value_def)
qed

theorem a3_zones_isolated_witness:
  "a3_mem_set_value 3 2 ''x'' ''1'' (a3_mem_init 3 2) ! 0 = none_line \<and>
   (\<exists>m. mem_set_value_at 0 ''7'' ''quit'' (a3_mem_init 3 2) = Some m \<and> mem_get_value_at 0 m = Some ''quit'')"
  using a3_zones_isolated [where mem = "a3_mem_init 3 2" and fss = 3 and vss = 2 and ps = 0 and v = "''x''" and
    x = "''1''" and p = "''7''" and line = "''quit''" and w = "''x''" and caller = "CHR ''p''"]
  by (cases "mem_set_value_at 0 ''7'' ''quit'' (a3_mem_init 3 2)") (simp_all add: a3_mem_init_def)

text \<open>
  C40. \<open>frame_alloc\<close> gives out frames that nobody has: the three lines were free and lie in the frame store, the
  call changes only their owner, and it fails only when no three consecutive lines are free. A second frame,
  allocated while the first is held, has no line in common with it.
\<close>

theorem frame_alloc_exclusive:
  assumes "border \<le> length mem" and "p \<noteq> ''none''" and "frame_alloc border p mem = Some (Some ix, m)"
    and "frame_alloc border q m = Some (Some ix', m')"
  shows "(\<forall>k \<in> set ix. k < border \<and> var (mem ! k) = ''none'' \<and> var (m ! k) = p) \<and> length ix = 3 \<and>
    (\<forall>k < length mem. k \<notin> set ix \<longrightarrow> m ! k = mem ! k) \<and> set ix \<inter> set ix' = {}"
proof -
  obtain i where i: "ix = [i, i + 1, i + 2]" "frame_free border mem i" "length m = length mem"
      "\<forall>k < length mem. m ! k = (if i \<le> k \<and> k < i + 3 then (mem ! k)\<lparr>var := p\<rparr> else mem ! k)"
    using frame_alloc_step [OF assms(1), of p] assms(3) by auto
  have b': "border \<le> length m" using assms(1) i(3) by simp
  obtain j where j: "ix' = [j, j + 1, j + 2]" "frame_free border m j"
    using frame_alloc_step [OF b', of q] assms(4) by auto
  have ib: "i + 3 \<le> border" "\<forall>k. i \<le> k \<and> k < i + 3 \<longrightarrow> var (mem ! k) = ''none''" using i(2) by (auto simp: frame_free_def)
  have jb: "\<forall>k. j \<le> k \<and> k < j + 3 \<longrightarrow> var (m ! k) = ''none''" using j(2) by (auto simp: frame_free_def)
  have own: "var (m ! k) = p" if "i \<le> k" "k < i + 3" for k using that i(4) ib(1) assms(1) by auto
  have "\<not> (j \<le> k \<and> k < j + 3)" if "i \<le> k" "k < i + 3" for k using own [OF that] jb assms(2) by auto
  moreover have "set ix = {k. i \<le> k \<and> k < i + 3}" "set ix' = {k. j \<le> k \<and> k < j + 3}" using i(1) j(1) by auto
  ultimately show ?thesis using i ib own by auto
qed

theorem frame_alloc_exclusive_witness:
  "\<exists>ix m ix' m'. frame_alloc 6 ''1'' (a3_mem_init 6 1) = Some (Some ix, m) \<and>
     frame_alloc 6 ''2'' m = Some (Some ix', m') \<and> set ix \<inter> set ix' = {}"
proof -
  have f: "frame_free 6 (a3_mem_init 6 1) 0" by (simp add: frame_free_def a3_mem_init_def none_line_def)
  then obtain i m where a: "frame_alloc 6 ''1'' (a3_mem_init 6 1) = Some (Some [i, i + 1, i + 2], m)"
    using frame_alloc_step [of 6 "a3_mem_init 6 1" "''1''"] by (auto simp: a3_mem_init_def)
  have "find (frame_free 6 (a3_mem_init 6 1)) [0..<6] = Some 0" using f by (simp add: find_upt_Some)
  then have "i = 0" using a by (auto simp: frame_alloc_def split: bind_splits)
  have m: "length m = 7" "\<forall>k < 7. m ! k = (if k < 3 then none_line\<lparr>var := ''1''\<rparr> else none_line)"
    using frame_alloc_step [of 6 "a3_mem_init 6 1" "''1''"] a \<open>i = 0\<close> by (auto simp: a3_mem_init_def)
  then have "frame_free 6 m 3" by (auto simp: frame_free_def none_line_def)
  then obtain j m' where b: "frame_alloc 6 ''2'' m = Some (Some [j, j + 1, j + 2], m')"
    using frame_alloc_step [of 6 m "''2''"] m(1) by auto
  show ?thesis using frame_alloc_exclusive [OF _ _ a b] a b by (auto simp: a3_mem_init_def)
qed

text \<open>
  In the second shell, when no frame is free, \<open>find_free_frame\<close> evicts the frame whose number is the number of the
  victim page: it looks up the least recently used page of the process and takes its page number for a frame
  number, without its page table. The frame that is cleared may belong to any process.
\<close>

theorem find_free_frame_ignores_page_table:
  assumes "find (\<lambda>i. var (mem ! i) = ''none'') (frame_starts vs fs) = None" and "get_victim pcb = Some victim"
    and "victim < length (lru_timer pcb)" and "vs + victim * 3 + 3 \<le> length mem"
  shows "\<exists>m. find_free_frame vs fs pcb mem = Some (vs + victim * 3, pcb\<lparr>lru_timer := (lru_timer pcb)[victim := 0]\<rparr>, m) \<and>
    (\<forall>k < length mem. m ! k = (if vs + victim * 3 \<le> k \<and> k < vs + victim * 3 + 3 then none_line else mem ! k))"
proof -
  let ?i = "vs + victim * 3"
  obtain m where m: "for_range ?i (?i + 3) (\<lambda>i mem. arr_set mem i none_line) mem = Some m"
      "\<forall>k < length mem. m ! k = (if ?i \<le> k \<and> k < ?i + 3 then none_line else mem ! k)"
    using for_range_lines [of ?i "?i + 3" mem "\<lambda>i mem. arr_set mem i none_line" "\<lambda>_. none_line"] assms(4) by auto
  have "mem_free_lines_frame ?i (?i + 2) mem = Some m"
    using m(1) unfolding mem_free_lines_frame_def by (simp add: numeral_3_eq_3)
  then show ?thesis using assms m(2) by (simp add: find_free_frame_def Let_def)
qed

definition pcb_example :: a2_pcb where
  "pcb_example = \<lparr>priority = False, pid = 1, PC = 0, start = 0, endl = 0, job_length_score = 0, pagetable = [2],
     num_pages = 1, current_page = 0, next_page = 0, pages_needed = 1, lru_timer = [4], pcb_filename = Some ''p'',
     pagefault = False, line_offset = 0\<rparr>"

theorem find_free_frame_ignores_page_table_witness:
  "\<exists>m. find_free_frame 0 6 pcb_example (replicate 3 \<lparr>var = ''q'', val = ''a''\<rparr> @ replicate 3 \<lparr>var = ''p'', val = ''b''\<rparr>) =
     Some (0, pcb_example\<lparr>lru_timer := [0]\<rparr>, m) \<and> m ! 0 = none_line"
proof -
  let ?m = "replicate 3 \<lparr>var = ''q'', val = ''a''\<rparr> @ replicate 3 \<lparr>var = ''p'', val = ''b''\<rparr>"
  have "find (\<lambda>i. var (?m ! i) = ''none'') (frame_starts 0 6) = None"
    by (simp add: frame_starts_def upt_conv_Cons nth_append)
  moreover have "get_victim pcb_example = Some 0"
    by (simp add: get_victim_def pcb_example_def for_range.simps [of 0])
  ultimately show ?thesis using find_free_frame_ignores_page_table [of ?m 0 6 pcb_example 0] by (auto simp: pcb_example_def)
qed

end
