(* ===== verification/Shell1.thy ===== *)
theory Shell1
  imports Shell_Memory
begin

text \<open>
  The shell of the first assignment: \<open>src/a1/shell.c\<close> and \<open>src/a1/interpreter.c\<close>.

  The state of the shell is its memory, what it has printed, and the state of the operating system below it, which
  the system calls change; these calls are the argument \<open>os\<close> (type \<open>'h host\<close>). Input strings are the characters up to
  the terminator. A word of 200 characters or more, more than 100 words and values too long for the buffer of
  \<open>set\<close> overflow an array, which is undefined (\<open>None\<close>). \<open>Inl n\<close> is \<open>exit(n)\<close>. The functions \<open>parseInput\<close>,
  \<open>interpreter\<close> and \<open>run\<close> call each other; \<open>a1_parse\<close> counts how deep scripts may run scripts. The value of
  \<open>echo\<close>, which has no return statement, is the argument \<open>junk\<close>.
\<close>

record 'h host =
  os_ls :: "'h \<Rightarrow> string"
  os_mkdir :: "string \<Rightarrow> 'h \<Rightarrow> 'h"
  os_create :: "string \<Rightarrow> 'h \<Rightarrow> 'h option"
  os_chdir :: "string \<Rightarrow> 'h \<Rightarrow> 'h option"
  os_read :: "string \<Rightarrow> 'h \<Rightarrow> string option"

record 'h a1_state =
  a1_mem :: shellmemory
  a1_out :: string
  a1_host :: 'h

type_synonym 'h a1_result = "(int + int \<times> 'h a1_state) option"

abbreviation newline :: char where
  "newline \<equiv> CHR 0x0A"

definition put_line :: "string \<Rightarrow> 'h a1_state \<Rightarrow> 'h a1_state" where
  "put_line str s = s\<lparr>a1_out := a1_out s @ str @ [newline]\<rparr>"

subsection \<open>Words of a line\<close>

definition a1_sep :: "char \<Rightarrow> bool" where
  "a1_sep c \<longleftrightarrow> c = CHR '';'' \<or> c = newline \<or> c = CHR '' ''"

text \<open>The loop of \<open>parseInput\<close> from one position on: the words up to a newline or the end.\<close>

function a1_words :: "string \<Rightarrow> string list" where
  "a1_words cs =
     (if cs = [] \<or> hd cs = newline then []
      else let w = takeWhile (\<lambda>c. \<not> a1_sep c) cs; rest = dropWhile (\<lambda>c. \<not> a1_sep c) cs
           in if rest = [] then [w] else w # a1_words (tl rest))"
  by pat_completeness auto
termination
proof (relation "measure length", goal_cases)
  case (2 cs w rest)
  then have "rest \<noteq> []" "length rest \<le> length cs" by (simp_all add: length_dropWhile_le)
  then have "length (tl rest) < length cs" by (cases rest) auto
  then show ?case by simp
qed simp

declare a1_words.simps [simp del]

definition a1_split :: "string \<Rightarrow> string list option" where
  "a1_split ui =
     (let ws = a1_words (dropWhile (\<lambda>c. c = CHR '' '') ui)
      in if length ui < 1000 \<and> (\<forall>w \<in> set ws. length w < 200) \<and> length ws \<le> 100 then Some ws else None)"

subsection \<open>Commands\<close>

definition badcommand :: "'h a1_state \<Rightarrow> int \<times> 'h a1_state" where
  "badcommand s = (1, put_line ''Unknown Command'' s)"

definition badcommandFileDoesNotExist :: "'h a1_state \<Rightarrow> int \<times> 'h a1_state" where
  "badcommandFileDoesNotExist s = (3, put_line ''Bad command: File not found'' s)"

definition badcommandSet :: "'h a1_state \<Rightarrow> int \<times> 'h a1_state" where
  "badcommandSet s = (3, put_line ''Bad command: set'' s)"

definition invalidName :: "'h a1_state \<Rightarrow> int \<times> 'h a1_state" where
  "invalidName s = (3, put_line ''Name of directory or file is longer than 100 characters'' s)"

definition badcommandCD :: "'h a1_state \<Rightarrow> int \<times> 'h a1_state" where
  "badcommandCD s = (3, put_line ''Bad command: my_cd'' s)"

definition badcommandCat :: "'h a1_state \<Rightarrow> int \<times> 'h a1_state" where
  "badcommandCat s = (3, put_line ''Bad command: my_cat'' s)"

text \<open>The text of \<open>help\<close> is an argument of the model.\<close>

definition a1_help :: "string \<Rightarrow> 'h a1_state \<Rightarrow> int \<times> 'h a1_state" where
  "a1_help help_string s = (0, put_line help_string s)"

definition a1_quit :: "'h a1_state \<Rightarrow> 'h a1_result" where
  "a1_quit s = Some (Inl 0)"

definition a1_set :: "string \<Rightarrow> string \<Rightarrow> 'h a1_state \<Rightarrow> int \<times> 'h a1_state" where
  "a1_set v x s = (0, s\<lparr>a1_mem := a1_mem_set_value v x (a1_mem s)\<rparr>)"

definition a1_print :: "string \<Rightarrow> 'h a1_state \<Rightarrow> int \<times> 'h a1_state" where
  "a1_print v s = (0, put_line (a1_mem_get_value v (a1_mem s)) s)"

definition a1_echo :: "int \<Rightarrow> string \<Rightarrow> 'h a1_state \<Rightarrow> int \<times> 'h a1_state" where
  "a1_echo junk inp s =
     (junk,
      if length inp \<le> 100 then
        (if inp = [] \<or> hd inp \<noteq> CHR ''$'' then put_line inp s
         else let x = a1_mem_get_value (tl inp) (a1_mem s)
              in if x = ''Variable does not exist'' then put_line '' '' s else put_line x s)
      else put_line ''Input string is too long (>100 characters)'' s)"

definition a1_my_ls :: "'h host \<Rightarrow> 'h a1_state \<Rightarrow> int \<times> 'h a1_state" where
  "a1_my_ls os s = (0, s\<lparr>a1_out := a1_out s @ os_ls os (a1_host s)\<rparr>)"

definition a1_my_mkdir :: "'h host \<Rightarrow> string \<Rightarrow> 'h a1_state \<Rightarrow> int \<times> 'h a1_state" where
  "a1_my_mkdir os dirname s =
     (if length dirname \<le> 100 then (0, s\<lparr>a1_host := os_mkdir os dirname (a1_host s)\<rparr>)
      else (0, snd (invalidName s)))"

text \<open>\<open>fclose\<close> of a file that could not be opened is undefined.\<close>

definition a1_my_touch :: "'h host \<Rightarrow> string \<Rightarrow> 'h a1_state \<Rightarrow> (int \<times> 'h a1_state) option" where
  "a1_my_touch os filename s =
     (if length filename \<le> 100 then do {
        h \<leftarrow> os_create os filename (a1_host s);
        Some (0, s\<lparr>a1_host := h\<rparr>)
      } else Some (0, snd (invalidName s)))"

definition a1_my_cd :: "'h host \<Rightarrow> string \<Rightarrow> 'h a1_state \<Rightarrow> int \<times> 'h a1_state" where
  "a1_my_cd os dirname s =
     (if length dirname \<le> 100 then
        (case os_chdir os dirname (a1_host s) of
           None \<Rightarrow> (0, snd (badcommandCD s))
         | Some h \<Rightarrow> (0, s\<lparr>a1_host := h\<rparr>))
      else (0, snd (invalidName s)))"

text \<open>
  The loop of \<open>my_cat\<close> prints each character before it compares it with \<open>EOF\<close>, in a variable of type
  \<open>char\<close>: it ends at the first character 255, and prints one at the end of the file.
\<close>

definition a1_my_cat :: "'h host \<Rightarrow> string \<Rightarrow> 'h a1_state \<Rightarrow> int \<times> 'h a1_state" where
  "a1_my_cat os filename s =
     (if length filename \<le> 100 then
        (case os_read os filename (a1_host s) of
           None \<Rightarrow> (0, snd (badcommandCat s))
         | Some content \<Rightarrow> (0, s\<lparr>a1_out := a1_out s @ takeWhile (\<lambda>c. c \<noteq> CHR 0xFF) content @ [CHR 0xFF]\<rparr>))
      else (0, snd (invalidName s)))"

text \<open>The tokens behind the name of the variable, with single spaces between them, in an array of 500 characters.\<close>

primrec join_tokens :: "string list \<Rightarrow> string" where
  "join_tokens [] = []"
| "join_tokens (w # ws) = w @ concat (map (\<lambda>v. CHR '' '' # v) ws)"

text \<open>The interpreter, given the function that runs a script. Ends of lines are cut off the words first.\<close>

definition strip :: "string \<Rightarrow> string" where
  "strip = takeWhile (\<lambda>c. c \<noteq> CHR 0x0D \<and> c \<noteq> newline)"

definition a1_interpreter ::
  "'h host \<Rightarrow> string \<Rightarrow> int \<Rightarrow> (string \<Rightarrow> 'h a1_state \<Rightarrow> 'h a1_result) \<Rightarrow> string list \<Rightarrow> 'h a1_state \<Rightarrow> 'h a1_result" where
  "a1_interpreter os help_string junk run_script args s =
     (let n = length args; words = map strip args; cmd = words ! 0; done = (\<lambda>r. Some (Inr r))
      in if n < 1 then done (badcommand s)
         else if n > 7 \<and> args ! 0 \<noteq> ''set'' then done (badcommand s)
         else if cmd = ''help'' then (if n \<noteq> 1 then done (badcommand s) else done (a1_help help_string s))
         else if cmd = ''quit'' then (if n \<noteq> 1 then done (badcommand s) else a1_quit s)
         else if cmd = ''set'' then
           (if n < 3 \<or> n > 7 then done (badcommandSet s)
            else let inp = join_tokens (drop 2 words)
                 in if length inp < 500 then done (a1_set (words ! 1) inp s) else None)
         else if cmd = ''print'' then (if n \<noteq> 2 then done (badcommand s) else done (a1_print (words ! 1) s))
         else if cmd = ''run'' then (if n \<noteq> 2 then done (badcommandFileDoesNotExist s) else run_script (words ! 1) s)
         else if cmd = ''echo'' then (if n \<noteq> 2 then done (badcommand s) else done (a1_echo junk (words ! 1) s))
         else if cmd = ''my_ls'' then (if n \<noteq> 1 then done (badcommand s) else done (a1_my_ls os s))
         else if cmd = ''my_mkdir'' then (if n \<noteq> 2 then done (badcommand s) else done (a1_my_mkdir os (words ! 1) s))
         else if cmd = ''my_touch'' then
           (if n \<noteq> 2 then done (badcommand s) else map_option Inr (a1_my_touch os (words ! 1) s))
         else if cmd = ''my_cd'' then (if n \<noteq> 2 then done (badcommandCD s) else done (a1_my_cd os (words ! 1) s))
         else if cmd = ''my_cat'' then (if n \<noteq> 2 then done (badcommandCat s) else done (a1_my_cat os (words ! 1) s))
         else done (badcommand s))"

text \<open>
  What the buffer of \<open>run\<close> holds each time a line is interpreted. It is cleared after each line, so that a read
  at the end of the file leaves an empty line.
\<close>

function read_lines :: "string \<Rightarrow> string list" where
  "read_lines src = (case fgets 999 src of (l, r, e) \<Rightarrow> (case l of Some x \<Rightarrow> x | None \<Rightarrow> []) # (if e then [] else read_lines r))"
  by pat_completeness auto
termination
  by (relation "measure length")
    (auto simp: fgets_def split: prod.splits intro: fgets_take_consumes [of 997, simplified])

declare read_lines.simps [simp del]

primrec run_lines :: "(string \<Rightarrow> 'h a1_state \<Rightarrow> 'h a1_result) \<Rightarrow> string list \<Rightarrow> int \<Rightarrow> 'h a1_state \<Rightarrow> 'h a1_result" where
  "run_lines parse [] errCode s = Some (Inr (errCode, s))"
| "run_lines parse (line # ls) errCode s = do {
     r \<leftarrow> parse line s;
     on_ok r (\<lambda>(errCode, s). run_lines parse ls errCode s)
   }"

text \<open>The first read of an empty file leaves the buffer uninitialised.\<close>

definition a1_run :: "'h host \<Rightarrow> (string \<Rightarrow> 'h a1_state \<Rightarrow> 'h a1_result) \<Rightarrow> string \<Rightarrow> 'h a1_state \<Rightarrow> 'h a1_result" where
  "a1_run os parse script s =
     (case os_read os script (a1_host s) of
        None \<Rightarrow> Some (Inr (badcommandFileDoesNotExist s))
      | Some content \<Rightarrow> if content = [] then None else run_lines parse (read_lines content) 0 s)"

text \<open>The argument counts the scripts that run each other; a script that runs itself needs any number.\<close>

primrec a1_parse :: "nat \<Rightarrow> 'h host \<Rightarrow> string \<Rightarrow> int \<Rightarrow> string \<Rightarrow> 'h a1_state \<Rightarrow> 'h a1_result" where
  "a1_parse 0 os help_string junk ui s = do {
     ws \<leftarrow> a1_split ui;
     a1_interpreter os help_string junk (\<lambda>_ _. None) ws s
   }"
| "a1_parse (Suc n) os help_string junk ui s = do {
     ws \<leftarrow> a1_split ui;
     a1_interpreter os help_string junk (a1_run os (a1_parse n os help_string junk)) ws s
   }"

text \<open>The main loop, on the lines of the user: every status but -1 is ignored.\<close>

primrec a1_main :: "nat \<Rightarrow> 'h host \<Rightarrow> string \<Rightarrow> int \<Rightarrow> string list \<Rightarrow> 'h a1_state \<Rightarrow> (int + 'h a1_state) option" where
  "a1_main n os help_string junk [] s = Some (Inr s)"
| "a1_main n os help_string junk (ui # uis) s = do {
     r \<leftarrow> a1_parse n os help_string junk ui s;
     on_ok r (\<lambda>(errorCode, s). if errorCode = - 1 then Some (Inl 99) else a1_main n os help_string junk uis s)
   }"

subsection \<open>Splitting and joining\<close>

definition is_word :: "string \<Rightarrow> bool" where
  "is_word w \<longleftrightarrow> w \<noteq> [] \<and> (\<forall>c \<in> set w. \<not> a1_sep c \<and> c \<noteq> CHR 0x0D)"

lemma a1_words_step:
  assumes "is_word w" and "a1_sep c"
  shows "a1_words (w @ c # rest) = w # a1_words rest"
proof -
  have nl: "hd (w @ c # rest) \<noteq> newline" using assms(1) by (cases w) (auto simp: is_word_def a1_sep_def)
  have "takeWhile (\<lambda>c. \<not> a1_sep c) (w @ c # rest) = w" "dropWhile (\<lambda>c. \<not> a1_sep c) (w @ c # rest) = c # rest"
    using assms by (simp_all add: is_word_def takeWhile_append2 dropWhile_append2)
  then show ?thesis using nl by (subst a1_words.simps) simp
qed

lemma a1_words_nil [simp]: "a1_words [] = []"
  by (simp add: a1_words.simps)

lemma a1_words_join:
  "ws \<noteq> [] \<Longrightarrow> \<forall>w \<in> set ws. is_word w \<Longrightarrow> a1_words (join_tokens ws @ [newline]) = ws"
proof (induction ws rule: list_nonempty_induct)
  case (single w)
  then show ?case using a1_words_step [of w newline "[]"] by (simp add: a1_sep_def)
next
  case (cons w ws)
  have "join_tokens (w # ws) = w @ CHR '' '' # join_tokens ws" using cons by (cases ws) simp_all
  then show ?case using cons a1_words_step [of w "CHR '' ''" "join_tokens ws @ [newline]"] by (simp add: a1_sep_def)
qed

lemma a1_words_no_sep: "w \<in> set (a1_words cs) \<Longrightarrow> \<forall>c \<in> set w. \<not> a1_sep c"
proof (induction cs rule: a1_words.induct)
  case (1 cs)
  show ?case
  proof (cases "cs = [] \<or> hd cs = newline")
    case True
    then show ?thesis using 1(2) by (subst (asm) a1_words.simps) simp
  next
    case False
    then have "w = takeWhile (\<lambda>c. \<not> a1_sep c) cs \<or>
      dropWhile (\<lambda>c. \<not> a1_sep c) cs \<noteq> [] \<and> w \<in> set (a1_words (tl (dropWhile (\<lambda>c. \<not> a1_sep c) cs)))"
      using 1(2) by (subst (asm) a1_words.simps) (auto simp: Let_def split: if_splits)
    then show ?thesis
    proof
      assume "w = takeWhile (\<lambda>c. \<not> a1_sep c) cs"
      then show ?thesis using set_takeWhileD [of _ "\<lambda>c. \<not> a1_sep c" cs] by blast
    qed (use 1(1) [OF False refl refl] in blast)
  qed
qed

lemma strip_word: "\<forall>c \<in> set w. \<not> a1_sep c \<and> c \<noteq> CHR 0x0D \<Longrightarrow> strip w = w"
  by (simp add: strip_def a1_sep_def takeWhile_eq_all_conv)

lemma length_member_concat: "w \<in> set ws \<Longrightarrow> length w \<le> length (concat (map (\<lambda>v. x # v) ws))"
  by (induction ws) auto

lemma length_join: "length (join_tokens ws) + 1 = (\<Sum>w \<leftarrow> ws. length w + 1) \<or> ws = []"
  by (cases ws) (simp_all add: length_concat comp_def)

lemma a1_split_join:
  assumes "ws \<noteq> []" and "\<forall>w \<in> set ws. is_word w \<and> length w < 200" and "length ws \<le> 100" and "length (join_tokens ws) < 999"
  shows "a1_split (join_tokens ws @ [newline]) = Some ws"
proof -
  have "is_word (hd ws)" using assms(1,2) by simp
  then have "join_tokens ws \<noteq> [] \<and> hd (join_tokens ws) \<noteq> CHR '' ''"
    using assms(1) by (cases ws) (auto simp: is_word_def a1_sep_def hd_append dest: hd_in_set)
  then have "dropWhile (\<lambda>c. c = CHR '' '') (join_tokens ws @ [newline]) = join_tokens ws @ [newline]"
    by (cases "join_tokens ws") auto
  then show ?thesis using a1_words_join [OF assms(1)] assms by (auto simp: a1_split_def)
qed

subsection \<open>Properties\<close>

text \<open>
  Typed lines are taken apart as they were put together: the words of a line of at most 100 words, each shorter than
  200 characters, none empty and none with a separator in it, written with single spaces between them and
  a newline at the end, are exactly those words.
\<close>

theorem parse_line_round_trip:
  assumes "ws \<noteq> []" and "\<forall>w \<in> set ws. is_word w \<and> length w < 200" and "length ws \<le> 100" and "length (join_tokens ws) < 999"
  shows "a1_split (join_tokens ws @ [newline]) = Some ws"
  by (rule a1_split_join [OF assms])

theorem parse_line_round_trip_witness: "a1_split (join_tokens [''set'', ''x'', ''5''] @ [newline]) = Some [''set'', ''x'', ''5'']"
  by (rule parse_line_round_trip) (simp_all add: is_word_def a1_sep_def)

lemma a1_parse_words:
  assumes "a1_split ui = Some ws"
  shows "\<exists>rs. \<forall>s. a1_parse n os help_string junk ui s = a1_interpreter os help_string junk rs ws s"
  using assms by (cases n) auto

lemma strip_words: "\<forall>w \<in> set ws. is_word w \<Longrightarrow> map strip ws = ws"
  using strip_word by (auto simp: is_word_def map_idI)

lemma interpreter_set:
  assumes "\<forall>w \<in> set (''set'' # v # ts). is_word w" and "ts \<noteq> []" and "length ts \<le> 5" and "length (join_tokens ts) < 500"
  shows "a1_interpreter os help_string junk rs (''set'' # v # ts) s = Some (Inr (a1_set v (join_tokens ts) s))"
proof -
  have "length (''set'' # v # ts) \<ge> 3" using assms(2) by (cases ts) auto
  then show ?thesis using assms(2,3,4) by (simp add: a1_interpreter_def Let_def strip_words [OF assms(1)] del: list.map)
qed

lemma interpreter_echo:
  assumes "is_word w"
  shows "a1_interpreter os help_string junk rs [''echo'', w] s = Some (Inr (a1_echo junk w s))"
proof -
  have "map strip [''echo'', w] = [''echo'', w]" using assms by (intro strip_words) (auto simp: is_word_def a1_sep_def)
  then show ?thesis by (simp add: a1_interpreter_def Let_def del: list.map)
qed

text \<open>
  C7. \<open>set\<close> and \<open>echo\<close> on typed lines: after the line \<open>set v t1 ... tn\<close>, with one to five tokens, the
  line \<open>echo $v\<close> prints the tokens with single spaces between them, whatever the shell did before, as long as the
  memory knows the variable or has a free line. The shell goes on when the value that \<open>echo\<close> leaves is not
  -1.
\<close>

theorem set_then_echo:
  assumes mem: "length (a1_mem s) = 1000" "find_var 0 1000 v (a1_mem s) \<noteq> None \<or> has_room 0 1000 (a1_mem s)"
    and v: "is_word v" "v \<noteq> ''none''" "length v < 100"
    and ts: "ts \<noteq> []" "length ts \<le> 5" "\<forall>t \<in> set ts. is_word t \<and> length t < 200" "join_tokens ts \<noteq> ''Variable does not exist''"
    and len: "length (join_tokens ts) < 500" and junk: "junk \<noteq> - 1"
  shows "\<exists>s'. a1_main n os help_string junk [join_tokens (''set'' # v # ts) @ [newline], join_tokens [''echo'', CHR ''$'' # v] @ [newline]] s = Some (Inr s') \<and>
    a1_out s' = a1_out s @ join_tokens ts @ [newline]"
proof -
  define x where "x = join_tokens ts"
  define s1 where "s1 = s\<lparr>a1_mem := a1_mem_set_value v x (a1_mem s)\<rparr>"
  have w: "is_word ''set''" "is_word ''echo''" "is_word (CHR ''$'' # v)" using v(1) by (auto simp: is_word_def a1_sep_def)
  have j: "join_tokens (''set'' # v # ts) = ''set'' @ CHR '' '' # v @ CHR '' '' # x" using ts(1) by (cases ts) (simp_all add: x_def)
  have "a1_split (join_tokens (''set'' # v # ts) @ [newline]) = Some (''set'' # v # ts)"
  proof (rule a1_split_join)
    show "\<forall>w \<in> set (''set'' # v # ts). is_word w \<and> length w < 200" using w(1) v ts(3) by simp
    show "length (join_tokens (''set'' # v # ts)) < 999" using j v(3) len by (simp add: x_def)
  qed (use ts(2) in simp_all)
  then obtain rs where rs: "\<forall>s. a1_parse n os help_string junk (join_tokens (''set'' # v # ts) @ [newline]) s = a1_interpreter os help_string junk rs (''set'' # v # ts) s"
    using a1_parse_words by blast
  have "\<forall>w \<in> set (''set'' # v # ts). is_word w" using w(1) v(1) ts(3) by simp
  from interpreter_set [OF this ts(1,2) len] rs
  have p1: "a1_parse n os help_string junk (join_tokens (''set'' # v # ts) @ [newline]) s = Some (Inr (0, s1))"
    unfolding a1_set_def s1_def x_def by simp
  have "a1_split (join_tokens [''echo'', CHR ''$'' # v] @ [newline]) = Some [''echo'', CHR ''$'' # v]"
    using w v by (intro a1_split_join) auto
  then obtain rs2 where "\<forall>s. a1_parse n os help_string junk (join_tokens [''echo'', CHR ''$'' # v] @ [newline]) s = a1_interpreter os help_string junk rs2 [''echo'', CHR ''$'' # v] s"
    using a1_parse_words by blast
  then have p2: "a1_parse n os help_string junk (join_tokens [''echo'', CHR ''$'' # v] @ [newline]) s1 = Some (Inr (a1_echo junk (CHR ''$'' # v) s1))"
    using interpreter_echo [OF w(3), of os help_string junk rs2 s1] by metis
  have "get_var 0 1000 v (a1_mem s) \<noteq> None \<or> has_room 0 1000 (a1_mem s)" using mem(2) by (simp add: get_var_def)
  then have "a1_mem_get_value v (a1_mem s1) = x"
    using get_set_var_same [of 1000 "a1_mem s" v 0 x] mem(1) v(2) by (simp add: a1_mem_get_value_def a1_mem_set_value_def s1_def)
  then have "a1_echo junk (CHR ''$'' # v) s1 = (junk, put_line x s1)" using v(3) ts(4) by (simp add: a1_echo_def x_def)
  then have "a1_main n os help_string junk [join_tokens (''set'' # v # ts) @ [newline], join_tokens [''echo'', CHR ''$'' # v] @ [newline]] s = Some (Inr (put_line x s1))"
    using p1 p2 junk by simp
  then show ?thesis by (simp add: put_line_def s1_def x_def)
qed

definition a1_start :: "unit a1_state" where
  "a1_start = \<lparr>a1_mem = a1_mem_init, a1_out = [], a1_host = ()\<rparr>"

definition a1_no_files :: "unit host" where
  "a1_no_files = \<lparr>os_ls = (\<lambda>_. []), os_mkdir = (\<lambda>_ h. h), os_create = (\<lambda>_. Some), os_chdir = (\<lambda>_ _. None), os_read = (\<lambda>_ _. None)\<rparr>"

theorem set_then_echo_witness:
  "\<exists>s'. a1_main 0 a1_no_files [] 0 [join_tokens [''set'', ''x'', ''a'', ''b''] @ [newline], join_tokens [''echo'', ''$x''] @ [newline]] a1_start = Some (Inr s') \<and>
    a1_out s' = ''a b'' @ [newline]"
proof -
  have "has_room 0 1000 (a1_mem a1_start)"
    unfolding has_room_def
  proof
    assume "find_var 0 1000 ''none'' (a1_mem a1_start) = None"
    from find_var_None [OF this, of 0] show False by (simp add: a1_start_def a1_mem_init_def none_line_def)
  qed
  moreover have "length (a1_mem a1_start) = 1000" by (simp add: a1_start_def a1_mem_init_def)
  ultimately have "\<exists>s'. a1_main 0 a1_no_files [] 0 [join_tokens (''set'' # ''x'' # [''a'', ''b'']) @ [newline], join_tokens [''echo'', CHR ''$'' # ''x''] @ [newline]] a1_start = Some (Inr s') \<and>
    a1_out s' = a1_out a1_start @ join_tokens [''a'', ''b''] @ [newline]"
    by (intro set_then_echo) (simp_all add: is_word_def a1_sep_def)
  then show ?thesis by (simp add: a1_start_def)
qed

text \<open>
  \<open>my_cat\<close> never prints a file as it is: the output ends in a character 255, and stops early when the file has one.
\<close>

lemma my_cat_output:
  assumes "length f \<le> 100" and "os_read os f (a1_host s) = Some content" and "CHR 0xFF \<notin> set content"
  shows "a1_my_cat os f s = (0, s\<lparr>a1_out := a1_out s @ content @ [CHR 0xFF]\<rparr>)"
proof -
  have "takeWhile (\<lambda>c. c \<noteq> CHR 0xFF) content = content" using assms(3) by (intro takeWhile_eq_all_conv [THEN iffD2]) blast
  then show ?thesis using assms(1,2) by (simp add: a1_my_cat_def)
qed

end
