(* ===== verification/Ready_Queue.thy ===== *)
theory Ready_Queue
  imports Links Shell_Memory
begin

text \<open>
  The ready queue of the second shell, \<open>src/a2/ready_queue.c\<close>.

  The queue is a singly linked list of nodes on the heap, each with a pointer to a process; \<open>rq_live\<close> tells
  which nodes have not been freed. Following a null pointer or using a freed node is undefined. Processes are never
  freed; they are given by their number in \<open>rq_pcbs\<close>. Loops are partial functions, so that a theorem with a
  result states termination as well.
\<close>

record rq_state =
  rq_head :: ptr
  rq_next :: "nat \<Rightarrow> ptr"
  rq_pcb :: "nat \<Rightarrow> nat"
  rq_live :: "nat \<Rightarrow> bool"
  rq_pcbs :: "a2_pcb list"

definition next_of :: "ptr \<Rightarrow> 'z rq_state_scheme \<Rightarrow> ptr option" where
  "next_of p s = do { a \<leftarrow> p; if rq_live s a then Some (rq_next s a) else None }"

definition set_next_of :: "ptr \<Rightarrow> ptr \<Rightarrow> 'z rq_state_scheme \<Rightarrow> 'z rq_state_scheme option" where
  "set_next_of p v s = do { a \<leftarrow> p; if rq_live s a then Some (s\<lparr>rq_next := (rq_next s)(a := v)\<rparr>) else None }"

definition pcb_of :: "ptr \<Rightarrow> 'z rq_state_scheme \<Rightarrow> a2_pcb option" where
  "pcb_of p s = do { a \<leftarrow> p; if rq_live s a then arr_get (rq_pcbs s) (rq_pcb s a) else None }"

definition free_node :: "ptr \<Rightarrow> 'z rq_state_scheme \<Rightarrow> 'z rq_state_scheme option" where
  "free_node p s = do { a \<leftarrow> p; if rq_live s a then Some (s\<lparr>rq_live := (rq_live s)(a := False)\<rparr>) else None }"

subsection \<open>Operations\<close>

partial_function (option) destroy_loop :: "ptr \<Rightarrow> 'z rq_state_scheme \<Rightarrow> 'z rq_state_scheme option" where
  "destroy_loop cur s = do {
     n \<leftarrow> next_of cur s;
     if n \<noteq> None then do { s \<leftarrow> free_node cur s; destroy_loop n s } else free_node cur s
   }"

definition ready_queue_destory :: "'z rq_state_scheme \<Rightarrow> 'z rq_state_scheme option" where
  "ready_queue_destory s = (if rq_head s = None then Some s else destroy_loop (rq_head s) s)"

partial_function (option) last_node :: "ptr \<Rightarrow> 'z rq_state_scheme \<Rightarrow> ptr option" where
  "last_node cur s = do { n \<leftarrow> next_of cur s; if n \<noteq> None then last_node n s else Some cur }"

definition ready_queue_add_to_tail :: "ptr \<Rightarrow> 'z rq_state_scheme \<Rightarrow> 'z rq_state_scheme option" where
  "ready_queue_add_to_tail node s =
     (if rq_head s = None then set_next_of node None (s\<lparr>rq_head := node\<rparr>)
      else do {
        cur \<leftarrow> last_node (rq_head s) s;
        s \<leftarrow> set_next_of cur node s;
        set_next_of node None s
      })"

definition ready_queue_add_to_head :: "ptr \<Rightarrow> 'z rq_state_scheme \<Rightarrow> 'z rq_state_scheme option" where
  "ready_queue_add_to_head node s =
     (if rq_head s = None then set_next_of node None (s\<lparr>rq_head := node\<rparr>)
      else do { s \<leftarrow> set_next_of node (rq_head s) s; Some (s\<lparr>rq_head := node\<rparr>) })"

definition terminate_process :: "ptr \<Rightarrow> 'z rq_state_scheme \<Rightarrow> 'z rq_state_scheme option" where
  "terminate_process node s = free_node node s"

definition is_ready_empty :: "'z rq_state_scheme \<Rightarrow> bool" where
  "is_ready_empty s = (rq_head s = None)"

definition ready_queue_pop_head :: "'z rq_state_scheme \<Rightarrow> (ptr \<times> 'z rq_state_scheme) option" where
  "ready_queue_pop_head s =
     (if rq_head s \<noteq> None then do { n \<leftarrow> next_of (rq_head s) s; Some (rq_head s, s\<lparr>rq_head := n\<rparr>) }
      else Some (None, s))"

partial_function (option) decrement_loop :: "ptr \<Rightarrow> 'z rq_state_scheme \<Rightarrow> 'z rq_state_scheme option" where
  "decrement_loop cur s =
     (case cur of
        None \<Rightarrow> Some s
      | Some a \<Rightarrow> do {
          pcb \<leftarrow> pcb_of cur s;
          let s = (if job_length_score pcb > 0
                   then s\<lparr>rq_pcbs := (rq_pcbs s)[rq_pcb s a := pcb\<lparr>job_length_score := job_length_score pcb - 1\<rparr>]\<rparr> else s);
          n \<leftarrow> next_of cur s;
          decrement_loop n s
        })"

definition ready_queue_decrement_job_length_score :: "'z rq_state_scheme \<Rightarrow> 'z rq_state_scheme option" where
  "ready_queue_decrement_job_length_score s = decrement_loop (rq_head s) s"

text \<open>The predecessor of a node, or null: \<open>while(cur!=NULL && cur->next!=toSwap) cur = cur->next\<close>.\<close>

partial_function (option) pred_node :: "ptr \<Rightarrow> ptr \<Rightarrow> 'z rq_state_scheme \<Rightarrow> ptr option" where
  "pred_node cur toSwap s =
     (if cur = None then Some None
      else do { n \<leftarrow> next_of cur s; if n \<noteq> toSwap then pred_node n toSwap s else Some cur })"

definition ready_queue_swap_with_next :: "ptr \<Rightarrow> 'z rq_state_scheme \<Rightarrow> 'z rq_state_scheme option" where
  "ready_queue_swap_with_next toSwap s = do {
     let cur = rq_head s;
     s \<leftarrow> (if rq_head s = toSwap then do {
             nxt \<leftarrow> next_of (rq_head s) s;
             nn \<leftarrow> next_of nxt s;
             s \<leftarrow> set_next_of (rq_head s) nn s;
             s \<leftarrow> set_next_of nxt (rq_head s) s;
             Some (s\<lparr>rq_head := nxt\<rparr>)
           } else Some s);
     cur \<leftarrow> pred_node cur toSwap s;
     if cur = None then Some s
     else do {
       c \<leftarrow> next_of cur s;
       nxt \<leftarrow> next_of c s;
       afterNext \<leftarrow> next_of nxt s;
       s \<leftarrow> set_next_of cur nxt s;
       s \<leftarrow> set_next_of nxt toSwap s;
       set_next_of toSwap afterNext s
     }
   }"

text \<open>The comparison of two processes.\<close>

definition before_needed :: "a2_pcb \<Rightarrow> a2_pcb \<Rightarrow> bool" where
  "before_needed cur nxt =
     (if priority cur \<and> priority nxt then job_length_score cur > job_length_score nxt
      else if priority cur \<and> \<not> priority nxt then False
      else if \<not> priority cur \<and> priority nxt then True
      else job_length_score cur > job_length_score nxt)"

definition swap_needed :: "ptr \<Rightarrow> 'z rq_state_scheme \<Rightarrow> bool option" where
  "swap_needed cur s = do {
     nxt \<leftarrow> next_of cur s;
     if nxt = None then Some False
     else do { p \<leftarrow> pcb_of cur s; q \<leftarrow> pcb_of nxt s; Some (before_needed p q) }
   }"

text \<open>The inner loop of the sort gives back where it stopped, and the outer loop goes on from there.\<close>

partial_function (option) sort_inner :: "ptr \<Rightarrow> bool \<Rightarrow> 'z rq_state_scheme \<Rightarrow> (ptr \<times> bool \<times> 'z rq_state_scheme) option" where
  "sort_inner cur sortd s = do {
     n \<leftarrow> next_of cur s;
     if n \<noteq> None then do {
       sw \<leftarrow> swap_needed cur s;
       if sw then do { s \<leftarrow> ready_queue_swap_with_next cur s; sort_inner cur False s }
       else do { n \<leftarrow> next_of cur s; sort_inner n sortd s }
     } else Some (cur, sortd, s)
   }"

partial_function (option) sort_outer :: "ptr \<Rightarrow> 'z rq_state_scheme \<Rightarrow> 'z rq_state_scheme option" where
  "sort_outer cur s = do {
     (cur, sortd, s) \<leftarrow> sort_inner cur True s;
     if sortd then Some s else sort_outer cur s
   }"

definition sort_ready_queue :: "'z rq_state_scheme \<Rightarrow> 'z rq_state_scheme option" where
  "sort_ready_queue s = (if rq_head s = None then Some s else sort_outer (rq_head s) s)"

definition ready_queue_pop_shortest_job :: "'z rq_state_scheme \<Rightarrow> (ptr \<times> 'z rq_state_scheme) option" where
  "ready_queue_pop_shortest_job s = do { s \<leftarrow> sort_ready_queue s; ready_queue_pop_head s }"

partial_function (option) shortest_loop :: "ptr \<Rightarrow> int \<Rightarrow> 'z rq_state_scheme \<Rightarrow> int option" where
  "shortest_loop cur shortest s =
     (if cur = None then Some shortest
      else do {
        p \<leftarrow> pcb_of cur s;
        n \<leftarrow> next_of cur s;
        shortest_loop n (if job_length_score p < shortest then job_length_score p else shortest) s
      })"

definition ready_queue_get_shortest_job_score :: "'z rq_state_scheme \<Rightarrow> int option" where
  "ready_queue_get_shortest_job_score s = shortest_loop (rq_head s) 2147483646 s"

text \<open>The node before the first one with the score, or the last node.\<close>

partial_function (option) promote_loop :: "ptr \<Rightarrow> int \<Rightarrow> 'z rq_state_scheme \<Rightarrow> ptr option" where
  "promote_loop cur score s = do {
     n \<leftarrow> next_of cur s;
     if n = None then Some cur
     else do {
       p \<leftarrow> pcb_of n s;
       if job_length_score p = score then Some cur else promote_loop n score s
     }
   }"

definition ready_queue_promote :: "int \<Rightarrow> 'z rq_state_scheme \<Rightarrow> 'z rq_state_scheme option" where
  "ready_queue_promote score s = do {
     p \<leftarrow> pcb_of (rq_head s) s;
     if job_length_score p = score then Some s
     else do {
       cur \<leftarrow> promote_loop (rq_head s) score s;
       n \<leftarrow> next_of cur s;
       if n = None then Some s
       else do {
         q \<leftarrow> pcb_of n s;
         if job_length_score q \<noteq> score then Some s
         else do {
           nn \<leftarrow> next_of n s;
           s \<leftarrow> set_next_of cur nn s;
           s \<leftarrow> set_next_of n (rq_head s) s;
           Some (s\<lparr>rq_head := n\<rparr>)
         }
       }
     }
   }"

subsection \<open>The queue as a list of nodes\<close>

fun path :: "(nat \<Rightarrow> ptr) \<Rightarrow> nat list \<Rightarrow> bool" where
  "path nx (a # b # xs) \<longleftrightarrow> nx a = Some b \<and> path nx (b # xs)"
| "path nx [a] \<longleftrightarrow> nx a = None"
| "path nx [] \<longleftrightarrow> True"

definition first :: "nat list \<Rightarrow> ptr" where
  "first xs = (case xs of [] \<Rightarrow> None | x # _ \<Rightarrow> Some x)"

lemma first_simps [simp]: "first [] = None" "first (x # xs) = Some x" "first xs = None \<longleftrightarrow> xs = []"
  by (auto simp: first_def split: list.splits)

lemma first_append: "first (xs @ a # ys) = first (xs @ a # zs)"
  by (cases xs) simp_all

lemma path_Cons: "path nx (a # xs) \<longleftrightarrow> nx a = first xs \<and> path nx xs"
  by (cases xs) auto

lemma path_upd: "a \<notin> set xs \<Longrightarrow> path (nx(a := v)) xs = path nx xs"
  by (induction xs) (auto simp: path_Cons)

lemma path_append: "path nx (xs @ a # ys) \<Longrightarrow> path nx (a # ys)"
  by (induction xs) (auto simp: path_Cons)

text \<open>Replacing what follows a node.\<close>

lemma path_replace:
  assumes "path nx (xs @ a # ys)" and "a \<notin> set xs" and "path nx zs" and "a \<notin> set zs"
  shows "path (nx(a := first zs)) (xs @ a # zs)"
  using assms
proof (induction xs)
  case Nil
  then have "path (nx(a := first zs)) zs" using path_upd [of a zs nx "first zs"] by blast
  then show ?case by (simp only: append_Nil path_Cons fun_upd_same)
next
  case (Cons x xs)
  then show ?case using first_append [of xs a zs ys] by (simp add: path_Cons)
qed

definition rq_rep :: "'z rq_state_scheme \<Rightarrow> nat list \<Rightarrow> bool" where
  "rq_rep s xs \<longleftrightarrow> rq_head s = first xs \<and> path (rq_next s) xs \<and> distinct xs \<and> (\<forall>a \<in> set xs. rq_live s a)"

lemma rq_rep_next: "rq_rep s (xs @ a # ys) \<Longrightarrow> next_of (Some a) s = Some (first ys)"
  using path_append [of "rq_next s" xs a ys] by (simp add: rq_rep_def next_of_def path_Cons)

lemma last_node_rep: "rq_rep s (xs @ a # ys) \<Longrightarrow> last_node (Some a) s = Some (Some (last (a # ys)))"
proof (induction ys arbitrary: xs a)
  case Nil
  then show ?case by (subst last_node.simps) (simp add: rq_rep_next)
next
  case (Cons b ys)
  then show ?case using Cons.IH [of "xs @ [a]" b] rq_rep_next [OF Cons.prems] by (subst last_node.simps) simp
qed

lemma add_to_tail_rep:
  assumes "rq_rep s xs" and "a \<notin> set xs" and "rq_live s a"
  shows "\<exists>s'. ready_queue_add_to_tail (Some a) s = Some s' \<and> rq_rep s' (xs @ [a]) \<and> rq_live s' = rq_live s \<and> rq_pcb s' = rq_pcb s \<and> rq_pcbs s' = rq_pcbs s"
proof (cases xs rule: rev_cases)
  case Nil
  then show ?thesis using assms by (simp add: ready_queue_add_to_tail_def set_next_of_def rq_rep_def)
next
  case (snoc ys b)
  have "xs \<noteq> []" using snoc by simp
  then obtain x zs where x: "xs = x # zs" by (auto simp: neq_Nil_conv)
  have "last_node (rq_head s) s = Some (Some b)"
    using last_node_rep [of s "[]" x zs] assms(1) x snoc by (simp add: rq_rep_def) (metis last_ConsL last_ConsR last_snoc)
  moreover have "path ((rq_next s)(a := None)) [a]" by simp
  have "path ((rq_next s)(a := None, b := first [a])) (ys @ b # [a])"
    using assms snoc by (intro path_replace [where ys = "[]"]) (auto simp: rq_rep_def path_upd)
  moreover have "b \<noteq> a" using assms(2) snoc by auto
  ultimately show ?thesis
    using assms snoc x by (auto simp: ready_queue_add_to_tail_def set_next_of_def rq_rep_def fun_upd_twist first_append [of ys b "[a]" "[]"])
qed

lemma add_to_head_rep:
  assumes "rq_rep s xs" and "a \<notin> set xs" and "rq_live s a"
  shows "\<exists>s'. ready_queue_add_to_head (Some a) s = Some s' \<and> rq_rep s' (a # xs) \<and> rq_live s' = rq_live s \<and> rq_pcb s' = rq_pcb s \<and> rq_pcbs s' = rq_pcbs s"
  using assms by (cases xs) (auto simp: ready_queue_add_to_head_def set_next_of_def rq_rep_def path_Cons path_upd)

lemma pop_head_queue:
  assumes "rq_rep s (x # xs)"
  shows "\<exists>s'. ready_queue_pop_head s = Some (Some x, s') \<and> rq_rep s' xs \<and> rq_live s' = rq_live s \<and> rq_pcb s' = rq_pcb s \<and> rq_pcbs s' = rq_pcbs s"
  using assms by (auto simp: ready_queue_pop_head_def next_of_def rq_rep_def path_Cons)

interpretation rq: queue_ops "\<lambda>s xs. rq_rep s xs \<and> rq_live s = live" "\<lambda>xs x. live x \<and> x \<notin> set xs"
  "\<lambda>x s. ready_queue_add_to_tail (Some x) s" "\<lambda>x s. ready_queue_add_to_head (Some x) s"
  "\<lambda>s. do { (p, s) \<leftarrow> ready_queue_pop_head s; a \<leftarrow> p; Some (a, s) }"
  for live :: "nat \<Rightarrow> bool"
proof (unfold_locales, goal_cases)
  case (1 s xs x)
  then show ?case using add_to_tail_rep [of s xs x] by fastforce
next
  case (2 s xs x)
  then show ?case using add_to_head_rep [of s xs x] by fastforce
next
  case (3 s x xs)
  then show ?case using pop_head_queue [of s x xs] by fastforce
qed

subsection \<open>Exchanging neighbours\<close>

text \<open>A stretch of the queue: every node but the last points to the one behind it.\<close>

fun stretch :: "(nat \<Rightarrow> ptr) \<Rightarrow> nat list \<Rightarrow> bool" where
  "stretch nx (a # b # xs) \<longleftrightarrow> nx a = Some b \<and> stretch nx (b # xs)"
| "stretch nx _ \<longleftrightarrow> True"

lemma path_stretch: "path nx (xs @ a # ys) \<longleftrightarrow> stretch nx (xs @ [a]) \<and> path nx (a # ys)"
  by (induction nx xs rule: stretch.induct) auto

lemma stretch_upd: "c \<notin> set (butlast xs) \<Longrightarrow> stretch (nx(c := v)) xs = stretch nx xs"
  by (induction nx xs rule: stretch.induct) auto

lemma pred_node_none:
  assumes "path (rq_next s) zs" and "\<forall>a \<in> set zs. rq_live s a" and "t \<notin> set zs"
  shows "pred_node (first zs) (Some t) s = Some None"
  using assms
proof (induction zs)
  case Nil
  show ?case by (subst pred_node.simps) simp
next
  case (Cons a zs)
  have "first zs \<noteq> Some t" using Cons.prems(3) by (cases zs) auto
  then show ?case using Cons by (subst pred_node.simps) (simp add: next_of_def path_Cons)
qed

lemma pred_node_found:
  assumes "path (rq_next s) (us @ c # t # ws)" and "\<forall>a \<in> set (us @ [c]). rq_live s a" and "t \<notin> set (us @ [c])"
  shows "pred_node (first (us @ [c])) (Some t) s = Some (Some c)"
  using assms
proof (induction us)
  case Nil
  then show ?case by (subst pred_node.simps) (simp add: next_of_def)
next
  case (Cons a us)
  have "first (us @ c # t # ws) = first (us @ [c])" by (cases us) simp_all
  moreover have "first (us @ [c]) \<noteq> Some t" using Cons.prems(3) by (cases us) auto
  ultimately show ?case using Cons by (subst pred_node.simps) (simp add: next_of_def path_Cons)
qed

definition same_procs :: "'z rq_state_scheme \<Rightarrow> 'z rq_state_scheme \<Rightarrow> bool" where
  "same_procs s s' \<longleftrightarrow> rq_live s' = rq_live s \<and> rq_pcb s' = rq_pcb s \<and> rq_pcbs s' = rq_pcbs s"

lemma swap_with_next_rep:
  assumes "rq_rep s (us @ x # y # ws)"
  shows "\<exists>s'. ready_queue_swap_with_next (Some x) s = Some s' \<and> rq_rep s' (us @ y # x # ws) \<and> same_procs s s'"
proof -
  have d: "distinct (us @ x # y # ws)" "\<forall>a \<in> set (us @ x # y # ws). rq_live s a" "path (rq_next s) (us @ x # y # ws)"
    "rq_head s = first (us @ x # y # ws)" using assms by (simp_all add: rq_rep_def)
  have p: "rq_next s x = Some y" "rq_next s y = first ws" "path (rq_next s) ws"
    using d(3) by (simp_all add: path_stretch [of _ us] path_Cons)
  show ?thesis
  proof (cases us rule: rev_cases)
    case Nil
    define s' where "s' = s\<lparr>rq_next := (rq_next s)(x := first ws, y := Some x), rq_head := Some y\<rparr>"
    have pw: "path (rq_next s') (x # ws)" using p(3) d(1) by (simp add: s'_def path_Cons path_upd Nil)
    have lw: "\<forall>a \<in> set (x # ws). rq_live s' a" using d(2) by (simp add: s'_def)
    have "first ws \<noteq> Some x" using d(1) by (cases ws) (auto simp: Nil)
    then have "pred_node (Some x) (Some x) s' = pred_node (first ws) (Some x) s'"
      using pw lw by (subst pred_node.simps) (simp add: next_of_def path_Cons)
    also have "\<dots> = Some None" using pw lw d(1) by (intro pred_node_none) (auto simp: path_Cons Nil)
    finally have "ready_queue_swap_with_next (Some x) s = Some s'"
      using d p Nil by (simp add: ready_queue_swap_with_next_def next_of_def set_next_of_def s'_def)
    moreover have "rq_rep s' (y # x # ws)" using pw d by (auto simp: rq_rep_def s'_def Nil)
    ultimately show ?thesis by (simp add: Nil same_procs_def s'_def)
  next
    case (snoc vs c)
    define s' where "s' = s\<lparr>rq_next := (rq_next s)(c := Some y, y := Some x, x := first ws)\<rparr>"
    have hd: "rq_head s = first (vs @ [c])" "rq_head s \<noteq> Some x" using d(1,4) snoc by (cases vs; auto)+
    have "pred_node (rq_head s) (Some x) s = Some (Some c)"
      unfolding hd(1) using d snoc by (intro pred_node_found [where ws = "y # ws"]) auto
    then have "ready_queue_swap_with_next (Some x) s = Some s'"
      using d p hd snoc path_stretch [of "rq_next s" vs c "x # y # ws"]
      by (simp add: ready_queue_swap_with_next_def next_of_def set_next_of_def s'_def)
    moreover have "stretch (rq_next s') (vs @ [c])"
      using d snoc path_stretch [of "rq_next s" vs c "x # y # ws"] by (simp add: s'_def stretch_upd)
    then have "path (rq_next s') (us @ y # x # ws)"
      using d(1) p(3) snoc path_stretch [of "rq_next s'" vs c "y # x # ws"] by (simp add: s'_def path_Cons path_upd)
    then have "rq_rep s' (us @ y # x # ws)"
      using d snoc hd by (auto simp: rq_rep_def s'_def first_append [of vs c "y # x # ws" "[]"])
    ultimately show ?thesis by (auto simp: same_procs_def s'_def)
  qed
qed

subsection \<open>Sorting\<close>

definition node_pcb :: "'z rq_state_scheme \<Rightarrow> nat \<Rightarrow> a2_pcb" where
  "node_pcb s a = rq_pcbs s ! rq_pcb s a"

text \<open>One pass of a bubble sort.\<close>

fun bubble :: "(nat \<Rightarrow> nat \<Rightarrow> bool) \<Rightarrow> nat list \<Rightarrow> nat list" where
  "bubble sw (x # y # ys) = (if sw x y then y # bubble sw (x # ys) else x # bubble sw (y # ys))"
| "bubble sw [x] = [x]"
| "bubble sw [] = []"

lemma mset_bubble [simp]: "mset (bubble sw xs) = mset xs"
  by (induction sw xs rule: bubble.induct) auto

lemma set_bubble [simp]: "set (bubble sw xs) = set xs"
  using mset_bubble mset_eq_setD by blast

lemma bubble_eq_Nil [simp]: "bubble sw xs = [] \<longleftrightarrow> xs = []"
  by (metis mset_bubble mset_zero_iff)

lemma sort_inner_rep:
  assumes "rq_rep s (us @ x # ys)" and "\<forall>a \<in> set (us @ x # ys). rq_pcb s a < length (rq_pcbs s)"
    and "sw = (\<lambda>a b. before_needed (node_pcb s a) (node_pcb s b))"
  shows "\<exists>s' f'. sort_inner (Some x) f s = Some (Some (last (bubble sw (x # ys))), f', s') \<and> rq_rep s' (us @ bubble sw (x # ys)) \<and> same_procs s s'"
  using assms
proof (induction ys arbitrary: us x s f)
  case Nil
  then show ?case using rq_rep_next [of s us x "[]"] by (subst sort_inner.simps) (simp add: same_procs_def)
next
  case (Cons y ys)
  have nx: "next_of (Some x) s = Some (Some y)" using rq_rep_next [OF Cons.prems(1)] by simp
  have "rq_live s x" "rq_live s y" using Cons.prems(1) by (simp_all add: rq_rep_def)
  then have sw: "swap_needed (Some x) s = Some (sw x y)"
    using nx Cons.prems(2,3) by (simp add: swap_needed_def pcb_of_def node_pcb_def)
  show ?case
  proof (cases "sw x y")
    case True
    obtain s1 where s1: "ready_queue_swap_with_next (Some x) s = Some s1" "rq_rep s1 (us @ y # x # ys)" "same_procs s s1"
      using swap_with_next_rep [OF Cons.prems(1)] by blast
    then have "sw = (\<lambda>a b. before_needed (node_pcb s1 a) (node_pcb s1 b))" "\<forall>a \<in> set ((us @ [y]) @ x # ys). rq_pcb s1 a < length (rq_pcbs s1)"
      using Cons.prems(2,3) by (auto simp: same_procs_def node_pcb_def)
    then obtain s2 f' where s2: "sort_inner (Some x) False s1 = Some (Some (last (bubble sw (x # ys))), f', s2)" "rq_rep s2 ((us @ [y]) @ bubble sw (x # ys))"
      "same_procs s1 s2"
      using Cons.IH [of s1 "us @ [y]" x False] s1(2) by auto
    then show ?thesis
      using True nx sw s1(1,3) by (subst sort_inner.simps) (auto simp: same_procs_def)
  next
    case False
    obtain s2 f' where s2: "sort_inner (Some y) f s = Some (Some (last (bubble sw (y # ys))), f', s2)" "rq_rep s2 ((us @ [x]) @ bubble sw (y # ys))"
      "same_procs s s2"
      using Cons.IH [of s "us @ [x]" y f] Cons.prems by auto
    then show ?thesis using False nx sw by (subst sort_inner.simps) auto
  qed
qed

lemma sort_ready_queue_rep:
  assumes "rq_rep s xs" and "\<forall>a \<in> set xs. rq_pcb s a < length (rq_pcbs s)"
  shows "\<exists>s'. sort_ready_queue s = Some s' \<and> rq_rep s' (bubble (\<lambda>a b. before_needed (node_pcb s a) (node_pcb s b)) xs) \<and> same_procs s s'"
proof (cases xs)
  case Nil
  then show ?thesis using assms(1) by (simp add: sort_ready_queue_def same_procs_def rq_rep_def)
next
  case (Cons x ys)
  define sw where "sw = (\<lambda>a b. before_needed (node_pcb s a) (node_pcb s b))"
  define zs where "zs = bubble sw (x # ys)"
  obtain s1 f1 where s1: "sort_inner (Some x) True s = Some (Some (last zs), f1, s1)" "rq_rep s1 zs" "same_procs s s1"
    using sort_inner_rep [of s "[]" x ys sw True] assms Cons by (auto simp: sw_def zs_def)
  have "zs \<noteq> []" by (simp add: zs_def)
  then have z: "zs = butlast zs @ [last zs]" by simp
  have "next_of (Some (last zs)) s1 = Some None" using rq_rep_next [of s1 "butlast zs" "last zs" "[]"] s1(2) z by simp
  then have "sort_inner (Some (last zs)) True s1 = Some (Some (last zs), True, s1)" by (subst sort_inner.simps) simp
  then have "sort_outer (Some (last zs)) s1 = Some s1" by (subst sort_outer.simps) simp
  then have "sort_outer (Some x) s = Some s1" using s1(1) by (subst sort_outer.simps) simp
  then show ?thesis using s1(2,3) assms(1) Cons by (simp add: sort_ready_queue_def rq_rep_def zs_def sw_def)
qed

lemma bubble_last:
  assumes "\<And>a b. sw a b \<Longrightarrow> \<not> sw b a" and "\<And>a b c. \<not> sw a b \<Longrightarrow> \<not> sw b c \<Longrightarrow> \<not> sw a c"
  shows "a \<in> set xs \<Longrightarrow> \<not> sw a (last (bubble sw xs))"
  using assms
proof (induction sw xs arbitrary: a rule: bubble.induct)
  case (1 sw x y ys)
  show ?case
  proof (cases "sw x y")
    case True
    have IH: "\<not> sw b (last (bubble sw (x # ys)))" if "b \<in> set (x # ys)" for b using 1(1) [OF True that] 1(4,5) by blast
    have "\<not> sw y (last (bubble sw (x # ys)))" using 1(5) [OF 1(4) [OF True] IH] by simp
    then show ?thesis using IH True 1(3) by auto
  next
    case False
    have IH: "\<not> sw b (last (bubble sw (y # ys)))" if "b \<in> set (y # ys)" for b using 1(2) [OF False that] 1(4,5) by blast
    have "\<not> sw x (last (bubble sw (y # ys)))" using 1(5) [OF False IH] by simp
    then show ?thesis using IH False 1(3) by auto
  qed
next
  case (2 sw x)
  have "a = x" using 2(1) by simp
  moreover have "\<not> sw x x" using 2(2) [of x x] by blast
  ultimately show ?case by simp
next
  case (3 sw)
  have False using 3(1) by simp
  then show ?case ..
qed

lemma before_needed_order:
  "before_needed p q \<Longrightarrow> \<not> before_needed q p" "\<not> before_needed p q \<Longrightarrow> \<not> before_needed q r \<Longrightarrow> \<not> before_needed p r"
  by (auto simp: before_needed_def split: if_splits)

subsection \<open>Properties\<close>

text \<open>
  C11. \<open>sort_ready_queue\<close> makes a single pass of a bubble sort: it always ends, without losing a process, with a
  process of the lowest rank at the tail, but the outer loop does not start again from the head, so the rest of the
  queue need not be in order.
\<close>

theorem sort_ready_queue_single_pass:
  assumes "rq_rep s xs" and "\<forall>a \<in> set xs. rq_pcb s a < length (rq_pcbs s)"
  shows "\<exists>s'. sort_ready_queue s = Some s' \<and> rq_rep s' (bubble (\<lambda>a b. before_needed (node_pcb s a) (node_pcb s b)) xs) \<and>
    rq_pcbs s' = rq_pcbs s \<and> mset (bubble (\<lambda>a b. before_needed (node_pcb s a) (node_pcb s b)) xs) = mset xs \<and>
    (\<forall>a \<in> set xs. \<not> before_needed (node_pcb s a) (node_pcb s (last (bubble (\<lambda>a b. before_needed (node_pcb s a) (node_pcb s b)) xs))))"
proof -
  have "\<not> before_needed (node_pcb s a) (node_pcb s (last (bubble (\<lambda>a b. before_needed (node_pcb s a) (node_pcb s b)) xs)))" if "a \<in> set xs" for a
    using bubble_last [of "\<lambda>a b. before_needed (node_pcb s a) (node_pcb s b)" a xs] that before_needed_order by blast
  then show ?thesis using sort_ready_queue_rep [OF assms] by (auto simp: same_procs_def)
qed

text \<open>Three nodes whose processes have the scores 3, 2 and 1.\<close>

definition rq_example :: rq_state where
  "rq_example = \<lparr>rq_head = Some 0, rq_next = (\<lambda>_. None)(0 := Some 1, 1 := Some 2), rq_pcb = id, rq_live = (\<lambda>a. a < 3),
     rq_pcbs = map (\<lambda>n. pcb_example\<lparr>job_length_score := n\<rparr>) [3, 2, 1]\<rparr>"

theorem sort_ready_queue_single_pass_witness:
  "\<exists>s' s''. sort_ready_queue rq_example = Some s' \<and> ready_queue_pop_head s' = Some (Some 1, s'') \<and>
     job_length_score (node_pcb rq_example 1) = 2 \<and> job_length_score (node_pcb rq_example 2) = 1"
proof -
  have r: "rq_rep rq_example [0, 1, 2]" "\<forall>a \<in> set [0, 1, 2]. rq_pcb rq_example a < length (rq_pcbs rq_example)"
    by (simp_all add: rq_rep_def rq_example_def)
  have b: "bubble (\<lambda>a b. before_needed (node_pcb rq_example a) (node_pcb rq_example b)) [0, 1, 2] = [1, 2, 0]"
    by (simp add: node_pcb_def rq_example_def before_needed_def pcb_example_def)
  obtain s' where s': "sort_ready_queue rq_example = Some s'" "rq_rep s' [1, 2, 0]"
    using sort_ready_queue_single_pass [OF r] unfolding b by blast
  then show ?thesis using pop_head_queue [of s' 1 "[2, 0]"] by (auto simp: node_pcb_def rq_example_def)
qed

text \<open>Nodes added at the tail come out of the head in the same order.\<close>

lemma ready_queue_fifo:
  assumes "rq_rep s []" and "distinct xs" and "\<forall>x \<in> set xs. rq_live s x"
  shows "\<exists>s1 s2. push_all (\<lambda>x s. ready_queue_add_to_tail (Some x) s) xs s = Some s1 \<and>
    pop_n (\<lambda>s. do { (p, s) \<leftarrow> ready_queue_pop_head s; a \<leftarrow> p; Some (a, s) }) (length xs) s1 = Some (xs, s2) \<and> is_ready_empty s2"
proof -
  have "fits_all (\<lambda>ys x. rq_live s x \<and> x \<notin> set ys) ys xs" if "set ys \<inter> set xs = {}" for ys
    using that assms(2,3) by (induction xs arbitrary: ys) auto
  then show ?thesis using rq.fifo [of s "rq_live s" xs] assms(1) by (fastforce simp: is_ready_empty_def rq_rep_def)
qed

subsection \<open>What the operations leave alone\<close>

text \<open>Adding a node and ending a process change only nodes and the head.\<close>

definition same_data :: "'z rq_state_scheme \<Rightarrow> 'z rq_state_scheme \<Rightarrow> bool" where
  "same_data s s' \<longleftrightarrow> rq_pcbs s' = rq_pcbs s \<and> rq_state.more s' = rq_state.more s"

lemma node_ops_data:
  "ready_queue_add_to_tail p s = Some s' \<Longrightarrow> same_data s s'" "ready_queue_pop_head s = Some (q, s') \<Longrightarrow> same_data s s'"
  "terminate_process p s = Some s' \<Longrightarrow> same_data s s'"
  by (auto simp: same_data_def set_next_of_def free_node_def ready_queue_add_to_tail_def ready_queue_pop_head_def
      terminate_process_def split: bind_splits if_splits)

end
