(* ===== verification/Kernel2.thy ===== *)
theory Kernel2
  imports Ready_Queue
begin

text \<open>
  Processes of the second shell: \<open>src/a2/pcb.c\<close> and \<open>src/a2/kernel.c\<close>.

  The state extends the ready queue by the memory, the counters and the flags of the kernel. \<open>vs\<close> and \<open>fs\<close> are the
  sizes of the variable store and of the frame store, \<open>files\<close> the contents of the files that can be opened in a state, and
  \<open>junk\<close> a process with the fields that \<open>makePCB\<close> leaves uninitialised. The interpreter is the argument \<open>parse\<close>.
  The name of its file is a pointer that a process keeps; it is \<open>None\<close> when the array it points to is gone.
  \<open>Inl n\<close> is \<open>exit(n)\<close>. The loops of the schedulers are partial functions.
\<close>

record a2_kernel = rq_state +
  a2_smem :: shellmemory
  pid_counter :: int
  active :: bool
  in_background :: bool
  node_count :: nat

type_synonym 'z a2_files = "'z a2_kernel_scheme \<Rightarrow> string \<Rightarrow> string option"
type_synonym 'z a2_parser = "string \<Rightarrow> 'z a2_kernel_scheme \<Rightarrow> (int + int \<times> 'z a2_kernel_scheme) option"

subsection \<open>Processes\<close>

definition generatePID :: "'z a2_kernel_scheme \<Rightarrow> (int \<times> 'z a2_kernel_scheme) option" where
  "generatePID s = do { n \<leftarrow> int32 (pid_counter s + 1); Some (pid_counter s, s\<lparr>pid_counter := n\<rparr>) }"

definition makePCB :: "a2_pcb \<Rightarrow> 'z a2_kernel_scheme \<Rightarrow> (a2_pcb \<times> 'z a2_kernel_scheme) option" where
  "makePCB junk s = do {
     (n, s) \<leftarrow> generatePID s;
     Some (junk\<lparr>pid := n, priority := False, pagetable := replicate 50 (- 1), num_pages := 0, next_page := 0,
       lru_timer := replicate 50 0, pagefault := False\<rparr>, s)
   }"

definition find_PC :: "nat \<Rightarrow> a2_pcb \<Rightarrow> int option" where
  "find_PC vs pcb = do {
     frame \<leftarrow> arr_get (pagetable pcb) (current_page pcb);
     Some (int vs + (frame - 1) * 3)
   }"

text \<open>A new node for a process, at a new address.\<close>

definition new_node :: "nat \<Rightarrow> 'z a2_kernel_scheme \<Rightarrow> ptr \<times> 'z a2_kernel_scheme" where
  "new_node p s = (Some (node_count s),
     s\<lparr>rq_live := (rq_live s)(node_count s := True), rq_pcb := (rq_pcb s)(node_count s := p), node_count := node_count s + 1\<rparr>)"

text \<open>The first two pages are loaded as long as the end of the file has not been met.\<close>

definition load_two :: "nat \<Rightarrow> nat \<Rightarrow> string \<Rightarrow> stream \<Rightarrow> a2_pcb \<Rightarrow> shellmemory \<Rightarrow> (int \<times> a2_pcb \<times> shellmemory) option" where
  "load_two vs fs filename fp pcb mem = do {
     (e, _, pcb, mem) \<leftarrow> for_range 0 2 (\<lambda>p (e, fp, pcb, mem).
        if \<not> snd fp then do {
          (e, fp, pcb, mem) \<leftarrow> load_page vs fs fp filename pcb mem;
          Some (e, fp, pcb\<lparr>current_page := current_page pcb + 1\<rparr>, mem)
        } else Some (e, fp, pcb, mem)) (0, fp, pcb, mem);
     Some (e, pcb, mem)
   }"

definition process_initialize ::
  "nat \<Rightarrow> nat \<Rightarrow> 'z a2_files \<Rightarrow> a2_pcb \<Rightarrow> string \<Rightarrow> 'z a2_kernel_scheme \<Rightarrow> (int \<times> 'z a2_kernel_scheme) option" where
  "process_initialize vs fs files junk filename s =
     (case files s filename of
        None \<Rightarrow> Some (1, s)
      | Some content \<Rightarrow> do {
          let maxpages = countPages content;
          (pcb, s) \<leftarrow> makePCB junk s;
          (error_code, pcb, mem) \<leftarrow> load_two vs fs filename (content, False) (pcb\<lparr>current_page := 0\<rparr>) (a2_smem s);
          let pcb = pcb\<lparr>current_page := 0, pcb_filename := Some filename\<rparr>;
          pc \<leftarrow> find_PC vs pcb;
          let pcb = pcb\<lparr>PC := pc, pages_needed := maxpages\<rparr>;
          let s = s\<lparr>a2_smem := mem\<rparr>;
          if error_code \<noteq> 0 then Some (2, s)
          else do {
            let (node, s) = new_node (length (rq_pcbs s)) (s\<lparr>rq_pcbs := rq_pcbs s @ [pcb]\<rparr>);
            s \<leftarrow> ready_queue_add_to_tail node s;
            Some (0, s)
          }
        })"

text \<open>The lines before the current page are read and dropped; a read that fails ends the loop.\<close>

primrec skip_lines :: "nat \<Rightarrow> stream \<Rightarrow> stream" where
  "skip_lines 0 fp = fp"
| "skip_lines (Suc n) fp = (case fgets 100 (fst fp) of (Some _, r, e) \<Rightarrow> skip_lines n (r, e) | (None, r, e) \<Rightarrow> (r, e))"

definition handle_page_fault ::
  "nat \<Rightarrow> nat \<Rightarrow> 'z a2_files \<Rightarrow> nat \<Rightarrow> 'z a2_kernel_scheme \<Rightarrow> 'z a2_kernel_scheme option" where
  "handle_page_fault vs fs files p s = do {
     pcb \<leftarrow> arr_get (rq_pcbs s) p;
     filename \<leftarrow> pcb_filename pcb;
     content \<leftarrow> files s filename;
     let fp = skip_lines (current_page pcb * 3) (content, False);
     (_, fp, pcb, mem) \<leftarrow> load_page vs fs fp filename pcb (a2_smem s);
     pc \<leftarrow> find_PC vs pcb;
     let (node, s) = new_node p (s\<lparr>a2_smem := mem, rq_pcbs := (rq_pcbs s)[p := pcb\<lparr>PC := pc\<rparr>]\<rparr>);
     ready_queue_add_to_tail node s
   }"

subsection \<open>Running a process\<close>

text \<open>A line of a process is run unless it is the text \<open>none\<close>.\<close>

definition run_line :: "'z a2_parser \<Rightarrow> string \<Rightarrow> 'z a2_kernel_scheme \<Rightarrow> (int + 'z a2_kernel_scheme) option" where
  "run_line parse line s =
     (if line \<noteq> ''none'' then do { r \<leftarrow> parse line s; on_ok r (\<lambda>(_, s). Some (Inr s)) } else Some (Inr s))"

text \<open>
  One iteration of \<open>execute_process\<close>: the result says whether the function returns true. The counter of the page, the
  program counter and the bounds are updated before the line runs; a page behind the last one ends the process, a
  page that is not loaded is a fault.
\<close>

definition execute_line ::
  "nat \<Rightarrow> nat \<Rightarrow> 'z a2_files \<Rightarrow> 'z a2_parser \<Rightarrow> nat \<Rightarrow> 'z a2_kernel_scheme \<Rightarrow> (int + bool \<times> 'z a2_kernel_scheme) option" where
  "execute_line vs fs files parse node s = do {
     _ \<leftarrow> (if rq_live s node then Some () else None);
     let p = rq_pcb s node;
     pcb \<leftarrow> arr_get (rq_pcbs s) p;
     frame \<leftarrow> arr_get (pagetable pcb) (current_page pcb);
     let st = int vs + (frame - 1) * 3;
     t \<leftarrow> arr_get (lru_timer pcb) (current_page pcb);
     ts \<leftarrow> arr_set (lru_timer pcb) (current_page pcb) (t + 1);
     l \<leftarrow> a2_mem_get_value_at_line vs fs (PC pcb) (a2_smem s);
     let pcb = pcb\<lparr>start := st, endl := st + 2, lru_timer := ts, PC := PC pcb + 1, priority := False\<rparr>;
     let s = s\<lparr>rq_pcbs := (rq_pcbs s)[p := pcb], in_background := True\<rparr>;
     line \<leftarrow> l;
     if PC pcb > endl pcb then do {
       let pcb = pcb\<lparr>current_page := current_page pcb + 1\<rparr>;
       pc \<leftarrow> find_PC vs pcb;
       let pcb = pcb\<lparr>endl := pc + 2\<rparr>;
       let s = s\<lparr>rq_pcbs := (rq_pcbs s)[p := pcb]\<rparr>;
       if current_page pcb + 1 > pages_needed pcb then do {
         r \<leftarrow> run_line parse line s;
         on_ok r (\<lambda>s. do {
           s \<leftarrow> terminate_process (Some node) s;
           Some (Inr (True, s\<lparr>in_background := False\<rparr>))
         })
       } else if pagetable pcb ! current_page pcb = - 1 then do {
         r \<leftarrow> run_line parse line s;
         on_ok r (\<lambda>s. do { s \<leftarrow> handle_page_fault vs fs files p s; Some (Inr (True, s)) })
       } else do {
         r \<leftarrow> run_line parse line s;
         on_ok r (\<lambda>s. Some (Inr (False, s\<lparr>in_background := False\<rparr>)))
       }
     } else do {
       r \<leftarrow> run_line parse line s;
       on_ok r (\<lambda>s. Some (Inr (False, s\<lparr>in_background := False\<rparr>)))
     }
   }"

partial_function (option) execute_process ::
  "nat \<Rightarrow> nat \<Rightarrow> 'z a2_files \<Rightarrow> 'z a2_parser \<Rightarrow> nat \<Rightarrow> int \<Rightarrow> 'z a2_kernel_scheme \<Rightarrow> (int + bool \<times> 'z a2_kernel_scheme) option" where
  "execute_process vs fs files parse node quanta s =
     (if quanta \<le> 0 then Some (Inr (False, s))
      else do {
        r \<leftarrow> execute_line vs fs files parse node s;
        (case r of
           Inl n \<Rightarrow> Some (Inl n)
         | Inr (b, s) \<Rightarrow> if b then Some (Inr (True, s)) else execute_process vs fs files parse node (quanta - 1) s)
      })"

subsection \<open>Schedulers\<close>

text \<open>
  The loop that the schedulers share: an empty queue ends it unless the kernel is active, in which case it waits for
  ever; otherwise \<open>turn\<close> is taken.
\<close>

partial_function (option) schedule_loop ::
  "('z a2_kernel_scheme \<Rightarrow> (int + 'z a2_kernel_scheme) option) \<Rightarrow> 'z a2_kernel_scheme \<Rightarrow> (int + 'z a2_kernel_scheme) option" where
  "schedule_loop turn s =
     (if is_ready_empty s then (if active s then schedule_loop turn s else Some (Inr s))
      else do {
        r \<leftarrow> turn s;
        (case r of Inl n \<Rightarrow> Some (Inl n) | Inr s \<Rightarrow> schedule_loop turn s)
      })"

definition MAX_INT :: int where
  "MAX_INT = 2147483646"

definition scheduler_FCFS ::
  "nat \<Rightarrow> nat \<Rightarrow> 'z a2_files \<Rightarrow> 'z a2_parser \<Rightarrow> 'z a2_kernel_scheme \<Rightarrow> (int + 'z a2_kernel_scheme) option" where
  "scheduler_FCFS vs fs files parse s = schedule_loop (\<lambda>s. do {
     (cur, s) \<leftarrow> ready_queue_pop_head s;
     node \<leftarrow> cur;
     r \<leftarrow> execute_process vs fs files parse node MAX_INT s;
     on_ok r (\<lambda>(_, s). Some (Inr s))
   }) s"

definition scheduler_SJF ::
  "nat \<Rightarrow> nat \<Rightarrow> 'z a2_files \<Rightarrow> 'z a2_parser \<Rightarrow> 'z a2_kernel_scheme \<Rightarrow> (int + 'z a2_kernel_scheme) option" where
  "scheduler_SJF vs fs files parse s = schedule_loop (\<lambda>s. do {
     (cur, s) \<leftarrow> ready_queue_pop_shortest_job s;
     node \<leftarrow> cur;
     r \<leftarrow> execute_process vs fs files parse node MAX_INT s;
     on_ok r (\<lambda>(_, s). Some (Inr s))
   }) s"

definition scheduler_AGING_alternative ::
  "nat \<Rightarrow> nat \<Rightarrow> 'z a2_files \<Rightarrow> 'z a2_parser \<Rightarrow> 'z a2_kernel_scheme \<Rightarrow> (int + 'z a2_kernel_scheme) option" where
  "scheduler_AGING_alternative vs fs files parse s = schedule_loop (\<lambda>s. do {
     (cur, s) \<leftarrow> ready_queue_pop_shortest_job s;
     node \<leftarrow> cur;
     s \<leftarrow> ready_queue_decrement_job_length_score s;
     r \<leftarrow> execute_process vs fs files parse node 1 s;
     on_ok r (\<lambda>(b, s). if \<not> b then do { s \<leftarrow> ready_queue_add_to_head cur s; Some (Inr s) } else Some (Inr s))
   }) s"

definition aging_turn ::
  "nat \<Rightarrow> nat \<Rightarrow> 'z a2_files \<Rightarrow> 'z a2_parser \<Rightarrow> 'z a2_kernel_scheme \<Rightarrow> (int + 'z a2_kernel_scheme) option" where
  "aging_turn vs fs files parse s = do {
     (cur, s) \<leftarrow> ready_queue_pop_head s;
     shortest \<leftarrow> ready_queue_get_shortest_job_score s;
     pcb \<leftarrow> pcb_of cur s;
     (cur, s) \<leftarrow> (if shortest < job_length_score pcb then do {
                  s \<leftarrow> ready_queue_promote shortest s;
                  s \<leftarrow> ready_queue_add_to_tail cur s;
                  ready_queue_pop_head s
                } else Some (cur, s));
     node \<leftarrow> cur;
     s \<leftarrow> ready_queue_decrement_job_length_score s;
     r \<leftarrow> execute_process vs fs files parse node 1 s;
     on_ok r (\<lambda>(b, s). if \<not> b then do { s \<leftarrow> ready_queue_add_to_head cur s; Some (Inr s) } else Some (Inr s))
   }"

definition scheduler_AGING ::
  "nat \<Rightarrow> nat \<Rightarrow> 'z a2_files \<Rightarrow> 'z a2_parser \<Rightarrow> 'z a2_kernel_scheme \<Rightarrow> (int + 'z a2_kernel_scheme) option" where
  "scheduler_AGING vs fs files parse s = do {
     s \<leftarrow> sort_ready_queue s;
     schedule_loop (aging_turn vs fs files parse) s
   }"

definition rr_turn ::
  "nat \<Rightarrow> nat \<Rightarrow> 'z a2_files \<Rightarrow> 'z a2_parser \<Rightarrow> int \<Rightarrow> 'z a2_kernel_scheme \<Rightarrow> (int + 'z a2_kernel_scheme) option" where
  "rr_turn vs fs files parse quanta s = do {
     (cur, s) \<leftarrow> ready_queue_pop_head s;
     node \<leftarrow> cur;
     r \<leftarrow> execute_process vs fs files parse node quanta s;
     on_ok r (\<lambda>(b, s). if \<not> b then do { s \<leftarrow> ready_queue_add_to_tail cur s; Some (Inr s) } else Some (Inr s))
   }"

definition scheduler_RR ::
  "nat \<Rightarrow> nat \<Rightarrow> 'z a2_files \<Rightarrow> 'z a2_parser \<Rightarrow> int \<Rightarrow> 'z a2_kernel_scheme \<Rightarrow> (int + 'z a2_kernel_scheme) option" where
  "scheduler_RR vs fs files parse quanta s = schedule_loop (rr_turn vs fs files parse quanta) s"

definition schedule_by_policy ::
  "nat \<Rightarrow> nat \<Rightarrow> 'z a2_files \<Rightarrow> 'z a2_parser \<Rightarrow> string \<Rightarrow> 'z a2_kernel_scheme \<Rightarrow> (int + int \<times> 'z a2_kernel_scheme) option" where
  "schedule_by_policy vs fs files parse policy s =
     (if policy \<notin> {''FCFS'', ''SJF'', ''RR'', ''AGING'', ''RR30''} then Some (Inr (5, s))
      else if active s then Some (Inr (0, s))
      else if in_background s then Some (Inr (0, s))
      else do {
        r \<leftarrow> (if policy = ''FCFS'' then scheduler_FCFS vs fs files parse s
              else if policy = ''SJF'' then scheduler_SJF vs fs files parse s
              else if policy = ''RR'' then scheduler_RR vs fs files parse 2 s
              else if policy = ''AGING'' then scheduler_AGING vs fs files parse s
              else scheduler_RR vs fs files parse 30 s);
        on_ok r (\<lambda>s. Some (Inr (0, s)))
      })"

subsection \<open>Round robin rotates the queue\<close>

text \<open>
  The queue as the list of its nodes, and the processes of a list of nodes. A process is finished when it has gone
  behind its last page.
\<close>

definition queue_ok :: "'z a2_kernel_scheme \<Rightarrow> nat list \<Rightarrow> bool" where
  "queue_ok s xs \<longleftrightarrow> rq_rep s xs \<and> (\<forall>a \<in> set xs. a < node_count s)"

definition processes :: "'z a2_kernel_scheme \<Rightarrow> nat list \<Rightarrow> nat list" where
  "processes s xs = map (rq_pcb s) xs"

lemma processes_append [simp]: "processes s (xs @ ys) = processes s xs @ processes s ys"
  by (simp add: processes_def)

definition progress :: "a2_pcb \<Rightarrow> nat \<times> nat" where
  "progress pcb = (current_page pcb, pages_needed pcb)"

definition finished :: "'z a2_kernel_scheme \<Rightarrow> nat \<Rightarrow> bool" where
  "finished s p \<longleftrightarrow> current_page (rq_pcbs s ! p) + 1 > pages_needed (rq_pcbs s ! p)"

text \<open>
  What a command may do to the queue while a process runs: new processes join at the tail, in new nodes, and nothing
  that was there changes its place, its process or its progress.
\<close>

definition grown :: "'z a2_kernel_scheme \<Rightarrow> 'z a2_kernel_scheme \<Rightarrow> bool" where
  "grown s s' \<longleftrightarrow> in_background s' = in_background s \<and> node_count s \<le> node_count s' \<and> length (rq_pcbs s) \<le> length (rq_pcbs s') \<and>
     (\<forall>a < node_count s. rq_pcb s' a = rq_pcb s a \<and> rq_live s' a = rq_live s a) \<and>
     (\<forall>p < length (rq_pcbs s). progress (rq_pcbs s' ! p) = progress (rq_pcbs s ! p)) \<and>
     (\<forall>xs. queue_ok s xs \<longrightarrow> (\<exists>ys. queue_ok s' (xs @ ys) \<and> (\<forall>y \<in> set ys. node_count s \<le> y) \<and>
        processes s' ys = [length (rq_pcbs s)..<length (rq_pcbs s')]))"

lemma grown_same:
  assumes "rq_head s' = rq_head s" "rq_next s' = rq_next s" "rq_pcb s' = rq_pcb s" "rq_live s' = rq_live s" "node_count s' = node_count s"
    and "in_background s' = in_background s" and "map progress (rq_pcbs s') = map progress (rq_pcbs s)"
  shows "grown s s'"
proof -
  have l: "length (rq_pcbs s') = length (rq_pcbs s)" using assms(7) by (rule map_eq_imp_length_eq)
  have "progress (rq_pcbs s' ! p) = progress (rq_pcbs s ! p)" if "p < length (rq_pcbs s)" for p
    using that l arg_cong [OF assms(7), of "\<lambda>xs. xs ! p"] by simp
  moreover have "queue_ok s' xs = queue_ok s xs" for xs using assms(1-5) by (simp add: queue_ok_def rq_rep_def)
  ultimately show ?thesis using assms l by (auto simp: grown_def processes_def intro!: exI [of _ "[]"])
qed

lemma grown_queue:
  "grown s t \<Longrightarrow> queue_ok s xs \<Longrightarrow> \<exists>ys. queue_ok t (xs @ ys) \<and> (\<forall>y \<in> set ys. node_count s \<le> y) \<and>
     processes t ys = [length (rq_pcbs s)..<length (rq_pcbs t)]"
  unfolding grown_def by blast

lemma grown_refl [simp]: "grown s s"
  by (rule grown_same) simp_all

lemma grown_trans [trans]:
  assumes "grown s t" and "grown t u"
  shows "grown s u"
proof -
  have n: "node_count s \<le> node_count t" "node_count t \<le> node_count u" "length (rq_pcbs s) \<le> length (rq_pcbs t)" "length (rq_pcbs t) \<le> length (rq_pcbs u)"
    using assms by (simp_all add: grown_def)
  have "\<exists>zs. queue_ok u (xs @ zs) \<and> (\<forall>y \<in> set zs. node_count s \<le> y) \<and> processes u zs = [length (rq_pcbs s)..<length (rq_pcbs u)]"
    if q: "queue_ok s xs" for xs
  proof -
    obtain ys where y: "queue_ok t (xs @ ys)" "\<forall>y \<in> set ys. node_count s \<le> y" "processes t ys = [length (rq_pcbs s)..<length (rq_pcbs t)]"
      using grown_queue [OF assms(1) q] by blast
    obtain zs where z: "queue_ok u ((xs @ ys) @ zs)" "\<forall>y \<in> set zs. node_count t \<le> y" "processes u zs = [length (rq_pcbs t)..<length (rq_pcbs u)]"
      using grown_queue [OF assms(2) y(1)] by blast
    have "processes u ys = processes t ys"
      using assms(2) y(1) by (auto simp: grown_def processes_def queue_ok_def)
    moreover have "[length (rq_pcbs s)..<length (rq_pcbs t)] @ [length (rq_pcbs t)..<length (rq_pcbs u)] = [length (rq_pcbs s)..<length (rq_pcbs u)]"
      using n(3,4) upt_add_eq_append [of "length (rq_pcbs s)" "length (rq_pcbs t)" "length (rq_pcbs u) - length (rq_pcbs t)"] by simp
    ultimately have "processes u (ys @ zs) = [length (rq_pcbs s)..<length (rq_pcbs u)]" using y(3) z(3) by simp
    then show ?thesis using y(2) z(1,2) n(1) by (intro exI [of _ "ys @ zs"]) auto
  qed
  moreover have "rq_pcb u a = rq_pcb s a \<and> rq_live u a = rq_live s a" if "a < node_count s" for a
    using assms that n(1) by (simp add: grown_def)
  moreover have "progress (rq_pcbs u ! p) = progress (rq_pcbs s ! p)" if "p < length (rq_pcbs s)" for p
    using assms that n(3) by (simp add: grown_def)
  ultimately show ?thesis using assms n by (simp add: grown_def)
qed

text \<open>A new node for a process goes to the tail.\<close>

lemma requeue:
  assumes "queue_ok t xs" and "new_node p t = (node, t')" and "ready_queue_add_to_tail node t' = Some s'"
  shows "queue_ok s' (xs @ [node_count t])" "rq_pcb s' = (rq_pcb t)(node_count t := p)" "node_count s' = Suc (node_count t)"
    "rq_live s' = (rq_live t)(node_count t := True)" "rq_pcbs s' = rq_pcbs t" "in_background s' = in_background t"
    "processes s' (xs @ [node_count t]) = processes t xs @ [p]"
proof -
  let ?n = "node_count t"
  have n: "node = Some ?n" "rq_live t' = (rq_live t)(?n := True)" "rq_rep t' xs" "?n \<notin> set xs" "node_count t' = Suc ?n"
      "rq_pcb t' = (rq_pcb t)(?n := p)" "rq_pcbs t' = rq_pcbs t" "in_background t' = in_background t"
    using assms(1,2) by (auto simp: new_node_def queue_ok_def rq_rep_def)
  from add_to_tail_rep [OF n(3,4)] n(1,2) assms(3)
  have r: "rq_rep s' (xs @ [?n])" "rq_pcb s' = rq_pcb t'" "rq_live s' = rq_live t'" "rq_pcbs s' = rq_pcbs t'" by auto
  have "rq_state.more s' = rq_state.more t'" using node_ops_data(1) [OF assms(3)] by (simp add: same_data_def)
  then have c: "node_count s' = node_count t'" "in_background s' = in_background t'" by (cases s'; cases t'; simp)+
  show "queue_ok s' (xs @ [?n])" using r(1) c(1) n(5) assms(1) by (auto simp: queue_ok_def)
  show "rq_pcb s' = (rq_pcb t)(?n := p)" "node_count s' = Suc ?n" "rq_live s' = (rq_live t)(?n := True)" "rq_pcbs s' = rq_pcbs t"
    "in_background s' = in_background t"
    using r c n by simp_all
  then show "processes s' (xs @ [?n]) = processes t xs @ [p]" using n(4) by (auto simp: processes_def)
qed

text \<open>A process that is made by a command goes to the tail.\<close>

lemma process_initialize_grown:
  assumes "process_initialize vs fs files jk f s = Some (e, s')"
  shows "grown s s'"
proof (cases "files s f")
  case None
  then show ?thesis using assms by (simp add: process_initialize_def)
next
  case (Some content)
  obtain t where t: "grown s t" "s' = t \<or> (\<exists>pcb node u.
      new_node (length (rq_pcbs t)) (t\<lparr>rq_pcbs := rq_pcbs t @ [pcb]\<rparr>) = (node, u) \<and> ready_queue_add_to_tail node u = Some s')"
  proof -
    obtain pcb t e1 p mem where t: "makePCB jk s = Some (pcb, t)" "load_two vs fs f (content, False) (pcb\<lparr>current_page := 0\<rparr>) (a2_smem t) = Some (e1, p, mem)"
      and s': "s' = t\<lparr>a2_smem := mem\<rparr> \<or> (\<exists>pcb node u.
         new_node (length (rq_pcbs t)) (t\<lparr>a2_smem := mem, rq_pcbs := rq_pcbs t @ [pcb]\<rparr>) = (node, u) \<and> ready_queue_add_to_tail node u = Some s')"
      using assms Some by (auto simp: process_initialize_def Let_def split: bind_splits if_splits prod.splits; blast)
    have "grown s (t\<lparr>a2_smem := mem\<rparr>)"
      using t(1) by (intro grown_same) (auto simp: makePCB_def generatePID_def split: bind_splits)
    then show ?thesis using that [of "t\<lparr>a2_smem := mem\<rparr>"] s' by simp
  qed
  have "grown t s'" if n: "new_node (length (rq_pcbs t)) (t\<lparr>rq_pcbs := rq_pcbs t @ [pcb]\<rparr>) = (node, u)" "ready_queue_add_to_tail node u = Some s'" for pcb node u
  proof -
    let ?t = "t\<lparr>rq_pcbs := rq_pcbs t @ [pcb]\<rparr>"
    have ok: "queue_ok ?t xs = queue_ok t xs" for xs by (simp add: queue_ok_def rq_rep_def)
    have f: "rq_pcb s' = (rq_pcb t)(node_count t := length (rq_pcbs t))" "node_count s' = Suc (node_count t)"
        "rq_live s' = (rq_live t)(node_count t := True)" "rq_pcbs s' = rq_pcbs t @ [pcb]" "in_background s' = in_background t"
    proof -
      have u: "rq_state.more s' = rq_state.more u" "rq_pcbs s' = rq_pcbs u" using node_ops_data(1) [OF n(2)] by (simp_all add: same_data_def)
      then have "node_count s' = node_count u" "in_background s' = in_background u" by (cases s'; cases u; simp)+
      moreover have "rq_pcb s' = rq_pcb u" "rq_live s' = rq_live u"
        using n(2) by (auto simp: ready_queue_add_to_tail_def set_next_of_def split: if_splits bind_splits)
      ultimately show "rq_pcb s' = (rq_pcb t)(node_count t := length (rq_pcbs t))" "node_count s' = Suc (node_count t)"
        "rq_live s' = (rq_live t)(node_count t := True)" "rq_pcbs s' = rq_pcbs t @ [pcb]" "in_background s' = in_background t"
        using n(1) u(2) by (auto simp: new_node_def)
    qed
    have "\<exists>ys. queue_ok s' (xs @ ys) \<and> (\<forall>y \<in> set ys. node_count t \<le> y) \<and> processes s' ys = [length (rq_pcbs t)..<length (rq_pcbs s')]"
      if "queue_ok t xs" for xs
      using requeue(1) [OF _ n, of xs] that ok f by (intro exI [of _ "[node_count t]"]) (simp add: processes_def)
    then show ?thesis using f by (simp add: grown_def nth_append)
  qed
  then show ?thesis using t grown_trans by blast
qed

text \<open>The process that runs is in its node, which is in no queue, and is not finished.\<close>

definition waiting :: "'z a2_kernel_scheme \<Rightarrow> nat \<Rightarrow> nat \<Rightarrow> nat list \<Rightarrow> bool" where
  "waiting s x p xs \<longleftrightarrow> queue_ok s xs \<and> x \<notin> set xs \<and> x < node_count s \<and> rq_live s x \<and> rq_pcb s x = p \<and> p < length (rq_pcbs s)"

lemma waiting_grown:
  assumes "waiting s x p xs" and "grown s t"
  obtains ys where "waiting t x p (xs @ ys)" "processes t (xs @ ys) = processes s xs @ [length (rq_pcbs s)..<length (rq_pcbs t)]"
    "finished t p = finished s p"
proof -
  obtain ys where y: "queue_ok t (xs @ ys)" "\<forall>y \<in> set ys. node_count s \<le> y" "processes t ys = [length (rq_pcbs s)..<length (rq_pcbs t)]"
    using grown_queue [OF assms(2)] assms(1) unfolding waiting_def by blast
  have "processes t xs = processes s xs" using assms by (auto simp: grown_def waiting_def queue_ok_def processes_def)
  moreover have "finished t p = finished s p" using assms by (auto simp: grown_def waiting_def finished_def progress_def)
  moreover have "waiting t x p (xs @ ys)" using assms y by (auto simp: grown_def waiting_def)
  ultimately show ?thesis using that y by (simp add: processes_def)
qed

lemma waiting_updates [simp]:
  "length ps = length (rq_pcbs s) \<Longrightarrow> waiting (s\<lparr>rq_pcbs := ps\<rparr>) x p xs = waiting s x p xs"
  "waiting (s\<lparr>in_background := b\<rparr>) x p xs = waiting s x p xs" "finished (s\<lparr>in_background := b\<rparr>) q = finished s q"
  "processes (s\<lparr>rq_pcbs := ps\<rparr>) xs = processes s xs" "processes (s\<lparr>in_background := b\<rparr>) xs = processes s xs"
  by (simp_all add: waiting_def queue_ok_def rq_rep_def finished_def processes_def)

lemma load_page_progress: "load_page vs fs fp f pcb mem = Some (e, fp', pcb', mem') \<Longrightarrow> progress pcb' = progress pcb"
  by (auto simp: load_page_def find_free_frame_def progress_def Let_def split: option.splits bind_splits if_splits)

lemma page_fault_requeues:
  assumes "handle_page_fault vs fs files p s = Some s'" and "waiting s x p xs"
  shows "\<exists>ys. queue_ok s' ys \<and> processes s' ys = processes s xs @ [p]" "finished s' p = finished s p" "length (rq_pcbs s') = length (rq_pcbs s)"
proof -
  obtain fn content fp e fq q mem pc node u where l: "load_page vs fs fp fn (rq_pcbs s ! p) (a2_smem s) = Some (e, fq, q, mem)"
    and u: "new_node p (s\<lparr>a2_smem := mem, rq_pcbs := (rq_pcbs s)[p := q\<lparr>PC := pc\<rparr>]\<rparr>) = (node, u)" "ready_queue_add_to_tail node u = Some s'"
    using assms(1) unfolding handle_page_fault_def Let_def by (auto simp: arr_get_eq_Some split: bind_splits prod.splits)
  let ?s = "s\<lparr>a2_smem := mem, rq_pcbs := (rq_pcbs s)[p := q\<lparr>PC := pc\<rparr>]\<rparr>"
  have "queue_ok ?s xs" using assms(2) by (simp add: waiting_def queue_ok_def rq_rep_def)
  note r = requeue [OF this u]
  show "\<exists>ys. queue_ok s' ys \<and> processes s' ys = processes s xs @ [p]" using r(1,7) by (auto simp: processes_def)
  show "finished s' p = finished s p" "length (rq_pcbs s') = length (rq_pcbs s)"
    using r(5) load_page_progress [OF l] assms(2) by (simp_all add: finished_def waiting_def progress_def)
qed

lemma terminate_leaves_queue:
  assumes "terminate_process (Some x) s = Some s'" and "waiting s x p xs"
  shows "queue_ok s' xs" "processes s' xs = processes s xs" "rq_pcbs s' = rq_pcbs s"
  using assms by (auto simp: terminate_process_def free_node_def waiting_def queue_ok_def rq_rep_def processes_def split: if_splits)

lemma updates_comm: "s\<lparr>in_background := b, rq_pcbs := ps\<rparr> = (s :: 'z a2_kernel_scheme)\<lparr>rq_pcbs := ps, in_background := b\<rparr>"
  by simp

text \<open>The result of running a process for a while; \<open>b\<close> tells whether it has given up its node.\<close>

definition ran :: "'z a2_kernel_scheme \<Rightarrow> nat \<Rightarrow> nat \<Rightarrow> nat list \<Rightarrow> bool \<Rightarrow> 'z a2_kernel_scheme \<Rightarrow> bool" where
  "ran s x p xs b s' \<longleftrightarrow> length (rq_pcbs s) \<le> length (rq_pcbs s') \<and>
     (let new = [length (rq_pcbs s)..<length (rq_pcbs s')] in
      if b then \<exists>ys. queue_ok s' ys \<and> processes s' ys = processes s xs @ new @ (if finished s' p then [] else [p])
      else \<not> finished s' p \<and> (\<exists>ys. waiting s' x p ys \<and> processes s' ys = processes s xs @ new))"

lemma ran_trans:
  assumes "processes t ys = processes s xs @ [length (rq_pcbs s)..<length (rq_pcbs t)]" and "length (rq_pcbs s) \<le> length (rq_pcbs t)"
    and "ran t x p ys b u"
  shows "ran s x p xs b u"
proof -
  have le: "length (rq_pcbs t) \<le> length (rq_pcbs u)" using assms(3) by (simp add: ran_def)
  have "[length (rq_pcbs s)..<length (rq_pcbs t)] @ [length (rq_pcbs t)..<length (rq_pcbs u)] = [length (rq_pcbs s)..<length (rq_pcbs u)]"
    using le assms(2) upt_add_eq_append [of "length (rq_pcbs s)" "length (rq_pcbs t)" "length (rq_pcbs u) - length (rq_pcbs t)"] by simp
  then have eq: "processes t ys @ [length (rq_pcbs t)..<length (rq_pcbs u)] @ zs = processes s xs @ [length (rq_pcbs s)..<length (rq_pcbs u)] @ zs" for zs
    unfolding assms(1) by (metis append_assoc)
  show ?thesis using assms(2,3) le eq [of "[]"] eq [of "[p]"] by (cases b; cases "finished u p") (simp_all add: ran_def Let_def)
qed

text \<open>What a kernel expects of the interpreter of the lines of its processes.\<close>

locale background_parser =
  fixes parse :: "'z a2_parser"
  assumes in_the_background: "parse l s = Some (Inr (c, s')) \<Longrightarrow> in_background s \<Longrightarrow> grown s s'"
begin

lemma run_line_grown: "run_line parse l s = Some (Inr s') \<Longrightarrow> in_background s \<Longrightarrow> grown s s'"
  using in_the_background by (auto simp: run_line_def on_ok_def split: bind_splits if_splits sum.splits)

lemma execute_line_ran:
  assumes w: "waiting s x p xs" "\<not> finished s p" and r: "execute_line vs fs files parse x s = Some (Inr (b, s'))"
  shows "ran s x p xs b s'"
proof -
  have p: "rq_pcb s x = p" "p < length (rq_pcbs s)" using w(1) by (simp_all add: waiting_def)
  define upd where "upd = (\<lambda>q. s\<lparr>rq_pcbs := (rq_pcbs s)[p := q], in_background := True\<rparr>)"
  have wq: "waiting (upd q) x p xs" "in_background (upd q)" "processes (upd q) xs = processes s xs"
      "length (rq_pcbs (upd q)) = length (rq_pcbs s)" "finished (upd q) p \<longleftrightarrow> current_page q + 1 > pages_needed q" for q
    using w(1) p by (simp_all add: upd_def finished_def)
  have nf: "current_page (rq_pcbs s ! p) + 1 \<le> pages_needed (rq_pcbs s ! p)" using w(2) by (simp add: finished_def)
  consider (over) q l u where "run_line parse l (upd q) = Some (Inr u)" "\<not> finished (upd q) p" "\<not> b" "s' = u\<lparr>in_background := False\<rparr>"
    | (fin) q l u v where "run_line parse l (upd q) = Some (Inr u)" "finished (upd q) p" "b" "terminate_process (Some x) u = Some v" "s' = v\<lparr>in_background := False\<rparr>"
    | (fault) q l u where "run_line parse l (upd q) = Some (Inr u)" "\<not> finished (upd q) p" "b" "handle_page_fault vs fs files p u = Some s'"
    using r p nf unfolding wq(5) unfolding execute_line_def Let_def upd_def
    by (auto simp: on_ok_def arr_get_eq_Some updates_comm split: bind_splits if_splits sum.splits)
  then show ?thesis
  proof cases
    case over
    obtain ys where y: "waiting u x p (xs @ ys)" "processes u (xs @ ys) = processes (upd q) xs @ [length (rq_pcbs (upd q))..<length (rq_pcbs u)]"
        "finished u p = finished (upd q) p"
      using waiting_grown [OF wq(1) run_line_grown [OF over(1) wq(2)]] by blast
    then show ?thesis using over run_line_grown [OF over(1) wq(2)] wq by (auto simp: ran_def Let_def grown_def)
  next
    case fin
    obtain ys where y: "waiting u x p (xs @ ys)" "processes u (xs @ ys) = processes (upd q) xs @ [length (rq_pcbs (upd q))..<length (rq_pcbs u)]"
        "finished u p = finished (upd q) p"
      using waiting_grown [OF wq(1) run_line_grown [OF fin(1) wq(2)]] by blast
    note t = terminate_leaves_queue [OF fin(4) y(1)]
    have "queue_ok s' (xs @ ys)" "processes s' (xs @ ys) = processes u (xs @ ys)" "rq_pcbs s' = rq_pcbs u"
      using t fin(5) by (simp_all add: queue_ok_def rq_rep_def)
    then show ?thesis using y fin(2,3) run_line_grown [OF fin(1) wq(2)] wq by (auto simp: ran_def Let_def grown_def finished_def)
  next
    case fault
    obtain ys where y: "waiting u x p (xs @ ys)" "processes u (xs @ ys) = processes (upd q) xs @ [length (rq_pcbs (upd q))..<length (rq_pcbs u)]"
        "finished u p = finished (upd q) p"
      using waiting_grown [OF wq(1) run_line_grown [OF fault(1) wq(2)]] by blast
    then show ?thesis
      using page_fault_requeues [OF fault(4) y(1)] fault(2,3) run_line_grown [OF fault(1) wq(2)] wq by (auto simp: ran_def Let_def grown_def)
  qed
qed

lemma execute_process_ran:
  assumes "waiting s x p xs" and "\<not> finished s p" and "execute_process vs fs files parse x quanta s = Some (Inr (b, s'))"
  shows "ran s x p xs b s'"
  using assms
proof (induction "nat quanta" arbitrary: quanta s xs)
  case 0
  then have "b = False \<and> s' = s" by (subst (asm) execute_process.simps) simp
  then show ?case using 0 by (auto simp: ran_def)
next
  case (Suc n)
  then have q: "\<not> quanta \<le> 0" "n = nat (quanta - 1)" by simp_all
  from Suc.prems(3) q(1) obtain b1 t where l: "execute_line vs fs files parse x s = Some (Inr (b1, t))"
    and r: "if b1 then b \<and> s' = t else execute_process vs fs files parse x (quanta - 1) t = Some (Inr (b, s'))"
    by (subst (asm) execute_process.simps) (auto split: bind_splits sum.splits if_splits)
  note e = execute_line_ran [OF Suc.prems(1,2) l]
  show ?case
  proof (cases b1)
    case True
    then show ?thesis using e r by simp
  next
    case False
    then obtain ys where y: "waiting t x p ys" "\<not> finished t p" "processes t ys = processes s xs @ [length (rq_pcbs s)..<length (rq_pcbs t)]"
        "length (rq_pcbs s) \<le> length (rq_pcbs t)"
      using e by (auto simp: ran_def Let_def)
    have "ran t x p ys b s'" using Suc.hyps(1) [OF q(2) y(1,2)] r False by simp
    then show ?thesis by (rule ran_trans [OF y(3,4)])
  qed
qed

lemma rr_turn_ran:
  assumes "queue_ok s (x # xs)" and p: "p = rq_pcb s x" "p < length (rq_pcbs s)" "\<not> finished s p"
    and "rr_turn vs fs files parse quanta s = Some (Inr s')"
  shows "ran s x p xs True s'"
proof -
  have rep: "rq_rep s (x # xs)" using assms(1) by (simp add: queue_ok_def)
  obtain t where t: "ready_queue_pop_head s = Some (Some x, t)" "rq_rep t xs" "rq_live t = rq_live s" "rq_pcb t = rq_pcb s" "rq_pcbs t = rq_pcbs s"
    using pop_head_queue [OF rep] by blast
  have "rq_state.more t = rq_state.more s" using node_ops_data(2) [OF t(1)] by (simp add: same_data_def)
  then have "node_count t = node_count s" by (cases t; cases s) simp
  then have w: "waiting t x p xs" "\<not> finished t p" "processes t xs = processes s xs"
    using assms(1) t p rep by (auto simp: waiting_def queue_ok_def rq_rep_def finished_def processes_def)
  obtain b u where u: "execute_process vs fs files parse x quanta t = Some (Inr (b, u))"
    "if b then s' = u else ready_queue_add_to_tail (Some x) u = Some s'"
    using assms(5) t(1) by (auto simp: rr_turn_def on_ok_def split: bind_splits sum.splits if_splits)
  note e = execute_process_ran [OF w(1,2) u(1)]
  show ?thesis
  proof (cases b)
    case True
    then show ?thesis using e u(2) w(3) t(5) by (simp add: ran_def)
  next
    case False
    then obtain ys where y: "waiting u x p ys" "\<not> finished u p" "processes u ys = processes s xs @ [length (rq_pcbs s)..<length (rq_pcbs u)]"
        "length (rq_pcbs s) \<le> length (rq_pcbs u)"
      using e w(3) t(5) by (auto simp: ran_def Let_def)
    have add: "ready_queue_add_to_tail (Some x) u = Some s'" using u(2) False by simp
    have "rq_rep s' (ys @ [x])" "rq_pcb s' = rq_pcb u" "rq_pcbs s' = rq_pcbs u"
      using add_to_tail_rep [of u ys x] y(1) add by (auto simp: waiting_def queue_ok_def)
    moreover have "rq_state.more s' = rq_state.more u" using node_ops_data(1) [OF add] by (simp add: same_data_def)
    then have "node_count s' = node_count u" by (cases s'; cases u) simp
    ultimately have "queue_ok s' (ys @ [x])" "processes s' (ys @ [x]) = processes u ys @ [p]" "finished s' p = finished u p" "rq_pcbs s' = rq_pcbs u"
      using y(1) by (auto simp: queue_ok_def waiting_def processes_def finished_def)
    then show ?thesis using y by (auto simp: ran_def Let_def)
  qed
qed

end

declare execute_process.simps [code] last_node.simps [code]

end
