(* ===== verification/Shell2.thy ===== *)
theory Shell2
  imports Kernel2 Shell1
begin

text \<open>
  The shell of the second assignment: \<open>src/a2/shell.c\<close> and \<open>src/a2/interpreter.c\<close>, on top of the kernel of
  \<open>Kernel2\<close>.

  The state extends the kernel by the output of the commands and the state of the operating system below. What the
  shell uses of that system, the sizes of the memory, and the values that C leaves open are the fields of the argument
  \<open>env\<close>. The array of words keeps the words of earlier commands of the same line, and a missing argument of a command
  is read from it, or is a null pointer. Lines have less than 1000 characters, as \<open>fgets\<close> delivers them; longer words
  and values overflow arrays, which is undefined. \<open>parseInput\<close>, \<open>interpreter\<close> and the kernel call each other: \<open>a2_parse\<close>
  counts the depth, and depth two is enough for every run.
\<close>

record 'h a2_env =
  sys_system :: "string \<Rightarrow> 'h \<Rightarrow> int \<times> string \<times> 'h"
  sys_isdir :: "string \<Rightarrow> 'h \<Rightarrow> bool"
  sys_chdir :: "string \<Rightarrow> 'h \<Rightarrow> int \<times> 'h"
  sys_read :: "string \<Rightarrow> 'h \<Rightarrow> string option"
  sys_write :: "string \<Rightarrow> string \<Rightarrow> 'h \<Rightarrow> 'h option"
  varmemsize :: nat
  framesize :: nat
  help_text :: string
  junk_pcb :: a2_pcb
  junk_int :: int

record 'h a2_shell = a2_kernel +
  a2_out :: string
  a2_host :: 'h

type_synonym 'h a2_result = "(int + int \<times> 'h a2_shell) option"

abbreviation a2_ok :: "int \<times> 'h a2_shell \<Rightarrow> 'h a2_result" where
  "a2_ok r \<equiv> Some (Inr r)"

definition a2_files_of :: "'h a2_env \<Rightarrow> 'h a2_shell \<Rightarrow> string \<Rightarrow> string option" where
  "a2_files_of env s f = sys_read env f (a2_host s)"

definition a2_put_line :: "string \<Rightarrow> 'h a2_shell \<Rightarrow> 'h a2_shell" where
  "a2_put_line str s = s\<lparr>a2_out := a2_out s @ str @ [newline]\<rparr>"

subsection \<open>Errors\<close>

definition a2_error_msgs :: "string list" where
  "a2_error_msgs =
     [''no error'', ''file does not exist'', ''file could not be loaded'', ''no space left in shell memory'',
      ''ready queue is full'', ''scheduling policy error'', ''too many tokens'', ''too few tokens'',
      ''non-alphanumeric token'', ''unknown name'', ''cd'', ''mkdir'']"

datatype a2_Error = NO_ERROR | FILE_DOES_NOT_EXIST | FILE_ERROR | NO_MEM_SPACE | READY_QUEUE_FULL | SCHEDULING_ERROR
  | TOO_MANY_TOKENS | TOO_FEW_TOKENS | NON_ALPHANUMERIC_TOKEN | BAD_COMMAND | ERROR_CD | ERROR_MKDIR

primrec error_number :: "a2_Error \<Rightarrow> nat" where
  "error_number NO_ERROR = 0"
| "error_number FILE_DOES_NOT_EXIST = 1"
| "error_number FILE_ERROR = 2"
| "error_number NO_MEM_SPACE = 3"
| "error_number READY_QUEUE_FULL = 4"
| "error_number SCHEDULING_ERROR = 5"
| "error_number TOO_MANY_TOKENS = 6"
| "error_number TOO_FEW_TOKENS = 7"
| "error_number NON_ALPHANUMERIC_TOKEN = 8"
| "error_number BAD_COMMAND = 9"
| "error_number ERROR_CD = 10"
| "error_number ERROR_MKDIR = 11"

text \<open>The message is looked up by the number.\<close>

definition a2_handle_error :: "int \<Rightarrow> 'h a2_shell \<Rightarrow> 'h a2_result" where
  "a2_handle_error code s =
     (if code < 0 then None
      else do {
        m \<leftarrow> arr_get a2_error_msgs (nat code);
        a2_ok (code, a2_put_line (''Bad command: '' @ m) s)
      })"

abbreviation a2_fail :: "a2_Error \<Rightarrow> 'h a2_shell \<Rightarrow> 'h a2_result" where
  "a2_fail e s \<equiv> a2_handle_error (int (error_number e)) s"

subsection \<open>Commands\<close>

definition a2_help :: "'h a2_env \<Rightarrow> 'h a2_shell \<Rightarrow> 'h a2_result" where
  "a2_help env s = a2_ok (0, a2_put_line (help_text env) s)"

definition a2_quit :: "'h a2_shell \<Rightarrow> 'h a2_result" where
  "a2_quit s = do { _ \<leftarrow> ready_queue_destory s; Some (Inl 0) }"

text \<open>The copy of name and value in an array of 1000 characters is not used.\<close>

definition a2_set :: "'h a2_env \<Rightarrow> string \<Rightarrow> string \<Rightarrow> 'h a2_shell \<Rightarrow> 'h a2_result" where
  "a2_set env v x s =
     (if length v + 1 + length x < 1000
      then a2_ok (0, s\<lparr>a2_smem := a2_mem_set_value (varmemsize env) v x (a2_smem s)\<rparr>) else None)"

definition a2_print :: "'h a2_env \<Rightarrow> string \<Rightarrow> 'h a2_shell \<Rightarrow> 'h a2_result" where
  "a2_print env v s =
     a2_ok (0, a2_put_line (case a2_mem_get_value (varmemsize env) (framesize env) v (a2_smem s) of
                              None \<Rightarrow> [newline] | Some x \<Rightarrow> x) s)"

definition a2_echo :: "'h a2_env \<Rightarrow> string \<Rightarrow> 'h a2_shell \<Rightarrow> 'h a2_result" where
  "a2_echo env v s = (if v \<noteq> [] \<and> hd v = CHR ''$'' then a2_print env (tl v) s else a2_ok (0, a2_put_line v s))"

text \<open>A command of the operating system, with its status.\<close>

definition system_call :: "'h a2_env \<Rightarrow> string \<Rightarrow> 'h a2_shell \<Rightarrow> int \<times> 'h a2_shell" where
  "system_call env command s =
     (case sys_system env command (a2_host s) of (e, out, h) \<Rightarrow> (e, s\<lparr>a2_out := a2_out s @ out, a2_host := h\<rparr>))"

definition a2_my_ls :: "'h a2_env \<Rightarrow> 'h a2_shell \<Rightarrow> 'h a2_result" where
  "a2_my_ls env s = a2_ok (system_call env ''ls | sort'' s)"

definition a2_my_mkdir :: "'h a2_env \<Rightarrow> string \<Rightarrow> 'h a2_shell \<Rightarrow> 'h a2_result" where
  "a2_my_mkdir env dirname s =
     (if dirname \<noteq> [] \<and> hd dirname = CHR ''$'' then
        (case a2_mem_get_value (varmemsize env) (framesize env) (tl dirname) (a2_smem s) of
           None \<Rightarrow> a2_fail ERROR_MKDIR s
         | Some x \<Rightarrow> if CHR '' '' \<in> set x then a2_fail ERROR_MKDIR s else a2_ok (system_call env (''mkdir '' @ x) s))
      else a2_ok (system_call env (''mkdir '' @ dirname) s))"

definition a2_my_touch :: "'h a2_env \<Rightarrow> string \<Rightarrow> 'h a2_shell \<Rightarrow> 'h a2_result" where
  "a2_my_touch env filename s = a2_ok (system_call env (''touch '' @ filename) s)"

definition a2_my_cd :: "'h a2_env \<Rightarrow> string \<Rightarrow> 'h a2_shell \<Rightarrow> 'h a2_result" where
  "a2_my_cd env dirname s =
     (if sys_isdir env dirname (a2_host s)
      then (case sys_chdir env dirname (a2_host s) of (e, h) \<Rightarrow> a2_ok (e, s\<lparr>a2_host := h\<rparr>))
      else a2_fail ERROR_CD s)"

definition a2_resetmem :: "'h a2_env \<Rightarrow> 'h a2_shell \<Rightarrow> 'h a2_result" where
  "a2_resetmem env s = a2_ok (0, s\<lparr>a2_smem := a2_resetvarmem (varmemsize env) (a2_smem s)\<rparr>)"

text \<open>The status 11 that \<open>run\<close> looks for is none that \<open>process_initialize\<close> returns.\<close>

definition a2_run :: "'h a2_env \<Rightarrow> (string \<Rightarrow> 'h a2_shell \<Rightarrow> 'h a2_result) \<Rightarrow> string \<Rightarrow> 'h a2_shell \<Rightarrow> 'h a2_result" where
  "a2_run env parse script s = do {
     (errCode, s) \<leftarrow> process_initialize (varmemsize env) (framesize env) (a2_files_of env) (junk_pcb env) script s;
     if errCode = 11 then a2_handle_error errCode s
     else do {
       r \<leftarrow> schedule_by_policy (varmemsize env) (framesize env) (a2_files_of env) parse ''FCFS'' s;
       on_ok r (\<lambda>(_, s). a2_ok (errCode, s))
     }
   }"

text \<open>
  A script is copied character by character up to the end or a character 255, which the type \<open>char\<close> does not tell
  from \<open>EOF\<close>. The path has to fit in 50 characters, and both files have to open.
\<close>

definition copy_file_back :: "'h a2_env \<Rightarrow> string \<Rightarrow> 'h a2_shell \<Rightarrow> (string \<times> 'h a2_shell) option" where
  "copy_file_back env f s = do {
     let path = ''./backing_store/'' @ f;
     _ \<leftarrow> (if length path < 50 then Some () else None);
     content \<leftarrow> sys_read env f (a2_host s);
     h \<leftarrow> sys_write env path (takeWhile (\<lambda>c. c \<noteq> CHR 0xFF) content) (a2_host s);
     Some (path, s\<lparr>a2_host := h\<rparr>)
   }"

text \<open>One script of \<open>exec\<close>, with the processes whose file names are in the arrays of \<open>exec\<close>.\<close>

definition exec_script :: "'h a2_env \<Rightarrow> string option \<Rightarrow> nat list \<Rightarrow> 'h a2_shell \<Rightarrow> (int \<times> nat list \<times> 'h a2_shell) option" where
  "exec_script env f is s =
     (case f of
        None \<Rightarrow> Some (0, is, s)
      | Some f \<Rightarrow> do {
          (path, s) \<leftarrow> copy_file_back env f s;
          (e, t) \<leftarrow> process_initialize (varmemsize env) (framesize env) (a2_files_of env) (junk_pcb env) path s;
          Some (e, (if e = 0 then is @ [length (rq_pcbs s)] else is), t)
        })"

text \<open>When \<open>exec\<close> returns its arrays are gone.\<close>

definition drop_names :: "nat list \<Rightarrow> 'h a2_shell \<Rightarrow> 'h a2_shell" where
  "drop_names is s = s\<lparr>rq_pcbs := fold (\<lambda>i ps. ps[i := (ps ! i)\<lparr>pcb_filename := None\<rparr>]) is (rq_pcbs s)\<rparr>"

definition a2_exec ::
  "'h a2_env \<Rightarrow> (string \<Rightarrow> 'h a2_shell \<Rightarrow> 'h a2_result) \<Rightarrow> string option \<Rightarrow> string option \<Rightarrow> string option \<Rightarrow> 'h a2_shell \<Rightarrow> 'h a2_result" where
  "a2_exec env parse fname1 fname2 fname3 s = do {
     (e, is, s) \<leftarrow> exec_script env fname1 [] s;
     if e \<noteq> 0 then a2_handle_error e (drop_names is s)
     else do {
       (e, is, s) \<leftarrow> exec_script env fname2 is s;
       if e \<noteq> 0 then a2_handle_error e (drop_names is s)
       else do {
         (e, is, s) \<leftarrow> exec_script env fname3 is s;
         if e \<noteq> 0 then a2_handle_error e (drop_names is s)
         else do {
           r \<leftarrow> schedule_by_policy (varmemsize env) (framesize env) (a2_files_of env) parse ''RR'' s;
           on_ok r (\<lambda>(e, s). if e \<noteq> 0 then a2_handle_error e (drop_names is s) else a2_ok (junk_int env, drop_names is s))
         }
       }
     }
   }"

subsection \<open>The interpreter\<close>

text \<open>Ends of lines are cut off the first \<open>n\<close> words.\<close>

definition a2_strip :: "nat \<Rightarrow> string option list \<Rightarrow> string option list" where
  "a2_strip n ws = map (map_option strip) (take n ws) @ drop n ws"

text \<open>The command with its words in the array; a null pointer is not to be followed.\<close>

definition a2_command ::
  "'h a2_env \<Rightarrow> (string \<Rightarrow> 'h a2_shell \<Rightarrow> 'h a2_result) \<Rightarrow> string option list \<Rightarrow> nat \<Rightarrow> 'h a2_shell \<Rightarrow> 'h a2_result" where
  "a2_command env parse ws n s = do {
     cmd \<leftarrow> ws ! 0;
     if cmd = ''help'' then (if n > 1 then a2_fail TOO_MANY_TOKENS s else a2_help env s)
     else if cmd = ''quit'' \<or> cmd = ''exit'' then (if n > 1 then a2_fail TOO_MANY_TOKENS s else a2_quit s)
     else if cmd = ''set'' then
       (if n < 3 then a2_fail TOO_FEW_TOKENS s
        else do { v \<leftarrow> ws ! 1; a2_set env v (join_tokens (map the (drop 2 (take n ws)))) s })
     else if cmd = ''print'' then
       (if n < 2 then a2_fail TOO_FEW_TOKENS s else if n > 2 then a2_fail TOO_MANY_TOKENS s
        else do { v \<leftarrow> ws ! 1; a2_print env v s })
     else if cmd = ''run'' then
       (if n < 2 then a2_fail TOO_FEW_TOKENS s else if n > 2 then a2_fail TOO_MANY_TOKENS s
        else do { f \<leftarrow> ws ! 1; a2_run env parse f s })
     else if cmd = ''echo'' then (if n > 2 then a2_fail TOO_MANY_TOKENS s else do { v \<leftarrow> ws ! 1; a2_echo env v s })
     else if cmd = ''my_ls'' then (if n > 1 then a2_fail TOO_MANY_TOKENS s else a2_my_ls env s)
     else if cmd = ''my_mkdir'' then (if n > 2 then a2_fail TOO_MANY_TOKENS s else do { d \<leftarrow> ws ! 1; a2_my_mkdir env d s })
     else if cmd = ''my_touch'' then (if n > 2 then a2_fail TOO_MANY_TOKENS s else do { f \<leftarrow> ws ! 1; a2_my_touch env f s })
     else if cmd = ''my_cd'' then (if n > 2 then a2_fail TOO_MANY_TOKENS s else do { d \<leftarrow> ws ! 1; a2_my_cd env d s })
     else if cmd = ''exec'' \<and> n \<le> 1 then a2_fail TOO_FEW_TOKENS s
     else if cmd = ''exec'' \<and> n > 5 then a2_fail TOO_MANY_TOKENS s
     else if cmd = ''exec'' \<and> n = 2 then a2_exec env parse (ws ! 1) None None s
     else if cmd = ''exec'' \<and> n = 3 then a2_exec env parse (ws ! 1) (ws ! 2) None s
     else if cmd = ''exec'' \<and> n = 4 then a2_exec env parse (ws ! 1) (ws ! 2) (ws ! 3) s
     else if cmd = ''resetmem'' then (if n > 1 then a2_fail TOO_MANY_TOKENS s else a2_resetmem env s)
     else a2_fail BAD_COMMAND s
   }"

definition a2_interpreter ::
  "'h a2_env \<Rightarrow> (string \<Rightarrow> 'h a2_shell \<Rightarrow> 'h a2_result) \<Rightarrow> string option list \<Rightarrow> nat \<Rightarrow> 'h a2_shell \<Rightarrow> 'h a2_result" where
  "a2_interpreter env parse ws n s =
     (if n < 1 then a2_fail TOO_FEW_TOKENS s
      else if n > 7 then a2_fail TOO_MANY_TOKENS s
      else a2_command env parse (a2_strip n ws) n s)"

subsection \<open>The parser\<close>

text \<open>
  The loop of \<open>parseInput\<close>, on the rest of the line, with the array of words and their number. \<open>interp\<close> is the
  interpreter, which cuts the words in place when their number is allowed. A word has less than 200 characters. An
  empty word changes nothing before the next round.
\<close>

partial_function (option) a2_parse_loop ::
  "(string option list \<Rightarrow> nat \<Rightarrow> 'h a2_shell \<Rightarrow> 'h a2_result) \<Rightarrow> string \<Rightarrow> string option list \<Rightarrow> nat \<Rightarrow> 'h a2_shell \<Rightarrow> 'h a2_result" where
  "a2_parse_loop interp ui ws w s =
     (if ui = [] \<or> hd ui = newline then interp ws w s
      else do {
        let ui = dropWhile (\<lambda>c. c = CHR '' '') ui;
        let tmp = takeWhile (\<lambda>c. \<not> a1_sep c) ui;
        let rest = dropWhile (\<lambda>c. \<not> a1_sep c) ui;
        if ui = [] then interp ws w s
        else if tmp = [] then a2_parse_loop interp ui ws w s
        else do {
          ws \<leftarrow> (if length tmp < 200 then arr_set ws w (Some tmp) else None);
          if rest \<noteq> [] \<and> hd rest = CHR '';'' then do {
            r \<leftarrow> interp ws (w + 1) s;
            (case r of
               Inl n \<Rightarrow> Some (Inl n)
             | Inr (errorCode, s) \<Rightarrow>
                 if errorCode = - 1 then a2_ok (errorCode, s)
                 else a2_parse_loop interp (dropWhile (\<lambda>c. c = CHR '' '') (tl rest))
                        (if w + 1 \<le> 7 then a2_strip (w + 1) ws else ws) 0 s)
          } else a2_parse_loop interp (tl rest) ws (w + 1) s
        }
      })"

text \<open>The bounds \<open>a<1000\<close> of the loops are not met by a line of less than 1000 characters; longer lines are left out.\<close>

primrec a2_parse :: "nat \<Rightarrow> 'h a2_env \<Rightarrow> string \<Rightarrow> 'h a2_shell \<Rightarrow> 'h a2_result" where
  "a2_parse 0 env ui s = None"
| "a2_parse (Suc n) env ui s =
     (if length ui < 1000
      then a2_parse_loop (a2_interpreter env (a2_parse n env)) (dropWhile (\<lambda>c. c = CHR '' '') ui) (replicate 100 None) 0 s
      else None)"

text \<open>The main loop on the lines of the user, and the start of the shell.\<close>

primrec a2_lines :: "nat \<Rightarrow> 'h a2_env \<Rightarrow> string list \<Rightarrow> 'h a2_shell \<Rightarrow> (int + 'h a2_shell) option" where
  "a2_lines n env [] s = Some (Inr s)"
| "a2_lines n env (userInput # uis) s =
     (if length userInput > 0 then do {
        r \<leftarrow> a2_parse n env userInput s;
        on_ok r (\<lambda>(errorCode, s). if errorCode = - 1 then Some (Inl 99) else a2_lines n env uis s)
      } else a2_lines n env uis s)"

definition a2_main :: "nat \<Rightarrow> 'h a2_env \<Rightarrow> string list \<Rightarrow> 'h a2_shell \<Rightarrow> (int + 'h a2_shell) option" where
  "a2_main n env uis s = do {
     let s = snd (system_call env ''rm -rf ./backing_store'' s);
     let s = snd (system_call env ''mkdir ./backing_store'' s);
     let s = a2_put_line ''Shell v2.0'' s;
     let s = a2_put_line (''Frame Store Size = '' @ dec_string (framesize env) @ ''; Variable Store Size = '' @ dec_string (varmemsize env)) s;
     a2_lines n env uis (s\<lparr>a2_smem := a2_mem_init (varmemsize env) (framesize env)\<rparr>)
   }"

subsection \<open>How deep scripts run scripts\<close>

text \<open>
  While a script runs, the flag \<open>in_background\<close> is set, and then no scheduler starts. Commands keep the flag.
\<close>

lemma process_initialize_bg:
  "process_initialize vs fs files jk f s = Some (e, s') \<Longrightarrow> in_background s' = in_background s"
  by (auto simp: process_initialize_def makePCB_def generatePID_def new_node_def ready_queue_add_to_tail_def set_next_of_def Let_def
      split: option.splits bind_splits if_splits)

lemma schedule_by_policy_bg:
  "in_background s \<Longrightarrow> policy \<in> {''FCFS'', ''RR''} \<Longrightarrow> schedule_by_policy vs fs files parse policy s = Some (Inr (0, s))"
  by (auto simp: schedule_by_policy_def)

lemma exec_script_bg: "exec_script env f is s = Some (e, js, s') \<Longrightarrow> in_background s' = in_background s"
  by (auto simp: exec_script_def copy_file_back_def Let_def split: option.splits bind_splits if_splits dest!: process_initialize_bg)

lemma drop_names_bg [simp]: "in_background (drop_names is s) = in_background s"
  by (simp add: drop_names_def)

lemma put_line_bg [simp]: "in_background (a2_put_line str s) = in_background s"
  by (simp add: a2_put_line_def)

lemma handle_error_bg: "a2_handle_error e s = Some (Inr (c, s')) \<Longrightarrow> in_background s' = in_background s"
  by (auto simp: a2_handle_error_def split: if_splits bind_splits)

lemma system_call_bg: "in_background (snd (system_call env c s)) = in_background s"
  by (simp add: system_call_def split: prod.splits)

lemma a2_run_bg:
  assumes "in_background s"
  shows "a2_run env p f s = a2_run env q f s" and "a2_run env p f s = Some (Inr (c, s')) \<Longrightarrow> in_background s'"
  using assms
  by (auto simp: a2_run_def schedule_by_policy_bg process_initialize_bg dest!: handle_error_bg split: bind_splits if_splits intro!: Option.bind_cong)

lemma a2_exec_bg:
  assumes "in_background s"
  shows "a2_exec env p f g h s = a2_exec env q f g h s" and "a2_exec env p f g h s = Some (Inr (c, s')) \<Longrightarrow> in_background s'"
  using assms
  by (auto simp: a2_exec_def schedule_by_policy_bg exec_script_bg dest!: handle_error_bg split: bind_splits if_splits intro!: Option.bind_cong)

lemma simple_commands_bg:
  "a2_set env v x s = Some (Inr (c, s')) \<Longrightarrow> in_background s' = in_background s"
  "a2_print env v s = Some (Inr (c, s')) \<Longrightarrow> in_background s' = in_background s"
  "a2_echo env v s = Some (Inr (c, s')) \<Longrightarrow> in_background s' = in_background s"
  "a2_my_ls env s = Some (Inr (c, s')) \<Longrightarrow> in_background s' = in_background s"
  "a2_my_mkdir env v s = Some (Inr (c, s')) \<Longrightarrow> in_background s' = in_background s"
  "a2_my_touch env v s = Some (Inr (c, s')) \<Longrightarrow> in_background s' = in_background s"
  "a2_my_cd env v s = Some (Inr (c, s')) \<Longrightarrow> in_background s' = in_background s"
  "a2_resetmem env s = Some (Inr (c, s')) \<Longrightarrow> in_background s' = in_background s"
  "a2_help env s = Some (Inr (c, s')) \<Longrightarrow> in_background s' = in_background s"
  "a2_quit s = Some (Inr (c, s')) \<Longrightarrow> in_background s' = in_background s"
  using system_call_bg [of env _ s]
  by (auto simp: a2_set_def a2_print_def a2_echo_def a2_my_ls_def a2_my_mkdir_def a2_my_touch_def a2_my_cd_def a2_resetmem_def
      a2_help_def a2_quit_def prod_eq_iff dest: handle_error_bg split: if_splits option.splits prod.splits bind_splits)

text \<open>In the background the interpreter does not use the parser, and stays in the background.\<close>

lemma a2_interpreter_bg:
  assumes "in_background s"
  shows "a2_interpreter env p ws n s = a2_interpreter env q ws n s"
    and "a2_interpreter env p ws n s = Some (Inr (c, s')) \<Longrightarrow> in_background s'"
proof -
  have eqs: "a2_run env p e s = a2_run env q e s" "a2_exec env p f g h s = a2_exec env q f g h s" for e f g h
    using a2_run_bg(1) [OF assms] a2_exec_bg(1) [OF assms] by blast+
  show "a2_interpreter env p ws n s = a2_interpreter env q ws n s"
    unfolding a2_interpreter_def a2_command_def eqs ..
next
  assume "a2_interpreter env p ws n s = Some (Inr (c, s'))"
  then show "in_background s'"
    using assms unfolding a2_interpreter_def a2_command_def
    by (auto split: if_splits bind_splits dest!: simple_commands_bg handle_error_bg dest: a2_run_bg(2) a2_exec_bg(2))
qed

definition bg_agree :: "(string option list \<Rightarrow> nat \<Rightarrow> 'h a2_shell \<Rightarrow> 'h a2_result) \<Rightarrow> (string option list \<Rightarrow> nat \<Rightarrow> 'h a2_shell \<Rightarrow> 'h a2_result) \<Rightarrow> bool" where
  "bg_agree I J \<longleftrightarrow> (\<forall>ws n s. in_background s \<longrightarrow> I ws n s = J ws n s \<and> (\<forall>c s'. I ws n s = Some (Inr (c, s')) \<longrightarrow> in_background s'))"

lemma a2_parse_loop_bg:
  assumes "bg_agree I J" and "a2_parse_loop I ui ws w s = Some y" and "in_background s"
  shows "a2_parse_loop J ui ws w s = Some y"
proof -
  have "bg_agree I J \<longrightarrow> in_background s \<longrightarrow> a2_parse_loop J ui ws w s = Some y"
  proof (rule a2_parse_loop.raw_induct [where P = "\<lambda>I ui ws w s y. bg_agree I J \<longrightarrow> in_background s \<longrightarrow> a2_parse_loop J ui ws w s = Some y", OF _ assms(2)],
      intro impI, goal_cases)
    case (1 loop I ui ws w s y)
    have IJ: "J ws n s = I ws n s" "I ws n s = Some (Inr (c, s')) \<Longrightarrow> in_background s'" for ws n c s'
      using 1(3,4) by (auto simp: bg_agree_def)
    note IH = 1(1) [rule_format, OF _ 1(3)]
    show ?case
      using 1(2,4) IH IJ
      by (subst a2_parse_loop.simps)
        (auto simp: Let_def split: if_splits bind_splits sum.splits)
  qed
  then show ?thesis using assms(1,3) by blast
qed

lemma bg_agree_interpreter: "bg_agree (a2_interpreter env p) (a2_interpreter env q)"
  using a2_interpreter_bg(1) [of _ env p _ _ q] a2_interpreter_bg(2) [of _ env p] by (auto simp: bg_agree_def)

lemma option_eqI: "(\<And>y. a = Some y \<Longrightarrow> b = Some y) \<Longrightarrow> (\<And>y. b = Some y \<Longrightarrow> a = Some y) \<Longrightarrow> a = b"
  by (cases a; cases b) auto

lemma a2_parse_bg:
  assumes "in_background s"
  shows "a2_parse (Suc n) env ui s = a2_parse (Suc m) env ui s"
proof -
  have *: "a2_parse (Suc l) env ui s = Some y" if "a2_parse (Suc k) env ui s = Some y" for k l y
  proof (cases "length ui < 1000")
    case True
    show ?thesis unfolding a2_parse.simps if_P [OF True]
      by (rule a2_parse_loop_bg [OF bg_agree_interpreter that [unfolded a2_parse.simps if_P [OF True]] assms])
  qed (use that in simp)
  show ?thesis by (rule option_eqI [OF * *])
qed

text \<open>Parsers that agree in the background give the same kernel.\<close>

lemma execute_line_cong:
  assumes "\<And>l s. in_background s \<Longrightarrow> p l s = q l s"
  shows "execute_line vs fs files p = execute_line vs fs files q"
proof -
  have "run_line p l s = run_line q l s" if "in_background s" for l s
    using assms [OF that] by (simp add: run_line_def)
  then show ?thesis by (auto simp: execute_line_def fun_eq_iff Let_def intro!: Option.bind_cong)
qed

lemma execute_process_cong:
  assumes "\<And>l s. in_background s \<Longrightarrow> p l s = q l s"
  shows "execute_process vs fs files p = execute_process vs fs files q"
proof (intro ext)
  fix node k s
  show "execute_process vs fs files p node k s = execute_process vs fs files q node k s"
  proof (induction "nat k" arbitrary: k s)
    case 0
    then show ?case by (simp add: execute_process.simps)
  next
    case (Suc n)
    have "execute_process vs fs files p node (k - 1) t = execute_process vs fs files q node (k - 1) t" for t
      using Suc by simp
    moreover have "execute_line vs fs files p = execute_line vs fs files q" using assms by (rule execute_line_cong)
    ultimately show ?case by (simp add: execute_process.simps [of _ _ _ _ _ k] cong: if_cong)
  qed
qed

lemma schedule_by_policy_cong:
  assumes "\<And>l s. in_background s \<Longrightarrow> p l s = q l s"
  shows "schedule_by_policy vs fs files p = schedule_by_policy vs fs files q"
proof -
  have eq: "execute_process vs fs files p = execute_process vs fs files q" using assms by (rule execute_process_cong)
  show ?thesis
    unfolding schedule_by_policy_def scheduler_FCFS_def scheduler_SJF_def scheduler_RR_def scheduler_AGING_def aging_turn_def rr_turn_def eq ..
qed

lemma a2_interpreter_cong:
  assumes "\<And>l s. in_background s \<Longrightarrow> p l s = q l s"
  shows "a2_interpreter env p = a2_interpreter env q"
proof -
  have eq: "schedule_by_policy vs fs files p = schedule_by_policy vs fs files q" for vs fs files
    using assms by (rule schedule_by_policy_cong)
  show ?thesis unfolding a2_interpreter_def a2_command_def a2_run_def a2_exec_def eq ..
qed

subsection \<open>Properties\<close>

text \<open>
  C8. Scripts do not nest: a script that is started while another runs is only queued, so no run of the shell
  needs more than two calls of \<open>parseInput\<close> inside each other, and the parser of depth two is the parser.
\<close>

theorem scripts_do_not_nest: "a2_parse (n + 2) env ui s = a2_parse 2 env ui s"
proof -
  have "a2_interpreter env (a2_parse (Suc n) env) = a2_interpreter env (a2_parse (Suc 0) env)"
    using a2_parse_bg by (rule a2_interpreter_cong)
  then show ?thesis by (simp only: numeral_2_eq_2 add_Suc_right add_0_right a2_parse.simps)
qed

text \<open>A semicolon where a word should start.\<close>

lemma a2_parse_loop_stuck: "a2_parse_loop I (CHR '';'' # rest) ws w s = None"
proof (rule ccontr)
  assume "a2_parse_loop I (CHR '';'' # rest) ws w s \<noteq> None"
  then obtain y where y: "a2_parse_loop I (CHR '';'' # rest) ws w s = Some y" by blast
  have "CHR '';'' # rest = CHR '';'' # rest \<longrightarrow> False"
  proof (rule a2_parse_loop.raw_induct [where P = "\<lambda>I ui ws w s y. ui = CHR '';'' # rest \<longrightarrow> False", OF _ y], intro impI, goal_cases)
    case (1 loop I ui ws w s y)
    have "loop I (CHR '';'' # rest) ws w s = Some y" using 1(2) unfolding 1(3) by (simp add: a1_sep_def)
    then show ?case using 1(1) by blast
  qed
  then show False by simp
qed

lemma a2_parse_loop_word:
  assumes "is_word t" and "length t < 200" and "w < length ws"
  shows "a2_parse_loop I (t @ CHR '' '' # rest) ws w s = a2_parse_loop I rest (ws[w := Some t]) (w + 1) s"
proof -
  obtain c cs where t: "t = c # cs" using assms(1) by (cases t) (auto simp: is_word_def)
  then have c: "c \<noteq> newline" "c \<noteq> CHR '' ''" "\<not> a1_sep c" "\<forall>d \<in> set cs. \<not> a1_sep d" using assms(1) by (auto simp: is_word_def a1_sep_def)
  then have "takeWhile (\<lambda>c. \<not> a1_sep c) (t @ CHR '' '' # rest) = t" "dropWhile (\<lambda>c. \<not> a1_sep c) (t @ CHR '' '' # rest) = CHR '' '' # rest"
    using t by (simp_all add: takeWhile_append2 dropWhile_append2 a1_sep_def)
  moreover have "dropWhile (\<lambda>c. c = CHR '' '') (t @ CHR '' '' # rest) = t @ CHR '' '' # rest" using t c by simp
  ultimately show ?thesis using assms t c by (subst a2_parse_loop.simps) (simp add: Let_def)
qed

lemma join_tokens_Cons: "ts \<noteq> [] \<Longrightarrow> join_tokens (t # ts) = t @ CHR '' '' # join_tokens ts"
  by (cases ts) simp_all

lemma a2_parse_loop_semicolon:
  assumes "ts \<noteq> []" and "\<forall>t \<in> set ts. is_word t \<and> length t < 200" and "w + length ts \<le> length ws"
  shows "a2_parse_loop I (join_tokens ts @ '' ;'' @ rest) ws w s = None"
  using assms
proof (induction ts arbitrary: w ws rule: list_nonempty_induct)
  case (single t)
  then show ?case using a2_parse_loop_word [of t w ws I "CHR '';'' # rest" s] a2_parse_loop_stuck by simp
next
  case (cons t ts)
  then show ?case using a2_parse_loop_word [of t w ws I "join_tokens ts @ '' ;'' @ rest" s] by (simp add: join_tokens_Cons del: join_tokens.simps)
qed

text \<open>
  C9. A space in front of a semicolon hangs the shell: the loop of \<open>parseInput\<close> meets an empty word there and goes
  round without moving on, for every command in front of it and whatever follows, in every line that fits the buffer
  the shell reads lines into (the model has no longer lines).
\<close>

theorem semicolon_after_space_hangs:
  assumes "ts \<noteq> []" and "\<forall>t \<in> set ts. is_word t \<and> length t < 200" and "length ts \<le> 100"
  shows "a2_parse n env (join_tokens ts @ '' ;'' @ rest) s = None"
proof (cases n)
  case (Suc m)
  have "\<exists>c cs. join_tokens ts @ '' ;'' @ rest = c # cs \<and> c \<noteq> CHR '' ''"
  proof -
    obtain t us where ts: "ts = t # us" using assms(1) by (cases ts) simp_all
    then obtain c cs where "t = c # cs" "c \<noteq> CHR '' ''" using assms(2) by (cases t) (auto simp: is_word_def a1_sep_def)
    then show ?thesis using ts by simp
  qed
  then have "dropWhile (\<lambda>c. c = CHR '' '') (join_tokens ts @ '' ;'' @ rest) = join_tokens ts @ '' ;'' @ rest" by auto
  moreover have "a2_parse_loop I (join_tokens ts @ '' ;'' @ rest) (replicate 100 None) 0 s = None" for I
    by (rule a2_parse_loop_semicolon [OF assms(1,2)]) (simp add: assms(3))
  ultimately show ?thesis unfolding Suc a2_parse.simps by (simp only: if_cancel)
qed simp

theorem semicolon_after_space_hangs_witness:
  "\<forall>n (env :: unit a2_env) s. a2_parse n env (join_tokens [''set'', ''x'', ''1''] @ '' ;'' @ '' print x'') s = None"
  by (intro allI semicolon_after_space_hangs) (simp_all add: is_word_def a1_sep_def)

subsection \<open>Round robin under the interpreter of the shell\<close>

text \<open>No command that a process runs does more to the queue than to add processes at its tail.\<close>

lemma handle_error_grown: "a2_handle_error e s = Some (Inr (c, s')) \<Longrightarrow> grown s s'"
  by (auto simp: a2_handle_error_def a2_put_line_def split: if_splits bind_splits intro: grown_same)

lemma system_call_grown: "grown s (snd (system_call env c s))"
  by (auto simp: system_call_def split: prod.splits intro: grown_same)

lemma simple_commands_grown:
  "a2_set env v x s = Some (Inr (c, s')) \<Longrightarrow> grown s s'" "a2_print env v s = Some (Inr (c, s')) \<Longrightarrow> grown s s'"
  "a2_echo env v s = Some (Inr (c, s')) \<Longrightarrow> grown s s'" "a2_my_ls env s = Some (Inr (c, s')) \<Longrightarrow> grown s s'"
  "a2_my_mkdir env v s = Some (Inr (c, s')) \<Longrightarrow> grown s s'" "a2_my_touch env v s = Some (Inr (c, s')) \<Longrightarrow> grown s s'"
  "a2_my_cd env v s = Some (Inr (c, s')) \<Longrightarrow> grown s s'" "a2_resetmem env s = Some (Inr (c, s')) \<Longrightarrow> grown s s'"
  "a2_help env s = Some (Inr (c, s')) \<Longrightarrow> grown s s'" "a2_quit s = Some (Inr (c, s')) \<Longrightarrow> grown s s'"
  using system_call_grown [of s env]
  by (auto simp: a2_set_def a2_print_def a2_echo_def a2_my_ls_def a2_my_mkdir_def a2_my_touch_def a2_my_cd_def a2_resetmem_def
      a2_help_def a2_quit_def a2_put_line_def prod_eq_iff split: if_splits option.splits prod.splits bind_splits
      intro: grown_same handle_error_grown)

lemma exec_script_grown: "exec_script env f is s = Some (e, js, s') \<Longrightarrow> grown s s'"
proof -
  have "grown s (s\<lparr>a2_host := h\<rparr>)" for h by (rule grown_same) simp_all
  then show "exec_script env f is s = Some (e, js, s') \<Longrightarrow> grown s s'"
    by (auto simp: exec_script_def copy_file_back_def Let_def split: option.splits bind_splits if_splits
        intro: grown_trans dest!: process_initialize_grown)
qed

lemma drop_names_grown: "grown s (drop_names is s)"
proof (rule grown_same)
  have "map progress (fold (\<lambda>i ps. ps[i := (ps ! i)\<lparr>pcb_filename := None\<rparr>]) is ps) = map progress ps" for ps
  proof (induction "is" arbitrary: ps)
    case (Cons i "is")
    have "map progress (ps[i := (ps ! i)\<lparr>pcb_filename := None\<rparr>]) = map progress ps"
      by (cases "i < length ps") (simp_all add: map_update list_update_same_conv progress_def list_update_beyond)
    then show ?case using Cons by simp
  qed simp
  then show "map progress (rq_pcbs (drop_names is s)) = map progress (rq_pcbs s)" by (simp add: drop_names_def)
qed (simp_all add: drop_names_def)

lemma a2_run_grown:
  assumes "a2_run env p f s = Some (Inr (c, s'))" and "in_background s"
  shows "grown s s'"
proof -
  obtain e t where t: "process_initialize (varmemsize env) (framesize env) (a2_files_of env) (junk_pcb env) f s = Some (e, t)"
    and r: "(if e = 11 then a2_handle_error e t
      else do { r \<leftarrow> schedule_by_policy (varmemsize env) (framesize env) (a2_files_of env) p ''FCFS'' t; on_ok r (\<lambda>(_, s). a2_ok (e, s)) }) = a2_ok (c, s')"
    using assms(1) by (auto simp: a2_run_def split: bind_splits)
  note g = process_initialize_grown [OF t]
  have "in_background t" using g assms(2) by (simp add: grown_def)
  then have "s' = t \<or> a2_handle_error e t = Some (Inr (c, s'))" using r by (auto simp: schedule_by_policy_bg split: if_splits)
  then show ?thesis using g grown_trans handle_error_grown by blast
qed

lemma a2_exec_grown:
  assumes "a2_exec env p f1 f2 f3 s = Some (Inr (c, s'))" and "in_background s"
  shows "grown s s'"
proof -
  have fin: "grown s s'" if "grown s t" "s' = drop_names is t \<or> (\<exists>e. a2_handle_error e (drop_names is t) = Some (Inr (c, s')))" for t "is"
    using that grown_trans handle_error_grown drop_names_grown by metis
  have bg: "in_background t" if "grown s t" for t using that assms(2) by (simp add: grown_def)
  obtain e1 i1 t1 where 1: "exec_script env f1 [] s = Some (e1, i1, t1)" using assms(1) by (auto simp: a2_exec_def split: bind_splits)
  note g1 = exec_script_grown [OF 1]
  show ?thesis
  proof (cases "e1 = 0")
    case False
    then show ?thesis using assms(1) 1 fin [OF g1, of i1] by (auto simp: a2_exec_def)
  next
    case True
    then obtain e2 i2 t2 where 2: "exec_script env f2 i1 t1 = Some (e2, i2, t2)" using assms(1) 1 by (auto simp: a2_exec_def split: bind_splits)
    note g2 = grown_trans [OF g1 exec_script_grown [OF 2]]
    show ?thesis
    proof (cases "e2 = 0")
      case False
      then show ?thesis using assms(1) 1 2 True fin [OF g2, of i2] by (auto simp: a2_exec_def)
    next
      case e2: True
      then obtain e3 i3 t3 where 3: "exec_script env f3 i2 t2 = Some (e3, i3, t3)" using assms(1) 1 2 True by (auto simp: a2_exec_def split: bind_splits)
      note g3 = grown_trans [OF g2 exec_script_grown [OF 3]]
      then show ?thesis using assms(1) 1 2 3 True e2 fin [OF g3, of i3] schedule_by_policy_bg [OF bg [OF g3]] by (auto simp: a2_exec_def split: if_splits)
    qed
  qed
qed

lemma a2_interpreter_grown:
  assumes "a2_interpreter env p ws n s = Some (Inr (c, s'))" and "in_background s"
  shows "grown s s'"
  using assms unfolding a2_interpreter_def a2_command_def
  by (auto split: if_splits bind_splits dest: simple_commands_grown handle_error_grown a2_run_grown a2_exec_grown)

lemma a2_parse_loop_grown:
  assumes "\<And>ws n s c s'. I ws n s = Some (Inr (c, s')) \<Longrightarrow> in_background s \<Longrightarrow> grown s s'"
    and "a2_parse_loop I ui ws w s = Some (Inr (c, s'))" and "in_background s"
  shows "grown s s'"
proof -
  let ?good = "\<lambda>I. \<forall>ws n s c s'. I ws n s = Some (Inr (c, s')) \<longrightarrow> in_background s \<longrightarrow> grown s s'"
  have "?good I \<longrightarrow> in_background s \<longrightarrow> (\<forall>c s'. y = Inr (c, s') \<longrightarrow> grown s s')"
    if "a2_parse_loop I ui ws w s = Some y" for y
  proof (rule a2_parse_loop.raw_induct [where P = "\<lambda>I ui ws w s y. ?good I \<longrightarrow> in_background s \<longrightarrow> (\<forall>c s'. y = Inr (c, s') \<longrightarrow> grown s s')", OF _ that],
      intro impI, goal_cases)
    case (1 loop I ui ws w s y)
    have IH: "loop I ui ws w t = Some y \<Longrightarrow> y = Inr (c, s') \<Longrightarrow> grown s t \<Longrightarrow> grown s s'" for ui ws w t y c s'
    proof -
      assume l: "loop I ui ws w t = Some y" "y = Inr (c, s')" and t: "grown s t"
      have "in_background t" using t 1(4) by (simp add: grown_def)
      then have "grown t s'" using 1(1) [OF l(1)] 1(3) l(2) by blast
      then show ?thesis by (rule grown_trans [OF t])
    qed
    have I: "I ws n s = Some (Inr (c, s')) \<Longrightarrow> grown s s'" for ws n c s' using 1(3,4) by blast
    show ?case using 1(2) IH I grown_refl by (auto simp: Let_def split: if_splits bind_splits sum.splits)
  qed
  then show ?thesis using assms by blast
qed

interpretation a2_bg: background_parser "a2_parse n env" for n env
proof
  fix l s c s'
  assume "a2_parse n env l s = Some (Inr (c, s'))" "in_background s"
  then show "grown s s'"
    by (cases n) (auto split: if_splits elim: a2_parse_loop_grown [rotated] dest: a2_interpreter_grown)
qed

text \<open>
  C10. A turn of the round-robin scheduler takes the process at the head of the queue, which is not behind its last page, and
  runs it for its quantum under the interpreter of the shell. When the turn is over, the others wait as before and in their order, the processes
  that its lines have started wait behind them in the order in which they were made, and the process itself waits at the
  tail, once, unless it has gone behind its last page; then it is gone. This holds for every quantum, and also when it
  stops at a page that is not loaded, where it gets a new node.
\<close>

theorem rr_turn_rotates:
  assumes "queue_ok s (x # xs)" and "p = rq_pcb s x" "p < length (rq_pcbs s)" "\<not> finished s p"
    and "rr_turn (varmemsize env) (framesize env) (a2_files_of env) (a2_parse n env) quanta s = Some (Inr s')"
  shows "\<exists>ys. queue_ok s' ys \<and>
    processes s' ys = processes s xs @ [length (rq_pcbs s)..<length (rq_pcbs s')] @ (if finished s' p then [] else [p])"
  using a2_bg.rr_turn_ran [OF assms] by (simp add: ran_def Let_def)

text \<open>Two scripts in a store of two frames: the second needs a frame of the first.\<close>

definition a2_script_env :: "(string \<Rightarrow> string option) a2_env" where
  "a2_script_env = \<lparr>sys_system = (\<lambda>c h. (0, [], h)), sys_isdir = (\<lambda>d h. False), sys_chdir = (\<lambda>d h. (- 1, h)),
     sys_read = (\<lambda>f h. h f), sys_write = (\<lambda>f c h. Some (h(f \<mapsto> c))), varmemsize = 2, framesize = 6,
     help_text = [], junk_pcb = pcb_example, junk_int = 7\<rparr>"

definition a2_script_start :: "(string \<Rightarrow> string option) a2_shell" where
  "a2_script_start = \<lparr>rq_head = None, rq_next = (\<lambda>_. None), rq_pcb = (\<lambda>_. 0), rq_live = (\<lambda>_. False), rq_pcbs = [],
     a2_smem = [], pid_counter = 1, active = False, in_background = False, node_count = 0, a2_out = [],
     a2_host = [''p'' \<mapsto> ''echo 1'' @ [newline] @ ''echo 2'' @ [newline] @ ''echo 3'' @ [newline] @ ''echo 4'' @ [newline],
                ''q'' \<mapsto> ''set x 5'' @ [newline] @ ''print x'' @ [newline]]\<rparr>"

declare a2_parse_loop.simps [code] schedule_loop.simps [code]

text \<open>Two processes with one page each; the first runs \<open>run q\<close>, which makes a third one, and waits again.\<close>

definition a2_turn_example :: "(string \<Rightarrow> string option) a2_shell" where
  "a2_turn_example = a2_script_start\<lparr>rq_head := Some 0, rq_next := (\<lambda>_. None)(0 := Some 1), rq_pcb := id, rq_live := (\<lambda>a. a < 2),
     rq_pcbs := map (\<lambda>f. pcb_example\<lparr>pagetable := [f, - 1], lru_timer := [0, 0], current_page := 0, pages_needed := 1, PC := 3 * f - 1\<rparr>) [1, 1],
     a2_smem := replicate 5 \<lparr>var = ''f'', val = ''run q''\<rparr> @ replicate 3 \<lparr>var = ''none'', val = ''none''\<rparr>,
     pid_counter := 3, node_count := 2\<rparr>"

theorem rr_turn_rotates_witness:
  "\<exists>s' ys. rr_turn 2 6 (a2_files_of a2_script_env) (a2_parse 2 a2_script_env) 1 a2_turn_example = Some (Inr s') \<and>
     queue_ok s' ys \<and> processes s' ys = [1, 2, 0]"
proof -
  have "case rr_turn 2 6 (a2_files_of a2_script_env) (a2_parse 2 a2_script_env) 1 a2_turn_example of
      Some (Inr s') \<Rightarrow> length (rq_pcbs s') = 3 \<and> \<not> finished s' 0 | _ \<Rightarrow> False" by code_simp
  then obtain s' where s': "rr_turn 2 6 (a2_files_of a2_script_env) (a2_parse 2 a2_script_env) 1 a2_turn_example = Some (Inr s')"
      "length (rq_pcbs s') = 3" "\<not> finished s' 0"
    by (auto split: option.splits sum.splits)
  have e: "varmemsize a2_script_env = 2" "framesize a2_script_env = 6" by (simp_all add: a2_script_env_def)
  have "queue_ok a2_turn_example [0, 1]" "\<not> finished a2_turn_example 0"
    by (simp_all add: queue_ok_def rq_rep_def a2_turn_example_def a2_script_start_def finished_def)
  from rr_turn_rotates [OF this(1) refl _ _ s'(1) [folded e], unfolded e] this(2) s' show ?thesis
    by (auto simp: a2_turn_example_def a2_script_start_def processes_def upt_rec finished_def)
qed

text \<open>
  A process runs the lines of another script: in a store of two frames, \<open>exec p q\<close> loads the two pages of \<open>p\<close>, and
  the page of \<open>q\<close> takes the first frame, whose entry in the page table of \<open>p\<close> stays. The first process prints 5 from
  the script \<open>q\<close>; the lines \<open>echo 1\<close>, \<open>echo 2\<close> and \<open>echo 3\<close> of \<open>p\<close> are never run. The
  trace that the kernel prints in between is not part of the modelled output.
\<close>

lemma exec_runs_other_script:
  "map_option (map_sum id a2_out) (a2_main 2 a2_script_env [''exec p q'' @ [newline]] a2_script_start) =
     Some (Inr (concat (map (\<lambda>l. l @ [newline])
       [''Shell v2.0'', ''Frame Store Size = 6; Variable Store Size = 2'', ''5'', ''5'', ''4''])))"
  by code_simp

end
