(* ===== verification/Block_Device.thy ===== *)
theory Block_Device
  imports Prelude
begin

text \<open>
  Block devices: \<open>src/a3/fs/block.c\<close>, its IDE driver \<open>src/a3/fs/ide.c\<close> and the partition
  driver \<open>src/a3/fs/partition.c\<close>.

  A \<open>struct block *\<close> is an index into the list of registered blocks. The \<open>ops\<close> and
  \<open>aux\<close> fields of a block select the driver: the IDE driver works on the open disk image
  \<open>host\<close>, the partition driver on another block. \<open>check_sector\<close> and the other
  \<open>PANIC\<close> calls only print, so they do not change control flow. A block number that
  is not registered is a wild pointer, and the operation returns \<open>None\<close>.

  The disk image is a regular file: \<open>read\<close> copies what lies between the offset and the end of
  the file, \<open>write\<close> extends the file with zeros when the offset is past its end.

  The locale \<open>sector_device\<close> is the contract the buffer cache relies on; it is
  interpreted on \<open>block_read\<close> and \<open>block_write\<close>.
\<close>

subsection \<open>Devices\<close>

definition BLOCK_SECTOR_SIZE :: nat where
  "BLOCK_SECTOR_SIZE = 512"

datatype block_operations =
    ide_operations
  | partition_operations nat block_sector_t

record block =
  block_nm :: string
  block_fname :: string
  block_sz :: block_sector_t
  ops :: block_operations
  read_cnt :: "64 word"
  write_cnt :: "64 word"

record devices =
  host :: "byte list"
  blocks :: "block list"
  hard_drive :: "nat option"

definition block_get_hd :: "devices \<Rightarrow> nat option" where
  "block_get_hd d = hard_drive d"

definition block_set_hd :: "nat \<Rightarrow> devices \<Rightarrow> devices" where
  "block_set_hd blk d = d\<lparr>hard_drive := Some blk\<rparr>"

definition block_size :: "devices \<Rightarrow> nat \<Rightarrow> block_sector_t option" where
  "block_size d blk = map_option block_sz (arr_get (blocks d) blk)"

definition block_name :: "devices \<Rightarrow> nat \<Rightarrow> string option" where
  "block_name d blk = map_option block_nm (arr_get (blocks d) blk)"

text \<open>
  \<open>strncpy\<close> fills the 16 and 100 byte arrays; the model keeps the characters before the
  padding. The new block becomes the hard drive.
\<close>

definition block_register ::
  "string \<Rightarrow> string \<Rightarrow> block_sector_t \<Rightarrow> block_operations \<Rightarrow> devices \<Rightarrow> nat \<times> devices" where
  "block_register name fname sz drv d =
     (let blk = length (blocks d);
          b = \<lparr>block_nm = take 16 name, block_fname = take 100 fname, block_sz = sz, ops = drv,
               read_cnt = 0, write_cnt = 0\<rparr>
      in (blk, block_set_hd blk (d\<lparr>blocks := blocks d @ [b]\<rparr>)))"

subsection \<open>The IDE driver\<close>

text \<open>
  The byte offset is computed in 32 bits: \<open>sec_no * BLOCK_SECTOR_SIZE\<close> has the type of
  \<open>sec_no\<close>.
\<close>

definition ide_offset :: "block_sector_t \<Rightarrow> nat" where
  "ide_offset sec_no = unat (sec_no * 512)"

definition ide_read :: "byte list \<Rightarrow> block_sector_t \<Rightarrow> byte list \<Rightarrow> byte list" where
  "ide_read img sec_no buffer =
     (let got = take BLOCK_SECTOR_SIZE (drop (ide_offset sec_no) img)
      in got @ drop (length got) buffer)"

definition ide_write :: "byte list \<Rightarrow> block_sector_t \<Rightarrow> byte list \<Rightarrow> byte list" where
  "ide_write img sec_no buffer =
     (let ofs = ide_offset sec_no; data = take BLOCK_SECTOR_SIZE buffer
      in take ofs img @ replicate (ofs - length img) 0 @ data @ drop (ofs + length data) img)"

subsection \<open>Reading and writing sectors\<close>

definition bump_read :: "nat \<Rightarrow> devices \<Rightarrow> devices" where
  "bump_read blk d =
     d\<lparr>blocks := (blocks d)[blk := (blocks d ! blk)\<lparr>read_cnt := read_cnt (blocks d ! blk) + 1\<rparr>]\<rparr>"

definition bump_write :: "nat \<Rightarrow> devices \<Rightarrow> devices" where
  "bump_write blk d =
     d\<lparr>blocks := (blocks d)[blk := (blocks d ! blk)\<lparr>write_cnt := write_cnt (blocks d ! blk) + 1\<rparr>]\<rparr>"

text \<open>
  \<open>block_read\<close> calls the driver and then counts the access. The partition driver shifts the
  sector and reads the underlying block, which was registered before the partition, so that
  \<open>base < blk\<close> holds in every state \<open>block_register\<close> builds; a block that led
  back to itself would not return in C and yields \<open>None\<close>.
\<close>

function block_read ::
  "devices \<Rightarrow> nat \<Rightarrow> block_sector_t \<Rightarrow> byte list \<Rightarrow> (byte list \<times> devices) option" where
  "block_read d blk sector buffer =
     (case arr_get (blocks d) blk of
        None \<Rightarrow> None
      | Some b \<Rightarrow>
          (case ops b of
             ide_operations \<Rightarrow> Some (ide_read (host d) sector buffer, bump_read blk d)
           | partition_operations base start \<Rightarrow>
               if base < blk
               then (case block_read d base (start + sector + 1) buffer of
                       None \<Rightarrow> None
                     | Some (buffer', d') \<Rightarrow> Some (buffer', bump_read blk d'))
               else None))"
  by pat_completeness auto
termination
  by (relation "measure (\<lambda>(_, blk, _). blk)") auto

function block_write ::
  "devices \<Rightarrow> nat \<Rightarrow> block_sector_t \<Rightarrow> byte list \<Rightarrow> devices option" where
  "block_write d blk sector buffer =
     (case arr_get (blocks d) blk of
        None \<Rightarrow> None
      | Some b \<Rightarrow>
          (case ops b of
             ide_operations \<Rightarrow> Some (bump_write blk (d\<lparr>host := ide_write (host d) sector buffer\<rparr>))
           | partition_operations base start \<Rightarrow>
               if base < blk
               then (case block_write d base (start + sector + 1) buffer of
                       None \<Rightarrow> None
                     | Some d' \<Rightarrow> Some (bump_write blk d'))
               else None))"
  by pat_completeness auto
termination
  by (relation "measure (\<lambda>(_, blk, _). blk)") auto

declare block_read.simps [simp del] block_write.simps [simp del]

subsection \<open>Partition tables\<close>

record partition_table_entry =
  pt_type :: byte
  pt_offset :: block_sector_t
  pt_size :: block_sector_t

text \<open>The packed layout: 446 loader bytes, four entries of 16 bytes, a signature of two.\<close>

definition pt_entry :: "byte list \<Rightarrow> nat \<Rightarrow> partition_table_entry" where
  "pt_entry pt i =
     (let e = take 16 (drop (446 + 16 * i) pt)
      in \<lparr>pt_type = e ! 4, pt_offset = le_word (take 4 (drop 8 e)), pt_size = le_word (take 4 (drop 12 e))\<rparr>)"

definition pt_signature :: "byte list \<Rightarrow> 16 word" where
  "pt_signature pt = le_word (take 2 (drop 510 pt))"

definition is_extended :: "partition_table_entry \<Rightarrow> bool" where
  "is_extended e \<longleftrightarrow> pt_type e = 0x05 \<or> pt_type e = 0x0f \<or> pt_type e = 0x85 \<or> pt_type e = 0xc5"

definition found_partition ::
  "nat \<Rightarrow> block_sector_t \<Rightarrow> block_sector_t \<Rightarrow> nat \<Rightarrow> string \<Rightarrow> devices \<Rightarrow> devices option" where
  "found_partition blk start sz part_nr fname d = do {
     bsize \<leftarrow> block_size d blk;
     bname \<leftarrow> block_name d blk;
     if start \<ge> bsize then Some d
     else if start + sz < start \<or> start + sz > bsize then Some d
     else Some (snd (block_register (take 15 (bname @ dec_string part_nr)) fname sz
                       (partition_operations blk start) d))
   }"

text \<open>
  \<open>read_partition_table\<close> calls itself on extended partitions; \<open>fuel\<close> bounds the depth
  of these calls and \<open>None\<close> also stands for running out of it. \<open>pt\<close> is allocated
  without being cleared; \<open>junk\<close> is what the allocation holds. The table is read from
  sector 0 whatever \<open>sector\<close> is, as the source does. The four entries are visited by
  \<open>parse_partitions\<close>.
\<close>

function (sequential) read_partition_table ::
    "nat \<Rightarrow> byte list \<Rightarrow> nat \<Rightarrow> block_sector_t \<Rightarrow> block_sector_t \<Rightarrow> string \<Rightarrow>
     nat \<times> devices \<Rightarrow> (nat \<times> devices) option"
  and parse_partitions ::
    "nat \<Rightarrow> byte list \<Rightarrow> nat \<Rightarrow> block_sector_t \<Rightarrow> block_sector_t \<Rightarrow> string \<Rightarrow>
     partition_table_entry list \<Rightarrow> nat \<times> devices \<Rightarrow> (nat \<times> devices) option" where
  "read_partition_table 0 junk blk sector primary_extended_sector fname (part_nr, d) = None"
| "read_partition_table (Suc fuel) junk blk sector primary_extended_sector fname (part_nr, d) = do {
     bsize \<leftarrow> block_size d blk;
     if sector \<ge> bsize then Some (part_nr, d)
     else do {
       (pt, d) \<leftarrow> block_read d blk 0 junk;
       if pt_signature pt \<noteq> 0xaa55 then Some (part_nr, d)
       else parse_partitions fuel junk blk sector primary_extended_sector fname
              (map (pt_entry pt) [0..<4]) (part_nr, d)
     }
   }"
| "parse_partitions fuel junk blk sector primary_extended_sector fname [] (part_nr, d) =
     Some (part_nr, d)"
| "parse_partitions fuel junk blk sector primary_extended_sector fname (e # es) (part_nr, d) = do {
     (part_nr, d) \<leftarrow>
       (if pt_size e = 0 \<or> pt_type e = 0 then Some (part_nr, d)
        else if is_extended e
        then (if sector = 0
              then read_partition_table fuel junk blk (pt_offset e) (pt_offset e) fname (part_nr, d)
              else read_partition_table fuel junk blk (pt_offset e + primary_extended_sector)
                     primary_extended_sector fname (part_nr, d))
        else do {
          d \<leftarrow> found_partition blk (pt_offset e + sector) (pt_size e) (part_nr + 1) fname d;
          Some (part_nr + 1, d)
        });
     parse_partitions fuel junk blk sector primary_extended_sector fname es (part_nr, d)
   }"
  by pat_completeness auto
termination
  by (relation "measures [\<lambda>x. case x of Inl (fuel, _) \<Rightarrow> 2 * fuel | Inr (fuel, _) \<Rightarrow> 2 * fuel + 1,
        \<lambda>x. case x of Inl _ \<Rightarrow> 0 | Inr (_, _, _, _, _, _, es, _) \<Rightarrow> length es]") auto

definition partition_scan :: "nat \<Rightarrow> byte list \<Rightarrow> nat \<Rightarrow> string \<Rightarrow> devices \<Rightarrow> devices option" where
  "partition_scan fuel junk blk fname d =
     map_option snd (read_partition_table fuel junk blk 0 0 fname (0, d))"

text \<open>
  \<open>ide_init\<close> opens the disk image named on the command line and \<open>identify_ata_device\<close>
  registers it as \<open>hda\<close>; its capacity is the number of whole sectors, as a 32-bit number.
\<close>

definition identify_ata_device :: "nat \<Rightarrow> byte list \<Rightarrow> string \<Rightarrow> devices \<Rightarrow> devices option" where
  "identify_ata_device fuel junk fname d =
     (let capacity = of_nat (length (host d) div BLOCK_SECTOR_SIZE);
          (blk, d) = block_register ''hda'' fname capacity ide_operations d
      in partition_scan fuel junk blk fname d)"

definition ide_init :: "nat \<Rightarrow> byte list \<Rightarrow> string \<Rightarrow> byte list \<Rightarrow> devices option" where
  "ide_init fuel junk fname img =
     identify_ata_device fuel junk fname \<lparr>host = img, blocks = [], hard_drive = None\<rparr>"

subsection \<open>Where a sector lives\<close>

text \<open>
  Every driver is a translation: sector \<open>s\<close> of block \<open>blk\<close> is sector
  \<open>dev_base d blk + s\<close> of the disk image.
\<close>

function dev_base :: "devices \<Rightarrow> nat \<Rightarrow> block_sector_t option" where
  "dev_base d blk =
     (case arr_get (blocks d) blk of
        None \<Rightarrow> None
      | Some b \<Rightarrow>
          (case ops b of
             ide_operations \<Rightarrow> Some 0
           | partition_operations base start \<Rightarrow>
               if base < blk then map_option (\<lambda>k. k + start + 1) (dev_base d base) else None))"
  by pat_completeness auto
termination
  by (relation "measure snd") auto

declare dev_base.simps [simp del]

text \<open>What the accesses to a device never change.\<close>

definition dev_shape ::
  "devices \<Rightarrow> (string \<times> string \<times> block_sector_t \<times> block_operations) list \<times> nat option" where
  "dev_shape d =
     (map (\<lambda>b. (block_nm b, block_fname b, block_sz b, ops b)) (blocks d), hard_drive d)"

lemma map_bump:
  "f (g x) = f x \<Longrightarrow> x = xs ! i \<Longrightarrow> map f (xs[i := g x]) = map f xs"
  by (metis list_update_id map_update)

lemma dev_shape_bump [simp]:
  "dev_shape (bump_read blk d) = dev_shape d" "dev_shape (bump_write blk d) = dev_shape d"
  "dev_shape (d\<lparr>host := img\<rparr>) = dev_shape d"
  by (simp_all add: dev_shape_def bump_read_def bump_write_def map_bump)

lemma host_bump [simp]: "host (bump_read blk d) = host d" "host (bump_write blk d) = host d"
  by (simp_all add: bump_read_def bump_write_def)

lemma dev_shape_get:
  assumes "dev_shape d' = dev_shape d"
  shows "map_option ops (arr_get (blocks d') blk) = map_option ops (arr_get (blocks d) blk)"
    and "block_size d' blk = block_size d blk"
proof -
  have len: "length (blocks d') = length (blocks d)"
    and nth: "\<And>i. i < length (blocks d) \<Longrightarrow>
      ops (blocks d' ! i) = ops (blocks d ! i) \<and> block_sz (blocks d' ! i) = block_sz (blocks d ! i)"
    using assms unfolding dev_shape_def by (auto simp: list_eq_iff_nth_eq)
  then show "map_option ops (arr_get (blocks d') blk) = map_option ops (arr_get (blocks d) blk)"
    and "block_size d' blk = block_size d blk"
    by (simp_all add: arr_get_def block_size_def)
qed

lemma dev_base_shape: "dev_shape d' = dev_shape d \<Longrightarrow> dev_base d' blk = dev_base d blk"
proof (induction blk rule: less_induct)
  case (less blk)
  have "map_option ops (arr_get (blocks d') blk) = map_option ops (arr_get (blocks d) blk)"
    using less.prems by (rule dev_shape_get)
  then show ?case using less
    by (cases "arr_get (blocks d) blk"; cases "arr_get (blocks d') blk")
      (auto simp: dev_base.simps [of d blk] dev_base.simps [of d' blk] split: block_operations.splits)
qed

lemma block_read_base:
  "dev_base d blk = Some k \<Longrightarrow>
     \<exists>d'. block_read d blk s buf = Some (ide_read (host d) (k + s) buf, d') \<and>
       host d' = host d \<and> dev_shape d' = dev_shape d"
proof (induction blk arbitrary: k s rule: less_induct)
  case (less blk)
  then obtain b where b: "arr_get (blocks d) blk = Some b"
    by (auto simp: dev_base.simps [of d blk] split: option.splits)
  show ?case
  proof (cases "ops b")
    case ide_operations
    with b less.prems show ?thesis
      by (simp add: block_read.simps [of d blk] dev_base.simps [of d blk])
  next
    case (partition_operations base start)
    with b less.prems obtain j where j: "base < blk" "dev_base d base = Some j" "k = j + start + 1"
      by (auto simp: dev_base.simps [of d blk] split: if_splits)
    from less.IH [OF j(1,2), of "start + s + 1"] b partition_operations j
    show ?thesis by (auto simp: block_read.simps [of d blk] add_ac)
  qed
qed

lemma block_write_base:
  "dev_base d blk = Some k \<Longrightarrow>
     \<exists>d'. block_write d blk s buf = Some d' \<and>
       host d' = ide_write (host d) (k + s) buf \<and> dev_shape d' = dev_shape d"
proof (induction blk arbitrary: k s rule: less_induct)
  case (less blk)
  then obtain b where b: "arr_get (blocks d) blk = Some b"
    by (auto simp: dev_base.simps [of d blk] split: option.splits)
  show ?case
  proof (cases "ops b")
    case ide_operations
    with b less.prems show ?thesis
      by (simp add: block_write.simps [of d blk] dev_base.simps [of d blk])
  next
    case (partition_operations base start)
    with b less.prems obtain j where j: "base < blk" "dev_base d base = Some j" "k = j + start + 1"
      by (auto simp: dev_base.simps [of d blk] split: if_splits)
    from less.IH [OF j(1,2), of "start + s + 1"] b partition_operations j
    show ?thesis by (auto simp: block_write.simps [of d blk] add_ac)
  qed
qed

subsection \<open>Sectors of the image\<close>

definition img_valid :: "byte list \<Rightarrow> block_sector_t \<Rightarrow> bool" where
  "img_valid img t \<longleftrightarrow> unat t < 2 ^ 23 \<and> 512 * unat t + 512 \<le> length img"

definition img_sector :: "byte list \<Rightarrow> block_sector_t \<Rightarrow> byte list" where
  "img_sector img t = take 512 (drop (512 * unat t) img)"

lemma ide_offset_eq: "unat t < 2 ^ 23 \<Longrightarrow> ide_offset t = 512 * unat t"
  by (simp add: ide_offset_def unat_word_ariths)

lemma ide_read_valid: "img_valid img t \<Longrightarrow> length buf = 512 \<Longrightarrow> ide_read img t buf = img_sector img t"
  by (auto simp: ide_read_def img_valid_def img_sector_def ide_offset_eq BLOCK_SECTOR_SIZE_def Let_def)

lemma ide_write_valid:
  assumes "img_valid img t" and "length buf = 512"
  shows "ide_write img t buf = take (512 * unat t) img @ buf @ drop (512 * unat t + 512) img"
  using assms by (auto simp: ide_write_def img_valid_def ide_offset_eq BLOCK_SECTOR_SIZE_def Let_def)

text \<open>Replacing the bytes from \<open>a\<close> to \<open>a + n\<close> leaves every disjoint slice of the same length alone.\<close>

lemma slice_splice_other:
  assumes "b + n \<le> a \<or> a + n \<le> b" and "a + n \<le> length img" and "length buf = n"
  shows "take n (drop b (take a img @ buf @ drop (a + n) img)) = take n (drop b img)"
proof (cases "b + n \<le> a")
  case True
  with assms show ?thesis by (simp add: drop_take min_absorb1)
next
  case False
  then have "a + n \<le> b" "b - (a + n) + (a + n) = b" using assms(1) by auto
  with assms show ?thesis by (simp add: add.commute)
qed

lemma slice_splice_same:
  "a + n \<le> length img \<Longrightarrow> length buf = n \<Longrightarrow>
     take n (drop a (take a img @ buf @ drop (a + n) img)) = buf"
  by simp

lemma sector_disjoint:
  "u \<noteq> t \<Longrightarrow> 512 * unat (u :: block_sector_t) + 512 \<le> 512 * unat t \<or> 512 * unat t + 512 \<le> 512 * unat u"
  by (metis add.commute linorder_neqE_nat mult_Suc_right mult_le_mono2 Suc_leI unsigned_word_eqI)

lemma img_sector_write:
  assumes "img_valid img t" and "length buf = 512"
  shows "img_sector (ide_write img t buf) u = (if u = t then buf else img_sector img u)"
  using assms sector_disjoint [of u t] slice_splice_other [of "512 * unat u" 512 "512 * unat t" img buf]
    slice_splice_same [of "512 * unat t" 512 img buf]
  by (simp only: ide_write_valid img_sector_def img_valid_def split: if_split) blast

lemma length_ide_write:
  "img_valid img t \<Longrightarrow> length buf = 512 \<Longrightarrow> length (ide_write img t buf) = length img"
  by (auto simp: ide_write_valid img_valid_def)

lemma length_img_sector: "img_valid img t \<Longrightarrow> length (img_sector img t) = 512"
  by (auto simp: img_valid_def img_sector_def)

subsection \<open>The contract of a block device\<close>

text \<open>
  \<open>sect d s\<close> is what sector \<open>s\<close> holds. A read of a valid sector returns it and
  changes no sector; a write replaces exactly one.
\<close>

datatype disk_access = Read block_sector_t | Write block_sector_t "byte list"

text \<open>A sequence of accesses: what a disk is to do with them, and what operations \<open>rd\<close> and \<open>wr\<close> make of them.\<close>

primrec disk_spec :: "disk_access list \<Rightarrow> (block_sector_t \<Rightarrow> byte list) \<Rightarrow> byte list list \<times> (block_sector_t \<Rightarrow> byte list)" where
  "disk_spec [] c = ([], c)"
| "disk_spec (a # as) c =
     (case a of
        Read t \<Rightarrow> (c t # fst (disk_spec as c), snd (disk_spec as c))
      | Write t buf \<Rightarrow> disk_spec as (c(t := buf)))"

primrec run_accesses ::
  "('d \<Rightarrow> block_sector_t \<Rightarrow> (byte list \<times> 'd) option) \<Rightarrow> ('d \<Rightarrow> block_sector_t \<Rightarrow> byte list \<Rightarrow> 'd option) \<Rightarrow>
   disk_access list \<Rightarrow> 'd \<Rightarrow> (byte list list \<times> 'd) option" where
  "run_accesses rd wr [] d = Some ([], d)"
| "run_accesses rd wr (a # as) d =
     (case a of
        Read t \<Rightarrow> do { (buf, d) \<leftarrow> rd d t; (bufs, d) \<leftarrow> run_accesses rd wr as d; Some (buf # bufs, d) }
      | Write t buf \<Rightarrow> do { d \<leftarrow> wr d t buf; run_accesses rd wr as d })"

primrec access_ok :: "(block_sector_t \<Rightarrow> bool) \<Rightarrow> disk_access \<Rightarrow> bool" where
  "access_ok v (Read t) \<longleftrightarrow> v t"
| "access_ok v (Write t buf) \<longleftrightarrow> v t \<and> length buf = 512"

locale sector_device =
  fixes rd :: "'d \<Rightarrow> block_sector_t \<Rightarrow> byte list \<Rightarrow> (byte list \<times> 'd) option"
    and wr :: "'d \<Rightarrow> block_sector_t \<Rightarrow> byte list \<Rightarrow> 'd option"
    and sect :: "'d \<Rightarrow> block_sector_t \<Rightarrow> byte list"
    and valid :: "'d \<Rightarrow> block_sector_t \<Rightarrow> bool"
  assumes rd_law: "valid d s \<Longrightarrow> length buf = 512 \<Longrightarrow>
      \<exists>d'. rd d s buf = Some (sect d s, d') \<and> sect d' = sect d \<and> valid d' = valid d"
    and wr_law: "valid d s \<Longrightarrow> length buf = 512 \<Longrightarrow>
      \<exists>d'. wr d s buf = Some d' \<and> sect d' = (sect d)(s := buf) \<and> valid d' = valid d"
    and sect_length: "valid d s \<Longrightarrow> length (sect d s) = 512"
begin

lemma read_after_write:
  assumes "valid d s" and "valid d t" and "length data = 512" and "length buf = 512"
  shows "\<exists>d' d''. wr d s data = Some d' \<and>
           rd d' t buf = Some (if t = s then data else sect d t, d'')"
proof -
  obtain d' where d': "wr d s data = Some d'" "sect d' = (sect d)(s := data)" "valid d' = valid d"
    using wr_law [OF assms(1,3)] by blast
  then have "valid d' t" using assms(2) by simp
  from rd_law [OF this assms(4)] d' show ?thesis by auto
qed

lemma accesses:
  assumes "\<forall>a \<in> set as. access_ok (valid d) a" and "length buf = 512"
  shows "\<exists>d'. run_accesses (\<lambda>d t. rd d t buf) wr as d = Some (fst (disk_spec as (sect d)), d') \<and>
    sect d' = snd (disk_spec as (sect d)) \<and> valid d' = valid d"
  using assms(1)
proof (induction as arbitrary: d)
  case (Cons a as)
  show ?case
  proof (cases a)
    case (Read t)
    then obtain d1 where d1: "rd d t buf = Some (sect d t, d1)" "sect d1 = sect d" "valid d1 = valid d"
      using rd_law [of d t buf] Cons.prems assms(2) by auto
    then show ?thesis using Cons.IH [of d1] Cons.prems Read by auto
  next
    case (Write t b)
    then obtain d1 where d1: "wr d t b = Some d1" "sect d1 = (sect d)(t := b)" "valid d1 = valid d"
      using wr_law [of d t b] Cons.prems by auto
    have "\<forall>a \<in> set as. access_ok (valid d1) a" using Cons.prems d1(3) by simp
    from Cons.IH [OF this] d1(1,3) show ?thesis unfolding d1(2) Write by (simp add: fun_upd_def)
  qed
qed simp

end

definition dev_valid :: "nat \<Rightarrow> devices \<Rightarrow> block_sector_t \<Rightarrow> bool" where
  "dev_valid blk d s =
     (case dev_base d blk of None \<Rightarrow> False | Some k \<Rightarrow> img_valid (host d) (k + s))"

definition dev_sect :: "nat \<Rightarrow> devices \<Rightarrow> block_sector_t \<Rightarrow> byte list" where
  "dev_sect blk d s = (case dev_base d blk of None \<Rightarrow> [] | Some k \<Rightarrow> img_sector (host d) (k + s))"

interpretation dev: sector_device "\<lambda>d. block_read d blk" "\<lambda>d. block_write d blk"
    "dev_sect blk" "dev_valid blk" for blk
proof unfold_locales
  fix d s and buf :: "byte list"
  assume v: "dev_valid blk d s" and len: "length buf = 512"
  then obtain k where k: "dev_base d blk = Some k" "img_valid (host d) (k + s)"
    by (auto simp: dev_valid_def split: option.splits)
  obtain d' where d': "block_read d blk s buf = Some (ide_read (host d) (k + s) buf, d')"
      "host d' = host d" "dev_shape d' = dev_shape d"
    using block_read_base [OF k(1), of s buf] by blast
  from dev_base_shape [OF d'(3)] d' k len
  show "\<exists>d'. block_read d blk s buf = Some (dev_sect blk d s, d') \<and>
          dev_sect blk d' = dev_sect blk d \<and> dev_valid blk d' = dev_valid blk d"
    by (auto simp: dev_sect_def dev_valid_def ide_read_valid fun_eq_iff)
  obtain d'' where d'': "block_write d blk s buf = Some d''"
      "host d'' = ide_write (host d) (k + s) buf" "dev_shape d'' = dev_shape d"
    using block_write_base [OF k(1), of s buf] by blast
  from dev_base_shape [OF d''(3)] d'' k len
  show "\<exists>d'. block_write d blk s buf = Some d' \<and>
          dev_sect blk d' = (dev_sect blk d)(s := buf) \<and> dev_valid blk d' = dev_valid blk d"
    by (auto simp: dev_sect_def dev_valid_def img_sector_write length_ide_write img_valid_def fun_eq_iff)
next
  show "length (dev_sect blk d s) = 512" if "dev_valid blk d s" for d s
    using that by (auto simp: dev_sect_def dev_valid_def length_img_sector split: option.splits)
qed

subsection \<open>Scanning the partition table\<close>

lemma found_partition_registers:
  assumes "found_partition blk start sz nr fname d = Some d'" and "block_size d blk = Some bs"
  shows "d' = d \<or> (unat start + unat sz \<le> unat bs \<and> hard_drive d' = Some (length (blocks d)) \<and>
           (\<exists>b. blocks d' = blocks d @ [b] \<and> block_sz b = sz \<and> ops b = partition_operations blk start) \<and>
           host d' = host d)"
proof -
  have *: "\<not> start + sz < start \<Longrightarrow> start + sz \<le> bs \<Longrightarrow> unat start + unat sz \<le> unat bs"
    using unat_plus_simple [of start sz] by (simp add: not_less word_le_nat_alt)
  from assms show ?thesis
    by (auto simp: found_partition_def block_register_def block_set_hd_def Let_def not_less
        split: if_splits bind_splits option.splits intro!: *)
qed

lemma dev_base_append:
  "blocks d' = blocks d @ bs \<Longrightarrow> j < length (blocks d) \<Longrightarrow> dev_base d' j = dev_base d j"
proof (induction j rule: less_induct)
  case (less j)
  then have "arr_get (blocks d') j = arr_get (blocks d) j" by (simp add: nth_append)
  with less show ?case
    by (auto simp: dev_base.simps [of d' j] dev_base.simps [of d j]
        split: block_operations.splits option.splits)
qed

lemma block_size_append:
  "blocks d' = blocks d @ bs \<Longrightarrow> block_size d blk = Some n \<Longrightarrow> block_size d' blk = Some n"
  by (auto simp: block_size_def arr_get_def nth_append split: if_splits)

lemma block_size_lt: "block_size d blk = Some n \<Longrightarrow> blk < length (blocks d)"
  by (auto simp: block_size_def arr_get_def split: if_splits)

text \<open>
  A partition that ends where its device ends: its last sector passes \<open>check_sector\<close> and is
  looked up one sector past the end of the device.
\<close>

lemma partition_last_sector:
  assumes "found_partition blk start sz nr fname d = Some d'" and "d' \<noteq> d"
    and "dev_base d blk = Some 0" and "block_size d blk = Some bs" and "start + sz = bs"
  shows "\<exists>p k. hard_drive d' = Some p \<and> block_size d' p = Some sz \<and> dev_base d' p = Some k \<and> k + (sz - 1) = bs"
proof -
  let ?p = "length (blocks d)"
  obtain b where b: "hard_drive d' = Some ?p" "blocks d' = blocks d @ [b]" "block_sz b = sz"
      "ops b = partition_operations blk start"
    using found_partition_registers [OF assms(1,4)] assms(2) by blast
  have lt: "blk < ?p" using assms(4) by (rule block_size_lt)
  then have "dev_base d' blk = Some 0" using dev_base_append [OF b(2)] assms(3) by simp
  then have "dev_base d' ?p = Some (start + 1)"
    using b lt by (subst dev_base.simps) (simp add: nth_append)
  moreover have "block_size d' ?p = Some sz" using b by (simp add: block_size_def nth_append)
  ultimately show ?thesis using b(1) assms(5) by auto
qed

lemma block_read_image:
  assumes "dev_base d blk = Some 0" and "img_valid (host d) 0" and "length junk = 512"
  obtains d' where "block_read d blk 0 junk = Some (img_sector (host d) 0, d')"
    and "host d' = host d" and "dev_shape d' = dev_shape d"
  using block_read_base [OF assms(1), of 0 junk] assms(2,3) by (auto simp: ide_read_valid)

text \<open>
  The recursion on an extended partition never ends: the table at any \<open>sector\<close> is read from
  sector 0, so the same extended entry is found again.
\<close>

lemma nested_table_diverges:
  fixes img defines "e \<equiv> pt_entry (img_sector img 0) 0"
  assumes "img_valid img 0" and "length junk = 512" and "pt_signature (img_sector img 0) = 0xaa55"
    and "is_extended e" and "pt_size e \<noteq> 0" and "dev_base d blk = Some 0" and "host d = img"
    and "block_size d blk = Some bs" and "pt_offset e \<noteq> 0" and "2 * unat (pt_offset e) < unat bs"
    and "sector = pt_offset e \<or> sector = pt_offset e + pt_offset e"
  shows "read_partition_table fuel junk blk sector (pt_offset e) fname (nr, d) = None"
  using assms(7-9,12)
proof (induction fuel arbitrary: sector nr d)
  case 0
  show ?case by simp
next
  case (Suc fuel)
  have two: "unat (pt_offset e + pt_offset e) = 2 * unat (pt_offset e)"
  proof -
    have "unat bs < 2 ^ 32" using unsigned_less [of bs] by simp
    with assms(11) show ?thesis by (simp add: unat_word_ariths)
  qed
  then have sec: "sector \<noteq> 0" "sector < bs"
    using Suc.prems(4) assms(10,11) by (auto simp: word_less_nat_alt unat_eq_0 [symmetric])
  obtain d' where d': "block_read d blk 0 junk = Some (img_sector img 0, d')"
      "host d' = img" "dev_shape d' = dev_shape d"
    using block_read_image [OF Suc.prems(1)] Suc.prems(2) assms(2,3) by metis
  have "read_partition_table fuel junk blk (pt_offset e + pt_offset e) (pt_offset e) fname (nr, d') = None"
    using Suc.IH [of d'] d' Suc.prems dev_base_shape [OF d'(3)] dev_shape_get [OF d'(3)] by simp
  moreover have "map (pt_entry (img_sector img 0)) [0..<4] =
      e # map (pt_entry (img_sector img 0)) [1..<4]"
    by (simp add: e_def upt_rec)
  moreover have "pt_type e \<noteq> 0" using assms(5) by (auto simp: is_extended_def)
  ultimately show ?case
    using d' sec Suc.prems assms(4-6) by (simp add: not_le del: upt_rec_numeral upt_Suc)
qed

lemma extended_partition_diverges:
  fixes img defines "e \<equiv> pt_entry (img_sector img 0) 0"
  assumes "img_valid img 0" and "length junk = 512" and "pt_signature (img_sector img 0) = 0xaa55"
    and "is_extended e" and "pt_size e \<noteq> 0" and "dev_base d blk = Some 0" and "host d = img"
    and "block_size d blk = Some bs" and "pt_offset e \<noteq> 0" and "2 * unat (pt_offset e) < unat bs"
  shows "partition_scan fuel junk blk fname d = None"
proof (cases fuel)
  case 0
  then show ?thesis by (simp add: partition_scan_def)
next
  case (Suc n)
  obtain d' where d': "block_read d blk 0 junk = Some (img_sector img 0, d')"
      "host d' = img" "dev_shape d' = dev_shape d"
    using block_read_image [OF assms(7)] assms(2,3,8) by metis
  have "read_partition_table n junk blk (pt_offset e) (pt_offset e) fname (0, d') = None"
    unfolding e_def
    by (rule nested_table_diverges [where bs = bs])
      (use assms d' dev_base_shape [OF d'(3)] dev_shape_get [OF d'(3)] in \<open>simp_all add: e_def\<close>)
  moreover have "map (pt_entry (img_sector img 0)) [0..<4] =
      e # map (pt_entry (img_sector img 0)) [1..<4]"
    by (simp add: e_def upt_rec)
  moreover have "pt_type e \<noteq> 0" "0 < bs"
    using assms(5,11) by (auto simp: is_extended_def word_less_nat_alt)
  ultimately show ?thesis
    using d' assms Suc by (simp add: partition_scan_def not_le del: upt_rec_numeral upt_Suc)
qed

text \<open>
  A table without extended partitions is scanned to its end, and afterwards the hard drive is a
  block whose sectors can be located.
\<close>

definition devices_inv :: "devices \<Rightarrow> bool" where
  "devices_inv d \<longleftrightarrow> (\<forall>i < length (blocks d). dev_base d i \<noteq> None) \<and>
     (\<exists>p < length (blocks d). hard_drive d = Some p)"

lemma devices_inv_register:
  assumes "\<forall>i < length (blocks d). dev_base d i \<noteq> None"
    and "drv = ide_operations \<or> (\<exists>blk start. drv = partition_operations blk start \<and> blk < length (blocks d))"
  shows "devices_inv (snd (block_register name fname sz drv d))"
proof -
  let ?d = "snd (block_register name fname sz drv d)"
  obtain b where b: "blocks ?d = blocks d @ [b]" "ops b = drv"
    by (auto simp: block_register_def block_set_hd_def Let_def)
  have new: "dev_base ?d (length (blocks d)) \<noteq> None"
    using assms b dev_base_append [OF b(1)]
    by (subst dev_base.simps) (auto simp: nth_append split: block_operations.splits)
  have "dev_base ?d i \<noteq> None" if "i < length (blocks ?d)" for i
    using that new dev_base_append [OF b(1)] assms(1) b(1) by (cases "i = length (blocks d)") auto
  then show ?thesis
    using b(1) by (auto simp: devices_inv_def block_register_def block_set_hd_def Let_def)
qed

lemma found_partition_inv:
  assumes "devices_inv d" and "block_size d blk = Some bs"
  shows "\<exists>d'. found_partition blk start sz nr fname d = Some d' \<and> devices_inv d' \<and>
           host d' = host d \<and> block_size d' blk = Some bs"
proof -
  have lt: "blk < length (blocks d)" using assms(2) by (rule block_size_lt)
  then obtain bn where "block_name d blk = Some bn" by (simp add: block_name_def)
  then obtain d' where d': "found_partition blk start sz nr fname d = Some d'"
    and or: "d' = d \<or> (\<exists>n f. d' = snd (block_register n f sz (partition_operations blk start) d))"
    using assms(2)
    by (cases "bs \<le> start \<or> start + sz < start \<or> bs < start + sz") (auto simp: found_partition_def)
  have "devices_inv (snd (block_register n f sz (partition_operations blk start) d))" for n f
    using assms(1) lt by (intro devices_inv_register) (simp_all add: devices_inv_def)
  then have "devices_inv d'" using or assms(1) by auto
  moreover have "host d' = host d \<and> block_size d' blk = Some bs"
    using found_partition_registers [OF d' assms(2)] assms(2) block_size_append by blast
  ultimately show ?thesis using d' by blast
qed

lemma parse_partitions_total:
  assumes "\<And>e. e \<in> set es \<Longrightarrow> pt_size e = 0 \<or> pt_type e = 0 \<or> \<not> is_extended e"
    and "devices_inv d" and "block_size d blk = Some bs"
  shows "\<exists>nr' d'. parse_partitions fuel junk blk sector pes fname es (nr, d) = Some (nr', d') \<and>
           devices_inv d' \<and> host d' = host d"
  using assms
proof (induction es arbitrary: nr d)
  case Nil
  then show ?case by simp
next
  case (Cons e es)
  show ?case
  proof (cases "pt_size e = 0 \<or> pt_type e = 0")
    case True
    with Cons show ?thesis by simp
  next
    case False
    then have "\<not> is_extended e" using Cons.prems(1) by auto
    moreover obtain d1 where d1: "found_partition blk (pt_offset e + sector) (pt_size e) (nr + 1) fname d = Some d1"
        "devices_inv d1" "host d1 = host d" "block_size d1 blk = Some bs"
      using found_partition_inv [OF Cons.prems(2,3)] by blast
    moreover have "\<exists>nr' d'. parse_partitions fuel junk blk sector pes fname es (nr + 1, d1) = Some (nr', d') \<and>
        devices_inv d' \<and> host d' = host d1"
      using Cons.prems(1) d1 by (intro Cons.IH) auto
    ultimately show ?thesis using False by auto
  qed
qed

lemma devices_inv_shape:
  assumes "dev_shape d' = dev_shape d" and "devices_inv d" shows "devices_inv d'"
proof -
  have "length (blocks d') = length (blocks d)" "hard_drive d' = hard_drive d"
    using assms(1) by (auto simp: dev_shape_def dest: map_eq_imp_length_eq)
  then show ?thesis using assms(2) by (simp add: devices_inv_def dev_base_shape [OF assms(1)])
qed

lemma ide_init_total:
  assumes "\<And>i. i < 4 \<Longrightarrow> \<not> is_extended (pt_entry (img_sector img 0) i)" and "length junk = 512"
  shows "\<exists>d. ide_init (Suc fuel) junk fname img = Some d \<and> devices_inv d \<and> host d = img"
proof -
  let ?start = "\<lparr>host = img, blocks = [], hard_drive = None\<rparr>"
  let ?cap = "of_nat (length img div 512) :: block_sector_t"
  let ?d = "snd (block_register ''hda'' fname ?cap ide_operations ?start)"
  have inv: "devices_inv ?d" by (rule devices_inv_register) simp_all
  have base: "dev_base ?d 0 = Some 0"
    by (simp add: block_register_def block_set_hd_def Let_def dev_base.simps [of _ 0])
  have hst: "host ?d = img"
    by (simp add: block_register_def block_set_hd_def Let_def)
  have sz: "block_size ?d 0 = Some ?cap"
    by (simp add: block_register_def block_set_hd_def Let_def block_size_def)
  have id0: "fst (block_register ''hda'' fname ?cap ide_operations ?start) = 0"
    by (simp add: block_register_def)
  have "\<exists>nr d. read_partition_table (Suc fuel) junk 0 0 0 fname (0, ?d) = Some (nr, d) \<and>
          devices_inv d \<and> host d = img"
  proof (cases "?cap \<le> 0")
    case True
    with sz inv hst show ?thesis by simp
  next
    case False
    then have "length img div 512 \<noteq> 0" by (auto intro: Nat.gr0I)
    then have "img_valid (host ?d) 0" by (simp add: img_valid_def hst div_eq_0_iff)
    then obtain d1 where d1: "block_read ?d 0 0 junk = Some (img_sector img 0, d1)"
        "host d1 = img" "dev_shape d1 = dev_shape ?d"
      using block_read_image [OF base _ assms(2)] hst by metis
    have inv1: "devices_inv d1" using d1(3) inv by (rule devices_inv_shape)
    have sz1: "block_size d1 0 = Some ?cap" using dev_shape_get(2) [OF d1(3)] sz by simp
    have "\<exists>nr d. parse_partitions fuel junk 0 0 0 fname (map (pt_entry (img_sector img 0)) [0..<4]) (0, d1) =
        Some (nr, d) \<and> devices_inv d \<and> host d = host d1"
      by (rule parse_partitions_total [OF _ inv1 sz1])
        (use assms(1) in \<open>auto simp del: upt_rec_numeral upt_Suc\<close>)
    with d1 sz False inv1 show ?thesis
      by (cases "pt_signature (img_sector img 0) = 0xaa55") (auto simp del: upt_rec_numeral upt_Suc)
  qed
  then show ?thesis
    using id0 by (auto simp: ide_init_def identify_ata_device_def partition_scan_def Let_def
        BLOCK_SECTOR_SIZE_def split_beta simp del: read_partition_table.simps)
qed

subsection \<open>Properties\<close>

text \<open>
  C38. A block device keeps what is written to it: after writing a sector, a read of any valid sector,
  through a partition or on the whole disk, returns the data just written for that sector and the
  old contents for every other.
\<close>

theorem block_write_then_read:
  assumes "dev_valid blk d s" and "dev_valid blk d t" and "length data = 512" and "length buf = 512"
  shows "\<exists>d' d''. block_write d blk s data = Some d' \<and>
    block_read d' blk t buf = Some (if t = s then data else dev_sect blk d t, d'')"
  using assms by (rule dev.read_after_write)

theorem block_write_then_read_witness:
  "\<exists>d' d''. block_write (snd (block_register ''hda'' ''x.dsk'' 2 ide_operations
        \<lparr>host = replicate 1024 7, blocks = [], hard_drive = None\<rparr>)) 0 1 (replicate 512 9) = Some d' \<and>
     block_read d' 0 1 (replicate 512 0) = Some (replicate 512 9, d'')"
proof -
  let ?d = "snd (block_register ''hda'' ''x.dsk'' 2 ide_operations
        \<lparr>host = replicate 1024 7, blocks = [], hard_drive = None\<rparr>)"
  have "dev_valid 0 ?d 1"
    by (simp add: dev_valid_def dev_base.simps [of _ 0] block_register_def block_set_hd_def Let_def img_valid_def)
  from block_write_then_read [OF this this, of "replicate 512 9" "replicate 512 0"]
  show ?thesis by simp
qed

text \<open>
  Starting up on a disk image whose partition table has no extended partition always returns,
  leaves the image as it is, and registers a hard drive all of whose sectors can be located.
\<close>

theorem ide_init_ready:
  assumes "\<And>i. i < 4 \<Longrightarrow> \<not> is_extended (pt_entry (img_sector img 0) i)" and "length junk = 512"
  shows "\<exists>d p k. ide_init (Suc fuel) junk fname img = Some d \<and> host d = img \<and>
    block_get_hd d = Some p \<and> dev_base d p = Some k"
  using ide_init_total [OF assms, of fuel fname]
  by (fastforce simp: devices_inv_def block_get_hd_def)

theorem ide_init_ready_witness:
  "\<exists>d p k. ide_init 1 (replicate 512 0) ''x.dsk'' (replicate 1024 0) = Some d \<and>
     block_get_hd d = Some p \<and> dev_base d p = Some k"
proof -
  have "pt_type (pt_entry (img_sector (replicate 1024 0) 0) i) = 0" if "i < 4" for i
    using that by (simp add: pt_entry_def img_sector_def Let_def min_def)
  then have "\<not> is_extended (pt_entry (img_sector (replicate 1024 0) 0) i)" if "i < 4" for i
    using that by (simp add: is_extended_def)
  from ide_init_ready [OF this, of "replicate 512 0" 0 "''x.dsk''"] show ?thesis by auto
qed

text \<open>
  C39. The scan of a disk whose first partition table entry is an extended partition (at a nonzero
  offset below half the disk) never returns, whatever the depth of calls allowed: every nested
  table is read from sector 0 again, not from the sector of the nested table.
\<close>

theorem partition_scan_extended_diverges:
  assumes "img_valid img 0" and "length junk = 512" and "pt_signature (img_sector img 0) = 0xaa55"
    and "is_extended (pt_entry (img_sector img 0) 0)" and "pt_size (pt_entry (img_sector img 0) 0) \<noteq> 0"
    and "dev_base d blk = Some 0" and "host d = img" and "block_size d blk = Some bs"
    and "pt_offset (pt_entry (img_sector img 0) 0) \<noteq> 0"
    and "2 * unat (pt_offset (pt_entry (img_sector img 0) 0)) < unat bs"
  shows "partition_scan fuel junk blk fname d = None"
  using assms by (rule extended_partition_diverges)

definition mbr_with_extended :: "byte list" where
  "mbr_with_extended =
     replicate 446 0 @ [0, 0, 0, 0, 5, 0, 0, 0, 1, 0, 0, 0, 1, 0, 0, 0] @ replicate 48 0 @ [0x55, 0xaa] @ replicate 1024 0"

theorem partition_scan_extended_diverges_witness:
  "\<forall>fuel. partition_scan fuel (replicate 512 0) 0 ''x.dsk''
     (snd (block_register ''hda'' ''x.dsk'' 3 ide_operations
        \<lparr>host = mbr_with_extended, blocks = [], hard_drive = None\<rparr>)) = None"
proof
  fix fuel
  let ?d = "snd (block_register ''hda'' ''x.dsk'' 3 ide_operations
        \<lparr>host = mbr_with_extended, blocks = [], hard_drive = None\<rparr>)"
  let ?sec = "img_sector mbr_with_extended 0"
  have len: "length mbr_with_extended = 1536" by (simp add: mbr_with_extended_def)
  have sec: "?sec = replicate 446 0 @ [0, 0, 0, 0, 5, 0, 0, 0, 1, 0, 0, 0, 1, 0, 0, 0] @ replicate 48 0 @ [0x55, 0xaa]"
    by (simp add: img_sector_def mbr_with_extended_def)
  have e: "pt_entry ?sec 0 = \<lparr>pt_type = 5, pt_offset = 1, pt_size = 1\<rparr>"
    unfolding sec by (simp add: pt_entry_def Let_def)
  have sig: "pt_signature ?sec = 0xaa55"
    unfolding sec by (simp add: pt_signature_def)
  show "partition_scan fuel (replicate 512 0) 0 ''x.dsk'' ?d = None"
    by (rule partition_scan_extended_diverges [where img = mbr_with_extended and bs = 3])
      (use e sig len in \<open>simp_all add: img_valid_def is_extended_def block_size_def block_register_def
        block_set_hd_def Let_def dev_base.simps [of _ 0]\<close>)
qed

text \<open>
  A partition that \<open>found_partition\<close> accepts and that ends where its disk ends is addressed one
  sector too far: its last sector, which \<open>check_sector\<close> accepts, is the first sector past the disk.
\<close>

theorem partition_last_sector_past_end:
  assumes "found_partition blk start sz nr fname d = Some d'" and "d' \<noteq> d"
    and "dev_base d blk = Some 0" and "block_size d blk = Some bs" and "start + sz = bs"
  shows "\<exists>p k. block_get_hd d' = Some p \<and> block_size d' p = Some sz \<and> dev_base d' p = Some k \<and> k + (sz - 1) = bs"
  using partition_last_sector [OF assms] by (simp add: block_get_hd_def)

theorem partition_last_sector_past_end_witness:
  "\<exists>d' p k. found_partition 0 1 2 1 ''x.dsk'' (snd (block_register ''hda'' ''x.dsk'' 3 ide_operations
       \<lparr>host = replicate 1536 0, blocks = [], hard_drive = None\<rparr>)) = Some d' \<and>
     block_get_hd d' = Some p \<and> block_size d' p = Some 2 \<and> dev_base d' p = Some k \<and> k + (2 - 1) = 3"
proof -
  let ?d = "snd (block_register ''hda'' ''x.dsk'' 3 ide_operations
       \<lparr>host = replicate 1536 0, blocks = [], hard_drive = None\<rparr>)"
  let ?d' = "snd (block_register (take 15 (''hda'' @ dec_string 1)) ''x.dsk'' 2 (partition_operations 0 1) ?d)"
  have f: "found_partition 0 1 2 1 ''x.dsk'' ?d = Some ?d'" and ne: "?d' \<noteq> ?d"
    by (simp_all add: found_partition_def block_size_def block_name_def block_register_def block_set_hd_def Let_def
        word_le_nat_alt)
  have "dev_base ?d 0 = Some 0" "block_size ?d 0 = Some 3"
    by (simp_all add: block_size_def block_register_def block_set_hd_def Let_def dev_base.simps [of _ 0])
  from partition_last_sector_past_end [OF f ne this] f show ?thesis by auto
qed

end
