(* ===== verification/Buffer_Cache.thy ===== *)
theory Buffer_Cache
  imports Block_Device
begin

text \<open>
  The buffer cache of \<open>src/a3/fs/cache.c\<close>: 64 entries in front of the file system device, with
  write-back and clock (second chance) replacement.

  The state is the static array \<open>cache\<close>, the static variable \<open>clock\<close> of
  \<open>buffer_cache_evict\<close>, and the device behind it. A pointer to an entry is its index. The
  record is extensible, so that the layers above add their own fields and the operations here
  apply to their states as they are.

  The main result is that the cache is transparent: it satisfies the very contract of a block
  device (\<open>sector_device\<close>), for the sector contents \<open>bc_sect\<close> that combine
  the cached and the stored data.
\<close>

subsection \<open>State\<close>

definition BUFFER_CACHE_SIZE :: nat where
  "BUFFER_CACHE_SIZE = 64"

record buffer_cache_entry_t =
  occupied :: bool
  disk_sector :: block_sector_t
  buffer :: "byte list"
  dirty :: bool
  access :: bool

record bc_state =
  cache :: "buffer_cache_entry_t list"
  clock :: nat
  devs :: devices
  fs_device :: nat

text \<open>Static storage starts out zeroed.\<close>

definition cache_entry0 :: buffer_cache_entry_t where
  "cache_entry0 =
     \<lparr>occupied = False, disk_sector = 0, buffer = replicate 512 0, dirty = False, access = False\<rparr>"

definition set_entry :: "nat \<Rightarrow> buffer_cache_entry_t \<Rightarrow> 'z bc_state_scheme \<Rightarrow> 'z bc_state_scheme" where
  "set_entry i e s = s\<lparr>cache := (cache s)[i := e]\<rparr>"

subsection \<open>Operations\<close>

definition buffer_cache_init :: "'z bc_state_scheme \<Rightarrow> 'z bc_state_scheme" where
  "buffer_cache_init s = s\<lparr>cache := map (\<lambda>e. e\<lparr>occupied := False, dirty := False\<rparr>) (cache s)\<rparr>"

definition buffer_cache_flush :: "nat \<Rightarrow> 'z bc_state_scheme \<Rightarrow> 'z bc_state_scheme option" where
  "buffer_cache_flush i s = do {
     e \<leftarrow> arr_get (cache s) i;
     if dirty e then do {
       dv \<leftarrow> block_write (devs s) (fs_device s) (disk_sector e) (buffer e);
       Some (set_entry i (e\<lparr>dirty := False\<rparr>) (s\<lparr>devs := dv\<rparr>))
     }
     else Some s
   }"

definition buffer_cache_close :: "'z bc_state_scheme \<Rightarrow> 'z bc_state_scheme option" where
  "buffer_cache_close s =
     for_range 0 BUFFER_CACHE_SIZE
       (\<lambda>i s. do {
          e \<leftarrow> arr_get (cache s) i;
          if \<not> occupied e then Some s else buffer_cache_flush i s
        }) s"

definition buffer_cache_lookup :: "block_sector_t \<Rightarrow> 'z bc_state_scheme \<Rightarrow> nat option option" where
  "buffer_cache_lookup sector s =
     first_range 0 BUFFER_CACHE_SIZE
       (\<lambda>i. do { e \<leftarrow> arr_get (cache s) i; Some (occupied e \<and> disk_sector e = sector) })"

text \<open>
  The \<open>while (true)\<close> loop of the clock algorithm. It leaves the hand on the slot to use:
  an empty one, or one whose reference bit is clear. Every further round clears a reference bit.
\<close>

definition ref_bits :: "buffer_cache_entry_t list \<Rightarrow> nat" where
  "ref_bits es = length (filter access es)"

lemma ref_bits_clear:
  "i < length es \<Longrightarrow> access (es ! i) \<Longrightarrow> ref_bits (es[i := (es ! i)\<lparr>access := False\<rparr>]) < ref_bits es"
proof (induction es arbitrary: i)
  case Nil
  then show ?case by simp
next
  case (Cons e es)
  then show ?case by (cases i) (simp_all add: ref_bits_def)
qed

function clock_loop :: "'z bc_state_scheme \<Rightarrow> 'z bc_state_scheme option" where
  "clock_loop s =
     (case arr_get (cache s) (clock s) of
        None \<Rightarrow> None
      | Some e \<Rightarrow>
          if \<not> occupied e then Some s
          else if access e
          then clock_loop (set_entry (clock s) (e\<lparr>access := False\<rparr>) s
                 \<lparr>clock := (clock s + 1) mod BUFFER_CACHE_SIZE\<rparr>)
          else Some s)"
  by pat_completeness auto
termination
  by (relation "measure (\<lambda>s. ref_bits (cache s))")
    (auto simp: arr_get_eq_Some set_entry_def intro: ref_bits_clear)

declare clock_loop.simps [simp del]

definition buffer_cache_evict :: "'z bc_state_scheme \<Rightarrow> (nat \<times> 'z bc_state_scheme) option" where
  "buffer_cache_evict s = do {
     s \<leftarrow> clock_loop s;
     let slot = clock s;
     e \<leftarrow> arr_get (cache s) slot;
     if \<not> occupied e then Some (slot, s)
     else do {
       s \<leftarrow> (if dirty e then buffer_cache_flush slot s else Some s);
       e \<leftarrow> arr_get (cache s) slot;
       Some (slot, set_entry slot (e\<lparr>occupied := False\<rparr>) s)
     }
   }"

text \<open>The miss path, which \<open>buffer_cache_read\<close> and \<open>buffer_cache_write\<close> both contain.\<close>

definition buffer_cache_slot :: "block_sector_t \<Rightarrow> 'z bc_state_scheme \<Rightarrow> (nat \<times> 'z bc_state_scheme) option" where
  "buffer_cache_slot sector s = do {
     hit \<leftarrow> buffer_cache_lookup sector s;
     (case hit of
        Some slot \<Rightarrow> Some (slot, s)
      | None \<Rightarrow> do {
          (slot, s) \<leftarrow> buffer_cache_evict s;
          e \<leftarrow> arr_get (cache s) slot;
          (data, dv) \<leftarrow> block_read (devs s) (fs_device s) sector (buffer e);
          Some (slot, set_entry slot
                  (e\<lparr>occupied := True, disk_sector := sector, dirty := False, buffer := data\<rparr>)
                  (s\<lparr>devs := dv\<rparr>))
        })
   }"

definition buffer_cache_read ::
  "block_sector_t \<Rightarrow> 'z bc_state_scheme \<Rightarrow> (byte list \<times> 'z bc_state_scheme) option" where
  "buffer_cache_read sector s = do {
     (slot, s) \<leftarrow> buffer_cache_slot sector s;
     e \<leftarrow> arr_get (cache s) slot;
     Some (take BLOCK_SECTOR_SIZE (buffer e), set_entry slot (e\<lparr>access := True\<rparr>) s)
   }"

definition buffer_cache_write ::
  "block_sector_t \<Rightarrow> byte list \<Rightarrow> 'z bc_state_scheme \<Rightarrow> 'z bc_state_scheme option" where
  "buffer_cache_write sector source s = do {
     (slot, s) \<leftarrow> buffer_cache_slot sector s;
     e \<leftarrow> arr_get (cache s) slot;
     if length source < BLOCK_SECTOR_SIZE then None
     else Some (set_entry slot
            (e\<lparr>access := True, dirty := True, buffer := take BLOCK_SECTOR_SIZE source\<rparr>) s)
   }"

subsection \<open>What the cache leaves alone\<close>

text \<open>No operation of the cache, in any state, touches what the file system keeps besides the cache.\<close>

lemma set_entry_more [simp]: "bc_state.more (set_entry i e s) = bc_state.more s"
  by (simp add: set_entry_def)

lemma buffer_cache_flush_more: "buffer_cache_flush i s = Some s' \<Longrightarrow> bc_state.more s' = bc_state.more s"
  by (auto simp: buffer_cache_flush_def split: bind_splits if_splits)

lemma clock_loop_more: "clock_loop s = Some s' \<Longrightarrow> bc_state.more s' = bc_state.more s"
proof (induction s arbitrary: s' rule: clock_loop.induct)
  case (1 s)
  show ?case
    using 1(2) by (subst (asm) clock_loop.simps) (auto split: option.splits if_splits dest!: 1(1))
qed

lemma buffer_cache_evict_more: "buffer_cache_evict s = Some (i, s') \<Longrightarrow> bc_state.more s' = bc_state.more s"
  by (auto simp: buffer_cache_evict_def Let_def split: bind_splits if_splits
      dest!: clock_loop_more buffer_cache_flush_more)

lemma buffer_cache_slot_more: "buffer_cache_slot t s = Some (i, s') \<Longrightarrow> bc_state.more s' = bc_state.more s"
  by (auto simp: buffer_cache_slot_def split: bind_splits option.splits dest!: buffer_cache_evict_more)

lemma buffer_cache_read_more: "buffer_cache_read t s = Some (b, s') \<Longrightarrow> bc_state.more s' = bc_state.more s"
  by (auto simp: buffer_cache_read_def split: bind_splits dest!: buffer_cache_slot_more)

lemma buffer_cache_write_more: "buffer_cache_write t b s = Some s' \<Longrightarrow> bc_state.more s' = bc_state.more s"
  by (auto simp: buffer_cache_write_def split: bind_splits if_splits dest!: buffer_cache_slot_more)

subsection \<open>The contents the cache presents\<close>

text \<open>Entry \<open>i\<close> caches sector \<open>t\<close>.\<close>

definition holds :: "buffer_cache_entry_t list \<Rightarrow> nat \<Rightarrow> block_sector_t \<Rightarrow> bool" where
  "holds es i t \<longleftrightarrow> i < length es \<and> occupied (es ! i) \<and> disk_sector (es ! i) = t"

definition view :: "buffer_cache_entry_t list \<Rightarrow> (block_sector_t \<Rightarrow> byte list) \<Rightarrow> block_sector_t \<Rightarrow> byte list" where
  "view es dv t =
     (case find (\<lambda>i. holds es i t) [0..<length es] of Some i \<Rightarrow> buffer (es ! i) | None \<Rightarrow> dv t)"

definition uniq :: "buffer_cache_entry_t list \<Rightarrow> bool" where
  "uniq es \<longleftrightarrow> (\<forall>i j t. holds es i t \<longrightarrow> holds es j t \<longrightarrow> i = j)"

definition bc_dev :: "'z bc_state_scheme \<Rightarrow> block_sector_t \<Rightarrow> byte list" where
  "bc_dev s = dev_sect (fs_device s) (devs s)"

definition bc_dev_valid :: "'z bc_state_scheme \<Rightarrow> block_sector_t \<Rightarrow> bool" where
  "bc_dev_valid s = dev_valid (fs_device s) (devs s)"

definition bc_sect :: "'z bc_state_scheme \<Rightarrow> block_sector_t \<Rightarrow> byte list" where
  "bc_sect s = view (cache s) (bc_dev s)"

text \<open>The invariant of one entry: full buffer, valid sector, and in agreement with the device when clean.\<close>

definition entry_ok :: "(block_sector_t \<Rightarrow> bool) \<Rightarrow> (block_sector_t \<Rightarrow> byte list) \<Rightarrow> buffer_cache_entry_t \<Rightarrow> bool" where
  "entry_ok vld dv e \<longleftrightarrow> length (buffer e) = 512 \<and>
     (occupied e \<longrightarrow> vld (disk_sector e) \<and> (\<not> dirty e \<longrightarrow> buffer e = dv (disk_sector e)))"

definition bc_inv :: "'z bc_state_scheme \<Rightarrow> bool" where
  "bc_inv s \<longleftrightarrow> length (cache s) = 64 \<and> clock s < 64 \<and> uniq (cache s) \<and>
     (\<forall>e \<in> set (cache s). entry_ok (bc_dev_valid s) (bc_dev s) e)"

definition bc_valid :: "'z bc_state_scheme \<Rightarrow> block_sector_t \<Rightarrow> bool" where
  "bc_valid s t \<longleftrightarrow> bc_inv s \<and> bc_dev_valid s t"

lemma view_hit: "uniq es \<Longrightarrow> holds es i t \<Longrightarrow> view es dv t = buffer (es ! i)"
  by (auto simp: view_def uniq_def find_upt_Some find_upt_None holds_def split: option.splits)

lemma view_miss: "(\<And>i. \<not> holds es i t) \<Longrightarrow> view es dv t = dv t"
  by (auto simp: view_def find_upt_Some split: option.splits)

lemma holds_upd:
  "i < length es \<Longrightarrow>
     holds (es[i := e]) j t \<longleftrightarrow> (if j = i then occupied e \<and> disk_sector e = t else holds es j t)"
  by (auto simp: holds_def nth_list_update)

lemma uniqD: "uniq es \<Longrightarrow> holds es i t \<Longrightarrow> holds es j t \<Longrightarrow> i = j"
  by (auto simp: uniq_def)

lemma uniq_upd:
  assumes "uniq es" and "i < length es"
    and "\<And>j. occupied e \<Longrightarrow> j \<noteq> i \<Longrightarrow> \<not> holds es j (disk_sector e)"
  shows "uniq (es[i := e])"
  unfolding uniq_def
proof (intro allI impI)
  fix j k t assume "holds (es[i := e]) j t" and "holds (es[i := e]) k t"
  then show "j = k" using assms uniqD [OF assms(1), of j t k]
    by (auto simp: holds_upd split: if_splits)
qed

text \<open>Replacing one entry changes the view in at most two places.\<close>

lemma view_upd:
  assumes "uniq es" and "uniq (es[i := e])" and "i < length es"
  shows "view (es[i := e]) dv t =
    (if occupied e \<and> disk_sector e = t then buffer e
     else if holds es i t then dv t else view es dv t)"
proof -
  note h = holds_upd [OF assms(3), of e]
  consider (new) "occupied e \<and> disk_sector e = t"
    | (old) "\<not> (occupied e \<and> disk_sector e = t)" "holds es i t"
    | (none) "\<not> (occupied e \<and> disk_sector e = t)" "\<not> holds es i t"
    by blast
  then show ?thesis
  proof cases
    case new
    then have "holds (es[i := e]) i t" by (simp add: h)
    from view_hit [OF assms(2) this] new assms(3) show ?thesis by simp
  next
    case old
    then have "\<not> holds (es[i := e]) j t" for j
      using uniqD [OF assms(1) old(2), of j] by (auto simp: h)
    then show ?thesis using old by (auto simp: view_miss)
  next
    case none
    then have same: "holds (es[i := e]) j t = holds es j t" for j by (simp add: h)
    show ?thesis
    proof (cases "\<exists>j. holds es j t")
      case True
      then obtain j where j: "holds es j t" by blast
      with none have "j \<noteq> i" by auto
      then show ?thesis
        using none j view_hit [OF assms(2), of j t] view_hit [OF assms(1), of j t] by (auto simp: same)
    next
      case False
      then show ?thesis using none by (auto simp: view_miss same)
    qed
  qed
qed

lemma view_dev_hidden: "uniq es \<Longrightarrow> holds es i t \<Longrightarrow> view es (dv(t := b)) = view es dv"
proof
  fix u assume *: "uniq es" "holds es i t"
  show "view es (dv(t := b)) u = view es dv u"
  proof (cases "\<exists>j. holds es j u")
    case True
    then show ?thesis using view_hit [OF *(1)] by metis
  next
    case False
    then have "u \<noteq> t" using * by blast
    with False show ?thesis by (simp add: view_miss)
  qed
qed

lemma view_clean:
  assumes "uniq es" and "\<And>e. e \<in> set es \<Longrightarrow> entry_ok vld dv e"
    and "\<And>e. e \<in> set es \<Longrightarrow> occupied e \<Longrightarrow> \<not> dirty e"
  shows "view es dv = dv"
proof
  fix t show "view es dv t = dv t"
  proof (cases "\<exists>j. holds es j t")
    case True
    then obtain j where j: "holds es j t" by blast
    then have "es ! j \<in> set es" "occupied (es ! j)" "disk_sector (es ! j) = t"
      by (auto simp: holds_def)
    then show ?thesis using view_hit [OF assms(1) j] assms(2,3) by (auto simp: entry_ok_def)
  next
    case False
    then show ?thesis by (simp add: view_miss)
  qed
qed

subsection \<open>Every internal step keeps the contents\<close>

definition bc_step :: "'z bc_state_scheme \<Rightarrow> 'z bc_state_scheme \<Rightarrow> bool" where
  "bc_step s s' \<longleftrightarrow> bc_inv s' \<and> bc_dev_valid s' = bc_dev_valid s \<and> bc_sect s' = bc_sect s \<and>
     bc_state.more s' = bc_state.more s \<and> fs_device s' = fs_device s"

lemma bc_step_refl [simp]: "bc_inv s \<Longrightarrow> bc_step s s"
  by (simp add: bc_step_def)

lemma bc_step_trans: "bc_step s t \<Longrightarrow> bc_step t u \<Longrightarrow> bc_step s u"
  by (simp add: bc_step_def)

lemma bc_step_inv: "bc_step s s' \<Longrightarrow> bc_inv s'"
  by (simp add: bc_step_def)

lemma bc_inv_cache:
  assumes "bc_inv s" shows "length (cache s) = 64" and "clock s < 64" and "uniq (cache s)"
  using assms by (simp_all add: bc_inv_def)

lemma bc_dev_simps [simp]:
  "bc_dev (set_entry i e s) = bc_dev s" "bc_dev_valid (set_entry i e s) = bc_dev_valid s"
  "bc_dev (s\<lparr>clock := c\<rparr>) = bc_dev s" "bc_dev_valid (s\<lparr>clock := c\<rparr>) = bc_dev_valid s"
  "cache (set_entry i e s) = (cache s)[i := e]" "clock (set_entry i e s) = clock s"
  "devs (set_entry i e s) = devs s" "fs_device (set_entry i e s) = fs_device s"
  "bc_state.more (set_entry i e s) = bc_state.more s"
  "bc_state.more (s\<lparr>clock := c\<rparr>) = bc_state.more s"
  "bc_state.more (s\<lparr>devs := d\<rparr>) = bc_state.more s"
  by (simp_all add: set_entry_def bc_dev_def bc_dev_valid_def)

lemma bc_inv_entry: "bc_inv s \<Longrightarrow> i < 64 \<Longrightarrow> entry_ok (bc_dev_valid s) (bc_dev s) (cache s ! i)"
  by (simp add: bc_inv_def)

text \<open>Replacing entry \<open>i\<close> with one that shows the same data is an internal step.\<close>

lemma bc_step_set_entry:
  assumes inv: "bc_inv s" and i: "i < 64"
    and ok: "entry_ok (bc_dev_valid s) (bc_dev s) e"
    and fresh: "\<And>j. occupied e \<Longrightarrow> j \<noteq> i \<Longrightarrow> \<not> holds (cache s) j (disk_sector e)"
    and same: "occupied e \<Longrightarrow> buffer e = bc_sect s (disk_sector e)"
    and gone: "\<And>t. holds (cache s) i t \<Longrightarrow> \<not> (occupied e \<and> disk_sector e = t) \<Longrightarrow> bc_dev s t = bc_sect s t"
  shows "bc_step s (set_entry i e s)"
proof -
  have u: "uniq (cache s)" and len: "i < length (cache s)" using inv i by (simp_all add: bc_inv_def)
  have u': "uniq ((cache s)[i := e])" using fresh by (rule uniq_upd [OF u len])
  have "view ((cache s)[i := e]) (bc_dev s) t = view (cache s) (bc_dev s) t" for t
    unfolding view_upd [OF u u' len] using same gone [of t] by (auto simp: bc_sect_def)
  then have "bc_sect (set_entry i e s) = bc_sect s" by (simp add: bc_sect_def fun_eq_iff)
  moreover have "bc_inv (set_entry i e s)"
    using inv ok u' by (auto simp: bc_inv_def dest: set_update_subset_insert [THEN subsetD])
  ultimately show ?thesis by (simp add: bc_step_def)
qed

lemma bc_sect_entry:
  "bc_inv s \<Longrightarrow> i < 64 \<Longrightarrow> occupied (cache s ! i) \<Longrightarrow>
     bc_sect s (disk_sector (cache s ! i)) = buffer (cache s ! i)"
  unfolding bc_sect_def by (rule view_hit) (auto simp: bc_inv_def holds_def)

lemma holds_other:
  "bc_inv s \<Longrightarrow> i < 64 \<Longrightarrow> occupied (cache s ! i) \<Longrightarrow> j \<noteq> i \<Longrightarrow>
     \<not> holds (cache s) j (disk_sector (cache s ! i))"
  using uniqD [of "cache s" j _ i] by (auto simp: bc_inv_def holds_def)

lemma bc_step_access:
  assumes "bc_inv s" and "i < 64"
  shows "bc_step s (set_entry i ((cache s ! i)\<lparr>access := a\<rparr>) s)"
  using bc_inv_entry [OF assms] bc_sect_entry [OF assms] holds_other [OF assms]
  by (intro bc_step_set_entry [OF assms]) (auto simp: entry_ok_def holds_def)

lemma bc_step_clock: "bc_inv s \<Longrightarrow> c < 64 \<Longrightarrow> bc_step s (s\<lparr>clock := c\<rparr>)"
  by (simp add: bc_step_def bc_inv_def bc_sect_def)

lemma buffer_cache_flush_step:
  assumes inv: "bc_inv s" and i: "i < 64" and occ: "occupied (cache s ! i)"
  shows "\<exists>s'. buffer_cache_flush i s = Some s' \<and> bc_step s s' \<and> clock s' = clock s \<and>
           cache s' = (cache s)[i := (cache s ! i)\<lparr>dirty := False\<rparr>]"
proof (cases "dirty (cache s ! i)")
  case False
  then have "(cache s ! i)\<lparr>dirty := False\<rparr> = cache s ! i" by (cases "cache s ! i") simp
  then have "(cache s)[i := (cache s ! i)\<lparr>dirty := False\<rparr>] = cache s" by (simp only: list_update_id)
  then show ?thesis using False inv i by (simp add: buffer_cache_flush_def bc_inv_def)
next
  case True
  let ?e = "cache s ! i" and ?es = "(cache s)[i := (cache s ! i)\<lparr>dirty := False\<rparr>]"
  have len: "length (cache s) = 64" and u: "uniq (cache s)" using inv by (simp_all add: bc_inv_def)
  have ok: "length (buffer ?e) = 512" "bc_dev_valid s (disk_sector ?e)"
    using bc_inv_entry [OF inv i] occ by (simp_all add: entry_ok_def)
  then obtain d where d: "block_write (devs s) (fs_device s) (disk_sector ?e) (buffer ?e) = Some d"
      "dev_sect (fs_device s) d = (bc_dev s)(disk_sector ?e := buffer ?e)"
      "dev_valid (fs_device s) d = bc_dev_valid s"
    using dev.wr_law [of "fs_device s" "devs s" "disk_sector ?e" "buffer ?e"]
    by (auto simp: bc_dev_def bc_dev_valid_def)
  let ?s' = "set_entry i (?e\<lparr>dirty := False\<rparr>) (s\<lparr>devs := d\<rparr>)"
  have hi: "holds (cache s) i (disk_sector ?e)" using occ i len by (simp add: holds_def)
  have u': "uniq ?es" using holds_other [OF inv i occ] i len by (intro uniq_upd [OF u]) simp_all
  have hi': "holds ?es i (disk_sector ?e)" using occ i len by (simp add: holds_def)
  have dv: "bc_dev (s\<lparr>devs := d\<rparr>) = (bc_dev s)(disk_sector ?e := buffer ?e)"
      "bc_dev_valid (s\<lparr>devs := d\<rparr>) = bc_dev_valid s"
    using d(2,3) by (simp_all add: bc_dev_def bc_dev_valid_def)
  have "bc_sect ?s' t = bc_sect s t" for t
    using view_upd [OF u u', of "bc_dev s" t] view_hit [OF u hi, of "bc_dev s"] i len occ
    by (auto simp: bc_sect_def dv view_dev_hidden [OF u' hi'] holds_def)
  moreover have "entry_ok (bc_dev_valid s) (bc_dev (s\<lparr>devs := d\<rparr>)) e" if mem: "e \<in> set ?es" for e
  proof -
    obtain j where j: "j < 64" "e = ?es ! j" using mem len by (auto simp: in_set_conv_nth)
    show ?thesis
    proof (cases "j = i")
      case True
      then show ?thesis using j ok len unfolding dv by (simp add: entry_ok_def)
    next
      case False
      then have "entry_ok (bc_dev_valid s) (bc_dev s) e" "occupied e \<Longrightarrow> disk_sector e \<noteq> disk_sector ?e"
        using j bc_inv_entry [OF inv j(1)] holds_other [OF inv i occ False] len
        by (auto simp: holds_def)
      then show ?thesis unfolding dv by (auto simp: entry_ok_def)
    qed
  qed
  moreover from this have "\<forall>e \<in> set ?es. entry_ok (bc_dev_valid s) (bc_dev (s\<lparr>devs := d\<rparr>)) e" by blast
  ultimately have "bc_step s ?s'"
    using inv u' by (simp add: bc_step_def bc_inv_def dv(2) ext)
  then show ?thesis using True d(1) i len by (simp add: buffer_cache_flush_def)
qed

lemma buffer_cache_close_steps:
  assumes "bc_inv s"
  shows "\<exists>s'. buffer_cache_close s = Some s' \<and> bc_step s s' \<and> bc_dev s' = bc_sect s"
proof -
  let ?P = "\<lambda>i t. bc_step s t \<and> (\<forall>k < i. occupied (cache t ! k) \<longrightarrow> \<not> dirty (cache t ! k))"
  have "\<exists>s'. buffer_cache_close s = Some s' \<and> ?P BUFFER_CACHE_SIZE s'"
    unfolding buffer_cache_close_def
  proof (rule for_range_inv)
    show "?P 0 s" using assms by simp
    fix j t assume j: "j < BUFFER_CACHE_SIZE" and P: "?P j t"
    then have inv: "bc_inv t" and j64: "j < 64"
      by (auto simp: BUFFER_CACHE_SIZE_def dest: bc_step_inv)
    have len: "length (cache t) = 64" using inv by (rule bc_inv_cache)
    show "\<exists>t'. do { e \<leftarrow> arr_get (cache t) j;
               if \<not> occupied e then Some t else buffer_cache_flush j t } = Some t' \<and> ?P (Suc j) t'"
    proof (cases "occupied (cache t ! j)")
      case True
      then obtain t' where t': "buffer_cache_flush j t = Some t'" "bc_step t t'"
          "cache t' = (cache t)[j := (cache t ! j)\<lparr>dirty := False\<rparr>]"
        using buffer_cache_flush_step [OF inv j64] by blast
      then show ?thesis using True P len j64
        by (auto simp: less_Suc_eq nth_list_update intro: bc_step_trans)
    next
      case False
      then show ?thesis using P len j64 by (simp add: less_Suc_eq)
    qed
  qed simp
  then obtain s' where s': "buffer_cache_close s = Some s'" "bc_step s s'"
      "\<forall>k < 64. occupied (cache s' ! k) \<longrightarrow> \<not> dirty (cache s' ! k)"
    by (auto simp: BUFFER_CACHE_SIZE_def)
  have inv': "bc_inv s'" using s'(2) by (rule bc_step_inv)
  have "bc_sect s' = bc_dev s'"
    unfolding bc_sect_def
  proof (rule view_clean [where vld = "bc_dev_valid s'"])
    show "uniq (cache s')" using inv' by (rule bc_inv_cache)
    show "entry_ok (bc_dev_valid s') (bc_dev s') e" if "e \<in> set (cache s')" for e
      using inv' that by (simp add: bc_inv_def)
    show "\<not> dirty e" if "e \<in> set (cache s')" "occupied e" for e
      using that s'(3) bc_inv_cache(1) [OF inv'] by (auto simp: in_set_conv_nth)
  qed
  with s' show ?thesis by (simp add: bc_step_def)
qed

lemma buffer_cache_lookup_holds:
  assumes "length (cache s) = 64"
  shows "buffer_cache_lookup t s = Some (find (\<lambda>i. holds (cache s) i t) [0..<64])"
  unfolding buffer_cache_lookup_def BUFFER_CACHE_SIZE_def
  by (rule first_range_find) (use assms in \<open>simp add: holds_def\<close>)

text \<open>The clock algorithm ends on a slot it may use, and touches nothing but reference bits.\<close>

lemma clock_loop_step:
  "bc_inv s \<Longrightarrow>
     \<exists>s'. clock_loop s = Some s' \<and> bc_step s s' \<and>
       (\<forall>i t. holds (cache s') i t = holds (cache s) i t) \<and>
       (occupied (cache s' ! clock s') \<longrightarrow> \<not> access (cache s' ! clock s'))"
proof (induction s rule: clock_loop.induct)
  case (1 s)
  let ?e = "cache s ! clock s"
  let ?s1 = "set_entry (clock s) (?e\<lparr>access := False\<rparr>) s"
  let ?s2 = "?s1\<lparr>clock := (clock s + 1) mod BUFFER_CACHE_SIZE\<rparr>"
  have c: "clock s < 64" "arr_get (cache s) (clock s) = Some ?e"
    using "1.prems" by (simp_all add: bc_inv_def)
  show ?case
  proof (cases "occupied ?e \<and> access ?e")
    case False
    then show ?thesis using c "1.prems" by (subst clock_loop.simps) auto
  next
    case True
    have s1: "bc_step s ?s1" using "1.prems" c(1) by (rule bc_step_access)
    have "bc_step ?s1 ?s2"
      using s1 by (intro bc_step_clock) (simp_all add: bc_step_def BUFFER_CACHE_SIZE_def)
    with s1 have s2: "bc_step s ?s2" by (rule bc_step_trans)
    have same: "holds (cache ?s2) i t = holds (cache s) i t" for i t
      using c "1.prems" by (auto simp: holds_upd bc_inv_def) (auto simp: holds_def)
    obtain s' where "clock_loop ?s2 = Some s'" "bc_step ?s2 s'"
        "\<forall>i t. holds (cache s') i t = holds (cache ?s2) i t"
        "occupied (cache s' ! clock s') \<longrightarrow> \<not> access (cache s' ! clock s')"
      using "1.IH" [OF c(2)] True s2 by (auto simp: bc_step_def)
    then show ?thesis using True c(2) s2 same
      by (subst clock_loop.simps) (auto intro: bc_step_trans)
  qed
qed

lemma buffer_cache_evict_step:
  assumes inv: "bc_inv s" and miss: "\<And>i. \<not> holds (cache s) i t"
  shows "\<exists>i s'. buffer_cache_evict s = Some (i, s') \<and> bc_step s s' \<and> i < 64 \<and>
           \<not> occupied (cache s' ! i) \<and> (\<forall>j. \<not> holds (cache s') j t)"
proof -
  obtain s1 where s1: "clock_loop s = Some s1" "bc_step s s1" "\<And>j. \<not> holds (cache s1) j t"
    using clock_loop_step [OF inv] miss by blast
  let ?c = "clock s1"
  have inv1: "bc_inv s1" using s1(2) by (rule bc_step_inv)
  have c: "?c < 64" and len: "length (cache s1) = 64" using bc_inv_cache [OF inv1] by simp_all
  show ?thesis
  proof (cases "occupied (cache s1 ! ?c)")
    case False
    then show ?thesis using s1 c len by (simp add: buffer_cache_evict_def)
  next
    case True
    obtain s2 where s2: "buffer_cache_flush ?c s1 = Some s2" "bc_step s1 s2"
        "cache s2 = (cache s1)[?c := (cache s1 ! ?c)\<lparr>dirty := False\<rparr>]"
      using buffer_cache_flush_step [OF inv1 c True] by blast
    let ?x = "if dirty (cache s1 ! ?c) then buffer_cache_flush ?c s1 else Some s1"
    have x: "?x = Some s2"
      using s2(1) len c by (auto simp: buffer_cache_flush_def split: if_splits)
    let ?s3 = "set_entry ?c ((cache s2 ! ?c)\<lparr>occupied := False\<rparr>) s2"
    have inv2: "bc_inv s2" using s2(2) by (rule bc_step_inv)
    have len2: "length (cache s2) = 64" using inv2 by (rule bc_inv_cache)
    have clean: "occupied (cache s2 ! ?c)" "\<not> dirty (cache s2 ! ?c)" using s2(3) c len True by simp_all
    have s3: "bc_step s2 ?s3"
      using bc_inv_entry [OF inv2 c] bc_sect_entry [OF inv2 c] clean
      by (intro bc_step_set_entry [OF inv2 c]) (auto simp: entry_ok_def holds_def)
    moreover have "\<not> holds (cache ?s3) j t" for j
      using s1(3) [of j] s2(3) c len by (auto simp: holds_def nth_list_update split: if_splits)
    moreover have "buffer_cache_evict s = Some (?c, ?s3)"
      using s1(1) x True c len len2 by (simp add: buffer_cache_evict_def Let_def)
    moreover have "bc_step s ?s3" using s1(2) s2(2) s3 by (blast intro: bc_step_trans)
    moreover have "\<not> occupied (cache ?s3 ! ?c)" using c len2 by simp
    ultimately show ?thesis using c by blast
  qed
qed

subsection \<open>The cache as a block device\<close>

lemma buffer_cache_slot_step:
  assumes inv: "bc_inv s" and vld: "bc_dev_valid s t"
  shows "\<exists>i s'. buffer_cache_slot t s = Some (i, s') \<and> bc_step s s' \<and> holds (cache s') i t"
proof -
  have look: "buffer_cache_lookup t s = Some (find (\<lambda>i. holds (cache s) i t) [0..<64])"
    using bc_inv_cache(1) [OF inv] by (rule buffer_cache_lookup_holds)
  show ?thesis
  proof (cases "find (\<lambda>i. holds (cache s) i t) [0..<64]")
    case (Some i)
    then have "holds (cache s) i t" by (simp add: find_upt_Some)
    then show ?thesis using Some look inv by (simp add: buffer_cache_slot_def)
  next
    case None
    then have "\<not> holds (cache s) i t" for i
      using bc_inv_cache(1) [OF inv] by (auto simp: find_upt_None holds_def)
    then obtain i s1 where ev: "buffer_cache_evict s = Some (i, s1)" "bc_step s s1" "i < 64"
        "\<not> occupied (cache s1 ! i)" "\<And>j. \<not> holds (cache s1) j t"
      using buffer_cache_evict_step [OF inv] by blast
    let ?e = "cache s1 ! i"
    have inv1: "bc_inv s1" using ev(2) by (rule bc_step_inv)
    have len1: "length (cache s1) = 64" using inv1 by (rule bc_inv_cache)
    have v1: "dev_valid (fs_device s1) (devs s1) t"
      using vld ev(2) by (metis bc_step_def bc_dev_valid_def)
    have "length (buffer ?e) = 512" using bc_inv_entry [OF inv1 ev(3)] by (simp add: entry_ok_def)
    then obtain d where d: "block_read (devs s1) (fs_device s1) t (buffer ?e) = Some (bc_dev s1 t, d)"
        "dev_sect (fs_device s1) d = bc_dev s1" "dev_valid (fs_device s1) d = bc_dev_valid s1"
      using dev.rd_law [OF v1] by (auto simp: bc_dev_def bc_dev_valid_def)
    let ?e' = "?e\<lparr>occupied := True, disk_sector := t, dirty := False, buffer := bc_dev s1 t\<rparr>"
    let ?s2 = "s1\<lparr>devs := d\<rparr>"
    have dv: "bc_dev ?s2 = bc_dev s1" "bc_dev_valid ?s2 = bc_dev_valid s1"
      using d(2,3) by (simp_all add: bc_dev_def bc_dev_valid_def)
    have s2: "bc_step s1 ?s2" using inv1 dv by (simp add: bc_step_def bc_inv_def bc_sect_def)
    have "bc_sect ?s2 t = bc_dev s1 t" using ev(5) by (simp add: bc_sect_def dv view_miss)
    moreover have "length (bc_dev s1 t) = 512"
      using dev.sect_length [OF v1] by (simp add: bc_dev_def)
    ultimately have "bc_step ?s2 (set_entry i ?e' ?s2)"
      using ev(4,5) bc_step_inv [OF s2] v1 dv
      by (intro bc_step_set_entry [OF _ ev(3)]) (auto simp: entry_ok_def holds_def bc_dev_valid_def)
    then have "bc_step s (set_entry i ?e' ?s2)" using ev(2) s2 by (blast intro: bc_step_trans)
    then show ?thesis
      using None look ev(1,3) d(1) len1 by (simp add: buffer_cache_slot_def holds_def)
  qed
qed

lemma buffer_cache_read_step:
  assumes "bc_inv s" and "bc_dev_valid s t"
  shows "\<exists>s'. buffer_cache_read t s = Some (bc_sect s t, s') \<and> bc_step s s'"
proof -
  obtain i s1 where sl: "buffer_cache_slot t s = Some (i, s1)" "bc_step s s1" "holds (cache s1) i t"
    using buffer_cache_slot_step [OF assms] by blast
  have inv1: "bc_inv s1" using sl(2) by (rule bc_step_inv)
  have i: "i < 64" "occupied (cache s1 ! i)" "disk_sector (cache s1 ! i) = t"
    using sl(3) bc_inv_cache(1) [OF inv1] by (simp_all add: holds_def)
  have "buffer (cache s1 ! i) = bc_sect s t"
    using bc_sect_entry [OF inv1 i(1,2)] i(3) sl(2) by (simp add: bc_step_def)
  moreover have "length (buffer (cache s1 ! i)) = 512"
    using bc_inv_entry [OF inv1 i(1)] by (simp add: entry_ok_def)
  moreover have "bc_step s (set_entry i ((cache s1 ! i)\<lparr>access := True\<rparr>) s1)"
    using sl(2) bc_step_access [OF inv1 i(1)] by (rule bc_step_trans)
  ultimately show ?thesis
    using sl(1) i(1) bc_inv_cache(1) [OF inv1]
    by (simp add: buffer_cache_read_def BLOCK_SECTOR_SIZE_def)
qed

lemma buffer_cache_write_step:
  assumes "bc_inv s" and "bc_dev_valid s t" and "length data = 512"
  shows "\<exists>s'. buffer_cache_write t data s = Some s' \<and> bc_inv s' \<and> bc_dev_valid s' = bc_dev_valid s \<and>
           bc_sect s' = (bc_sect s)(t := data) \<and> bc_state.more s' = bc_state.more s \<and> fs_device s' = fs_device s"
proof -
  obtain i s1 where sl: "buffer_cache_slot t s = Some (i, s1)" "bc_step s s1" "holds (cache s1) i t"
    using buffer_cache_slot_step [OF assms(1,2)] by blast
  have inv1: "bc_inv s1" using sl(2) by (rule bc_step_inv)
  note c1 = bc_inv_cache [OF inv1]
  have i: "i < 64" "occupied (cache s1 ! i)" "disk_sector (cache s1 ! i) = t"
    using sl(3) c1(1) by (simp_all add: holds_def)
  let ?e = "(cache s1 ! i)\<lparr>access := True, dirty := True, buffer := data\<rparr>"
  let ?s2 = "set_entry i ?e s1"
  have u: "uniq ((cache s1)[i := ?e])"
    using holds_other [OF inv1 i(1,2)] i c1 by (intro uniq_upd) simp_all
  have "bc_sect ?s2 u = ((bc_sect s1)(t := data)) u" for u
    using i sl(3) by (auto simp: bc_sect_def view_upd [OF c1(3) u] c1(1) holds_def)
  then have sect: "bc_sect ?s2 = (bc_sect s)(t := data)"
    using sl(2) by (simp add: bc_step_def fun_eq_iff)
  have "entry_ok (bc_dev_valid s1) (bc_dev s1) ?e"
    using bc_inv_entry [OF inv1 i(1)] i assms(3) by (simp add: entry_ok_def)
  then have "bc_inv ?s2"
    using inv1 u by (auto simp: bc_inv_def dest: set_update_subset_insert [THEN subsetD])
  with sect sl i c1(1) assms(3) show ?thesis
    by (simp add: buffer_cache_write_def BLOCK_SECTOR_SIZE_def bc_step_def)
qed

interpretation bc: sector_device "\<lambda>s t buf. buffer_cache_read t s" "\<lambda>s t. \<lambda>data. buffer_cache_write t data s"
    bc_sect bc_valid
proof unfold_locales
  fix s :: "'a bc_state_scheme" and t and buf :: "byte list"
  assume v: "bc_valid s t" and len: "length buf = 512"
  then have *: "bc_inv s" "bc_dev_valid s t" by (simp_all add: bc_valid_def)
  show "\<exists>s'. buffer_cache_read t s = Some (bc_sect s t, s') \<and> bc_sect s' = bc_sect s \<and> bc_valid s' = bc_valid s"
    using buffer_cache_read_step [OF *] * by (auto simp: bc_step_def bc_valid_def fun_eq_iff)
  show "\<exists>s'. buffer_cache_write t buf s = Some s' \<and> bc_sect s' = (bc_sect s)(t := buf) \<and> bc_valid s' = bc_valid s"
    using buffer_cache_write_step [OF * len] * by (auto simp: bc_valid_def fun_eq_iff)
next
  fix s :: "'a bc_state_scheme" and t assume "bc_valid s t"
  then have *: "bc_inv s" "bc_dev_valid s t" by (simp_all add: bc_valid_def)
  show "length (bc_sect s t) = 512"
  proof (cases "\<exists>i. holds (cache s) i t")
    case True
    then obtain i where i: "holds (cache s) i t" by blast
    then have "i < 64" using bc_inv_cache(1) [OF *(1)] by (simp add: holds_def)
    from bc_inv_entry [OF *(1) this] view_hit [OF bc_inv_cache(3) [OF *(1)] i]
    show ?thesis by (simp add: bc_sect_def entry_ok_def)
  next
    case False
    then show ?thesis using *(2) dev.sect_length
      by (simp add: bc_sect_def view_miss bc_dev_def bc_dev_valid_def)
  qed
qed

text \<open>A freshly initialised cache shows what the device holds.\<close>

lemma buffer_cache_init_step:
  assumes "length (cache s) = 64" and "clock s < 64" and "\<And>e. e \<in> set (cache s) \<Longrightarrow> length (buffer e) = 512"
  shows "bc_inv (buffer_cache_init s) \<and> bc_sect (buffer_cache_init s) = bc_dev s"
proof -
  have no: "\<not> holds (cache (buffer_cache_init s)) i t" for i t
    by (auto simp: holds_def buffer_cache_init_def)
  have "bc_dev (buffer_cache_init s) = bc_dev s"
    by (simp add: bc_dev_def buffer_cache_init_def)
  moreover have "uniq (cache (buffer_cache_init s))" using no by (simp add: uniq_def)
  ultimately show ?thesis using assms no
    by (auto simp: bc_inv_def bc_sect_def view_miss fun_eq_iff entry_ok_def buffer_cache_init_def)
qed

subsection \<open>Properties\<close>

text \<open>
  C25. The buffer cache is transparent to readers: \<open>buffer_cache_read\<close> returns, for every valid sector, the
  contents of the sector as the file system last wrote it, whether it is cached or must be loaded
  by evicting another sector, and the read changes the contents of no sector.
\<close>

theorem buffer_cache_read_transparent:
  assumes "bc_valid s t"
  shows "\<exists>s'. buffer_cache_read t s = Some (bc_sect s t, s') \<and> bc_sect s' = bc_sect s \<and> bc_valid s' = bc_valid s"
  using bc.rd_law [OF assms, of "replicate 512 0"] by simp

definition bc_example :: bc_state where
  "bc_example = \<lparr>cache = replicate 64 cache_entry0, clock = 0,
     devs = snd (block_register ''hda'' ''x.dsk'' 2 ide_operations
        \<lparr>host = replicate 1024 7, blocks = [], hard_drive = None\<rparr>), fs_device = 0\<rparr>"

lemma bc_example_valid: "bc_valid bc_example 1"
  by (auto simp: bc_valid_def bc_inv_def bc_example_def uniq_def holds_def cache_entry0_def entry_ok_def
      bc_dev_valid_def dev_valid_def dev_base.simps [of _ 0] block_register_def block_set_hd_def Let_def
      img_valid_def)

theorem buffer_cache_read_transparent_witness:
  "\<exists>s'. buffer_cache_read 1 bc_example = Some (bc_sect bc_example 1, s') \<and> bc_sect s' = bc_sect bc_example"
  using buffer_cache_read_transparent [OF bc_example_valid] by blast

text \<open>
  C26. The cache is the disk to its users: any sequence of reads and writes of valid sectors runs, every read returns
  what was last written to its sector, or its contents at the beginning, however many sectors are loaded and evicted in
  between, and at the end every sector shows what was last written to it.
\<close>

theorem buffer_cache_refines_disk:
  assumes "\<forall>a \<in> set as. access_ok (bc_valid s) a"
  shows "\<exists>s'. run_accesses (\<lambda>s t. buffer_cache_read t s) (\<lambda>s t buf. buffer_cache_write t buf s) as s =
      Some (fst (disk_spec as (bc_sect s)), s') \<and>
    bc_sect s' = snd (disk_spec as (bc_sect s)) \<and> bc_valid s' = bc_valid s"
  using bc.accesses [OF assms, of "replicate 512 0"] by simp

theorem buffer_cache_refines_disk_witness:
  "\<exists>s'. run_accesses (\<lambda>s t. buffer_cache_read t s) (\<lambda>s t buf. buffer_cache_write t buf s)
     [Write 1 (replicate 512 9), Read 0, Write 0 (replicate 512 8), Read 1, Read 0] bc_example =
     Some ([bc_sect bc_example 0, replicate 512 9, replicate 512 8], s')"
proof -
  have "bc_valid bc_example 0" "bc_valid bc_example 1"
    using bc_example_valid by (auto simp: bc_valid_def bc_dev_valid_def dev_valid_def img_valid_def bc_example_def
        dev_base.simps [of _ 0] block_register_def block_set_hd_def Let_def)
  then show ?thesis
    using buffer_cache_refines_disk [of "[Write 1 (replicate 512 9), Read 0, Write 0 (replicate 512 8), Read 1, Read 0]" bc_example] by auto
qed

text \<open>
  C27. Shutting down loses nothing: after \<open>buffer_cache_close\<close> the device itself holds, in every sector,
  what the cache presented before.
\<close>

theorem buffer_cache_close_persists:
  assumes "bc_inv s"
  shows "\<exists>s'. buffer_cache_close s = Some s' \<and> bc_inv s' \<and> dev_sect (fs_device s') (devs s') = bc_sect s"
  using buffer_cache_close_steps [OF assms] by (auto simp: bc_step_def bc_dev_def)

theorem buffer_cache_close_persists_witness:
  "\<exists>s'. buffer_cache_close bc_example = Some s' \<and> dev_sect (fs_device s') (devs s') = bc_sect bc_example"
  using buffer_cache_close_persists [of bc_example] bc_example_valid by (auto simp: bc_valid_def)

text \<open>
  C28. The clock algorithm always finds a slot: \<open>buffer_cache_evict\<close> returns an unoccupied entry from any
  consistent cache, and what it evicted can still be read.
\<close>

theorem buffer_cache_evict_finds_slot:
  assumes "bc_inv s" and "\<And>i. \<not> holds (cache s) i t"
  shows "\<exists>i s'. buffer_cache_evict s = Some (i, s') \<and> i < 64 \<and> \<not> occupied (cache s' ! i) \<and>
    bc_inv s' \<and> bc_sect s' = bc_sect s"
  using buffer_cache_evict_step [OF assms] by (auto simp: bc_step_def)

theorem buffer_cache_evict_finds_slot_witness:
  "\<exists>i s'. buffer_cache_evict bc_example = Some (i, s') \<and> i < 64 \<and> \<not> occupied (cache s' ! i)"
proof -
  have "bc_inv bc_example" using bc_example_valid by (simp add: bc_valid_def)
  moreover have "\<not> holds (cache bc_example) i 1" for i
    by (simp add: holds_def bc_example_def cache_entry0_def)
  ultimately show ?thesis using buffer_cache_evict_finds_slot by blast
qed

end
