(* ===== verification/Inode_Disk.thy ===== *)
theory Inode_Disk
  imports Buffer_Cache Bitmap
begin

text \<open>
  The data side of \<open>src/a3/fs/inode.c\<close>: the inode as it lies on disk, the lookup of the sector that
  holds a byte of a file, and the loops that move bytes between a caller's buffer and the sectors
  of a file. The state of the file system extends the state of the buffer cache by the free map,
  the heap of in-memory inodes and open files, and the list of open inodes.

  The contents of a file are \<open>file_bytes\<close>, a function of the sector contents and the inode. The main
  lemmas say that the read loop returns a slice of it and that the write loop replaces one.
\<close>

subsection \<open>Data\<close>

definition INODE_MAGIC :: "32 word" where
  "INODE_MAGIC = 0x494e4f44"

definition DIRECT_BLOCKS_COUNT :: nat where
  "DIRECT_BLOCKS_COUNT = 123"

definition INDIRECT_BLOCKS_PER_SECTOR :: nat where
  "INDIRECT_BLOCKS_PER_SECTOR = 128"

record inode_disk =
  direct_blocks :: "block_sector_t list"
  indirect_block :: block_sector_t
  doubly_indirect_block :: block_sector_t
  is_dir :: bool
  dlength :: int
  magic :: "32 word"

record inode =
  sector :: block_sector_t
  open_cnt :: int
  removed :: bool
  deny_write_cnt :: int
  data :: inode_disk

record open_file =
  f_inode :: nat
  pos :: int
  deny_write :: bool

record fs_state = bc_state +
  free_map :: bitmap
  free_map_file :: "nat option"
  inodes :: "inode option list"
  open_inodes :: "nat list"
  files :: "open_file option list"

text \<open>
  The layout of \<open>struct inode_disk\<close>: 125 sector numbers, a flag padded to four bytes (the padding is
  the zero \<open>calloc\<close> leaves), the length and the magic number, 512 bytes in all.
\<close>

definition inode_disk_bytes :: "inode_disk \<Rightarrow> byte list" where
  "inode_disk_bytes d =
     concat (map (le_bytes 4) (direct_blocks d @ [indirect_block d, doubly_indirect_block d])) @
     [if is_dir d then 1 else 0, 0, 0, 0] @
     le_bytes 4 (word_of_int (dlength d) :: 32 word) @ le_bytes 4 (magic d)"

definition inode_disk_of :: "byte list \<Rightarrow> inode_disk" where
  "inode_disk_of bs =
     (let ws = le_words 4 (take 500 bs)
      in \<lparr>direct_blocks = take 123 ws, indirect_block = ws ! 123, doubly_indirect_block = ws ! 124,
          is_dir = (bs ! 500 \<noteq> 0),
          dlength = sint (le_word (take 4 (drop 504 bs)) :: 32 word),
          magic = le_word (take 4 (drop 508 bs))\<rparr>)"

text \<open>An \<open>inode_indirect_block_sector\<close> is an array of 128 sector numbers.\<close>

definition block_bytes :: "block_sector_t list \<Rightarrow> byte list" where
  "block_bytes ws = concat (map (le_bytes 4) ws)"

definition block_of :: "byte list \<Rightarrow> block_sector_t list" where
  "block_of bs = le_words 4 bs"

definition get_inode :: "nat \<Rightarrow> 'z fs_state_scheme \<Rightarrow> inode option" where
  "get_inode ip s = deref (inodes s) ip"

definition set_inode :: "nat \<Rightarrow> inode \<Rightarrow> 'z fs_state_scheme \<Rightarrow> 'z fs_state_scheme" where
  "set_inode ip i s = s\<lparr>inodes := (inodes s)[ip := Some i]\<rparr>"

definition get_file :: "nat \<Rightarrow> 'z fs_state_scheme \<Rightarrow> open_file option" where
  "get_file fp s = deref (files s) fp"

subsection \<open>Operations\<close>

text \<open>
  The sum is one of 32-bit integers, the division truncates and the quotient is returned as a \<open>size_t\<close>;
  \<open>sector_count\<close> is what comes out for a size that is not negative.
\<close>

definition bytes_to_sectors :: "int \<Rightarrow> nat option" where
  "bytes_to_sectors sz = do {
     n \<leftarrow> int32 (sz + 512);
     let m = n - 1;
     let q = (if m < 0 then - (- m div 512) else m div 512);
     Some (nat (q mod 2 ^ 64))
   }"

definition sector_count :: "int \<Rightarrow> nat" where
  "sector_count sz = nat ((sz + 512 - 1) div 512)"

lemma bytes_to_sectors_count:
  assumes "0 \<le> sz" and "sz < 2 ^ 31 - 512"
  shows "bytes_to_sectors sz = Some (sector_count sz)"
proof -
  have "0 \<le> (sz + 511) div 512" "(sz + 511) div 512 < 18446744073709551616" using assms by simp_all
  then show ?thesis using assms by (simp add: bytes_to_sectors_def sector_count_def Let_def)
qed

lemma bytes_to_sectors_small: "0 \<le> sz \<Longrightarrow> sector_count sz \<le> 123 \<Longrightarrow> bytes_to_sectors sz = Some (sector_count sz)"
  by (rule bytes_to_sectors_count) (auto simp: sector_count_def)

definition index_to_sector ::
  "inode_disk \<Rightarrow> nat \<Rightarrow> 'z fs_state_scheme \<Rightarrow> (block_sector_t \<times> 'z fs_state_scheme) option" where
  "index_to_sector idisk index s =
     (let index_base = DIRECT_BLOCKS_COUNT * 1;
          index_base2 = index_base + 1 * INDIRECT_BLOCKS_PER_SECTOR;
          index_limit = index_base2 + 1 * INDIRECT_BLOCKS_PER_SECTOR * INDIRECT_BLOCKS_PER_SECTOR
      in if index < index_base then do {
           ret \<leftarrow> arr_get (direct_blocks idisk) index;
           Some (ret, s)
         } else if index < index_base2 then do {
           (blk, s) \<leftarrow> buffer_cache_read (indirect_block idisk) s;
           ret \<leftarrow> arr_get (block_of blk) (index - index_base);
           Some (ret, s)
         } else if index < index_limit then do {
           let index_first = (index - index_base2) div INDIRECT_BLOCKS_PER_SECTOR;
           let index_second = (index - index_base2) mod INDIRECT_BLOCKS_PER_SECTOR;
           (blk, s) \<leftarrow> buffer_cache_read (doubly_indirect_block idisk) s;
           sec \<leftarrow> arr_get (block_of blk) index_first;
           (blk, s) \<leftarrow> buffer_cache_read sec s;
           ret \<leftarrow> arr_get (block_of blk) index_second;
           Some (ret, s)
         } else Some (- 1, s))"

definition byte_to_sector ::
  "nat \<Rightarrow> int \<Rightarrow> 'z fs_state_scheme \<Rightarrow> (block_sector_t \<times> 'z fs_state_scheme) option" where
  "byte_to_sector ip ps s = do {
     ino \<leftarrow> get_inode ip s;
     if 0 \<le> ps \<and> ps < dlength (data ino) then index_to_sector (data ino) (nat (ps div 512)) s
     else Some (- 1, s)
   }"

definition inode_length :: "nat \<Rightarrow> 'z fs_state_scheme \<Rightarrow> int option" where
  "inode_length ip s = map_option (\<lambda>ino. dlength (data ino)) (get_inode ip s)"

text \<open>The number of bytes one turn of the read and write loops moves.\<close>

definition chunk_of :: "int \<Rightarrow> int \<Rightarrow> int \<Rightarrow> int" where
  "chunk_of inode_left sector_left sz =
     (let min_left = (if inode_left < sector_left then inode_left else sector_left)
      in if sz < min_left then sz else min_left)"

text \<open>A whole sector goes straight to the caller's buffer, a part of one through the bounce buffer.\<close>

definition read_piece :: "byte list \<Rightarrow> int \<Rightarrow> int \<Rightarrow> byte list option" where
  "read_piece blk sector_ofs chunk_size =
     (if sector_ofs = 0 \<and> chunk_size = 512 then Some blk else mem_get blk sector_ofs chunk_size)"

text \<open>
  The loop of \<open>inode_read_at\<close>. The test \<open>sector_idx < 0\<close> of the source compares an unsigned number
  and is never true.
\<close>

function inode_read_loop ::
  "nat \<Rightarrow> byte list \<Rightarrow> int \<Rightarrow> int \<Rightarrow> int \<Rightarrow> 'z fs_state_scheme \<Rightarrow>
   (int \<times> byte list \<times> 'z fs_state_scheme) option" where
  "inode_read_loop ip buf sz ofs bytes_read s =
     (if 0 < sz then do {
        (sector_idx, s) \<leftarrow> byte_to_sector ip ofs s;
        let sector_ofs = c_rem ofs 512;
        len \<leftarrow> inode_length ip s;
        inode_left \<leftarrow> int32 (len - ofs);
        let sector_left = 512 - sector_ofs;
        let chunk_size = chunk_of inode_left sector_left sz;
        if chunk_size \<le> 0 then Some (bytes_read, buf, s)
        else do {
          (blk, s) \<leftarrow> buffer_cache_read sector_idx s;
          piece \<leftarrow> read_piece blk sector_ofs chunk_size;
          buf \<leftarrow> mem_put buf bytes_read piece;
          ofs' \<leftarrow> int32 (ofs + chunk_size);
          inode_read_loop ip buf (sz - chunk_size) ofs' (bytes_read + chunk_size) s
        }
      } else Some (bytes_read, buf, s))"
  by pat_completeness auto
termination
  by (relation "measure (\<lambda>(_, _, sz, _). nat sz)") auto

definition inode_read_at ::
  "nat \<Rightarrow> byte list \<Rightarrow> int \<Rightarrow> int \<Rightarrow> 'z fs_state_scheme \<Rightarrow> (int \<times> byte list \<times> 'z fs_state_scheme) option" where
  "inode_read_at ip buf sz ofs s = inode_read_loop ip buf sz ofs 0 s"

text \<open>
  The transfer of one turn of the write loop. \<open>bounce\<close> is the bounce buffer: read from the sector when
  other data of the sector must be kept, zero otherwise.
\<close>

definition write_piece ::
  "block_sector_t \<Rightarrow> int \<Rightarrow> int \<Rightarrow> byte list \<Rightarrow> 'z fs_state_scheme \<Rightarrow> 'z fs_state_scheme option" where
  "write_piece sector_idx sector_ofs chunk_size piece s =
     (let sector_left = 512 - sector_ofs
      in if sector_ofs = 0 \<and> chunk_size = 512 then buffer_cache_write sector_idx piece s
         else do {
           (bounce, s) \<leftarrow> (if sector_ofs > 0 \<or> chunk_size < sector_left then buffer_cache_read sector_idx s
                          else Some (replicate 512 0, s));
           bounce \<leftarrow> mem_put bounce sector_ofs piece;
           buffer_cache_write sector_idx bounce s
         })"

text \<open>The loop of \<open>inode_write_at\<close>.\<close>

function inode_write_loop ::
  "nat \<Rightarrow> byte list \<Rightarrow> int \<Rightarrow> int \<Rightarrow> int \<Rightarrow> 'z fs_state_scheme \<Rightarrow> (int \<times> 'z fs_state_scheme) option" where
  "inode_write_loop ip buf sz ofs bytes_written s =
     (if 0 < sz then do {
        (sector_idx, s) \<leftarrow> byte_to_sector ip ofs s;
        let sector_ofs = c_rem ofs 512;
        len \<leftarrow> inode_length ip s;
        inode_left \<leftarrow> int32 (len - ofs);
        let sector_left = 512 - sector_ofs;
        let chunk_size = chunk_of inode_left sector_left sz;
        if chunk_size \<le> 0 then Some (bytes_written, s)
        else do {
          piece \<leftarrow> mem_get buf bytes_written chunk_size;
          s \<leftarrow> write_piece sector_idx sector_ofs chunk_size piece s;
          ofs' \<leftarrow> int32 (ofs + chunk_size);
          inode_write_loop ip buf (sz - chunk_size) ofs' (bytes_written + chunk_size) s
        }
      } else Some (bytes_written, s))"
  by pat_completeness auto
termination
  by (relation "measure (\<lambda>(_, _, sz, _). nat sz)") auto

declare inode_read_loop.simps [simp del] inode_write_loop.simps [simp del]

subsection \<open>Layout\<close>

definition disk_wf :: "inode_disk \<Rightarrow> bool" where
  "disk_wf d \<longleftrightarrow> length (direct_blocks d) = 123 \<and> - (2 ^ 31) \<le> dlength d \<and> dlength d < 2 ^ 31"

lemma length_inode_disk_bytes: "length (direct_blocks d) = 123 \<Longrightarrow> length (inode_disk_bytes d) = 512"
  by (simp add: inode_disk_bytes_def)

lemma inode_disk_of_bytes:
  assumes "disk_wf d" shows "inode_disk_of (inode_disk_bytes d) = d"
proof -
  let ?ws = "direct_blocks d @ [indirect_block d, doubly_indirect_block d]"
  let ?l = "word_of_int (dlength d) :: 32 word"
  have len: "length (direct_blocks d) = 123" using assms by (simp add: disk_wf_def)
  have 1: "take 500 (inode_disk_bytes d) = concat (map (le_bytes 4) ?ws)"
    and 2: "inode_disk_bytes d ! 500 = (if is_dir d then 1 else 0)"
    and 3: "take 4 (drop 504 (inode_disk_bytes d)) = le_bytes 4 ?l"
    and 4: "take 4 (drop 508 (inode_disk_bytes d)) = le_bytes 4 (magic d)"
    using len by (simp_all add: inode_disk_bytes_def nth_append del: map_append concat_append)
  have "sint ?l = dlength d"
    using assms by (simp add: disk_wf_def signed_of_int signed_take_bit_int_eq_self)
  then show ?thesis
    using len by (simp add: inode_disk_of_def 1 2 3 4 le_words_concat le_word_le_bytes Let_def nth_append
        del: map_append)
qed

lemma length_block_of [simp]: "length (block_of bs) = length bs div 4"
  by (simp add: block_of_def)

lemma length_block_bytes [simp]: "length (block_bytes ws) = 4 * length ws"
  by (simp add: block_bytes_def)

lemma block_of_bytes [simp]: "block_of (block_bytes ws) = ws"
  by (simp add: block_of_def block_bytes_def le_words_concat)

lemma block_bytes_of: "length bs = 4 * n \<Longrightarrow> block_bytes (block_of bs) = bs"
  unfolding block_of_def block_bytes_def by (rule concat_le_words) simp_all

subsection \<open>The contents of a file\<close>

text \<open>The sector of the data block number \<open>i\<close>, as a function of the contents of the sectors.\<close>

definition sector_of :: "(block_sector_t \<Rightarrow> byte list) \<Rightarrow> inode_disk \<Rightarrow> nat \<Rightarrow> block_sector_t" where
  "sector_of c d i =
     (if i < 123 then direct_blocks d ! i
      else if i < 251 then block_of (c (indirect_block d)) ! (i - 123)
      else block_of (c (block_of (c (doubly_indirect_block d)) ! ((i - 251) div 128))) ! ((i - 251) mod 128))"

text \<open>The sectors that hold sector numbers for the first \<open>n\<close> data blocks.\<close>

definition index_blocks :: "(block_sector_t \<Rightarrow> byte list) \<Rightarrow> inode_disk \<Rightarrow> nat \<Rightarrow> block_sector_t list" where
  "index_blocks c d n =
     (if n \<le> 123 then [] else [indirect_block d]) @
     (if n \<le> 251 then []
      else doubly_indirect_block d #
           map (\<lambda>j. block_of (c (doubly_indirect_block d)) ! j) [0..<DIV_ROUND_UP (n - 251) 128])"

definition nsec :: "inode_disk \<Rightarrow> nat" where
  "nsec d = sector_count (dlength d)"

definition data_sectors :: "(block_sector_t \<Rightarrow> byte list) \<Rightarrow> inode_disk \<Rightarrow> block_sector_t list" where
  "data_sectors c d = map (sector_of c d) [0..<nsec d]"

definition file_bytes :: "(block_sector_t \<Rightarrow> byte list) \<Rightarrow> inode_disk \<Rightarrow> byte list" where
  "file_bytes c d = take (nat (dlength d)) (concat (map c (data_sectors c d)))"

definition inode_ok :: "(block_sector_t \<Rightarrow> bool) \<Rightarrow> (block_sector_t \<Rightarrow> byte list) \<Rightarrow> inode_disk \<Rightarrow> bool" where
  "inode_ok v c d \<longleftrightarrow> length (direct_blocks d) = 123 \<and> 0 \<le> dlength d \<and> dlength d < 2 ^ 31 \<and> nsec d \<le> 16635 \<and>
     (\<forall>t \<in> set (index_blocks c d (nsec d)) \<union> set (data_sectors c d). v t \<and> length (c t) = 512) \<and>
     - 1 \<notin> set (data_sectors c d)"

text \<open>No data sector is used twice or holds sector numbers.\<close>

definition inode_sep :: "(block_sector_t \<Rightarrow> byte list) \<Rightarrow> inode_disk \<Rightarrow> bool" where
  "inode_sep c d \<longleftrightarrow> distinct (data_sectors c d) \<and>
     set (data_sectors c d) \<inter> set (index_blocks c d (nsec d)) = {}"

lemma nsec_covers:
  assumes "p < nat (dlength d)" shows "p div 512 < nsec d"
proof -
  have "nsec d = DIV_ROUND_UP (nat (dlength d)) 512"
    using assms by (simp add: nsec_def sector_count_def DIV_ROUND_UP_def nat_div_distrib nat_add_distrib nat_diff_distrib)
  then show ?thesis using assms by (simp add: DIV_ROUND_UP_less)
qed

lemma nsec_bound: "0 \<le> dlength d \<Longrightarrow> nat (dlength d) \<le> nsec d * 512"
proof -
  assume "0 \<le> dlength d"
  then have "nsec d = DIV_ROUND_UP (nat (dlength d)) 512"
    by (simp add: nsec_def sector_count_def DIV_ROUND_UP_def nat_div_distrib nat_add_distrib nat_diff_distrib)
  then show ?thesis using DIV_ROUND_UP_le [of 512 "nat (dlength d)"] by simp
qed

lemma length_concat_equal:
  "(\<And>x. x \<in> set xs \<Longrightarrow> length (f x) = k) \<Longrightarrow> length (concat (map f xs)) = length xs * k"
  by (induction xs) auto

lemma nth_concat_equal:
  assumes "\<And>x. x \<in> set xs \<Longrightarrow> length (f x) = k" and "p < length xs * k"
  shows "concat (map f xs) ! p = f (xs ! (p div k)) ! (p mod k)"
  using assms
proof (induction xs arbitrary: p)
  case Nil
  then show ?case by simp
next
  case (Cons x xs)
  then have "0 < k" by (cases k) auto
  show ?case
  proof (cases "p < k")
    case True
    then show ?thesis using Cons.prems by (simp add: nth_append)
  next
    case False
    then have "p div k = Suc ((p - k) div k)" "p mod k = (p - k) mod k"
      using \<open>0 < k\<close> by (simp_all add: le_div_geq le_mod_geq)
    then show ?thesis using False Cons by (simp add: nth_append)
  qed
qed

lemma data_sectors_nth: "i < nsec d \<Longrightarrow> data_sectors c d ! i = sector_of c d i"
  by (simp add: data_sectors_def)

lemma length_data_sectors [simp]: "length (data_sectors c d) = nsec d"
  by (simp add: data_sectors_def)

lemma sector_of_in: "i < nsec d \<Longrightarrow> sector_of c d i \<in> set (data_sectors c d)"
  by (auto simp: data_sectors_def)

lemma length_file_bytes:
  assumes "inode_ok v c d" shows "length (file_bytes c d) = nat (dlength d)"
proof -
  have "length (concat (map c (data_sectors c d))) = nsec d * 512"
    using assms by (subst length_concat_equal [where k = 512]) (auto simp: inode_ok_def)
  then show ?thesis
    using assms nsec_bound [of d] by (simp add: file_bytes_def inode_ok_def)
qed

lemma file_bytes_nth:
  assumes "inode_ok v c d" and "p < nat (dlength d)"
  shows "file_bytes c d ! p = c (sector_of c d (p div 512)) ! (p mod 512)"
proof -
  have "concat (map c (data_sectors c d)) ! p = c (data_sectors c d ! (p div 512)) ! (p mod 512)"
    using assms nsec_bound [of d] by (intro nth_concat_equal) (auto simp: inode_ok_def)
  then show ?thesis
    using assms nsec_covers [OF assms(2)] by (simp add: file_bytes_def data_sectors_nth)
qed

subsection \<open>Finding the sector of a byte\<close>

lemma bc_step_fs:
  fixes s s' :: "'z fs_state_scheme"
  assumes "bc_step s s'"
  shows "inodes s' = inodes s" "files s' = files s" "free_map s' = free_map s"
    "free_map_file s' = free_map_file s" "open_inodes s' = open_inodes s" "get_inode ip s' = get_inode ip s"
    "fs_state.more s' = fs_state.more s"
  using assms by (cases s; cases s'; simp add: bc_step_def get_inode_def)+

lemma bc_step_view:
  assumes "bc_step s s'"
  shows "bc_inv s'" "bc_dev_valid s' = bc_dev_valid s" "bc_sect s' = bc_sect s"
  using assms by (simp_all add: bc_step_def)

lemma index_blocks_mem:
  assumes "i < n"
  shows "\<not> i < 123 \<Longrightarrow> indirect_block d \<in> set (index_blocks c d n)"
    and "\<not> i < 251 \<Longrightarrow> doubly_indirect_block d \<in> set (index_blocks c d n)"
    and "\<not> i < 251 \<Longrightarrow> block_of (c (doubly_indirect_block d)) ! ((i - 251) div 128) \<in> set (index_blocks c d n)"
  using assms DIV_ROUND_UP_less [of 128 "i - 251" "n - 251"] by (auto simp: index_blocks_def)

lemma index_to_sector_step:
  fixes s :: "'z fs_state_scheme"
  assumes inv: "bc_inv s" and ok: "inode_ok (bc_dev_valid s) (bc_sect s) d" and i: "i < nsec d"
  shows "\<exists>s'. index_to_sector d i s = Some (sector_of (bc_sect s) d i, s') \<and> bc_step s s'"
proof -
  have len: "length (direct_blocks d) = 123" and lim: "i < 16635"
    using ok i by (simp_all add: inode_ok_def)
  have ix: "t \<in> set (index_blocks (bc_sect s) d (nsec d)) \<Longrightarrow> bc_dev_valid s t \<and> length (bc_sect s t) = 512" for t
    using ok by (simp add: inode_ok_def)
  note mem = index_blocks_mem [OF i, where d = d and c = "bc_sect s"]
  consider "i < 123" | "\<not> i < 123" "i < 251" | "\<not> i < 123" "\<not> i < 251" by blast
  then show ?thesis
  proof cases
    case 1
    then show ?thesis
      using len inv by (simp add: index_to_sector_def sector_of_def DIRECT_BLOCKS_COUNT_def)
  next
    case 2
    from ix [OF mem(1) [OF 2(1)]] buffer_cache_read_step [OF inv, of "indirect_block d"] 2
    show ?thesis
      by (auto simp: index_to_sector_def sector_of_def DIRECT_BLOCKS_COUNT_def INDIRECT_BLOCKS_PER_SECTOR_def Let_def)
  next
    case 3
    let ?b = "block_of (bc_sect s (doubly_indirect_block d)) ! ((i - 251) div 128)"
    obtain s1 where s1: "buffer_cache_read (doubly_indirect_block d) s = Some (bc_sect s (doubly_indirect_block d), s1)"
        "bc_step s s1"
      using ix [OF mem(2) [OF 3(2)]] buffer_cache_read_step [OF inv] by blast
    note v1 = bc_step_view [OF s1(2)]
    obtain s2 where s2: "buffer_cache_read ?b s1 = Some (bc_sect s ?b, s2)" "bc_step s1 s2"
      using ix [OF mem(3) [OF 3(2)]] buffer_cache_read_step [OF v1(1), of ?b] v1 by auto
    have j: "(i - 251) div 128 < 128" using 3 lim by linarith
    show ?thesis
      using 3 lim j s1 s2 ix [OF mem(2) [OF 3(2)]] ix [OF mem(3) [OF 3(2)]] bc_step_trans [OF s1(2) s2(2)]
      by (simp add: index_to_sector_def sector_of_def DIRECT_BLOCKS_COUNT_def INDIRECT_BLOCKS_PER_SECTOR_def Let_def)
  qed
qed

lemma byte_to_sector_step:
  fixes s :: "'z fs_state_scheme"
  assumes "bc_inv s" and "get_inode ip s = Some ino" and "inode_ok (bc_dev_valid s) (bc_sect s) (data ino)"
    and "0 \<le> ps"
  shows "\<exists>s'. byte_to_sector ip ps s =
      Some (if ps < dlength (data ino) then sector_of (bc_sect s) (data ino) (nat ps div 512) else - 1, s') \<and> bc_step s s'"
proof (cases "ps < dlength (data ino)")
  case True
  then have "nat ps div 512 < nsec (data ino)" using assms(4) by (intro nsec_covers) simp
  from index_to_sector_step [OF assms(1,3) this] True assms(2,4) show ?thesis
    by (simp add: byte_to_sector_def nat_div_distrib)
next
  case False
  then show ?thesis using assms by (simp add: byte_to_sector_def)
qed

subsection \<open>Reading\<close>

lemma same_block:
  assumes "a mod k + j < (k :: nat)" shows "(a + j) div k = a div k" and "(a + j) mod k = a mod k + j"
proof -
  have e: "k * (a div k) + a mod k = a" by simp
  show d: "(a + j) div k = a div k"
    using assms e by (intro div_nat_eqI; simp only: mult_Suc_right; linarith)
  have "k * ((a + j) div k) + (a + j) mod k = a + j" by (rule mult_div_mod_eq)
  then show "(a + j) mod k = a mod k + j" using e unfolding d by linarith
qed

text \<open>The part of a file that one turn of the loops moves lies in one sector.\<close>

lemma file_bytes_slice:
  assumes ok: "inode_ok v c d" and "a mod 512 + n \<le> 512" and "a + n \<le> nat (dlength d)" and "0 < n"
  shows "take n (drop a (file_bytes c d)) = take n (drop (a mod 512) (c (sector_of c d (a div 512))))"
    (is "?l = ?r")
proof -
  have a: "a < nat (dlength d)" using assms by linarith
  then have "a div 512 < nsec d" by (rule nsec_covers)
  then have sec: "length (c (sector_of c d (a div 512))) = 512"
    using ok sector_of_in by (auto simp: inode_ok_def)
  then have len: "length ?l = n" "length ?r = n" using assms by (simp_all add: length_file_bytes [OF ok])
  show ?thesis
  proof (rule nth_equalityI)
    fix j assume "j < length ?l"
    then have j: "j < n" using len by simp
    have "(a + j) div 512 = a div 512" "(a + j) mod 512 = a mod 512 + j"
      using same_block [of a 512 j] j assms(2) by simp_all
    then show "?l ! j = ?r ! j"
      using j assms file_bytes_nth [OF ok, of "a + j"] sec by (simp add: length_file_bytes [OF ok])
  qed (use len in simp)
qed

lemma inode_ok_sector:
  assumes "inode_ok v c d" and "0 \<le> ofs" and "ofs < dlength d"
  shows "v (sector_of c d (nat ofs div 512))" and "length (c (sector_of c d (nat ofs div 512))) = 512"
    and "nat ofs div 512 < nsec d"
proof -
  show "nat ofs div 512 < nsec d" using assms by (intro nsec_covers) simp
  then show "v (sector_of c d (nat ofs div 512))" "length (c (sector_of c d (nat ofs div 512))) = 512"
    using assms(1) sector_of_in [of _ d c] by (auto simp: inode_ok_def)
qed

lemma nat_mod_512: "0 \<le> ofs \<Longrightarrow> nat (ofs mod 512) = nat ofs mod 512"
  by (simp add: nat_mod_distrib)

lemma chunk_of_at_end [simp]: "inode_left \<le> 0 \<Longrightarrow> chunk_of inode_left sector_left sz \<le> 0"
  by (simp add: chunk_of_def Let_def)

lemma chunk_of_bounds:
  assumes "0 < sz" and "ofs < len" and "k = chunk_of (len - ofs) (512 - ofs mod 512) sz"
  shows "0 < k" "k \<le> sz" "ofs + k \<le> len" "ofs mod 512 + k \<le> 512"
proof -
  have "ofs mod 512 < 512" by simp
  then show "0 < k" "k \<le> sz" "ofs + k \<le> len" "ofs mod 512 + k \<le> 512"
    using assms by (auto simp: chunk_of_def Let_def)
qed

lemma length_take_le: "length (take m xs) \<le> m"
  by simp

lemma add_le_rest: "k \<le> n \<Longrightarrow> b + n \<le> l \<Longrightarrow> m \<le> n - k \<Longrightarrow> b + k + m \<le> (l :: nat)"
  by linarith

lemma min_rest:
  assumes "0 < k" "k \<le> sz" "ofs + k \<le> len" "ofs mod 512 + k \<le> 512" and "0 \<le> ofs"
  shows "min (nat sz) (nat len - nat ofs) - nat k = min (nat (sz - k)) (nat len - nat (ofs + k))"
proof -
  have "nat (sz - k) = nat sz - nat k" "nat (ofs + k) = nat ofs + nat k"
    using assms by (simp_all add: nat_add_distrib nat_diff_distrib)
  then show ?thesis by (simp only: diff_diff_left [symmetric] min_diff)
qed

lemma take_drop_chunks: "m \<le> n \<Longrightarrow> take m (drop i xs) @ take (n - m) (drop (i + m) xs) = take n (drop i xs)"
  using take_add [of m "n - m" "drop i xs"] by (simp add: add.commute)

lemma inode_read_loop_correct:
  fixes s :: "'z fs_state_scheme"
  assumes "bc_inv s" and "get_inode ip s = Some ino" and "inode_ok (bc_dev_valid s) (bc_sect s) (data ino)"
    and "0 \<le> ofs" "ofs < 2 ^ 31" and "0 \<le> br" and "n = min (nat sz) (nat (dlength (data ino)) - nat ofs)"
    and "nat br + n \<le> length buf"
  shows "\<exists>s'. inode_read_loop ip buf sz ofs br s =
      Some (br + int n, put_at buf (nat br) (take n (drop (nat ofs) (file_bytes (bc_sect s) (data ino)))), s') \<and>
      bc_step s s'"
  using assms
proof (induction "nat sz" arbitrary: sz buf ofs br n s rule: less_induct)
  case less
  let ?d = "data ino" and ?c = "bc_sect s"
  note ok = less.prems(3)
  have dl: "0 \<le> dlength ?d" "dlength ?d < 2 ^ 31" using ok by (simp_all add: inode_ok_def)
  show ?case
  proof (cases "0 < sz")
    case False
    then show ?thesis using less.prems by (subst inode_read_loop.simps) simp
  next
    case True
    obtain s1 where s1: "byte_to_sector ip ofs s =
        Some (if ofs < dlength ?d then sector_of ?c ?d (nat ofs div 512) else - 1, s1)" "bc_step s s1"
      using byte_to_sector_step [OF less.prems(1-4)] by blast
    have il: "inode_length ip s1 = Some (dlength ?d)"
      using less.prems(2) by (simp add: inode_length_def bc_step_fs [OF s1(2)])
    show ?thesis
    proof (cases "ofs < dlength ?d")
      case False
      then show ?thesis using True s1 il less.prems dl
        by (subst inode_read_loop.simps) (auto simp: Let_def)
    next
      case lt: True
      define k where "k = chunk_of (dlength ?d - ofs) (512 - ofs mod 512) sz"
      note k = chunk_of_bounds [OF True lt k_def]
      let ?t = "sector_of ?c ?d (nat ofs div 512)"
      have t: "bc_dev_valid s ?t" "length (?c ?t) = 512"
        using inode_ok_sector [OF ok less.prems(4) lt] by simp_all
      note v1 = bc_step_view [OF s1(2)]
      obtain s2 where s2: "buffer_cache_read ?t s1 = Some (?c ?t, s2)" "bc_step s1 s2"
        using buffer_cache_read_step [OF v1(1), of ?t] t v1 by auto
      have st: "bc_step s s2" using s1(2) s2(2) by (rule bc_step_trans)
      define p where "p = take (nat k) (drop (nat ofs) (file_bytes ?c ?d))"
      have sl: "take (nat k) (drop (nat (ofs mod 512)) (?c ?t)) = p"
        unfolding p_def nat_mod_512 [OF less.prems(4)] using k less.prems(4)
        by (intro file_bytes_slice [OF ok, symmetric]) (auto simp: nat_mod_512 [symmetric])
      have piece: "read_piece (?c ?t) (ofs mod 512) k = Some p"
        using sl k t(2) by (auto simp: read_piece_def mem_get_def)
      have lp: "length p = nat k"
        using k less.prems(4) by (simp add: p_def length_file_bytes [OF ok])
      let ?buf = "put_at buf (nat br) p"
      have nk: "nat k \<le> n" using k less.prems(4,7) by (simp add: nat_diff_distrib [symmetric] nat_mono)
      then have put: "mem_put buf br p = Some ?buf"
        using less.prems(6,8) k by (simp add: mem_put_def lp)
      have "inode_read_loop ip buf sz ofs br s = inode_read_loop ip ?buf (sz - k) (ofs + k) (br + k) s2"
        using True lt s1(1) il s2(1) piece put k(1,3) dl less.prems(4)
        by (subst inode_read_loop.simps) (simp add: Let_def k_def [symmetric])
      moreover have "\<exists>s'. inode_read_loop ip ?buf (sz - k) (ofs + k) (br + k) s2 =
          Some (br + k + int (n - nat k), put_at ?buf (nat (br + k))
            (take (n - nat k) (drop (nat (ofs + k)) (file_bytes (bc_sect s2) ?d))), s') \<and> bc_step s2 s'"
      proof (rule less.hyps)
        show "nat (sz - k) < nat sz" using True k by simp
        show "bc_inv s2" "inode_ok (bc_dev_valid s2) (bc_sect s2) ?d" using bc_step_view [OF st] ok by simp_all
        show "get_inode ip s2 = Some ino" using bc_step_fs(6) [OF st] less.prems(2) by simp
        show "0 \<le> ofs + k" "ofs + k < 2 ^ 31" "0 \<le> br + k" using k dl less.prems(4,6) by linarith+
        show "n - nat k = min (nat (sz - k)) (nat (dlength ?d) - nat (ofs + k))"
          unfolding less.prems(7) using k less.prems(4) by (rule min_rest)
        show "nat (br + k) + (n - nat k) \<le> length ?buf"
          using nk lp less.prems(6,8) k(1) by (simp add: nat_add_distrib)
      qed
      moreover have "put_at ?buf (nat (br + k)) (take (n - nat k) (drop (nat (ofs + k)) (file_bytes ?c ?d))) =
          put_at buf (nat br) (take n (drop (nat ofs) (file_bytes ?c ?d)))"
      proof -
        have br: "nat (br + k) = nat br + length p" "nat (ofs + k) = nat ofs + nat k"
          using k(1) less.prems(4,6) by (simp_all add: lp nat_add_distrib)
        have "nat br + length p + length (take (n - nat k) (drop (nat ofs + nat k) (file_bytes ?c ?d))) \<le> length buf"
          using nk less.prems(8) length_take_le [of "n - nat k"] unfolding lp by (rule add_le_rest)
        from put_at_put_at [OF this] show ?thesis unfolding br using nk by (simp add: p_def take_drop_chunks)
      qed
      ultimately show ?thesis
        using bc_step_trans [OF st] bc_step_view [OF st] nk k by auto
    qed
  qed
qed

subsection \<open>Writing\<close>

text \<open>A step that writes only data sectors of \<open>d\<close>.\<close>

definition data_step :: "inode_disk \<Rightarrow> 'z bc_state_scheme \<Rightarrow> 'z bc_state_scheme \<Rightarrow> bool" where
  "data_step d s s' \<longleftrightarrow> bc_inv s' \<and> bc_dev_valid s' = bc_dev_valid s \<and>
     bc_state.more s' = bc_state.more s \<and> fs_device s' = fs_device s \<and>
     (\<forall>t. t \<notin> set (data_sectors (bc_sect s) d) \<longrightarrow> bc_sect s' t = bc_sect s t) \<and>
     (\<forall>t. length (bc_sect s t) = 512 \<longrightarrow> length (bc_sect s' t) = 512)"

lemma data_step_fs:
  fixes s s' :: "'z fs_state_scheme"
  assumes "data_step d s s'"
  shows "inodes s' = inodes s" "files s' = files s" "free_map s' = free_map s"
    "free_map_file s' = free_map_file s" "open_inodes s' = open_inodes s" "get_inode ip s' = get_inode ip s"
    "fs_state.more s' = fs_state.more s"
  using assms by (cases s; cases s'; simp add: data_step_def get_inode_def)+

lemma data_step_read: "bc_step s s' \<Longrightarrow> data_step d s s'"
  by (simp add: bc_step_def data_step_def)

text \<open>Sector numbers depend on the index blocks only.\<close>

lemma sector_of_cong:
  assumes "\<And>t. t \<in> set (index_blocks c d n) \<Longrightarrow> c' t = c t" and "i < n"
  shows "sector_of c' d i = sector_of c d i"
  using assms(1) index_blocks_mem [OF assms(2), where d = d and c = c] by (auto simp: sector_of_def)

lemma index_blocks_cong:
  assumes "\<And>t. t \<in> set (index_blocks c d n) \<Longrightarrow> c' t = c t"
  shows "index_blocks c' d n = index_blocks c d n"
  using assms by (auto simp: index_blocks_def)

lemma data_sectors_cong:
  "(\<And>t. t \<in> set (index_blocks c d (nsec d)) \<Longrightarrow> c' t = c t) \<Longrightarrow> data_sectors c' d = data_sectors c d"
  by (auto simp: data_sectors_def intro: sector_of_cong [where n = "nsec d"])

lemma data_step_layout:
  assumes "data_step d s s'" and "inode_sep (bc_sect s) d"
  shows "data_sectors (bc_sect s') d = data_sectors (bc_sect s) d"
    and "index_blocks (bc_sect s') d (nsec d) = index_blocks (bc_sect s) d (nsec d)"
    and "inode_sep (bc_sect s') d"
    and "i < nsec d \<Longrightarrow> sector_of (bc_sect s') d i = sector_of (bc_sect s) d i"
    and "inode_ok (bc_dev_valid s) (bc_sect s) d \<Longrightarrow> inode_ok (bc_dev_valid s') (bc_sect s') d"
proof -
  have *: "t \<in> set (index_blocks (bc_sect s) d (nsec d)) \<Longrightarrow> bc_sect s' t = bc_sect s t" for t
    using assms by (auto simp: data_step_def inode_sep_def)
  show ds: "data_sectors (bc_sect s') d = data_sectors (bc_sect s) d"
    and ib: "index_blocks (bc_sect s') d (nsec d) = index_blocks (bc_sect s) d (nsec d)"
    using * by (auto intro: data_sectors_cong index_blocks_cong)
  show "inode_sep (bc_sect s') d" using assms(2) by (simp add: inode_sep_def ds ib)
  show "i < nsec d \<Longrightarrow> sector_of (bc_sect s') d i = sector_of (bc_sect s) d i"
    using * by (auto intro: sector_of_cong [where n = "nsec d"])
  show "inode_ok (bc_dev_valid s) (bc_sect s) d \<Longrightarrow> inode_ok (bc_dev_valid s') (bc_sect s') d"
    using assms(1) by (auto simp: inode_ok_def ds ib data_step_def)
qed

lemma data_step_trans:
  assumes "data_step d s t" and "data_step d t u" and "inode_sep (bc_sect s) d"
  shows "data_step d s u"
  using assms data_step_layout(1) [OF assms(1,3)] by (auto simp: data_step_def)

text \<open>Replacing part of one data sector replaces the same bytes of the file.\<close>

lemma file_bytes_put:
  assumes ok: "inode_ok v c d" and sep: "inode_sep c d"
    and p: "a mod 512 + length p \<le> 512" "a + length p \<le> nat (dlength d)" "p \<noteq> []"
    and c': "c' = c(sector_of c d (a div 512) := put_at (c (sector_of c d (a div 512))) (a mod 512) p)"
  shows "file_bytes c' d = put_at (file_bytes c d) a p"
proof -
  let ?t = "sector_of c d (a div 512)"
  have a: "a < nat (dlength d)" using p by (cases p) auto
  then have n: "a div 512 < nsec d" by (rule nsec_covers)
  then have t: "length (c ?t) = 512" using ok sector_of_in [OF n, of c] by (auto simp: inode_ok_def)
  have "?t \<notin> set (index_blocks c d (nsec d))" using sep sector_of_in [OF n, of c] by (auto simp: inode_sep_def)
  then have ix: "\<And>t. t \<in> set (index_blocks c d (nsec d)) \<Longrightarrow> c' t = c t" by (auto simp: c')
  have "length (c' u) = 512" if "length (c u) = 512" for u using that t p by (simp add: c')
  then have ok': "inode_ok v c' d"
    using ok by (auto simp: inode_ok_def data_sectors_cong [OF ix] index_blocks_cong [OF ix])
  have inj: "sector_of c d i = ?t \<longleftrightarrow> i = a div 512" if "i < nsec d" for i
    using sep that n by (simp add: inode_sep_def distinct_conv_nth data_sectors_nth) blast
  show ?thesis
  proof (rule nth_equalityI)
    show "length (file_bytes c' d) = length (put_at (file_bytes c d) a p)"
      using p by (simp add: length_file_bytes [OF ok] length_file_bytes [OF ok'])
  next
    fix j assume "j < length (file_bytes c' d)"
    then have j: "j < nat (dlength d)" by (simp add: length_file_bytes [OF ok'])
    then have jn: "j div 512 < nsec d" by (rule nsec_covers)
    have "file_bytes c' d ! j = c' (sector_of c d (j div 512)) ! (j mod 512)"
      using file_bytes_nth [OF ok' j] sector_of_cong [OF ix jn] by simp
    also have "\<dots> = put_at (file_bytes c d) a p ! j"
    proof (cases "j div 512 = a div 512")
      case True
      have "512 * (a div 512) + a mod 512 = a" "512 * (j div 512) + j mod 512 = j" by simp_all
      with True have *: "a mod 512 \<le> j mod 512 \<longleftrightarrow> a \<le> j" "j mod 512 < a mod 512 + length p \<longleftrightarrow> j < a + length p"
          "j mod 512 - a mod 512 = j - a" by linarith+
      have "c' (sector_of c d (j div 512)) ! (j mod 512) = put_at (c ?t) (a mod 512) p ! (j mod 512)"
        using True by (simp add: c')
      then show ?thesis
        using True p t j file_bytes_nth [OF ok j] by (simp add: nth_put_at * length_file_bytes [OF ok])
    next
      case False
      have "\<not> (a \<le> j \<and> j < a + length p)"
      proof
        assume "a \<le> j \<and> j < a + length p"
        then have "(a + (j - a)) div 512 = a div 512" using p by (intro same_block) linarith
        with \<open>a \<le> j \<and> j < a + length p\<close> False show False by simp
      qed
      moreover have "c' (sector_of c d (j div 512)) = c (sector_of c d (j div 512))"
        using inj [OF jn] False by (simp add: c')
      ultimately show ?thesis
        using p j file_bytes_nth [OF ok j] by (auto simp: nth_put_at length_file_bytes [OF ok])
    qed
    finally show "file_bytes c' d ! j = put_at (file_bytes c d) a p ! j" .
  qed
qed

lemma write_piece_step:
  fixes s :: "'z fs_state_scheme"
  assumes inv: "bc_inv s" and v: "bc_dev_valid s t" and len: "length (bc_sect s t) = 512"
    and p: "0 \<le> so" "0 < k" "so + k \<le> 512" "int (length p) = k"
  shows "\<exists>s'. write_piece t so k p s = Some s' \<and> bc_inv s' \<and> bc_dev_valid s' = bc_dev_valid s \<and>
     bc_sect s' = (bc_sect s)(t := put_at (bc_sect s t) (nat so) p) \<and>
     bc_state.more s' = bc_state.more s \<and> fs_device s' = fs_device s"
proof (cases "so > 0 \<or> k < 512")
  case True
  obtain s1 where s1: "buffer_cache_read t s = Some (bc_sect s t, s1)" "bc_step s s1"
    using buffer_cache_read_step [OF inv v] by blast
  let ?b = "put_at (bc_sect s t) (nat so) p"
  have put: "mem_put (bc_sect s t) so p = Some ?b" using p len by (simp add: mem_put_def)
  have "length ?b = 512" using p len by (subst length_put_at) auto
  then obtain s2 where "buffer_cache_write t ?b s1 = Some s2" "bc_inv s2" "bc_dev_valid s2 = bc_dev_valid s1"
      "bc_sect s2 = (bc_sect s1)(t := ?b)" "bc_state.more s2 = bc_state.more s1" "fs_device s2 = fs_device s1"
    using buffer_cache_write_step [of s1 t ?b] v bc_step_view [OF s1(2)] by auto
  moreover have "write_piece t so k p s = buffer_cache_write t ?b s1"
    using True p s1(1) put by (auto simp: write_piece_def Let_def)
  ultimately show ?thesis using s1(2) by (simp add: bc_step_def)
next
  case False
  then have "so = 0" "k = 512" "length p = 512" using p by auto
  with buffer_cache_write_step [OF inv v, of p] len show ?thesis
    by (simp add: write_piece_def put_at_all)
qed

lemma inode_write_loop_correct:
  fixes s :: "'z fs_state_scheme"
  assumes "bc_inv s" and "get_inode ip s = Some ino" and "inode_ok (bc_dev_valid s) (bc_sect s) (data ino)"
    and "inode_sep (bc_sect s) (data ino)"
    and "0 \<le> ofs" "ofs < 2 ^ 31" and "0 \<le> bw" and "n = min (nat sz) (nat (dlength (data ino)) - nat ofs)"
    and "nat bw + n \<le> length buf"
  shows "\<exists>s'. inode_write_loop ip buf sz ofs bw s = Some (bw + int n, s') \<and> data_step (data ino) s s' \<and>
      file_bytes (bc_sect s') (data ino) =
        put_at (file_bytes (bc_sect s) (data ino)) (nat ofs) (take n (drop (nat bw) buf))"
  using assms
proof (induction "nat sz" arbitrary: sz ofs bw n s rule: less_induct)
  case less
  let ?d = "data ino" and ?c = "bc_sect s"
  note ok = less.prems(3) and sep = less.prems(4)
  have dl: "0 \<le> dlength ?d" "dlength ?d < 2 ^ 31" using ok by (simp_all add: inode_ok_def)
  have refl: "data_step ?d s s" using less.prems(1) by (simp add: data_step_def)
  show ?case
  proof (cases "0 < sz")
    case False
    then show ?thesis using less.prems refl by (subst inode_write_loop.simps) auto
  next
    case True
    obtain s1 where s1: "byte_to_sector ip ofs s =
        Some (if ofs < dlength ?d then sector_of ?c ?d (nat ofs div 512) else - 1, s1)" "bc_step s s1"
      using byte_to_sector_step [OF less.prems(1-3,5)] by blast
    have il: "inode_length ip s1 = Some (dlength ?d)"
      using less.prems(2) by (simp add: inode_length_def bc_step_fs [OF s1(2)])
    show ?thesis
    proof (cases "ofs < dlength ?d")
      case False
      then show ?thesis using True s1 il less.prems dl data_step_read [OF s1(2)] bc_step_view [OF s1(2)]
        by (subst inode_write_loop.simps) (auto simp: Let_def)
    next
      case lt: True
      define k where "k = chunk_of (dlength ?d - ofs) (512 - ofs mod 512) sz"
      note k = chunk_of_bounds [OF True lt k_def]
      let ?t = "sector_of ?c ?d (nat ofs div 512)"
      note t = inode_ok_sector [OF ok less.prems(5) lt]
      note v1 = bc_step_view [OF s1(2)]
      have nk: "nat k \<le> n" using k less.prems(5,8) by (simp add: nat_diff_distrib [symmetric] nat_mono)
      define p where "p = take (nat k) (drop (nat bw) buf)"
      have lp: "length p = nat k" using nk less.prems(9) by (simp add: p_def)
      then have "p \<noteq> []" using k by auto
      have piece: "mem_get buf bw k = Some p"
        using nk less.prems(7,9) k by (simp add: mem_get_def p_def)
      obtain s2 where s2: "write_piece ?t (ofs mod 512) k p s1 = Some s2" "bc_inv s2"
          "bc_dev_valid s2 = bc_dev_valid s" "bc_sect s2 = ?c(?t := put_at (?c ?t) (nat ofs mod 512) p)"
          "bc_state.more s2 = bc_state.more s1" "fs_device s2 = fs_device s1"
        using write_piece_step [of s1 ?t "ofs mod 512" k p] t k lp v1 less.prems(5) by (auto simp: nat_mod_512)
      have fb: "file_bytes (bc_sect s2) ?d = put_at (file_bytes ?c ?d) (nat ofs) p"
        by (rule file_bytes_put [OF ok sep _ _ \<open>p \<noteq> []\<close> s2(4)])
          (use k lp less.prems(5) in \<open>simp_all add: nat_mod_512 [symmetric]\<close>)
      have "length (put_at (?c ?t) (nat ofs mod 512) p) = 512"
        using t(2) k lp less.prems(5) by (subst length_put_at) (simp_all add: nat_mod_512 [symmetric])
      then have st: "data_step ?d s s2"
        using s1(2) s2 sector_of_in [OF t(3), of ?c] by (auto simp: data_step_def bc_step_def)
      have "inode_write_loop ip buf sz ofs bw s = inode_write_loop ip buf (sz - k) (ofs + k) (bw + k) s2"
        using True lt s1(1) il piece s2(1) k(1,3) dl less.prems(5)
        by (subst inode_write_loop.simps) (simp add: Let_def k_def [symmetric])
      moreover have "\<exists>s'. inode_write_loop ip buf (sz - k) (ofs + k) (bw + k) s2 =
          Some (bw + k + int (n - nat k), s') \<and> data_step ?d s2 s' \<and>
          file_bytes (bc_sect s') ?d =
            put_at (file_bytes (bc_sect s2) ?d) (nat (ofs + k)) (take (n - nat k) (drop (nat (bw + k)) buf))"
      proof (rule less.hyps)
        show "nat (sz - k) < nat sz" using True k by simp
        show "bc_inv s2" by (rule s2(2))
        show "inode_ok (bc_dev_valid s2) (bc_sect s2) ?d" "inode_sep (bc_sect s2) ?d"
          using data_step_layout [OF st sep] ok by simp_all
        show "get_inode ip s2 = Some ino" using data_step_fs(6) [OF st] less.prems(2) by simp
        show "0 \<le> ofs + k" "ofs + k < 2 ^ 31" "0 \<le> bw + k" using k dl less.prems(5,7) by linarith+
        show "n - nat k = min (nat (sz - k)) (nat (dlength ?d) - nat (ofs + k))"
          unfolding less.prems(8) using k less.prems(5) by (rule min_rest)
        show "nat (bw + k) + (n - nat k) \<le> length buf"
          using nk less.prems(7,9) k(1) by (simp add: nat_add_distrib)
      qed
      moreover have "put_at (put_at (file_bytes ?c ?d) (nat ofs) p) (nat (ofs + k))
            (take (n - nat k) (drop (nat (bw + k)) buf)) =
          put_at (file_bytes ?c ?d) (nat ofs) (take n (drop (nat bw) buf))"
      proof -
        have of: "nat (ofs + k) = nat ofs + length p" "nat (bw + k) = nat bw + nat k"
          using k(1) less.prems(5,7) by (simp_all add: lp nat_add_distrib)
        have "n \<le> nat (dlength ?d) - nat ofs" "nat ofs \<le> nat (dlength ?d)"
          using less.prems(8) lt by simp_all
        then have n: "nat ofs + n \<le> length (file_bytes ?c ?d)"
          unfolding length_file_bytes [OF ok] by linarith
        have "nat ofs + length p + length (take (n - nat k) (drop (nat bw + nat k) buf)) \<le> length (file_bytes ?c ?d)"
          using nk n length_take_le [of "n - nat k"] unfolding lp by (rule add_le_rest)
        from put_at_put_at [OF this] show ?thesis unfolding of using nk by (simp add: p_def take_drop_chunks)
      qed
      ultimately show ?thesis
        using data_step_trans [OF st _ sep] nk k by (auto simp: fb)
    qed
  qed
qed

end
