(* ===== verification/Inode.thy ===== *)
theory Inode
  imports Inode_Disk
begin

text \<open>
  The allocation side of \<open>src/a3/fs/inode.c\<close>, with \<open>free_map_allocate\<close> and \<open>free_map_release\<close> of
  \<open>src/a3/fs/free-map.c\<close> and \<open>bitmap_write\<close> of \<open>src/a3/fs/bitmap.c\<close>, which are one recursion in the
  program: \<open>inode_write_at\<close> extends a file by \<open>inode_reserve\<close>, which takes sectors by
  \<open>free_map_allocate\<close>, which saves the free map by \<open>bitmap_write\<close>, which ends in \<open>inode_write_at\<close> on the
  inode of the free map. The functions below the write take it as the argument \<open>wr\<close>;
  \<open>inode_write_at_depth\<close> ties the knot, and \<open>inode_write_at\<close> is the knot tied to depth 2: a write to
  a file, and inside of it writes of the free map. A deeper call happens only when the free map does not
  fit its own file; it is outside of the model (\<open>None\<close>), and the theorems show that it does not happen in
  states where the free map fits.
\<close>

subsection \<open>Taking and releasing sectors\<close>

type_synonym 'z writer = "nat \<Rightarrow> byte list \<Rightarrow> int \<Rightarrow> int \<Rightarrow> 'z fs_state_scheme \<Rightarrow> (int \<times> 'z fs_state_scheme) option"

definition file_write_at_via :: "'z writer \<Rightarrow> nat \<Rightarrow> byte list \<Rightarrow> int \<Rightarrow> int \<Rightarrow> 'z fs_state_scheme \<Rightarrow> (int \<times> 'z fs_state_scheme) option" where
  "file_write_at_via wr fp buf sz file_ofs s = do {
     f \<leftarrow> get_file fp s;
     wr (f_inode f) buf sz file_ofs s
   }"

definition bitmap_write :: "'z writer \<Rightarrow> bitmap \<Rightarrow> nat \<Rightarrow> 'z fs_state_scheme \<Rightarrow> (bool \<times> 'z fs_state_scheme) option" where
  "bitmap_write wr b fp s = do {
     let sz = int (byte_cnt (bit_cnt b));
     (n, s) \<leftarrow> file_write_at_via wr fp (bitmap_image b) sz 0 s;
     Some (n = sz, s)
   }"

text \<open>The result is the sector stored through \<open>sectorp\<close>, or \<open>None\<close> when the function returns false.\<close>

definition free_map_allocate ::
  "'z writer \<Rightarrow> nat \<Rightarrow> 'z fs_state_scheme \<Rightarrow> (block_sector_t option \<times> 'z fs_state_scheme) option" where
  "free_map_allocate wr cnt s = do {
     (idx, fm) \<leftarrow> bitmap_scan_and_flip (free_map s) 0 cnt False;
     let sec = (of_nat idx :: block_sector_t);
     let s = s\<lparr>free_map := fm\<rparr>;
     if unat sec \<noteq> BITMAP_ERROR
     then (case free_map_file s of
             None \<Rightarrow> Some (Some sec, s)
           | Some fp \<Rightarrow> do {
               (ok, s) \<leftarrow> bitmap_write wr (free_map s) fp s;
               if ok then Some (Some sec, s)
               else do {
                 fm \<leftarrow> bitmap_set_multiple (free_map s) (unat sec) cnt False;
                 Some (None, s\<lparr>free_map := fm\<rparr>)
               }
             })
     else Some (None, s)
   }"

definition free_map_release ::
  "'z writer \<Rightarrow> block_sector_t \<Rightarrow> nat \<Rightarrow> 'z fs_state_scheme \<Rightarrow> 'z fs_state_scheme option" where
  "free_map_release wr sec cnt s = do {
     fm \<leftarrow> bitmap_set_multiple (free_map s) (unat sec) cnt False;
     let s = s\<lparr>free_map := fm\<rparr>;
     fp \<leftarrow> free_map_file s;
     (_, s) \<leftarrow> bitmap_write wr fm fp s;
     Some s
   }"

subsection \<open>Growing a file\<close>

text \<open>The static buffer \<open>zeros\<close>.\<close>

definition zeros :: "byte list" where
  "zeros = replicate 512 0"

text \<open>
  One entry of an array of sector numbers: allocated and cleared when it is 0. The same lines are the
  loop body for the direct blocks and the base case of \<open>inode_reserve_indirect\<close>.
\<close>

definition reserve_entry ::
  "'z writer \<Rightarrow> block_sector_t \<Rightarrow> 'z fs_state_scheme \<Rightarrow> (bool \<times> block_sector_t \<times> 'z fs_state_scheme) option" where
  "reserve_entry wr p_entry s =
     (if p_entry = 0 then do {
        (r, s) \<leftarrow> free_map_allocate wr 1 s;
        (case r of
           None \<Rightarrow> Some (False, p_entry, s)
         | Some sec \<Rightarrow> do {
             s \<leftarrow> buffer_cache_write sec zeros s;
             Some (True, sec, s)
           })
      } else Some (True, p_entry, s))"

text \<open>
  The loops over an array of entries: entries \<open>i\<close>, \<open>i + 1\<close>, ... are reserved with \<open>f\<close>, each for at
  most \<open>unit\<close> of the sectors that are left; the first failure ends the loop. \<open>m\<close> counts the turns
  that are left.
\<close>

primrec reserve_loop ::
  "(block_sector_t \<Rightarrow> nat \<Rightarrow> 'z fs_state_scheme \<Rightarrow> (bool \<times> block_sector_t \<times> 'z fs_state_scheme) option) \<Rightarrow>
   nat \<Rightarrow> nat \<Rightarrow> nat \<Rightarrow> nat \<Rightarrow> block_sector_t list \<Rightarrow> 'z fs_state_scheme \<Rightarrow>
   (bool \<times> block_sector_t list \<times> 'z fs_state_scheme) option" where
  "reserve_loop f unt 0 i num_sectors blks s = Some (True, blks, s)"
| "reserve_loop f unt (Suc m) i num_sectors blks s = do {
     let subsize = min num_sectors unt;
     e \<leftarrow> arr_get blks i;
     (ok, e, s) \<leftarrow> f e subsize s;
     if ok then reserve_loop f unt m (Suc i) (num_sectors - subsize) (blks[i := e]) s
     else Some (False, blks[i := e], s)
   }"

text \<open>The number of data sectors one entry of an indirect block of a level stands for.\<close>

definition level_unit :: "nat \<Rightarrow> nat" where
  "level_unit level = (if level = 1 then 1 else INDIRECT_BLOCKS_PER_SECTOR)"

text \<open>
  The result is the return value and the new \<open>*p_entry\<close>. Above level 0 the result of
  \<open>free_map_allocate\<close> is ignored, and the indirect block is only written back when every entry
  succeeded, as in the source.
\<close>

primrec inode_reserve_indirect ::
  "nat \<Rightarrow> 'z writer \<Rightarrow> block_sector_t \<Rightarrow> nat \<Rightarrow> 'z fs_state_scheme \<Rightarrow>
   (bool \<times> block_sector_t \<times> 'z fs_state_scheme) option" where
  "inode_reserve_indirect 0 wr p_entry num_sectors s = reserve_entry wr p_entry s"
| "inode_reserve_indirect (Suc level) wr p_entry num_sectors s = do {
     (p_entry, s) \<leftarrow>
       (if p_entry = 0 then do {
          (r, s) \<leftarrow> free_map_allocate wr 1 s;
          let p_entry = (case r of None \<Rightarrow> p_entry | Some sec \<Rightarrow> sec);
          s \<leftarrow> buffer_cache_write p_entry zeros s;
          Some (p_entry, s)
        } else Some (p_entry, s));
     (blk, s) \<leftarrow> buffer_cache_read p_entry s;
     let unt = level_unit (Suc level);
     (ok, blks, s) \<leftarrow> reserve_loop (inode_reserve_indirect level wr) unt
                          (DIV_ROUND_UP num_sectors unt) 0 num_sectors (block_of blk) s;
     if ok then do {
       s \<leftarrow> buffer_cache_write p_entry (block_bytes blks) s;
       Some (True, p_entry, s)
     } else Some (False, p_entry, s)
   }"

text \<open>The result is the return value and the new contents of \<open>*disk_inode\<close>.\<close>

definition inode_reserve ::
  "'z writer \<Rightarrow> inode_disk \<Rightarrow> int \<Rightarrow> 'z fs_state_scheme \<Rightarrow> (bool \<times> inode_disk \<times> 'z fs_state_scheme) option" where
  "inode_reserve wr d len s =
     (if len < 0 then Some (False, d, s)
      else do {
        num_sectors \<leftarrow> bytes_to_sectors len;
        let l = min num_sectors (DIRECT_BLOCKS_COUNT * 1);
        (ok, bs, s) \<leftarrow> reserve_loop (\<lambda>e _. reserve_entry wr e) 1 l 0 l (direct_blocks d) s;
        let d = d\<lparr>direct_blocks := bs\<rparr>;
        if \<not> ok then Some (False, d, s)
        else do {
          let num_sectors = num_sectors - l;
          if num_sectors = 0 then Some (True, d, s)
          else do {
            let l = min num_sectors (1 * INDIRECT_BLOCKS_PER_SECTOR);
            (ok, e, s) \<leftarrow> inode_reserve_indirect 1 wr (indirect_block d) l s;
            let d = d\<lparr>indirect_block := e\<rparr>;
            if \<not> ok then Some (False, d, s)
            else do {
              let num_sectors = num_sectors - l;
              if num_sectors = 0 then Some (True, d, s)
              else do {
                let l = min num_sectors (1 * INDIRECT_BLOCKS_PER_SECTOR * INDIRECT_BLOCKS_PER_SECTOR);
                (ok, e, s) \<leftarrow> inode_reserve_indirect 2 wr (doubly_indirect_block d) l s;
                let d = d\<lparr>doubly_indirect_block := e\<rparr>;
                if \<not> ok then Some (False, d, s)
                else Some (num_sectors - l = 0, d, s)
              }
            }
          }
        }
      })"

definition inode_allocate ::
  "'z writer \<Rightarrow> inode_disk \<Rightarrow> 'z fs_state_scheme \<Rightarrow> (bool \<times> inode_disk \<times> 'z fs_state_scheme) option" where
  "inode_allocate wr d s = inode_reserve wr d (dlength d) s"

text \<open>The part of \<open>inode_write_at\<close> before its loop: the extension of the file.\<close>

definition inode_extend ::
  "'z writer \<Rightarrow> nat \<Rightarrow> int \<Rightarrow> 'z fs_state_scheme \<Rightarrow> (bool \<times> 'z fs_state_scheme) option" where
  "inode_extend wr ip len s = do {
     ino \<leftarrow> get_inode ip s;
     (ok, d, s) \<leftarrow> inode_reserve wr (data ino) len s;
     if \<not> ok then Some (False, set_inode ip (ino\<lparr>data := d\<rparr>) s)
     else do {
       let d = d\<lparr>dlength := len\<rparr>;
       s \<leftarrow> buffer_cache_write (sector ino) (inode_disk_bytes d) (set_inode ip (ino\<lparr>data := d\<rparr>) s);
       Some (True, s)
     }
   }"

definition inode_write_via :: "'z writer \<Rightarrow> 'z writer" where
  "inode_write_via wr ip buf sz ofs s = do {
     ino \<leftarrow> get_inode ip s;
     if deny_write_cnt ino \<noteq> 0 then Some (0, s)
     else do {
       len \<leftarrow> int32 (ofs + sz);
       last \<leftarrow> int32 (len - 1);
       (sec, s) \<leftarrow> byte_to_sector ip last s;
       (ok, s) \<leftarrow> (if sec = - 1 then inode_extend wr ip len s else Some (True, s));
       if ok then inode_write_loop ip buf sz ofs 0 s else Some (0, s)
     }
   }"

primrec inode_write_at_depth :: "nat \<Rightarrow> 'z writer" where
  "inode_write_at_depth 0 = (\<lambda>ip buf sz ofs s. None)"
| "inode_write_at_depth (Suc n) = inode_write_via (inode_write_at_depth n)"

definition inode_write_at :: "'z writer" where
  "inode_write_at = inode_write_at_depth 2"

subsection \<open>Releasing a file\<close>

text \<open>The loop over the entries of an indirect block, with \<open>f\<close> for the recursive call.\<close>

primrec deallocate_loop ::
  "(block_sector_t \<Rightarrow> nat \<Rightarrow> 'z fs_state_scheme \<Rightarrow> 'z fs_state_scheme option) \<Rightarrow>
   nat \<Rightarrow> nat \<Rightarrow> nat \<Rightarrow> nat \<Rightarrow> block_sector_t list \<Rightarrow> 'z fs_state_scheme \<Rightarrow> 'z fs_state_scheme option" where
  "deallocate_loop f unt 0 i num_sectors blks s = Some s"
| "deallocate_loop f unt (Suc m) i num_sectors blks s = do {
     let subsize = min num_sectors unt;
     e \<leftarrow> arr_get blks i;
     s \<leftarrow> f e subsize s;
     deallocate_loop f unt m (Suc i) (num_sectors - subsize) blks s
   }"

primrec inode_deallocate_indirect ::
  "nat \<Rightarrow> 'z writer \<Rightarrow> block_sector_t \<Rightarrow> nat \<Rightarrow> 'z fs_state_scheme \<Rightarrow> 'z fs_state_scheme option" where
  "inode_deallocate_indirect 0 wr entry num_sectors s = free_map_release wr entry 1 s"
| "inode_deallocate_indirect (Suc level) wr entry num_sectors s = do {
     (blk, s) \<leftarrow> buffer_cache_read entry s;
     let unt = level_unit (Suc level);
     s \<leftarrow> deallocate_loop (inode_deallocate_indirect level wr) unt
            (DIV_ROUND_UP num_sectors unt) 0 num_sectors (block_of blk) s;
     free_map_release wr entry 1 s
   }"

definition inode_deallocate :: "'z writer \<Rightarrow> nat \<Rightarrow> 'z fs_state_scheme \<Rightarrow> (bool \<times> 'z fs_state_scheme) option" where
  "inode_deallocate wr ip s = do {
     ino \<leftarrow> get_inode ip s;
     let d = data ino;
     if dlength d < 0 then Some (False, s)
     else do {
       num_sectors \<leftarrow> bytes_to_sectors (dlength d);
       let l = min num_sectors (DIRECT_BLOCKS_COUNT * 1);
       s \<leftarrow> deallocate_loop (\<lambda>e _. free_map_release wr e 1) 1 l 0 l (direct_blocks d) s;
       let num_sectors = num_sectors - l;
       let l = min num_sectors (1 * INDIRECT_BLOCKS_PER_SECTOR);
       s \<leftarrow> (if l > 0 then inode_deallocate_indirect 1 wr (indirect_block d) l s else Some s);
       let num_sectors = num_sectors - l;
       let l = min num_sectors (1 * INDIRECT_BLOCKS_PER_SECTOR * INDIRECT_BLOCKS_PER_SECTOR);
       s \<leftarrow> (if l > 0 then inode_deallocate_indirect 2 wr (doubly_indirect_block d) l s else Some s);
       Some (True, s)
     }
   }"

subsection \<open>Open inodes\<close>

definition inode_init :: "'z fs_state_scheme \<Rightarrow> 'z fs_state_scheme" where
  "inode_init s = s\<lparr>open_inodes := []\<rparr>"

definition inode_create ::
  "block_sector_t \<Rightarrow> int \<Rightarrow> bool \<Rightarrow> 'z fs_state_scheme \<Rightarrow> (bool \<times> 'z fs_state_scheme) option" where
  "inode_create sec len isdir s = do {
     let d = \<lparr>direct_blocks = replicate 123 0, indirect_block = 0, doubly_indirect_block = 0,
              is_dir = isdir, dlength = len, magic = INODE_MAGIC\<rparr>;
     (ok, d, s) \<leftarrow> inode_allocate inode_write_at d s;
     if ok then do {
       s \<leftarrow> buffer_cache_write sec (inode_disk_bytes d) s;
       Some (True, s)
     } else Some (False, s)
   }"

text \<open>The search of \<open>inode_open\<close> through the list of open inodes.\<close>

primrec find_open :: "nat list \<Rightarrow> block_sector_t \<Rightarrow> 'z fs_state_scheme \<Rightarrow> nat option option" where
  "find_open [] sec s = Some None"
| "find_open (ip # ips) sec s = do {
     ino \<leftarrow> get_inode ip s;
     if sector ino = sec then Some (Some ip) else find_open ips sec s
   }"

definition inode_reopen :: "nat \<Rightarrow> nat" where
  "inode_reopen ip = ip"

definition inode_open :: "block_sector_t \<Rightarrow> 'z fs_state_scheme \<Rightarrow> (nat \<times> 'z fs_state_scheme) option" where
  "inode_open sec s = do {
     hit \<leftarrow> find_open (open_inodes s) sec s;
     (case hit of
        Some ip \<Rightarrow> Some (inode_reopen ip, s)
      | None \<Rightarrow> do {
          let ip = length (inodes s);
          (blk, s) \<leftarrow> buffer_cache_read sec s;
          let ino = \<lparr>sector = sec, open_cnt = 1, removed = False, deny_write_cnt = 0, data = inode_disk_of blk\<rparr>;
          Some (ip, s\<lparr>inodes := inodes s @ [Some ino], open_inodes := ip # open_inodes s\<rparr>)
        })
   }"

definition inode_get_inumber :: "nat \<Rightarrow> 'z fs_state_scheme \<Rightarrow> block_sector_t option" where
  "inode_get_inumber ip s = map_option sector (get_inode ip s)"

text \<open>
  \<open>list_remove\<close> unlinks the element; \<open>free\<close> ends the life of the object. An argument of
  \<open>None\<close> is the null pointer.
\<close>

definition inode_close :: "nat option \<Rightarrow> 'z fs_state_scheme \<Rightarrow> 'z fs_state_scheme option" where
  "inode_close p s =
     (case p of
        None \<Rightarrow> Some s
      | Some ip \<Rightarrow> do {
          ino \<leftarrow> get_inode ip s;
          cnt \<leftarrow> int32 (open_cnt ino - 1);
          let s = set_inode ip (ino\<lparr>open_cnt := cnt\<rparr>) s;
          if cnt = 0 then do {
            let s = s\<lparr>open_inodes := remove1 ip (open_inodes s)\<rparr>;
            s \<leftarrow> (if removed ino then do {
                   s \<leftarrow> free_map_release inode_write_at (sector ino) 1 s;
                   (_, s) \<leftarrow> inode_deallocate inode_write_at ip s;
                   Some s
                 } else Some s);
            Some (s\<lparr>inodes := (inodes s)[ip := None]\<rparr>)
          } else Some s
        })"

definition inode_remove :: "nat \<Rightarrow> 'z fs_state_scheme \<Rightarrow> 'z fs_state_scheme option" where
  "inode_remove ip s = do {
     ino \<leftarrow> get_inode ip s;
     Some (set_inode ip (ino\<lparr>removed := True\<rparr>) s)
   }"

definition inode_deny_write :: "nat \<Rightarrow> 'z fs_state_scheme \<Rightarrow> 'z fs_state_scheme option" where
  "inode_deny_write ip s = do {
     ino \<leftarrow> get_inode ip s;
     n \<leftarrow> int32 (deny_write_cnt ino + 1);
     Some (set_inode ip (ino\<lparr>deny_write_cnt := n\<rparr>) s)
   }"

definition inode_allow_write :: "nat \<Rightarrow> 'z fs_state_scheme \<Rightarrow> 'z fs_state_scheme option" where
  "inode_allow_write ip s = do {
     ino \<leftarrow> get_inode ip s;
     n \<leftarrow> int32 (deny_write_cnt ino - 1);
     Some (set_inode ip (ino\<lparr>deny_write_cnt := n\<rparr>) s)
   }"

definition inode_is_directory :: "nat \<Rightarrow> 'z fs_state_scheme \<Rightarrow> bool option" where
  "inode_is_directory ip s = map_option (\<lambda>ino. is_dir (data ino)) (get_inode ip s)"

definition inode_is_removed :: "nat \<Rightarrow> 'z fs_state_scheme \<Rightarrow> bool option" where
  "inode_is_removed ip s = map_option removed (get_inode ip s)"

text \<open>
  \<open>get_inode_data_sectors\<close>: the sectors in the order in which the three parts of the source store them.
  The entries of an indirect block are copied one by one; the loop over the second level reads one
  more indirect block per turn.
\<close>

definition copy_entries :: "block_sector_t list \<Rightarrow> nat \<Rightarrow> block_sector_t list option" where
  "copy_entries blks l = (if l \<le> length blks then Some (take l blks) else None)"

primrec copy_second_level ::
  "nat \<Rightarrow> nat \<Rightarrow> nat \<Rightarrow> block_sector_t list \<Rightarrow> 'z fs_state_scheme \<Rightarrow> (block_sector_t list \<times> 'z fs_state_scheme) option" where
  "copy_second_level 0 i num_sectors2 blks s = Some ([], s)"
| "copy_second_level (Suc m) i num_sectors2 blks s = do {
     let subsize = min num_sectors2 INDIRECT_BLOCKS_PER_SECTOR;
     e \<leftarrow> arr_get blks i;
     (blk, s) \<leftarrow> buffer_cache_read e s;
     xs \<leftarrow> copy_entries (block_of blk) (DIV_ROUND_UP subsize 1);
     (ys, s) \<leftarrow> copy_second_level m (Suc i) (num_sectors2 - subsize) blks s;
     Some (xs @ ys, s)
   }"

definition get_inode_data_sectors ::
  "nat \<Rightarrow> 'z fs_state_scheme \<Rightarrow> (block_sector_t list option \<times> 'z fs_state_scheme) option" where
  "get_inode_data_sectors ip s = do {
     ino \<leftarrow> get_inode ip s;
     let d = data ino;
     if dlength d < 0 then Some (None, s)
     else do {
       num_sectors \<leftarrow> bytes_to_sectors (dlength d);
       let l = min num_sectors (DIRECT_BLOCKS_COUNT * 1);
       xs \<leftarrow> copy_entries (direct_blocks d) l;
       let num_sectors = num_sectors - l;
       let l = min num_sectors (1 * INDIRECT_BLOCKS_PER_SECTOR);
       (ys, s) \<leftarrow> (if l > 0 then do {
                    (blk, s) \<leftarrow> buffer_cache_read (indirect_block d) s;
                    ys \<leftarrow> copy_entries (block_of blk) (DIV_ROUND_UP l 1);
                    Some (ys, s)
                  } else Some ([], s));
       let num_sectors = num_sectors - l;
       let l = min num_sectors (1 * INDIRECT_BLOCKS_PER_SECTOR * INDIRECT_BLOCKS_PER_SECTOR);
       (zs, s) \<leftarrow> (if l > 0 then do {
                    (blk, s) \<leftarrow> buffer_cache_read (doubly_indirect_block d) s;
                    copy_second_level (DIV_ROUND_UP l INDIRECT_BLOCKS_PER_SECTOR) 0 l (block_of blk) s
                  } else Some ([], s));
       Some (Some (xs @ ys @ zs), s)
     }
   }"

subsection \<open>What the inode layer leaves alone\<close>

text \<open>
  No operation of this layer, in any state, touches what its clients keep: the table of open files and the
  directories are in the part \<open>fs_state.more\<close> of the state.
\<close>

lemma bc_more_fs:
  fixes s s' :: "'z fs_state_scheme"
  assumes "bc_state.more s' = bc_state.more s"
  shows "fs_state.more s' = fs_state.more s"
  using assms by (cases s; cases s'; simp)

lemma buffer_cache_frame [frame]:
  fixes s s' :: "'z fs_state_scheme"
  shows "buffer_cache_read t s = Some (b, s') \<Longrightarrow> fs_state.more s' = fs_state.more s"
    and "buffer_cache_write t b s = Some s' \<Longrightarrow> fs_state.more s' = fs_state.more s"
  by (auto dest: buffer_cache_read_more buffer_cache_write_more bc_more_fs)

lemma set_inode_more [simp]: "fs_state.more (set_inode ip i s) = fs_state.more s"
  by (simp add: set_inode_def)

lemma index_to_sector_frame [frame]: "index_to_sector d i s = Some (t, s') \<Longrightarrow> fs_state.more s' = fs_state.more s"
  by (auto simp: index_to_sector_def Let_def split: bind_splits if_splits dest!: frame)

lemma byte_to_sector_frame [frame]: "byte_to_sector ip p s = Some (t, s') \<Longrightarrow> fs_state.more s' = fs_state.more s"
  by (auto simp: byte_to_sector_def split: bind_splits if_splits dest!: frame)

lemma inode_read_loop_frame [frame]:
  fixes s s' :: "'z fs_state_scheme"
  shows "inode_read_loop ip buf sz ofs br s = Some (n, b, s') \<Longrightarrow> fs_state.more s' = fs_state.more s"
proof (induction "nat sz" arbitrary: buf sz ofs br s n b s' rule: less_induct)
  case less
  have IH: "fs_state.more t' = fs_state.more t"
    if "inode_read_loop ip xs (sz - k) o' b' t = Some (m, ys, t')" "\<not> k \<le> 0" "0 < sz" for xs k o' b' m ys and t t' :: "'z fs_state_scheme"
    by (rule less.hyps [OF _ that(1)]) (use that in simp)
  show ?case
    using less.prems by (subst (asm) inode_read_loop.simps)
      (auto simp: Let_def split: bind_splits if_splits dest!: frame IH)
qed

lemma write_piece_frame [frame]: "write_piece t so k p s = Some s' \<Longrightarrow> fs_state.more s' = fs_state.more s"
  by (auto simp: write_piece_def Let_def split: bind_splits if_splits dest!: frame)

lemma inode_write_loop_frame [frame]:
  fixes s s' :: "'z fs_state_scheme"
  shows "inode_write_loop ip buf sz ofs bw s = Some (n, s') \<Longrightarrow> fs_state.more s' = fs_state.more s"
proof (induction "nat sz" arbitrary: sz ofs bw s n s' rule: less_induct)
  case less
  have IH: "fs_state.more t' = fs_state.more t"
    if "inode_write_loop ip buf (sz - k) o' b' t = Some (m, t')" "\<not> k \<le> 0" "0 < sz" for k o' b' m and t t' :: "'z fs_state_scheme"
    by (rule less.hyps [OF _ that(1)]) (use that in simp)
  show ?case
    using less.prems by (subst (asm) inode_write_loop.simps)
      (auto simp: Let_def split: bind_splits if_splits dest!: frame IH)
qed

text \<open>What the functions below \<open>inode_write_at\<close> need of the write they are given.\<close>

locale framed_writer =
  fixes wr :: "'z writer"
  assumes wr_frame [frame]: "wr ip buf sz ofs s = Some (n, s') \<Longrightarrow> fs_state.more s' = fs_state.more s"
begin

lemma bitmap_write_frame [frame]: "bitmap_write wr b fp s = Some (r, s') \<Longrightarrow> fs_state.more s' = fs_state.more s"
  by (auto simp: bitmap_write_def file_write_at_via_def Let_def split: bind_splits dest!: frame)

lemma free_map_allocate_frame [frame]: "free_map_allocate wr cnt s = Some (r, s') \<Longrightarrow> fs_state.more s' = fs_state.more s"
  by (auto simp: free_map_allocate_def Let_def split: bind_splits if_splits option.splits dest!: frame)

lemma free_map_release_frame [frame]: "free_map_release wr t cnt s = Some s' \<Longrightarrow> fs_state.more s' = fs_state.more s"
  by (auto simp: free_map_release_def Let_def split: bind_splits dest!: frame)

lemma reserve_entry_frame [frame]: "reserve_entry wr p s = Some (ok, e, s') \<Longrightarrow> fs_state.more s' = fs_state.more s"
  by (auto simp: reserve_entry_def split: bind_splits if_splits option.splits dest!: frame)

lemma reserve_loop_frame:
  assumes "\<And>e k s ok e' s'. f e k s = Some (ok, e', s') \<Longrightarrow> fs_state.more s' = fs_state.more s"
  shows "reserve_loop f unt m i k blks s = Some (ok, blks', s') \<Longrightarrow> fs_state.more s' = fs_state.more s"
  by (induction m arbitrary: i k blks s) (auto simp: Let_def split: bind_splits if_splits dest!: assms)

lemma inode_reserve_indirect_frame [frame]:
  "inode_reserve_indirect level wr p k s = Some (ok, e, s') \<Longrightarrow> fs_state.more s' = fs_state.more s"
proof (induction level arbitrary: p k s ok e s')
  case 0
  then show ?case by (auto dest: frame)
next
  case (Suc level)
  have loop: "reserve_loop (inode_reserve_indirect level wr) unt m i n blks t = Some (b, bl, t') \<Longrightarrow>
      fs_state.more t' = fs_state.more t" for unt m i n blks t b bl t'
    by (rule reserve_loop_frame [of "inode_reserve_indirect level wr"]) (rule Suc.IH)
  show ?case using Suc.prems by (auto simp: Let_def split: bind_splits if_splits dest!: loop frame)
qed

lemma reserve_direct_frame [frame]:
  "reserve_loop (\<lambda>e _. reserve_entry wr e) unt m i k blks s = Some (ok, blks', s') \<Longrightarrow> fs_state.more s' = fs_state.more s"
  by (rule reserve_loop_frame [of "\<lambda>e _. reserve_entry wr e"]) (rule reserve_entry_frame)

lemma inode_reserve_frame [frame]: "inode_reserve wr d len s = Some (ok, d', s') \<Longrightarrow> fs_state.more s' = fs_state.more s"
  by (auto simp: inode_reserve_def Let_def simp del: inode_reserve_indirect.simps
      split: bind_splits if_splits dest!: frame)

lemma inode_extend_frame [frame]: "inode_extend wr ip len s = Some (ok, s') \<Longrightarrow> fs_state.more s' = fs_state.more s"
  by (auto simp: inode_extend_def Let_def split: bind_splits if_splits dest!: frame)

lemma inode_write_via_frame [frame]: "inode_write_via wr ip buf sz ofs s = Some (n, s') \<Longrightarrow> fs_state.more s' = fs_state.more s"
  by (auto simp: inode_write_via_def split: bind_splits if_splits dest!: frame)

lemma inode_write_via_framed: "framed_writer (inode_write_via wr)"
  by unfold_locales (rule inode_write_via_frame)

lemma deallocate_loop_frame:
  assumes "\<And>e k s s'. f e k s = Some s' \<Longrightarrow> fs_state.more s' = fs_state.more s"
  shows "deallocate_loop f unt m i k blks s = Some s' \<Longrightarrow> fs_state.more s' = fs_state.more s"
  by (induction m arbitrary: i k s) (auto simp: Let_def split: bind_splits dest!: assms)

lemma inode_deallocate_indirect_frame [frame]:
  "inode_deallocate_indirect level wr p k s = Some s' \<Longrightarrow> fs_state.more s' = fs_state.more s"
proof (induction level arbitrary: p k s s')
  case 0
  then show ?case by (auto dest: frame)
next
  case (Suc level)
  have loop: "deallocate_loop (inode_deallocate_indirect level wr) unt m i n blks t = Some t' \<Longrightarrow>
      fs_state.more t' = fs_state.more t" for unt m i n blks t t'
    by (rule deallocate_loop_frame [of "inode_deallocate_indirect level wr"]) (rule Suc.IH)
  show ?case using Suc.prems by (auto simp: Let_def split: bind_splits dest!: loop frame)
qed

lemma deallocate_direct_frame [frame]:
  "deallocate_loop (\<lambda>e _. free_map_release wr e c) unt m i k blks s = Some s' \<Longrightarrow> fs_state.more s' = fs_state.more s"
  by (rule deallocate_loop_frame [of "\<lambda>e _. free_map_release wr e c"]) (rule free_map_release_frame)

lemma inode_deallocate_frame [frame]: "inode_deallocate wr ip s = Some (ok, s') \<Longrightarrow> fs_state.more s' = fs_state.more s"
  by (auto simp: inode_deallocate_def Let_def simp del: inode_deallocate_indirect.simps
      split: bind_splits if_splits dest!: frame)

end

text \<open>The write of the program is such a write, at every depth.\<close>

interpretation dw: framed_writer "inode_write_at_depth n" for n
proof (induction n)
  case 0
  show ?case by unfold_locales simp
next
  case (Suc n)
  then show ?case by (simp add: framed_writer.inode_write_via_framed)
qed

interpretation iw: framed_writer inode_write_at
  unfolding inode_write_at_def by (rule dw.framed_writer_axioms)

lemma inode_close_frame [frame]: "inode_close p s = Some s' \<Longrightarrow> fs_state.more s' = fs_state.more s"
  by (auto simp: inode_close_def Let_def split: bind_splits if_splits option.splits
      dest!: iw.free_map_release_frame iw.inode_deallocate_frame)

subsection \<open>Writing inside of a file\<close>

lemma inode_write_via_in_place:
  fixes s :: "'z fs_state_scheme"
  assumes "bc_inv s" and ino: "get_inode ip s = Some ino" and ok: "inode_ok (bc_dev_valid s) (bc_sect s) (data ino)"
    and sep: "inode_sep (bc_sect s) (data ino)" and "deny_write_cnt ino = 0"
    and "0 \<le> ofs" "0 < sz" "ofs + sz \<le> dlength (data ino)" and "sz \<le> int (length buf)"
  shows "\<exists>s'. inode_write_via wr ip buf sz ofs s = Some (sz, s') \<and> data_step (data ino) s s' \<and>
      file_bytes (bc_sect s') (data ino) =
        put_at (file_bytes (bc_sect s) (data ino)) (nat ofs) (take (nat sz) buf)"
proof -
  let ?d = "data ino"
  have dl: "dlength ?d < 2 ^ 31" using ok by (simp add: inode_ok_def)
  define q where "q = ofs + sz - 1"
  have q: "0 \<le> q" "q < dlength ?d" using assms by (simp_all add: q_def)
  obtain s1 where s1: "byte_to_sector ip q s = Some (sector_of (bc_sect s) ?d (nat q div 512), s1)" "bc_step s s1"
    using byte_to_sector_step [OF assms(1) ino ok q(1)] q(2) by auto
  have ne: "sector_of (bc_sect s) ?d (nat q div 512) \<noteq> - 1"
    using ok sector_of_in [OF inode_ok_sector(3) [OF ok q], of "bc_sect s"] by (auto simp: inode_ok_def)
  note v1 = bc_step_view [OF s1(2)] and f1 = bc_step_fs [OF s1(2)]
  have "\<exists>s'. inode_write_loop ip buf sz ofs 0 s1 = Some (0 + int (nat sz), s') \<and> data_step ?d s1 s' \<and>
      file_bytes (bc_sect s') ?d = put_at (file_bytes (bc_sect s1) ?d) (nat ofs) (take (nat sz) (drop (nat 0) buf))"
    using assms dl v1 f1 by (intro inode_write_loop_correct) (simp_all add: nat_diff_distrib [symmetric])
  moreover have "inode_write_via wr ip buf sz ofs s = inode_write_loop ip buf sz ofs 0 s1"
    using assms dl s1(1) ne by (simp add: inode_write_via_def q_def)
  ultimately show ?thesis
    using data_step_trans [OF data_step_read [OF s1(2)] _ sep] v1 assms(7) by auto
qed

subsection \<open>The free map on disk\<close>

text \<open>The state of a mounted file system as far as the free map goes: its file is open and has its size.\<close>

definition fm_inode :: "'z fs_state_scheme \<Rightarrow> inode option" where
  "fm_inode s = do {
     fp \<leftarrow> free_map_file s;
     f \<leftarrow> get_file fp s;
     get_inode (f_inode f) s
   }"

definition fm_ok :: "'z fs_state_scheme \<Rightarrow> bool" where
  "fm_ok s \<longleftrightarrow> bc_inv s \<and> bitmap_inv (free_map s) \<and> 0 < bit_cnt (free_map s) \<and> bit_cnt (free_map s) < 2 ^ 32 - 1 \<and>
     (case fm_inode s of
        None \<Rightarrow> False
      | Some ino \<Rightarrow> deny_write_cnt ino = 0 \<and> inode_ok (bc_dev_valid s) (bc_sect s) (data ino) \<and>
          inode_sep (bc_sect s) (data ino) \<and> dlength (data ino) = int (bitmap_file_size (free_map s)))"

lemma bitmap_write_saves:
  fixes s :: "'z fs_state_scheme"
  assumes "fm_ok s" and "fm_inode s = Some ino" and "free_map_file s = Some fp"
    and "bitmap_inv b" and "bit_cnt b = bit_cnt (free_map s)"
  shows "\<exists>s'. bitmap_write (inode_write_at_depth (Suc n)) b fp s = Some (True, s') \<and>
      data_step (data ino) s s' \<and> file_bytes (bc_sect s') (data ino) = bitmap_image b"
proof -
  obtain f where f: "get_file fp s = Some f" "get_inode (f_inode f) s = Some ino"
    using assms(2,3) by (auto simp: fm_inode_def split: bind_splits)
  have ok: "bc_inv s" "deny_write_cnt ino = 0" "inode_ok (bc_dev_valid s) (bc_sect s) (data ino)"
      "inode_sep (bc_sect s) (data ino)" "dlength (data ino) = int (byte_cnt (bit_cnt b))" "0 < bit_cnt b"
    using assms by (simp_all add: fm_ok_def bitmap_file_size_def)
  have len: "length (bitmap_image b) = byte_cnt (bit_cnt b)" using assms(4) by (rule length_bitmap_image)
  have pos: "0 < byte_cnt (bit_cnt b)" using ok(6) by (rule byte_cnt_pos)
  have "length (file_bytes (bc_sect s) (data ino)) = byte_cnt (bit_cnt b)"
    using length_file_bytes [OF ok(3)] ok(5) by simp
  then have "put_at (file_bytes (bc_sect s) (data ino)) 0 (bitmap_image b) = bitmap_image b"
    using len by (simp add: put_at_all)
  moreover have "\<exists>s'. inode_write_via (inode_write_at_depth n) (f_inode f) (bitmap_image b)
        (int (byte_cnt (bit_cnt b))) 0 s = Some (int (byte_cnt (bit_cnt b)), s') \<and> data_step (data ino) s s' \<and>
      file_bytes (bc_sect s') (data ino) =
        put_at (file_bytes (bc_sect s) (data ino)) (nat 0) (take (nat (int (byte_cnt (bit_cnt b)))) (bitmap_image b))"
    using ok f len pos by (intro inode_write_via_in_place) simp_all
  ultimately show ?thesis
    using f len by (auto simp: bitmap_write_def file_write_at_via_def Let_def)
qed

text \<open>Changes of the free map and of the heap leave the disk alone.\<close>

lemma fs_upd_simps [simp]:
  fixes s :: "'z fs_state_scheme"
  shows "bc_inv (s\<lparr>free_map := x\<rparr>) = bc_inv s" "bc_sect (s\<lparr>free_map := x\<rparr>) = bc_sect s"
    "bc_dev_valid (s\<lparr>free_map := x\<rparr>) = bc_dev_valid s"
    "bc_inv (s\<lparr>inodes := i\<rparr>) = bc_inv s" "bc_sect (s\<lparr>inodes := i\<rparr>) = bc_sect s"
    "bc_dev_valid (s\<lparr>inodes := i\<rparr>) = bc_dev_valid s"
    "get_inode ip (s\<lparr>free_map := x\<rparr>) = get_inode ip s" "get_file fp (s\<lparr>free_map := x\<rparr>) = get_file fp s"
    "get_file fp (s\<lparr>inodes := i\<rparr>) = get_file fp s"
    "fm_inode (s\<lparr>free_map := x\<rparr>) = fm_inode s"
  by (simp_all add: bc_inv_def bc_sect_def bc_dev_def bc_dev_valid_def get_inode_def get_file_def fm_inode_def)

lemma fm_inode_cong:
  "free_map_file s' = free_map_file s \<Longrightarrow> files s' = files s \<Longrightarrow> inodes s' = inodes s \<Longrightarrow> fm_inode s' = fm_inode s"
  by (simp add: fm_inode_def get_file_def get_inode_def)

lemma data_step_fm_inode: "data_step d s s' \<Longrightarrow> fm_inode s' = fm_inode s"
  by (intro fm_inode_cong) (simp_all add: data_step_fs)

text \<open>
  The effect of an allocation: nothing but the free map, its bit for the sector, and the data sectors of
  the free map file, which then hold the new free map.
\<close>

definition alloc_step :: "block_sector_t \<Rightarrow> inode \<Rightarrow> 'z fs_state_scheme \<Rightarrow> 'z fs_state_scheme \<Rightarrow> bool" where
  "alloc_step t fmi s s' \<longleftrightarrow>
     unat t < bit_cnt (free_map s) \<and> \<not> bval (free_map s) (unat t) \<and> bit_cnt (free_map s') = bit_cnt (free_map s) \<and>
     (\<forall>i < bit_cnt (free_map s). bval (free_map s') i \<longleftrightarrow> i = unat t \<or> bval (free_map s) i) \<and>
     data_step (data fmi) (s\<lparr>free_map := free_map s'\<rparr>) s' \<and>
     file_bytes (bc_sect s') (data fmi) = bitmap_image (free_map s')"

lemma free_map_allocate_step:
  fixes s :: "'z fs_state_scheme"
  assumes "fm_ok s" and "fm_inode s = Some fmi"
  shows "\<exists>r s'. free_map_allocate (inode_write_at_depth (Suc n)) 1 s = Some (r, s') \<and> fm_ok s' \<and>
     (case r of
        None \<Rightarrow> s' = s \<and> (\<forall>i < bit_cnt (free_map s). bval (free_map s) i)
      | Some t \<Rightarrow> alloc_step t fmi s s')"
proof -
  let ?b = "free_map s"
  have b: "bitmap_inv ?b" "bit_cnt ?b < BITMAP_ERROR"
    using assms(1) by (simp_all add: fm_ok_def BITMAP_ERROR_def)
  obtain fp where fp: "free_map_file s = Some fp"
    using assms(2) by (auto simp: fm_inode_def split: bind_splits)
  obtain idx b' where sf: "bitmap_scan_and_flip ?b 0 1 False = Some (idx, b')" "bitmap_inv b'"
      "bit_cnt b' = bit_cnt ?b" "if idx = BITMAP_ERROR then b' = ?b \<and> (\<forall>i < bit_cnt ?b. bval ?b i)
     else idx < bit_cnt ?b \<and> \<not> bval ?b idx \<and> (\<forall>i < bit_cnt ?b. bval b' i \<longleftrightarrow> i = idx \<or> bval ?b i)"
    using bitmap_take_one [OF b] by blast
  show ?thesis
  proof (cases "idx = BITMAP_ERROR")
    case True
    then have "s\<lparr>free_map := b'\<rparr> = s" using sf(4) by simp
    then show ?thesis using True sf assms by (auto simp: free_map_allocate_def Let_def BITMAP_ERROR_def)
  next
    case False
    let ?s = "s\<lparr>free_map := b'\<rparr>"
    have i: "idx < bit_cnt ?b" "\<not> bval ?b idx" "\<forall>i < bit_cnt ?b. bval b' i \<longleftrightarrow> i = idx \<or> bval ?b i"
      using sf(4) False by auto
    have un: "unat (of_nat idx :: block_sector_t) = idx"
      using i(1) b(2) by (simp add: unat_of_nat BITMAP_ERROR_def take_bit_nat_eq_self)
    have fm: "fm_ok ?s" using assms sf by (simp add: fm_ok_def bitmap_file_size_def)
    obtain s' where s': "bitmap_write (inode_write_at_depth (Suc n)) b' fp ?s = Some (True, s')"
        "data_step (data fmi) ?s s'" "file_bytes (bc_sect s') (data fmi) = bitmap_image b'"
      using bitmap_write_saves [OF fm, of fmi fp b' n] assms(2) fp sf(2) by auto
    have fms: "free_map s' = b'" using data_step_fs(3) [OF s'(2)] by simp
    have sep: "inode_sep (bc_sect ?s) (data fmi)" "inode_ok (bc_dev_valid ?s) (bc_sect ?s) (data fmi)"
      using assms by (simp_all add: fm_ok_def)
    have "fm_ok s'"
      using fm data_step_layout [OF s'(2) sep(1)] sep(2) s'(2) data_step_fm_inode [OF s'(2)] assms(2) fms
      by (simp add: fm_ok_def data_step_def)
    moreover have "free_map_allocate (inode_write_at_depth (Suc n)) 1 s = Some (Some (of_nat idx), s')"
      using sf(1) False un fp s'(1) by (simp add: free_map_allocate_def Let_def)
    moreover have "alloc_step (of_nat idx) fmi s s'"
      using i un s'(2,3) fms sf(3) by (simp add: alloc_step_def)
    ultimately show ?thesis by auto
  qed
qed

lemma free_map_allocate_full:
  assumes "bitmap_inv (free_map s)" and "bit_cnt (free_map s) < BITMAP_ERROR"
    and "\<forall>i < bit_cnt (free_map s). bval (free_map s) i"
  shows "free_map_allocate wr 1 s = Some (None, s)"
proof -
  obtain idx b' where sf: "bitmap_scan_and_flip (free_map s) 0 1 False = Some (idx, b')"
    "if idx = BITMAP_ERROR then b' = free_map s \<and> (\<forall>i < bit_cnt (free_map s). bval (free_map s) i)
     else idx < bit_cnt (free_map s) \<and> \<not> bval (free_map s) idx \<and>
       (\<forall>i < bit_cnt (free_map s). bval b' i \<longleftrightarrow> i = idx \<or> bval (free_map s) i)"
    using bitmap_take_one [OF assms(1,2)] by blast
  have e: "idx = BITMAP_ERROR" using sf(2) assms(3) by (auto split: if_splits)
  then have "s\<lparr>free_map := b'\<rparr> = s" using sf(2) by simp
  then show ?thesis using sf(1) e by (simp add: free_map_allocate_def Let_def BITMAP_ERROR_def)
qed

subsection \<open>An example state\<close>

text \<open>Eight sectors, which start with the bytes \<open>h\<close>: the free map inode in sector 0 with its data in sector 2, and a file of 600 bytes.\<close>

definition disk_inode_example :: "block_sector_t list \<Rightarrow> int \<Rightarrow> inode_disk" where
  "disk_inode_example bs len =
     \<lparr>direct_blocks = bs @ replicate (123 - length bs) 0, indirect_block = 0, doubly_indirect_block = 0,
      is_dir = False, dlength = len, magic = INODE_MAGIC\<rparr>"

definition inode_example :: "block_sector_t \<Rightarrow> block_sector_t list \<Rightarrow> int \<Rightarrow> inode" where
  "inode_example sec bs len =
     \<lparr>sector = sec, open_cnt = 1, removed = False, deny_write_cnt = 0, data = disk_inode_example bs len\<rparr>"

definition fs_example :: "byte list \<Rightarrow> 64 word \<Rightarrow> fs_state" where
  "fs_example h w =
     \<lparr>cache = replicate 64 cache_entry0, clock = 0,
      devs = snd (block_register ''hda'' ''x.dsk'' 8 ide_operations
        \<lparr>host = take 4096 (h @ replicate 4096 0), blocks = [], hard_drive = None\<rparr>), fs_device = 0,
      free_map = \<lparr>bit_cnt = 7, bits = [w]\<rparr>, free_map_file = Some 0,
      inodes = [Some (inode_example 0 [2] 8), Some (inode_example 3 [4, 5] 600)], open_inodes = [1, 0],
      files = [Some \<lparr>f_inode = 0, pos = 0, deny_write = False\<rparr>]\<rparr>"

lemma fs_example_inv [simp]: "bc_inv (fs_example h b)"
  by (auto simp: bc_inv_def fs_example_def uniq_def holds_def cache_entry0_def entry_ok_def)

lemma fs_example_valid [simp]: "bc_dev_valid (fs_example h b) t \<longleftrightarrow> t < 8"
proof -
  have "unat t \<le> 7 \<longleftrightarrow> t < 8" "t < 8 \<longleftrightarrow> unat t < 8" by (auto simp: word_less_nat_alt)
  then show ?thesis
    by (simp add: fs_example_def bc_dev_valid_def dev_valid_def dev_base.simps [of _ 0] block_register_def
        block_set_hd_def Let_def img_valid_def) linarith
qed

lemma fs_example_dev: "bc_sect (fs_example h b) t = (if t < 8 then take 512 (drop (512 * unat t) (take 4096 (h @ replicate 4096 0))) else bc_sect (fs_example h b) t)"
proof (cases "t < 8")
  case True
  have "\<not> holds (cache (fs_example h b)) i t" for i by (auto simp: fs_example_def holds_def cache_entry0_def)
  then show ?thesis using True
    by (simp add: bc_sect_def view_miss bc_dev_def dev_sect_def fs_example_def dev_base.simps [of _ 0]
        block_register_def block_set_hd_def Let_def img_sector_def mult.commute)
qed simp

lemma fs_example_sect: "t < 8 \<Longrightarrow> length (bc_sect (fs_example h b) t) = 512"
  using bc.sect_length [of "fs_example h b" t] by (simp add: bc_valid_def)

lemma disk_inode_example_ok:
  assumes "\<forall>t \<in> set bs. t < 8" and "0 \<le> len" "len < 2 ^ 31" "sector_count len = length bs" "length bs \<le> 123"
    and "distinct bs"
  shows "inode_ok (bc_dev_valid (fs_example h b)) (bc_sect (fs_example h b)) (disk_inode_example bs len)"
    and "inode_sep (bc_sect (fs_example h b)) (disk_inode_example bs len)"
proof -
  let ?d = "disk_inode_example bs len"
  have n: "nsec ?d = length bs" using assms by (simp add: nsec_def disk_inode_example_def)
  have "data_sectors c ?d = bs" for c
    by (rule nth_equalityI) (use n assms in \<open>simp_all add: data_sectors_nth sector_of_def disk_inode_example_def nth_append\<close>)
  moreover have "index_blocks c ?d (nsec ?d) = []" for c using n assms by (simp add: index_blocks_def)
  moreover have "\<not> (- 1 :: block_sector_t) < 8" by (rule word_order.extremum_strict)
  then have "- 1 \<notin> set bs" using assms(1) by blast
  ultimately show "inode_ok (bc_dev_valid (fs_example h b)) (bc_sect (fs_example h b)) ?d" "inode_sep (bc_sect (fs_example h b)) ?d"
    using n assms fs_example_sect by (auto simp: inode_ok_def inode_sep_def disk_inode_example_def)
qed

lemma fs_example_inode [simp]:
  "get_inode 0 (fs_example h b) = Some (inode_example 0 [2] 8)"
  "get_inode 1 (fs_example h b) = Some (inode_example 3 [4, 5] 600)"
  "get_inode (Suc 0) (fs_example h b) = Some (inode_example 3 [4, 5] 600)"
  by (simp_all add: fs_example_def get_inode_def deref_def)

lemma inode_example_simps [simp]:
  "data (inode_example sec bs len) = disk_inode_example bs len" "deny_write_cnt (inode_example sec bs len) = 0"
  "sector (inode_example sec bs len) = sec" "open_cnt (inode_example sec bs len) = 1"
  "removed (inode_example sec bs len) = False" "dlength (disk_inode_example bs len) = len"
  by (simp_all add: inode_example_def disk_inode_example_def)

lemma fs_example_files:
  "inode_ok (bc_dev_valid (fs_example h b)) (bc_sect (fs_example h b)) (disk_inode_example [2] 8)"
  "inode_sep (bc_sect (fs_example h b)) (disk_inode_example [2] 8)"
  "inode_ok (bc_dev_valid (fs_example h b)) (bc_sect (fs_example h b)) (disk_inode_example [4, 5] 600)"
  "inode_sep (bc_sect (fs_example h b)) (disk_inode_example [4, 5] 600)"
  by (rule disk_inode_example_ok; simp add: sector_count_def word_less_nat_alt)+

lemma fs_example_simps [simp]:
  "free_map (fs_example h b) = \<lparr>bit_cnt = 7, bits = [b]\<rparr>" "free_map_file (fs_example h b) = Some 0"
  "get_file 0 (fs_example h b) = Some \<lparr>f_inode = 0, pos = 0, deny_write = False\<rparr>" "open_inodes (fs_example h b) = [1, 0]"
  by (simp_all add: fs_example_def get_file_def deref_def)

lemma fs_example_fm: "fm_ok (fs_example h b)" and fs_example_fmi: "fm_inode (fs_example h b) = Some (inode_example 0 [2] 8)"
  using fs_example_files [of h b]
  by (simp_all add: fm_ok_def fm_inode_def bitmap_inv_def elem_cnt_def DIV_ROUND_UP_def ELEM_BITS_def
      bitmap_file_size_def byte_cnt_def)

subsection \<open>Three defects\<close>

lemma inode_write_at_Suc: "inode_write_at = inode_write_via (inode_write_at_depth 1)"
  by (simp add: inode_write_at_def numeral_2_eq_2)

lemma inode_reserve_0: "inode_reserve wr d 0 s = Some (True, d, s)"
  by (simp add: inode_reserve_def bytes_to_sectors_def Let_def)

lemma set_inode_simps [simp]:
  "bc_inv (set_inode ip i s) = bc_inv s" "bc_sect (set_inode ip i s) = bc_sect s"
  "bc_dev_valid (set_inode ip i s) = bc_dev_valid s" "inodes (set_inode ip i s) = (inodes s)[ip := Some i]"
  "open_inodes (set_inode ip i s) = open_inodes s"
  by (simp_all add: set_inode_def)

lemma get_set_inode: "get_inode ip s = Some i \<Longrightarrow> get_inode ip (set_inode ip j s) = Some j"
  by (simp add: get_inode_def deref_eq_Some set_inode_def)

lemma buffer_cache_write_fs:
  fixes s :: "'z fs_state_scheme"
  assumes "bc_inv s" and "bc_dev_valid s t" and "length b = 512"
  obtains s' where "buffer_cache_write t b s = Some s'" "bc_inv s'" "bc_dev_valid s' = bc_dev_valid s"
    "bc_sect s' = (bc_sect s)(t := b)" "bc_state.more s' = bc_state.more s" "inodes s' = inodes s"
    "free_map s' = free_map s" "free_map_file s' = free_map_file s" "files s' = files s" "open_inodes s' = open_inodes s"
proof -
  obtain s' where s': "buffer_cache_write t b s = Some s'" "bc_inv s'" "bc_dev_valid s' = bc_dev_valid s"
    "bc_sect s' = (bc_sect s)(t := b)" "bc_state.more s' = bc_state.more s"
    using buffer_cache_write_step [OF assms] by blast
  show ?thesis by (rule that [OF s']) (use s'(5) in \<open>cases s; cases s'; simp\<close>)+
qed

lemma empty_write_truncates:
  fixes s :: "'z fs_state_scheme"
  assumes "bc_inv s" and ino: "get_inode ip s = Some ino" and "deny_write_cnt ino = 0"
    and len: "length (direct_blocks (data ino)) = 123" and v: "bc_dev_valid s (sector ino)"
  shows "\<exists>s'. inode_write_at ip buf 0 0 s = Some (0, s') \<and> inode_length ip s' = Some 0 \<and>
    bc_sect s' (sector ino) = inode_disk_bytes ((data ino)\<lparr>dlength := 0\<rparr>)"
proof -
  let ?d = "(data ino)\<lparr>dlength := 0\<rparr>"
  let ?s = "set_inode ip (ino\<lparr>data := ?d\<rparr>) s"
  have "length (inode_disk_bytes ?d) = 512" using len by (intro length_inode_disk_bytes) simp
  then obtain s' where s': "buffer_cache_write (sector ino) (inode_disk_bytes ?d) ?s = Some s'"
      "bc_sect s' = (bc_sect ?s)(sector ino := inode_disk_bytes ?d)" "inodes s' = inodes ?s"
    using buffer_cache_write_fs [of ?s "sector ino"] assms(1) v by auto
  have "get_inode ip s' = Some (ino\<lparr>data := ?d\<rparr>)"
    using get_set_inode [OF ino] s'(3) by (simp add: get_inode_def)
  moreover have "byte_to_sector ip (- 1) s = Some (- 1, s)" using ino by (simp add: byte_to_sector_def)
  ultimately show ?thesis
    using assms s' by (simp add: inode_write_at_Suc inode_write_via_def inode_extend_def inode_reserve_0 Let_def
        inode_write_loop.simps inode_length_def)
qed

lemma second_opener_dangles:
  assumes "find_open (open_inodes s) sec s = Some (Some ip)" and "get_inode ip s = Some ino"
    and "open_cnt ino = 1" and "\<not> removed ino"
  shows "\<exists>s'. inode_open sec s = Some (ip, s) \<and> inode_close (Some ip) s = Some s' \<and> get_inode ip s' = None"
  using assms
  by (auto simp: inode_open_def inode_reopen_def inode_close_def Let_def get_inode_def deref_def set_inode_def
      arr_get_def split: if_splits)

lemma full_disk_clears_sector_0:
  fixes s :: "'z fs_state_scheme"
  assumes "bc_inv s" and v: "bc_dev_valid s 0" and "bitmap_inv (free_map s)" and "bit_cnt (free_map s) < BITMAP_ERROR"
    and "\<forall>i < bit_cnt (free_map s). bval (free_map s) i" and n: "0 < n" "n \<le> 128"
  shows "\<exists>s'. inode_reserve_indirect 1 wr 0 n s = Some (False, 0, s') \<and> bc_sect s' = (bc_sect s)(0 := zeros)"
proof -
  obtain s1 where s1: "buffer_cache_write 0 zeros s = Some s1" "bc_inv s1" "bc_dev_valid s1 = bc_dev_valid s"
      "bc_sect s1 = (bc_sect s)(0 := zeros)" "free_map s1 = free_map s"
    using buffer_cache_write_fs [OF assms(1) v, of zeros] by (auto simp: zeros_def)
  then obtain s2 where s2: "buffer_cache_read 0 s1 = Some (zeros, s2)" "bc_step s1 s2"
    using buffer_cache_read_step [of s1 0] v by auto
  have full: "free_map_allocate wr 1 t = Some (None, t)" if "free_map t = free_map s" for t
    using assms that by (intro free_map_allocate_full) simp_all
  have fm2: "free_map s2 = free_map s" using bc_step_fs(3) [OF s2(2)] s1(5) by simp
  have z: "block_of zeros = replicate 128 0"
    by (intro nth_equalityI) (simp_all add: zeros_def block_of_def le_words_def le_word_replicate)
  obtain m where "DIV_ROUND_UP n 1 = Suc m" using n by (cases n) (simp_all add: DIV_ROUND_UP_def)
  then show ?thesis
    using s1(1,4) s2 full [of s] full [OF fm2] bc_step_view [OF s2(2)] z
    by (simp add: reserve_entry_def level_unit_def Let_def)
qed

subsection \<open>Properties\<close>

text \<open>
  C19. \<open>inode_read_at\<close> returns, for every offset and every size, exactly the bytes the file has there: it
  reads the smaller of the size and the rest of the file, puts the slice at the start of the caller's
  buffer, leaves the rest of the buffer alone, and changes no file. The file may use direct, indirect and
  doubly indirect blocks.
\<close>

theorem inode_read_at_slice:
  fixes s :: "'z fs_state_scheme"
  assumes "bc_inv s" and "get_inode ip s = Some ino" and "inode_ok (bc_dev_valid s) (bc_sect s) (data ino)"
    and "0 \<le> ofs" "ofs < 2 ^ 31" and "n = min (nat sz) (nat (dlength (data ino)) - nat ofs)" and "n \<le> length buf"
  shows "\<exists>s'. inode_read_at ip buf sz ofs s =
      Some (int n, put_at buf 0 (take n (drop (nat ofs) (file_bytes (bc_sect s) (data ino)))), s') \<and>
      bc_sect s' = bc_sect s"
  using inode_read_loop_correct [OF assms(1-5), of 0 n sz buf] assms(6,7)
  by (auto simp: inode_read_at_def bc_step_def)

theorem inode_read_at_slice_witness:
  "\<exists>s'. inode_read_at 1 (replicate 100 0) 100 550 (fs_example [] 63) =
     Some (50, put_at (replicate 100 0) 0 (take 50 (drop 550 (file_bytes (bc_sect (fs_example [] 63)) (disk_inode_example [4, 5] 600)))), s')"
  using inode_read_at_slice [of "fs_example [] 63" 1 "inode_example 3 [4, 5] 600" 550 50 100 "replicate 100 0"]
    fs_example_files(3) by auto

text \<open>
  C18. A write that stays inside of a file replaces exactly the bytes it is meant to: the file afterwards
  is the old contents with the caller's bytes put at the offset, all bytes are reported as written, and no
  sector that is not a data sector of the file changes.
\<close>

theorem inode_write_at_in_place:
  fixes s :: "'z fs_state_scheme"
  assumes "bc_inv s" and "get_inode ip s = Some ino" and "inode_ok (bc_dev_valid s) (bc_sect s) (data ino)"
    and "inode_sep (bc_sect s) (data ino)" and "deny_write_cnt ino = 0"
    and "0 \<le> ofs" "0 < sz" "ofs + sz \<le> dlength (data ino)" and "sz \<le> int (length buf)"
  shows "\<exists>s'. inode_write_at ip buf sz ofs s = Some (sz, s') \<and>
      file_bytes (bc_sect s') (data ino) =
        put_at (file_bytes (bc_sect s) (data ino)) (nat ofs) (take (nat sz) buf) \<and>
      (\<forall>t. t \<notin> set (data_sectors (bc_sect s) (data ino)) \<longrightarrow> bc_sect s' t = bc_sect s t)"
  unfolding inode_write_at_Suc
  using inode_write_via_in_place [OF assms, of "inode_write_at_depth 1"] by (fastforce simp: data_step_def)

theorem inode_write_at_in_place_witness:
  "\<exists>s'. inode_write_at 1 [1, 2, 3] 3 511 (fs_example [] 63) = Some (3, s') \<and>
      file_bytes (bc_sect s') (disk_inode_example [4, 5] 600) =
        put_at (file_bytes (bc_sect (fs_example [] 63)) (disk_inode_example [4, 5] 600)) 511 [1, 2, 3]"
  using inode_write_at_in_place [of "fs_example [] 63" 1 "inode_example 3 [4, 5] 600" 511 3 "[1, 2, 3]"]
    fs_example_files(3,4) by auto

text \<open>An inode stored in a sector and loaded again is the same inode, and it fills the sector.\<close>

theorem inode_disk_round_trip:
  assumes "disk_wf d"
  shows "inode_disk_of (inode_disk_bytes d) = d \<and> length (inode_disk_bytes d) = BLOCK_SECTOR_SIZE"
  using assms inode_disk_of_bytes [OF assms] length_inode_disk_bytes [of d]
  by (simp add: disk_wf_def BLOCK_SECTOR_SIZE_def)

theorem inode_disk_round_trip_witness:
  "inode_disk_of (inode_disk_bytes (disk_inode_example [4, 5] 600)) = disk_inode_example [4, 5] 600"
  using inode_disk_round_trip [of "disk_inode_example [4, 5] 600"] by (simp add: disk_wf_def disk_inode_example_def)

text \<open>
  C20. With a mounted free map, \<open>free_map_allocate\<close> for one sector always returns: it hands out a sector that
  was free, marks exactly that sector, and saves the new free map in its file, changing only the data sectors
  of that file; or every sector is in use and nothing changes. The free map stays mounted, and the depth
  of nested writes that the model allows is enough.
\<close>

theorem free_map_allocate_saves:
  fixes s :: "'z fs_state_scheme"
  assumes "fm_ok s" and "fm_inode s = Some fmi"
  shows "\<exists>r s'. free_map_allocate (inode_write_at_depth (Suc n)) 1 s = Some (r, s') \<and> fm_ok s' \<and>
     (case r of
        None \<Rightarrow> s' = s \<and> (\<forall>i < bit_cnt (free_map s). bval (free_map s) i)
      | Some t \<Rightarrow> unat t < bit_cnt (free_map s) \<and> \<not> bval (free_map s) (unat t) \<and>
          (\<forall>i < bit_cnt (free_map s). bval (free_map s') i \<longleftrightarrow> i = unat t \<or> bval (free_map s) i) \<and>
          file_bytes (bc_sect s') (data fmi) = bitmap_image (free_map s') \<and>
          (\<forall>u. u \<notin> set (data_sectors (bc_sect s) (data fmi)) \<longrightarrow> bc_sect s' u = bc_sect s u))"
proof -
  obtain r s' where rs: "free_map_allocate (inode_write_at_depth (Suc n)) 1 s = Some (r, s')" "fm_ok s'"
    "case r of None \<Rightarrow> s' = s \<and> (\<forall>i < bit_cnt (free_map s). bval (free_map s) i) | Some t \<Rightarrow> alloc_step t fmi s s'"
    using free_map_allocate_step [OF assms, of n] by blast
  then show ?thesis by (cases r) (auto simp: alloc_step_def data_step_def)
qed

theorem free_map_allocate_saves_witness:
  "\<exists>r s'. free_map_allocate (inode_write_at_depth (Suc 0)) 1 (fs_example [] 63) = Some (r, s') \<and> fm_ok s'"
  using free_map_allocate_saves [OF fs_example_fm fs_example_fmi, of 0 "[]" 63] by blast

text \<open>
  A write of no bytes at offset 0 loses the file: \<open>inode_write_at\<close> takes the byte before the offset
  for a byte beyond the end, and sets the length of the inode, in memory and on disk, to 0.
\<close>

theorem inode_write_at_empty_truncates:
  fixes s :: "'z fs_state_scheme"
  assumes "bc_inv s" and "get_inode ip s = Some ino" and "deny_write_cnt ino = 0"
    and "length (direct_blocks (data ino)) = 123" and "bc_dev_valid s (sector ino)"
  shows "\<exists>s'. inode_write_at ip buf 0 0 s = Some (0, s') \<and> inode_length ip s' = Some 0 \<and>
    bc_sect s' (sector ino) = inode_disk_bytes ((data ino)\<lparr>dlength := 0\<rparr>)"
  using assms by (rule empty_write_truncates)

theorem inode_write_at_empty_truncates_witness:
  "inode_length 1 (fs_example [] 63) = Some 600 \<and>
   (\<exists>s'. inode_write_at 1 [] 0 0 (fs_example [] 63) = Some (0, s') \<and> inode_length 1 s' = Some 0)"
  using inode_write_at_empty_truncates [of "fs_example [] 63" 1 "inode_example 3 [4, 5] 600" "[]"]
  by (auto simp: inode_length_def disk_inode_example_def word_less_nat_alt)

text \<open>
  Opening an inode that is already open does not count the second opener: the first \<open>inode_close\<close>
  frees the inode, and the pointer the second opener holds dangles.
\<close>

theorem inode_open_not_counted:
  assumes "find_open (open_inodes s) sec s = Some (Some ip)" and "get_inode ip s = Some ino"
    and "open_cnt ino = 1" and "\<not> removed ino"
  shows "\<exists>s'. inode_open sec s = Some (ip, s) \<and> inode_close (Some ip) s = Some s' \<and> get_inode ip s' = None"
  using assms by (rule second_opener_dangles)

theorem inode_open_not_counted_witness:
  "\<exists>s'. inode_open 3 (fs_example [] 63) = Some (1, fs_example [] 63) \<and>
     inode_close (Some 1) (fs_example [] 63) = Some s' \<and> get_inode 1 s' = None"
  using inode_open_not_counted [of "fs_example [] 63" 3 1 "inode_example 3 [4, 5] 600"] by simp

text \<open>
  On a full disk, growing a file past its direct blocks overwrites sector 0, the inode of the free map,
  with zeros: \<open>inode_reserve_indirect\<close> ignores that no sector could be allocated and clears the sector number 0
  it started from.
\<close>

theorem inode_reserve_indirect_full_disk:
  fixes s :: "'z fs_state_scheme"
  assumes "bc_inv s" and "bc_dev_valid s 0" and "bitmap_inv (free_map s)" and "bit_cnt (free_map s) < BITMAP_ERROR"
    and "\<forall>i < bit_cnt (free_map s). bval (free_map s) i" and "0 < n" "n \<le> 128"
  shows "\<exists>s'. inode_reserve_indirect 1 wr 0 n s = Some (False, 0, s') \<and> bc_sect s' 0 = replicate 512 0"
  using full_disk_clears_sector_0 [OF assms, of wr] unfolding zeros_def [symmetric] by (metis fun_upd_same)

theorem inode_reserve_indirect_full_disk_witness:
  "\<exists>s'. inode_reserve_indirect 1 inode_write_at 0 1 (fs_example [] 127) = Some (False, 0, s') \<and>
     bc_sect s' 0 = replicate 512 0"
proof -
  have "bit (127 :: 64 word) i" if "i < 7" for i
    using that by (simp add: numeral_eq_Suc less_Suc_eq) (elim disjE; simp add: bit_simps)
  then have "\<forall>i < bit_cnt (free_map (fs_example [] 127)). bval (free_map (fs_example [] 127)) i"
    by (simp add: bval_def)
  then show ?thesis
    by (intro inode_reserve_indirect_full_disk)
      (simp_all add: bitmap_inv_def elem_cnt_def DIV_ROUND_UP_def ELEM_BITS_def BITMAP_ERROR_def word_less_nat_alt)
qed

end
