(* ===== verification/File_Table.thy ===== *)
theory File_Table
  imports Inode
begin

text \<open>
  Open files (\<open>src/a3/fs/file.c\<close>), the table of open files by name, and the operations of
  \<open>src/a3/fs/free-map.c\<close> that open, create and close the file of the free map.

  The table is a list of names and file pointers in the order of the linked list of the source, whose
  operations \<open>list_push_back\<close>, \<open>list_pop_front\<close> and \<open>list_remove\<close> are those of a list. File pointers are
  addresses in the heap \<open>files\<close>; \<open>None\<close> is the null pointer.
\<close>

record file_state = fs_state +
  file_table :: "(string \<times> nat option) list"

definition set_file :: "nat \<Rightarrow> open_file \<Rightarrow> 'z fs_state_scheme \<Rightarrow> 'z fs_state_scheme" where
  "set_file fp f s = s\<lparr>files := (files s)[fp := Some f]\<rparr>"

subsection \<open>Opening and closing files\<close>

definition file_open :: "nat option \<Rightarrow> 'z fs_state_scheme \<Rightarrow> (nat option \<times> 'z fs_state_scheme) option" where
  "file_open p s =
     (case p of
        Some ip \<Rightarrow> Some (Some (length (files s)), s\<lparr>files := files s @ [Some \<lparr>f_inode = ip, pos = 0, deny_write = False\<rparr>]\<rparr>)
      | None \<Rightarrow> do {
          s \<leftarrow> inode_close None s;
          Some (None, s)
        })"

definition file_reopen :: "nat \<Rightarrow> 'z fs_state_scheme \<Rightarrow> (nat option \<times> 'z fs_state_scheme) option" where
  "file_reopen fp s = do {
     f \<leftarrow> get_file fp s;
     file_open (Some (inode_reopen (f_inode f))) s
   }"

definition file_get_inode :: "nat \<Rightarrow> 'z fs_state_scheme \<Rightarrow> nat option" where
  "file_get_inode fp s = map_option f_inode (get_file fp s)"

definition file_deny_write :: "nat \<Rightarrow> 'z fs_state_scheme \<Rightarrow> 'z fs_state_scheme option" where
  "file_deny_write fp s = do {
     f \<leftarrow> get_file fp s;
     if \<not> deny_write f then inode_deny_write (f_inode f) (set_file fp (f\<lparr>deny_write := True\<rparr>) s)
     else Some s
   }"

definition file_allow_write :: "nat \<Rightarrow> 'z fs_state_scheme \<Rightarrow> 'z fs_state_scheme option" where
  "file_allow_write fp s = do {
     f \<leftarrow> get_file fp s;
     if deny_write f then inode_allow_write (f_inode f) (set_file fp (f\<lparr>deny_write := False\<rparr>) s)
     else Some s
   }"

definition file_close :: "nat option \<Rightarrow> 'z fs_state_scheme \<Rightarrow> 'z fs_state_scheme option" where
  "file_close p s =
     (case p of
        None \<Rightarrow> Some s
      | Some fp \<Rightarrow> do {
          s \<leftarrow> file_allow_write fp s;
          f \<leftarrow> get_file fp s;
          s \<leftarrow> inode_close (Some (f_inode f)) s;
          Some (s\<lparr>files := (files s)[fp := None]\<rparr>)
        })"

subsection \<open>Reading and writing\<close>

definition file_read ::
  "nat \<Rightarrow> byte list \<Rightarrow> int \<Rightarrow> 'z fs_state_scheme \<Rightarrow> (int \<times> byte list \<times> 'z fs_state_scheme) option" where
  "file_read fp buf sz s = do {
     f \<leftarrow> get_file fp s;
     (bytes_read, buf, s) \<leftarrow> inode_read_at (f_inode f) buf sz (pos f) s;
     p \<leftarrow> int32 (pos f + bytes_read);
     Some (bytes_read, buf, set_file fp (f\<lparr>pos := p\<rparr>) s)
   }"

definition file_read_at ::
  "nat \<Rightarrow> byte list \<Rightarrow> int \<Rightarrow> int \<Rightarrow> 'z fs_state_scheme \<Rightarrow> (int \<times> byte list \<times> 'z fs_state_scheme) option" where
  "file_read_at fp buf sz file_ofs s = do {
     f \<leftarrow> get_file fp s;
     inode_read_at (f_inode f) buf sz file_ofs s
   }"

text \<open>The terminator is stored in the caller's buffer, which is part of the result.\<close>

definition file_write ::
  "nat \<Rightarrow> byte list \<Rightarrow> int \<Rightarrow> 'z fs_state_scheme \<Rightarrow> (int \<times> byte list \<times> 'z fs_state_scheme) option" where
  "file_write fp buf sz s = do {
     buf \<leftarrow> mem_put buf (sz - 1) [0];
     f \<leftarrow> get_file fp s;
     (bytes_written, s) \<leftarrow> inode_write_at (f_inode f) buf sz (pos f) s;
     p \<leftarrow> int32 (pos f + (bytes_written - 2));
     Some (bytes_written, buf, set_file fp (f\<lparr>pos := p\<rparr>) s)
   }"

definition file_write_at ::
  "nat \<Rightarrow> byte list \<Rightarrow> int \<Rightarrow> int \<Rightarrow> 'z fs_state_scheme \<Rightarrow> (int \<times> 'z fs_state_scheme) option" where
  "file_write_at = file_write_at_via inode_write_at"

definition file_length :: "nat \<Rightarrow> 'z fs_state_scheme \<Rightarrow> int option" where
  "file_length fp s = do {
     f \<leftarrow> get_file fp s;
     inode_length (f_inode f) s
   }"

definition file_seek :: "nat \<Rightarrow> int \<Rightarrow> 'z fs_state_scheme \<Rightarrow> 'z fs_state_scheme option" where
  "file_seek fp new_pos s = do {
     f \<leftarrow> get_file fp s;
     Some (set_file fp (f\<lparr>pos := new_pos\<rparr>) s)
   }"

definition file_tell :: "nat \<Rightarrow> 'z fs_state_scheme \<Rightarrow> int option" where
  "file_tell fp s = map_option pos (get_file fp s)"

subsection \<open>The table of open files\<close>

definition init_file_table :: "'z file_state_scheme \<Rightarrow> 'z file_state_scheme" where
  "init_file_table s = s\<lparr>file_table := []\<rparr>"

definition get_file_by_fname :: "string \<Rightarrow> 'z file_state_scheme \<Rightarrow> nat option" where
  "get_file_by_fname fname s =
     (case find (\<lambda>(nm, _). nm = fname) (file_table s) of None \<Rightarrow> None | Some (_, f) \<Rightarrow> f)"

definition add_to_file_table :: "nat option \<Rightarrow> string \<Rightarrow> 'z file_state_scheme \<Rightarrow> 'z file_state_scheme" where
  "add_to_file_table f fname s =
     (if get_file_by_fname fname s \<noteq> None then s
      else s\<lparr>file_table := file_table s @ [(fname, f)]\<rparr>)"

text \<open>The element is unlinked after its file has been closed.\<close>

fun remove_entry :: "string \<Rightarrow> (string \<times> 'b) list \<Rightarrow> (string \<times> 'b) list" where
  "remove_entry fname [] = []"
| "remove_entry fname ((nm, f) # es) = (if nm = fname then es else (nm, f) # remove_entry fname es)"

definition remove_from_file_table :: "string \<Rightarrow> 'z file_state_scheme \<Rightarrow> (bool \<times> 'z file_state_scheme) option" where
  "remove_from_file_table fname s =
     (case find (\<lambda>(nm, _). nm = fname) (file_table s) of
        None \<Rightarrow> Some (False, s)
      | Some (_, f) \<Rightarrow> do {
          s \<leftarrow> file_close f s;
          Some (True, s\<lparr>file_table := remove_entry fname (file_table s)\<rparr>)
        })"

text \<open>
  The source pops the first element, closes its file and removes the element a second time, which
  leaves the links as the first removal left them.
\<close>

primrec free_entries :: "(string \<times> nat option) list \<Rightarrow> 'z file_state_scheme \<Rightarrow> 'z file_state_scheme option" where
  "free_entries [] s = Some s"
| "free_entries (e # es) s = do {
     s \<leftarrow> file_close (snd e) (s\<lparr>file_table := es\<rparr>);
     free_entries es s
   }"

definition free_file_table :: "'z file_state_scheme \<Rightarrow> 'z file_state_scheme option" where
  "free_file_table s = free_entries (file_table s) s"

subsection \<open>The file of the free map\<close>

definition FREE_MAP_SECTOR :: block_sector_t where
  "FREE_MAP_SECTOR = 0"

definition ROOT_DIR_SECTOR :: block_sector_t where
  "ROOT_DIR_SECTOR = 1"

definition free_map_init :: "'z fs_state_scheme \<Rightarrow> 'z fs_state_scheme option" where
  "free_map_init s = do {
     n \<leftarrow> block_size (devs s) (fs_device s);
     b \<leftarrow> bitmap_create (unat (n - 1));
     b \<leftarrow> bitmap_mark b (unat FREE_MAP_SECTOR);
     b \<leftarrow> bitmap_mark b (unat ROOT_DIR_SECTOR);
     Some (s\<lparr>free_map := b\<rparr>)
   }"

definition num_free_sectors :: "'z fs_state_scheme \<Rightarrow> nat option" where
  "num_free_sectors s = bitmap_count (free_map s) 0 (bitmap_size (free_map s)) False"

text \<open>
  \<open>bitmap_read\<close>: the elements are the buffer that is read into; the last one is masked also when
  the read was short.
\<close>

definition bitmap_read :: "bitmap \<Rightarrow> nat \<Rightarrow> 'z fs_state_scheme \<Rightarrow> (bool \<times> bitmap \<times> 'z fs_state_scheme) option" where
  "bitmap_read b fp s =
     (if bit_cnt b > 0 then do {
        let sz = int (byte_cnt (bit_cnt b));
        (n, bs, s) \<leftarrow> file_read_at fp (bitmap_image b) sz 0 s;
        b \<leftarrow> bitmap_load b bs;
        Some (n = sz, b, s)
      } else Some (True, b, s))"

definition free_map_open :: "'z fs_state_scheme \<Rightarrow> 'z fs_state_scheme option" where
  "free_map_open s = do {
     (ip, s) \<leftarrow> inode_open FREE_MAP_SECTOR s;
     (fp, s) \<leftarrow> file_open (Some ip) s;
     let s = s\<lparr>free_map_file := fp\<rparr>;
     p \<leftarrow> fp;
     (ok, b, s) \<leftarrow> bitmap_read (free_map s) p s;
     Some (s\<lparr>free_map := b\<rparr>)
   }"

definition free_map_close :: "'z fs_state_scheme \<Rightarrow> 'z fs_state_scheme option" where
  "free_map_close s = file_close (free_map_file s) s"

definition free_map_create :: "'z fs_state_scheme \<Rightarrow> 'z fs_state_scheme option" where
  "free_map_create s = do {
     (ok, s) \<leftarrow> inode_create FREE_MAP_SECTOR (int (bitmap_file_size (free_map s))) False s;
     (ip, s) \<leftarrow> inode_open FREE_MAP_SECTOR s;
     (fp, s) \<leftarrow> file_open (Some ip) s;
     let s = s\<lparr>free_map_file := fp\<rparr>;
     p \<leftarrow> fp;
     (ok, s) \<leftarrow> bitmap_write inode_write_at (free_map s) p s;
     Some s
   }"

subsection \<open>Names and files\<close>

text \<open>
  The contract of a table from names to open files: what a lookup returns after an insertion that found the
  name free, after an insertion that did not, and after a removal.
\<close>

locale name_table =
  fixes lookup :: "'s \<Rightarrow> string \<Rightarrow> nat option" and add :: "'s \<Rightarrow> string \<Rightarrow> nat \<Rightarrow> 's"
    and del :: "'s \<Rightarrow> string \<Rightarrow> 's" and ok :: "'s \<Rightarrow> bool"
  assumes lookup_add: "ok s \<Longrightarrow> lookup (add s nm f) = (if lookup s nm = None then (lookup s)(nm := Some f) else lookup s)"
    and lookup_del: "ok s \<Longrightarrow> lookup (del s nm) = (lookup s)(nm := None)"
    and ok_add: "ok s \<Longrightarrow> ok (add s nm f)"
    and ok_del: "ok s \<Longrightarrow> ok (del s nm)"
begin

lemma add_then_lookup: "ok s \<Longrightarrow> lookup (add s nm f) nm = (case lookup s nm of None \<Rightarrow> Some f | Some g \<Rightarrow> Some g)"
  by (auto simp: lookup_add split: option.splits)

lemma add_del: "ok s \<Longrightarrow> lookup s nm = None \<Longrightarrow> lookup (del (add s nm f) nm) = lookup s"
  by (simp add: lookup_del ok_add lookup_add fun_upd_idem)

lemma del_add: "ok s \<Longrightarrow> lookup (add (del s nm) nm f) = (lookup s)(nm := Some f)"
  by (simp add: lookup_del ok_del lookup_add)

end

text \<open>The entries alone, without the files behind them.\<close>

definition table_get :: "(string \<times> nat option) list \<Rightarrow> string \<Rightarrow> nat option" where
  "table_get es fname = (case find (\<lambda>(nm, _). nm = fname) es of None \<Rightarrow> None | Some (_, f) \<Rightarrow> f)"

definition table_add :: "(string \<times> nat option) list \<Rightarrow> string \<Rightarrow> nat \<Rightarrow> (string \<times> nat option) list" where
  "table_add es fname f = (if table_get es fname \<noteq> None then es else es @ [(fname, Some f)])"

definition table_ok :: "(string \<times> nat option) list \<Rightarrow> bool" where
  "table_ok es \<longleftrightarrow> distinct (map fst es) \<and> (\<forall>e \<in> set es. snd e \<noteq> None)"

lemma table_get_Cons [simp]: "table_get ((nm, f) # es) fname = (if nm = fname then f else table_get es fname)"
  by (simp add: table_get_def)

lemma table_get_Nil [simp]: "table_get [] fname = None"
  by (simp add: table_get_def)

lemma table_get_None: "table_ok es \<Longrightarrow> table_get es fname = None \<longleftrightarrow> fname \<notin> fst ` set es"
  by (induction es) (auto simp: table_ok_def split: if_splits)

lemma table_get_append:
  "table_get (es @ [(fname, f)]) nm = (if nm \<in> fst ` set es then table_get es nm else if nm = fname then f else None)"
  by (induction es) (fastforce split: if_splits)+

lemma set_remove_entry: "set (remove_entry fname es) \<subseteq> set es"
  by (induction fname es rule: remove_entry.induct) auto

lemma table_get_remove:
  "table_ok es \<Longrightarrow> table_get (remove_entry fname es) nm = (if nm = fname then None else table_get es nm)"
proof (induction fname es rule: remove_entry.induct)
  case (2 fname n f es)
  then have ok: "table_ok es" by (simp add: table_ok_def)
  show ?case
  proof (cases "n = fname")
    case True
    then have "fname \<notin> fst ` set es" using 2(2) by (auto simp: table_ok_def)
    then show ?thesis using True table_get_None [OF ok] by auto
  next
    case False
    then show ?thesis using 2(1) [OF False ok] by auto
  qed
qed simp

lemma table_ok_remove: "table_ok es \<Longrightarrow> table_ok (remove_entry fname es)"
proof (induction fname es rule: remove_entry.induct)
  case (2 fname n f es)
  then show ?case using set_remove_entry [of fname es] by (auto simp: table_ok_def)
qed (simp add: table_ok_def)

interpretation tab: name_table table_get table_add "\<lambda>es nm. remove_entry nm es" table_ok
proof unfold_locales
  fix es :: "(string \<times> nat option) list" and nm f assume ok: "table_ok es"
  show "table_get (table_add es nm f) = (if table_get es nm = None then (table_get es)(nm := Some f) else table_get es)"
  proof (cases "table_get es nm")
    case None
    then have "nm \<notin> fst ` set es" using table_get_None [OF ok] by simp
    moreover have "table_get es k = None" if "k \<notin> fst ` set es" for k using that table_get_None [OF ok] by simp
    ultimately show ?thesis using None by (auto simp: table_add_def table_get_append fun_eq_iff)
  qed (simp add: table_add_def)
  show "table_get (remove_entry nm es) = (table_get es)(nm := None)"
    using table_get_remove [OF ok] by (simp add: fun_eq_iff)
  show "table_ok (table_add es nm f)"
  proof (cases "table_get es nm")
    case None
    then have "nm \<notin> fst ` set es" using table_get_None [OF ok] by simp
    then show ?thesis using ok None by (auto simp: table_add_def table_ok_def)
  qed (use ok in \<open>simp add: table_add_def\<close>)
  show "table_ok (remove_entry nm es)" using ok by (rule table_ok_remove)
qed

lemma get_file_by_fname_table: "get_file_by_fname fname s = table_get (file_table s) fname"
  by (simp add: get_file_by_fname_def table_get_def)

lemma add_to_file_table_table: "file_table (add_to_file_table (Some f) fname s) = table_add (file_table s) fname f"
  by (simp add: add_to_file_table_def table_add_def get_file_by_fname_table)

subsection \<open>Reading and writing at the position of a file\<close>

lemma get_file_set_file: "get_file fp s = Some f \<Longrightarrow> get_file fp (set_file fp g s) = Some g"
  by (simp add: get_file_def set_file_def deref_eq_Some)

lemma set_file_simps [simp]:
  "bc_inv (set_file fp f s) = bc_inv s" "bc_sect (set_file fp f s) = bc_sect s"
  "bc_dev_valid (set_file fp f s) = bc_dev_valid s" "get_inode ip (set_file fp f s) = get_inode ip s"
  "fs_state.more (set_file fp f s) = fs_state.more s"
  by (simp_all add: set_file_def bc_inv_def bc_sect_def bc_dev_def bc_dev_valid_def get_inode_def)

lemma bc_step_get_file: "bc_step s s' \<Longrightarrow> get_file fp s' = get_file fp s"
  by (simp add: get_file_def bc_step_fs)

lemma data_step_get_file: "data_step d s s' \<Longrightarrow> get_file fp s' = get_file fp s"
  by (simp add: get_file_def data_step_fs)

lemma file_read_step:
  fixes s :: "'z fs_state_scheme"
  assumes "bc_inv s" and f: "get_file fp s = Some f" and ino: "get_inode (f_inode f) s = Some ino"
    and ok: "inode_ok (bc_dev_valid s) (bc_sect s) (data ino)" and p: "0 \<le> pos f" "pos f < 2 ^ 31"
    and n: "n = min (nat sz) (nat (dlength (data ino)) - nat (pos f))" "n \<le> length buf"
  shows "\<exists>s'. file_read fp buf sz s =
      Some (int n, put_at buf 0 (take n (drop (nat (pos f)) (file_bytes (bc_sect s) (data ino)))), s') \<and>
      get_file fp s' = Some (f\<lparr>pos := pos f + int n\<rparr>) \<and> bc_inv s' \<and> bc_sect s' = bc_sect s \<and>
      bc_dev_valid s' = bc_dev_valid s \<and> get_inode (f_inode f) s' = Some ino \<and>
      fs_state.more s' = fs_state.more s"
proof -
  obtain s1 where s1: "inode_read_at (f_inode f) buf sz (pos f) s =
      Some (int n, put_at buf 0 (take n (drop (nat (pos f)) (file_bytes (bc_sect s) (data ino)))), s1)" "bc_step s s1"
    using inode_read_loop_correct [OF assms(1) ino ok p, of 0 n sz buf] n by (auto simp: inode_read_at_def)
  have "n \<le> nat (dlength (data ino)) - nat (pos f)" using n by simp
  then have "pos f + int n < 2 ^ 31" using p ok by (simp add: inode_ok_def) linarith
  then show ?thesis
    using f s1 p ino bc_step_view [OF s1(2)] bc_step_fs(6,7) [OF s1(2)]
      get_file_set_file [of fp s1 f] bc_step_get_file [OF s1(2)]
    by (simp add: file_read_def)
qed

lemma file_write_step:
  fixes s :: "'z fs_state_scheme"
  assumes "bc_inv s" and f: "get_file fp s = Some f" and ino: "get_inode (f_inode f) s = Some ino"
    and ok: "inode_ok (bc_dev_valid s) (bc_sect s) (data ino)" and sep: "inode_sep (bc_sect s) (data ino)"
    and "deny_write_cnt ino = 0" and p: "0 \<le> pos f" "0 < sz" "pos f + sz \<le> dlength (data ino)"
    and len: "sz \<le> int (length buf)" and b: "b = put_at buf (nat sz - 1) [0]"
  shows "\<exists>s'. file_write fp buf sz s = Some (sz, b, s') \<and>
      file_bytes (bc_sect s') (data ino) = put_at (file_bytes (bc_sect s) (data ino)) (nat (pos f)) (take (nat sz) b) \<and>
      get_file fp s' = Some (f\<lparr>pos := pos f + sz - 2\<rparr>) \<and>
      (\<exists>t. data_step (data ino) s t \<and> s' = set_file fp (f\<lparr>pos := pos f + sz - 2\<rparr>) t)"
proof -
  have put: "mem_put buf (sz - 1) [0] = Some b" using p len by (simp add: mem_put_def b nat_diff_distrib)
  have "length b = length buf" using p len by (simp add: b)
  with len have lb: "sz \<le> int (length b)" by simp
  obtain s1 where s1: "inode_write_at (f_inode f) b sz (pos f) s = Some (sz, s1)" "data_step (data ino) s s1"
      "file_bytes (bc_sect s1) (data ino) = put_at (file_bytes (bc_sect s) (data ino)) (nat (pos f)) (take (nat sz) b)"
    using inode_write_via_in_place [OF assms(1) ino ok sep assms(6) p lb, of "inode_write_at_depth 1"]
    unfolding inode_write_at_Suc by blast
  have "pos f + sz < 2 ^ 31" using p ok by (simp add: inode_ok_def)
  then show ?thesis
    using f s1 p put get_file_set_file [of fp s1 f] data_step_get_file [OF s1(2)]
    by (auto simp: file_write_def algebra_simps)
qed

subsection \<open>Loading the free map\<close>

lemma bitmap_read_loads:
  fixes s :: "'z fs_state_scheme"
  assumes "bc_inv s" and f: "get_file fp s = Some f" and ino: "get_inode (f_inode f) s = Some ino"
    and ok: "inode_ok (bc_dev_valid s) (bc_sect s) (data ino)" and b: "bitmap_inv b" "0 < bit_cnt b"
    and b0: "bitmap_inv b0" "bit_cnt b0 = bit_cnt b"
    and fb: "file_bytes (bc_sect s) (data ino) = bitmap_image b"
  shows "\<exists>b' s'. bitmap_read b0 fp s = Some (True, b', s') \<and> bitmap_inv b' \<and> bitmap_bits b' = bitmap_bits b \<and> bc_step s s'"
proof -
  let ?n = "byte_cnt (bit_cnt b)"
  have len: "nat (dlength (data ino)) = ?n"
    using length_file_bytes [OF ok] fb length_bitmap_image [OF b(1)] by simp
  obtain s1 where s1: "file_read_at fp (bitmap_image b0) (int ?n) 0 s =
      Some (int ?n, put_at (bitmap_image b0) 0 (take ?n (drop 0 (bitmap_image b))), s1)" "bc_step s s1"
    using inode_read_loop_correct [OF assms(1) ino ok, of 0 0 ?n "int ?n" "bitmap_image b0"] len f fb
      length_bitmap_image [OF b0(1)] b0(2)
    by (auto simp: file_read_at_def inode_read_at_def)
  have "put_at (bitmap_image b0) 0 (take ?n (drop 0 (bitmap_image b))) = bitmap_image b"
    using length_bitmap_image [OF b(1)] length_bitmap_image [OF b0(1)] b0(2) by (simp add: put_at_all)
  then show ?thesis
    using s1 bitmap_load_image [OF b(1) b0(2) b(2)] b0 b by (auto simp: bitmap_read_def Let_def)
qed

subsection \<open>Closing a file keeps the table\<close>

lemma file_allow_write_frame [frame]: "file_allow_write fp s = Some s' \<Longrightarrow> fs_state.more s' = fs_state.more s"
  by (auto simp: file_allow_write_def inode_allow_write_def set_file_def split: bind_splits if_splits)

lemma file_close_frame [frame]: "file_close p s = Some s' \<Longrightarrow> fs_state.more s' = fs_state.more s"
  by (auto simp: file_close_def split: bind_splits option.splits dest!: frame)

lemma file_close_table:
  fixes s s' :: "'z file_state_scheme"
  assumes "file_close p s = Some s'" shows "file_table s' = file_table s"
  using file_close_frame [OF assms] by (cases s; cases s'; simp)

lemma remove_from_file_table_table:
  assumes "remove_from_file_table fname s = Some (r, s')"
  shows "r \<longleftrightarrow> fname \<in> fst ` set (file_table s)" and "file_table s' = remove_entry fname (file_table s)"
proof -
  let ?es = "file_table s"
  have none: "find (\<lambda>(nm, _). nm = fname) es = None \<longleftrightarrow> fname \<notin> fst ` set es" for es :: "(string \<times> nat option) list"
    by (induction es) (auto split: if_splits)
  have same: "fname \<notin> fst ` set es \<Longrightarrow> remove_entry fname es = es" for es :: "(string \<times> nat option) list"
    by (induction fname es rule: remove_entry.induct) auto
  show "r \<longleftrightarrow> fname \<in> fst ` set ?es" and "file_table s' = remove_entry fname ?es"
    using assms none [of ?es] same [of ?es]
    by (auto simp: remove_from_file_table_def split: option.splits bind_splits dest!: file_close_table)
qed

subsection \<open>Properties\<close>

text \<open>
  The table of open files is a map from names to files: adding a name that has no file yet adds
  exactly that name, adding a name again changes nothing, and removing a name, which closes its file,
  removes exactly that name and reports whether it was there.
\<close>

theorem file_table_is_map:
  assumes "table_ok (file_table s)"
  shows "get_file_by_fname nm (add_to_file_table (Some f) fname s) =
      (if get_file_by_fname fname s = None \<and> nm = fname then Some f else get_file_by_fname nm s) \<and>
    (case remove_from_file_table fname s of
       None \<Rightarrow> True
     | Some (r, s') \<Rightarrow>
         get_file_by_fname nm s' = (if nm = fname then None else get_file_by_fname nm s) \<and>
         (r \<longleftrightarrow> get_file_by_fname fname s \<noteq> None) \<and> table_ok (file_table s'))"
proof -
  have "get_file_by_fname nm s' = (if nm = fname then None else get_file_by_fname nm s) \<and>
      (r \<longleftrightarrow> get_file_by_fname fname s \<noteq> None) \<and> table_ok (file_table s')"
    if r: "remove_from_file_table fname s = Some (r, s')" for r s'
    using remove_from_file_table_table [OF r] tab.lookup_del [OF assms, of fname] tab.ok_del [OF assms]
      table_get_None [OF assms] by (auto simp: get_file_by_fname_table)
  then show ?thesis
    using tab.lookup_add [OF assms, of fname f]
    by (auto simp: get_file_by_fname_table add_to_file_table_table split: option.splits)
qed

definition file_example :: "file_state" where
  "file_example = fs_state.extend (fs_example [] 63) \<lparr>file_table = [(''a'', Some 0)]\<rparr>"

theorem file_table_is_map_witness:
  "get_file_by_fname ''b'' (add_to_file_table (Some 5) ''b'' file_example) = Some 5 \<and>
   remove_from_file_table ''c'' file_example = Some (False, file_example) \<and>
   get_file_by_fname ''a'' file_example = Some 0"
proof -
  have ok: "table_ok (file_table file_example)"
    by (simp add: file_example_def fs_state.defs table_ok_def)
  have r: "remove_from_file_table ''c'' file_example = Some (False, file_example)"
    by (simp add: remove_from_file_table_def file_example_def fs_state.defs)
  have a: "get_file_by_fname ''a'' file_example = Some 0" "get_file_by_fname ''b'' file_example = None"
    by (simp_all add: get_file_by_fname_def file_example_def fs_state.defs)
  show ?thesis
    using file_table_is_map [OF ok, of "''b''" 5 "''b''"] a r by simp
qed


lemma fs_example_root: "get_inode (f_inode \<lparr>f_inode = 0, pos = 0, deny_write = False\<rparr>) (fs_example h b) = Some (inode_example 0 [2] 8)"
  by simp


text \<open>
  A write through an open file stores a terminator over the last of the caller's bytes and moves the position
  to two bytes before the end of what it wrote, so that the next write overwrites the last byte and the terminator.
\<close>

theorem file_write_position:
  fixes s :: "'z fs_state_scheme"
  assumes "bc_inv s" and "get_file fp s = Some f" and "get_inode (f_inode f) s = Some ino"
    and "inode_ok (bc_dev_valid s) (bc_sect s) (data ino)" and "inode_sep (bc_sect s) (data ino)"
    and "deny_write_cnt ino = 0" and "0 \<le> pos f" "0 < sz" "pos f + sz \<le> dlength (data ino)"
    and "sz \<le> int (length buf)" and "b = put_at buf (nat sz - 1) [0]"
  shows "\<exists>s'. file_write fp buf sz s = Some (sz, b, s') \<and>
      file_bytes (bc_sect s') (data ino) = put_at (file_bytes (bc_sect s) (data ino)) (nat (pos f)) (take (nat sz) b) \<and>
      file_tell fp s' = Some (pos f + sz - 2)"
  using file_write_step [OF assms] by (auto simp: file_tell_def)

theorem file_write_position_witness:
  "\<exists>s'. file_write 0 [1, 2, 3, 4] 4 (fs_example [] 63) = Some (4, [1, 2, 3, 0], s') \<and> file_tell 0 s' = Some 2"
  using file_write_position [of "fs_example [] 63" 0 _ _ 4 "[1, 2, 3, 4]" "[1, 2, 3, 0]", OF _ _ fs_example_root]
    fs_example_files(1,2) by (auto simp: put_at_def)

text \<open>
  C29. The free map survives: when it has been saved with \<open>bitmap_write\<close>, \<open>bitmap_read\<close> from the same file
  brings back every bit, into any bitmap of the same size.
\<close>

theorem free_map_survives:
  fixes s :: "'z fs_state_scheme"
  assumes "fm_ok s" and "free_map_file s = Some fp" and "bitmap_inv b0" "bit_cnt b0 = bit_cnt (free_map s)"
  shows "\<exists>s' b' s''. bitmap_write inode_write_at (free_map s) fp s = Some (True, s') \<and>
     bitmap_read b0 fp s' = Some (True, b', s'') \<and> bitmap_bits b' = bitmap_bits (free_map s)"
proof -
  obtain ino where ino: "fm_inode s = Some ino" using assms(1) by (auto simp: fm_ok_def split: option.splits)
  then obtain f where f: "get_file fp s = Some f" "get_inode (f_inode f) s = Some ino"
    using assms(2) by (auto simp: fm_inode_def split: bind_splits)
  have b: "bitmap_inv (free_map s)" "0 < bit_cnt (free_map s)" and ok: "inode_ok (bc_dev_valid s) (bc_sect s) (data ino)"
      "inode_sep (bc_sect s) (data ino)"
    using assms(1) ino by (simp_all add: fm_ok_def)
  obtain s1 where s1: "bitmap_write inode_write_at (free_map s) fp s = Some (True, s1)" "data_step (data ino) s s1"
      "file_bytes (bc_sect s1) (data ino) = bitmap_image (free_map s)"
    using bitmap_write_saves [OF assms(1) ino assms(2) b(1) refl, of 1] by (auto simp: inode_write_at_def numeral_2_eq_2)
  note l1 = data_step_layout [OF s1(2) ok(2)]
  show ?thesis
    using bitmap_read_loads [OF _ _ _ l1(5) [OF ok(1)] b assms(3,4) s1(3), of fp f] s1(1,2) f
      data_step_fs(6) [OF s1(2)] data_step_get_file [OF s1(2)] by (auto simp: data_step_def)
qed

theorem free_map_survives_witness:
  "\<exists>s' b' s''. bitmap_write inode_write_at (free_map (fs_example [] 63)) 0 (fs_example [] 63) = Some (True, s') \<and>
     bitmap_read \<lparr>bit_cnt = 7, bits = [0]\<rparr> 0 s' = Some (True, b', s'') \<and>
     bitmap_bits b' = bitmap_bits (free_map (fs_example [] 63))"
  by (rule free_map_survives [OF fs_example_fm])
    (simp_all add: bitmap_inv_def elem_cnt_def DIV_ROUND_UP_def ELEM_BITS_def)

end
