(* ===== verification/Directory.thy ===== *)
theory Directory
  imports File_Table
begin

text \<open>
  Directories (\<open>src/a3/fs/directory.c\<close>): files of 36-byte entries, the first of which names the parent.

  A directory pointer is an address in the heap \<open>dirs\<close>; the global \<open>cwd\<close> is such a pointer or null. File
  names are strings; in an entry they are bytes. The loops over the entries of a directory end at the first
  short read; they carry a fuel of the length of the directory plus two, more than the number of
  entries. A name without a zero in its 31 bytes is read past its array when it is compared in full or
  printed, which is undefined; \<open>names_ok\<close> says that a directory has no such name in use.
\<close>

subsection \<open>Strings and bytes\<close>

definition byte_of_char :: "char \<Rightarrow> byte" where
  "byte_of_char c = of_nat (of_char c)"

definition char_of_byte :: "byte \<Rightarrow> char" where
  "char_of_byte b = char_of (unat b)"

text \<open>The C string that starts a buffer.\<close>

definition c_string :: "byte list \<Rightarrow> string" where
  "c_string bs = map char_of_byte (takeWhile (\<lambda>b. b \<noteq> 0) bs)"

text \<open>\<open>strncpy\<close>: the first \<open>n\<close> characters, padded with zeros.\<close>

definition strncpy :: "nat \<Rightarrow> string \<Rightarrow> byte list" where
  "strncpy n str = take n (map byte_of_char str @ replicate n 0)"

text \<open>All tokens that \<open>strtok_r\<close> finds: the longest runs without the delimiter.\<close>

fun split_on :: "char \<Rightarrow> string \<Rightarrow> string \<Rightarrow> string list" where
  "split_on d acc [] = [rev acc]"
| "split_on d acc (c # cs) = (if c = d then rev acc # split_on d [] cs else split_on d (c # acc) cs)"

definition strtok_all :: "char \<Rightarrow> string \<Rightarrow> string list" where
  "strtok_all d str = filter (\<lambda>t. t \<noteq> []) (split_on d [] str)"

subsection \<open>Data\<close>

definition NAME_MAX :: nat where
  "NAME_MAX = 30"

record dir =
  d_inode :: nat
  d_pos :: int
  d_open_cnt :: int

record dir_entry =
  inode_sector :: block_sector_t
  e_name :: "byte list"
  in_use :: bool

record dir_state = file_state +
  dirs :: "dir option list"
  cwd :: "nat option"

definition dir_entry_size :: nat where
  "dir_entry_size = 36"

definition dir_entry_bytes :: "dir_entry \<Rightarrow> byte list" where
  "dir_entry_bytes e = le_bytes 4 (inode_sector e) @ e_name e @ [if in_use e then 1 else 0]"

definition dir_entry_of :: "byte list \<Rightarrow> dir_entry" where
  "dir_entry_of bs =
     \<lparr>inode_sector = le_word (take 4 bs), e_name = take 31 (drop 4 bs), in_use = (bs ! 35 \<noteq> 0)\<rparr>"

definition get_dir :: "nat \<Rightarrow> 'z dir_state_scheme \<Rightarrow> dir option" where
  "get_dir dp s = deref (dirs s) dp"

definition set_dir :: "nat \<Rightarrow> dir \<Rightarrow> 'z dir_state_scheme \<Rightarrow> 'z dir_state_scheme" where
  "set_dir dp d s = s\<lparr>dirs := (dirs s)[dp := Some d]\<rparr>"

subsection \<open>Paths\<close>

text \<open>The loop over the tokens appends the previous token to the directory.\<close>

fun split_loop :: "string \<Rightarrow> string \<Rightarrow> string list \<Rightarrow> string \<times> string" where
  "split_loop dirn last_token [] = (dirn, last_token)"
| "split_loop dirn last_token (token # ts) =
     split_loop (if length last_token > 0 then dirn @ last_token @ ''/'' else dirn) token ts"

definition split_path_filename :: "string \<Rightarrow> string \<times> string" where
  "split_path_filename path =
     (let dirn = (if length path > 0 \<and> hd path = CHR ''/'' then ''/'' else [])
      in split_loop dirn [] (strtok_all (CHR ''/'') path))"

subsection \<open>Opening and closing\<close>

definition dir_open :: "nat option \<Rightarrow> 'z dir_state_scheme \<Rightarrow> (nat option \<times> 'z dir_state_scheme) option" where
  "dir_open p s =
     (case p of
        Some ip \<Rightarrow> Some (Some (length (dirs s)),
          s\<lparr>dirs := dirs s @ [Some \<lparr>d_inode = ip, d_pos = int dir_entry_size, d_open_cnt = 1\<rparr>]\<rparr>)
      | None \<Rightarrow> do {
          s \<leftarrow> inode_close None s;
          Some (None, s)
        })"

definition dir_open_root :: "'z dir_state_scheme \<Rightarrow> (nat option \<times> 'z dir_state_scheme) option" where
  "dir_open_root s =
     (case cwd s of
        None \<Rightarrow> do {
          (ip, s) \<leftarrow> inode_open ROOT_DIR_SECTOR s;
          (dp, s) \<leftarrow> dir_open (Some ip) s;
          Some (dp, s\<lparr>cwd := dp\<rparr>)
        }
      | Some dp \<Rightarrow> do {
          d \<leftarrow> get_dir dp s;
          n \<leftarrow> int32 (d_open_cnt d + 1);
          Some (Some dp, set_dir dp (d\<lparr>d_open_cnt := n\<rparr>) s)
        })"

definition dir_reopen :: "nat \<Rightarrow> 'z dir_state_scheme \<Rightarrow> (nat option \<times> 'z dir_state_scheme) option" where
  "dir_reopen dp s = do {
     d \<leftarrow> get_dir dp s;
     dir_open (Some (inode_reopen (d_inode d))) s
   }"

text \<open>The last close of any directory resets \<open>cwd\<close>.\<close>

definition dir_close :: "nat option \<Rightarrow> 'z dir_state_scheme \<Rightarrow> 'z dir_state_scheme option" where
  "dir_close p s =
     (case p of
        None \<Rightarrow> Some s
      | Some dp \<Rightarrow> do {
          d \<leftarrow> get_dir dp s;
          n \<leftarrow> int32 (d_open_cnt d - 1);
          let s = set_dir dp (d\<lparr>d_open_cnt := n\<rparr>) s;
          if n = 0 then do {
            s \<leftarrow> inode_close (Some (d_inode d)) s;
            Some (s\<lparr>dirs := (dirs s)[dp := None], cwd := None\<rparr>)
          } else Some s
        })"

definition dir_get_inode :: "nat \<Rightarrow> 'z dir_state_scheme \<Rightarrow> nat option" where
  "dir_get_inode dp s = map_option d_inode (get_dir dp s)"

subsection \<open>Reading entries\<close>

text \<open>
  \<open>inode_read_at(dir->inode, &e, sizeof e, ofs) == sizeof e\<close>: the entry, or \<open>None\<close> when the read is short.
\<close>

definition read_entry ::
  "nat \<Rightarrow> int \<Rightarrow> 'z fs_state_scheme \<Rightarrow> (dir_entry option \<times> 'z fs_state_scheme) option" where
  "read_entry ip ofs s = do {
     (n, bs, s) \<leftarrow> inode_read_at ip (replicate dir_entry_size 0) (int dir_entry_size) ofs s;
     Some (if n = int dir_entry_size then Some (dir_entry_of bs) else None, s)
   }"

definition entry_fuel :: "nat \<Rightarrow> 'z fs_state_scheme \<Rightarrow> nat" where
  "entry_fuel ip s = (case inode_length ip s of None \<Rightarrow> 0 | Some l \<Rightarrow> nat l) + 2"

text \<open>The loops of the source look for the first entry that satisfies a condition.\<close>

primrec find_entry ::
  "nat \<Rightarrow> nat \<Rightarrow> (dir_entry \<Rightarrow> bool) \<Rightarrow> int \<Rightarrow> 'z fs_state_scheme \<Rightarrow>
   (int \<times> dir_entry option \<times> 'z fs_state_scheme) option" where
  "find_entry 0 ip cond ofs s = None"
| "find_entry (Suc fuel) ip cond ofs s = do {
     (r, s) \<leftarrow> read_entry ip ofs s;
     (case r of
        None \<Rightarrow> Some (ofs, None, s)
      | Some e \<Rightarrow> if cond e then Some (ofs, Some e, s)
                 else do {
                   ofs \<leftarrow> int32 (ofs + int dir_entry_size);
                   find_entry fuel ip cond ofs s
                 })
   }"

text \<open>
  \<open>strcmp\<close> of a name with that of an entry. The 31 bytes of the entry need not hold a zero on a foreign disk; when the
  name agrees with all of them, \<open>strcmp\<close> goes on behind the array.
\<close>

definition terminated :: "dir_entry \<Rightarrow> bool" where
  "terminated e \<longleftrightarrow> 0 \<in> set (e_name e)"

definition same_name :: "string \<Rightarrow> dir_entry \<Rightarrow> bool option" where
  "same_name nm e =
     (if terminated e then Some (nm = c_string (e_name e))
      else if take (NAME_MAX + 1) nm = c_string (e_name e) then None
      else Some False)"

definition lookup ::
  "nat \<Rightarrow> string \<Rightarrow> 'z dir_state_scheme \<Rightarrow> ((dir_entry \<times> int) option \<times> 'z dir_state_scheme) option" where
  "lookup dp nm s = do {
     d \<leftarrow> get_dir dp s;
     (ofs, r, s) \<leftarrow> find_entry (entry_fuel (d_inode d) s) (d_inode d)
                      (\<lambda>e. in_use e \<and> same_name nm e \<noteq> Some False) (int dir_entry_size) s;
     (case r of
        None \<Rightarrow> Some (None, s)
      | Some e \<Rightarrow> do {
          _ \<leftarrow> same_name nm e;
          Some (Some (e, ofs), s)
        })
   }"

definition dir_is_empty :: "nat \<Rightarrow> 'z dir_state_scheme \<Rightarrow> (bool \<times> 'z dir_state_scheme) option" where
  "dir_is_empty dp s = do {
     d \<leftarrow> get_dir dp s;
     (_, r, s) \<leftarrow> find_entry (entry_fuel (d_inode d) s) (d_inode d) in_use (int dir_entry_size) s;
     Some (r = None, s)
   }"

text \<open>The result is \<open>*inode\<close>; the return value tells whether it is not null.\<close>

definition dir_lookup :: "nat \<Rightarrow> string \<Rightarrow> 'z dir_state_scheme \<Rightarrow> (nat option \<times> 'z dir_state_scheme) option" where
  "dir_lookup dp nm s = do {
     d \<leftarrow> get_dir dp s;
     if nm = ''.'' then Some (Some (inode_reopen (d_inode d)), s)
     else if nm = ''..'' then do {
       (r, s) \<leftarrow> read_entry (d_inode d) 0 s;
       e \<leftarrow> r;
       (ip, s) \<leftarrow> inode_open (inode_sector e) s;
       Some (Some ip, s)
     } else do {
       (r, s) \<leftarrow> lookup dp nm s;
       (case r of
          None \<Rightarrow> Some (None, s)
        | Some (e, _) \<Rightarrow> do {
            (ip, s) \<leftarrow> inode_open (inode_sector e) s;
            Some (Some ip, s)
          })
     }
   }"

text \<open>
  The loop of \<open>dir_open_path\<close> over the tokens of the path.
\<close>

primrec walk_path :: "string list \<Rightarrow> nat \<Rightarrow> 'z dir_state_scheme \<Rightarrow> (nat option \<times> 'z dir_state_scheme) option" where
  "walk_path [] cur s = Some (Some cur, s)"
| "walk_path (token # ts) cur s = do {
     (r, s) \<leftarrow> dir_lookup cur token s;
     (case r of
        None \<Rightarrow> do {
          s \<leftarrow> dir_close (Some cur) s;
          Some (None, s)
        }
      | Some ip \<Rightarrow> do {
          (nxt, s) \<leftarrow> dir_open (Some ip) s;
          s \<leftarrow> dir_close (Some cur) s;
          (case nxt of None \<Rightarrow> Some (None, s) | Some n \<Rightarrow> walk_path ts n s)
        })
   }"

definition dir_open_path :: "string \<Rightarrow> 'z dir_state_scheme \<Rightarrow> (nat option \<times> 'z dir_state_scheme) option" where
  "dir_open_path path s = do {
     (cur, s) \<leftarrow> (if path \<noteq> [] \<and> hd path = CHR ''/'' then dir_open_root s
                  else (case cwd s of None \<Rightarrow> dir_open_root s | Some c \<Rightarrow> dir_reopen c s));
     c \<leftarrow> cur;
     (r, s) \<leftarrow> walk_path (strtok_all (CHR ''/'') path) c s;
     (case r of
        None \<Rightarrow> Some (None, s)
      | Some dp \<Rightarrow> do {
          ip \<leftarrow> dir_get_inode dp s;
          rm \<leftarrow> inode_is_removed ip s;
          if rm then do {
            s \<leftarrow> dir_close (Some dp) s;
            Some (None, s)
          } else Some (Some dp, s)
        })
   }"

subsection \<open>Changing entries\<close>

text \<open>
  \<open>dir_add\<close>. For a directory the parent entry of the child is written first; its name is whatever the
  uninitialised \<open>e.name\<close> holds (\<open>junk\<close>).
\<close>

definition dir_add ::
  "byte list \<Rightarrow> nat \<Rightarrow> string \<Rightarrow> block_sector_t \<Rightarrow> bool \<Rightarrow> 'z dir_state_scheme \<Rightarrow> (bool \<times> 'z dir_state_scheme) option" where
  "dir_add junk dp nm sec isdir s =
     (if nm = [] \<or> length nm > NAME_MAX then Some (False, s)
      else do {
        d \<leftarrow> get_dir dp s;
        (r, s) \<leftarrow> lookup dp nm s;
        if r \<noteq> None then Some (False, s)
        else do {
          (ok, s) \<leftarrow>
            (if isdir then do {
               (ip, s) \<leftarrow> inode_open sec s;
               (child, s) \<leftarrow> dir_open (Some ip) s;
               c \<leftarrow> child;
               parent \<leftarrow> inode_get_inumber (d_inode d) s;
               (n, s) \<leftarrow> inode_write_at ip
                 (dir_entry_bytes \<lparr>inode_sector = parent, e_name = take 31 (junk @ replicate 31 0), in_use = True\<rparr>)
                 (int dir_entry_size) 0 s;
               s \<leftarrow> dir_close (Some c) s;
               Some (n = int dir_entry_size, s)
             } else Some (True, s));
          if \<not> ok then Some (False, s)
          else do {
            (ofs, _, s) \<leftarrow> find_entry (entry_fuel (d_inode d) s) (d_inode d) (\<lambda>e. \<not> in_use e) 0 s;
            (n, s) \<leftarrow> inode_write_at (d_inode d)
              (dir_entry_bytes \<lparr>inode_sector = sec, e_name = strncpy 31 nm, in_use = True\<rparr>) (int dir_entry_size) ofs s;
            Some (n = int dir_entry_size, s)
          }
        }
      })"

text \<open>\<open>dir_remove\<close>; the label \<open>done\<close> closes the inode that was opened, if any.\<close>

definition dir_remove :: "nat \<Rightarrow> string \<Rightarrow> 'z dir_state_scheme \<Rightarrow> (bool \<times> 'z dir_state_scheme) option" where
  "dir_remove dp nm s = do {
     d \<leftarrow> get_dir dp s;
     (r, s) \<leftarrow> lookup dp nm s;
     (case r of
        None \<Rightarrow> do {
          s \<leftarrow> inode_close None s;
          Some (False, s)
        }
      | Some (e, ofs) \<Rightarrow> do {
          (ip, s) \<leftarrow> inode_open (inode_sector e) s;
          isdir \<leftarrow> inode_is_directory ip s;
          (empty, s) \<leftarrow>
            (if isdir then do {
               (target, s) \<leftarrow> dir_open (Some ip) s;
               t \<leftarrow> target;
               (b, s) \<leftarrow> dir_is_empty t s;
               s \<leftarrow> dir_close (Some t) s;
               Some (b, s)
             } else Some (True, s));
          (success, s) \<leftarrow>
            (if \<not> empty then Some (False, s)
             else do {
               (n, s) \<leftarrow> inode_write_at (d_inode d) (dir_entry_bytes (e\<lparr>in_use := False\<rparr>)) (int dir_entry_size) ofs s;
               if n \<noteq> int dir_entry_size then Some (False, s)
               else do {
                 s \<leftarrow> inode_remove ip s;
                 Some (True, s)
               }
             });
          s \<leftarrow> inode_close (Some ip) s;
          Some (success, s)
        })
   }"

subsection \<open>Listing\<close>

text \<open>
  \<open>dir_readdir\<close> and \<open>dir_readdir_inode\<close> advance the position of the directory past every entry they
  read, and stop at one in use. They copy the 31 bytes of its name; without a zero among them the copy is no string, and
  the caller reads past it.
\<close>

primrec readdir_loop :: "nat \<Rightarrow> nat \<Rightarrow> 'z dir_state_scheme \<Rightarrow> (dir_entry option \<times> 'z dir_state_scheme) option" where
  "readdir_loop 0 dp s = None"
| "readdir_loop (Suc fuel) dp s = do {
     d \<leftarrow> get_dir dp s;
     (r, s) \<leftarrow> read_entry (d_inode d) (d_pos d) s;
     (case r of
        None \<Rightarrow> Some (None, s)
      | Some e \<Rightarrow> do {
          p \<leftarrow> int32 (d_pos d + int dir_entry_size);
          let s = set_dir dp (d\<lparr>d_pos := p\<rparr>) s;
          if in_use e then Some (Some e, s) else readdir_loop fuel dp s
        })
   }"

definition dir_readdir :: "nat \<Rightarrow> 'z dir_state_scheme \<Rightarrow> (string option \<times> 'z dir_state_scheme) option" where
  "dir_readdir dp s = do {
     d \<leftarrow> get_dir dp s;
     (r, s) \<leftarrow> readdir_loop (entry_fuel (d_inode d) s) dp s;
     (case r of
        None \<Rightarrow> Some (None, s)
      | Some e \<Rightarrow> if terminated e then Some (Some (c_string (e_name e)), s) else None)
   }"

definition dir_readdir_inode :: "nat \<Rightarrow> 'z dir_state_scheme \<Rightarrow> (block_sector_t \<times> string option \<times> 'z dir_state_scheme) option" where
  "dir_readdir_inode dp s = do {
     d \<leftarrow> get_dir dp s;
     (r, s) \<leftarrow> readdir_loop (entry_fuel (d_inode d) s) dp s;
     (case r of
        None \<Rightarrow> Some (- 1, None, s)
      | Some e \<Rightarrow> if terminated e then Some (inode_sector e, Some (c_string (e_name e)), s) else None)
   }"

text \<open>\<open>dir_create\<close>: the parent of a new directory is the directory itself.\<close>

definition dir_create :: "block_sector_t \<Rightarrow> nat \<Rightarrow> 'z dir_state_scheme \<Rightarrow> (bool \<times> 'z dir_state_scheme) option" where
  "dir_create sec entry_cnt s = do {
     (ok, s) \<leftarrow> inode_create sec (int (entry_cnt * dir_entry_size)) True s;
     if \<not> ok then Some (False, s)
     else do {
       (ip, s) \<leftarrow> inode_open sec s;
       (dp, s) \<leftarrow> dir_open (Some ip) s;
       (n, s) \<leftarrow> inode_write_at ip
         (dir_entry_bytes \<lparr>inode_sector = sec, e_name = replicate 31 0, in_use = True\<rparr>) (int dir_entry_size) 0 s;
       s \<leftarrow> dir_close dp s;
       Some (n = int dir_entry_size, s)
     }
   }"

subsection \<open>Layout of an entry\<close>

lemma length_dir_entry_bytes: "length (e_name e) = 31 \<Longrightarrow> length (dir_entry_bytes e) = 36"
  by (simp add: dir_entry_bytes_def)

lemma dir_entry_of_bytes: "length (e_name e) = 31 \<Longrightarrow> dir_entry_of (dir_entry_bytes e) = e"
  by (simp add: dir_entry_of_def dir_entry_bytes_def le_word_le_bytes nth_append)

lemma length_strncpy [simp]: "length (strncpy n str) = n"
  by (simp add: strncpy_def)

lemma char_of_byte_of_char [simp]: "char_of_byte (byte_of_char c) = c"
proof -
  have "of_char c < (256 :: nat)" by simp
  then have "unat (of_nat (of_char c) :: byte) = of_char c" by (simp add: unat_of_nat take_bit_nat_eq_self)
  then show ?thesis by (simp add: char_of_byte_def byte_of_char_def)
qed

lemma byte_of_char_0: "byte_of_char c = 0 \<longleftrightarrow> c = CHR 0x00"
proof
  assume "byte_of_char c = 0"
  then have "char_of_byte (byte_of_char c) = char_of_byte (byte_of_char (CHR 0x00))"
    by (simp only:) (simp add: byte_of_char_def)
  then show "c = CHR 0x00" by (simp only: char_of_byte_of_char)
qed (simp add: byte_of_char_def)

lemma c_string_strncpy:
  assumes "length nm < n" and "CHR 0x00 \<notin> set nm" shows "c_string (strncpy n nm) = nm"
proof -
  have "takeWhile (\<lambda>b. b \<noteq> 0) (map byte_of_char nm @ 0 # xs) = map byte_of_char nm" for xs
    using assms(2) by (subst takeWhile_append2) (auto simp: byte_of_char_0)
  moreover have "strncpy n nm = map byte_of_char nm @ 0 # replicate (n - length nm - 1) 0"
    using assms(1) by (cases "n - length nm") (auto simp: strncpy_def take_replicate)
  ultimately show ?thesis by (simp add: c_string_def comp_def)
qed

subsection \<open>The entries of a directory\<close>

definition dir_entries :: "(block_sector_t \<Rightarrow> byte list) \<Rightarrow> inode_disk \<Rightarrow> dir_entry list" where
  "dir_entries c d =
     map (\<lambda>i. dir_entry_of (take 36 (drop (36 * i) (file_bytes c d)))) [0..<length (file_bytes c d) div 36]"

lemma length_entry_name: "j < length (dir_entries c d) \<Longrightarrow> length (e_name (dir_entries c d ! j)) = 31"
proof -
  assume "j < length (dir_entries c d)"
  then have j: "j < length (file_bytes c d) div 36" by (simp add: dir_entries_def)
  then have "36 * j + 36 \<le> length (file_bytes c d)" by linarith
  then show ?thesis using j by (simp add: dir_entries_def dir_entry_of_def)
qed

text \<open>The names in use are strings: an invariant of the directories that \<open>dir_add\<close> fills.\<close>

definition names_ok :: "(block_sector_t \<Rightarrow> byte list) \<Rightarrow> inode_disk \<Rightarrow> bool" where
  "names_ok c d \<longleftrightarrow> (\<forall>e \<in> set (dir_entries c d). in_use e \<longrightarrow> terminated e)"

lemma names_ok_update:
  assumes "names_ok c d" and "dir_entries c' d = (dir_entries c d)[j := e]" and "in_use e \<Longrightarrow> terminated e"
  shows "names_ok c' d"
  using assms set_update_subset_insert [of "dir_entries c d" j e] by (auto simp: names_ok_def)

lemma names_ok_bytes: "file_bytes c' d = file_bytes c d \<Longrightarrow> names_ok c' d = names_ok c d"
  by (simp add: names_ok_def dir_entries_def)

lemma terminated_strncpy: "length nm \<le> 30 \<Longrightarrow> terminated \<lparr>inode_sector = sec, e_name = strncpy 31 nm, in_use = u\<rparr>"
  by (cases "31 - length nm") (auto simp: terminated_def strncpy_def take_replicate)

lemma same_name_terminated: "terminated e \<Longrightarrow> same_name nm e = Some (nm = c_string (e_name e))"
  by (simp add: same_name_def)

lemma same_name_short:
  assumes "length (e_name e) = 31" and "length nm \<le> 30"
  shows "same_name nm e = Some (nm = c_string (e_name e))"
proof (cases "terminated e")
  case False
  then have "takeWhile (\<lambda>b. b \<noteq> 0) (e_name e) = e_name e"
    by (auto simp: terminated_def takeWhile_eq_all_conv)
  then have "length (c_string (e_name e)) = 31" by (simp only: c_string_def length_map assms(1))
  then have "length (take (NAME_MAX + 1) nm) \<noteq> length (c_string (e_name e))" "length nm \<noteq> length (c_string (e_name e))"
    using assms(2) by simp_all
  then have "take (NAME_MAX + 1) nm \<noteq> c_string (e_name e)" "nm \<noteq> c_string (e_name e)" by metis+
  then show ?thesis using False by (simp add: same_name_def)
qed (simp add: same_name_terminated)

lemma length_dir_entries: "inode_ok v c d \<Longrightarrow> length (dir_entries c d) = nat (dlength d) div 36"
  by (simp add: dir_entries_def length_file_bytes)

lemma bc_step_dirs:
  fixes s s' :: "'z dir_state_scheme"
  assumes "fs_state.more s' = fs_state.more s"
  shows "dirs s' = dirs s" "cwd s' = cwd s" "get_dir dp s' = get_dir dp s" "file_table s' = file_table s"
  using assms by (cases s; cases s'; simp add: get_dir_def)+

lemma read_entry_step:
  fixes s :: "'z fs_state_scheme"
  assumes "bc_inv s" and "get_inode ip s = Some ino" and ok: "inode_ok (bc_dev_valid s) (bc_sect s) (data ino)"
    and i: "36 * int i < 2 ^ 31"
  shows "\<exists>s'. read_entry ip (36 * int i) s =
      Some (if i < length (dir_entries (bc_sect s) (data ino)) then Some (dir_entries (bc_sect s) (data ino) ! i) else None, s') \<and>
      bc_step s s'"
proof -
  let ?fb = "file_bytes (bc_sect s) (data ino)"
  define n where "n = min (nat (int 36)) (nat (dlength (data ino)) - nat (36 * int i))"
  have len: "length ?fb = nat (dlength (data ino))" by (rule length_file_bytes [OF ok])
  obtain s' where s': "inode_read_at ip (replicate 36 0) (int 36) (36 * int i) s =
      Some (int n, put_at (replicate 36 0) 0 (take n (drop (36 * i) ?fb)), s')" "bc_step s s'"
    using inode_read_loop_correct [OF assms(1,2) ok _ i, of 0 n "int 36" "replicate 36 0"]
    by (auto simp: inode_read_at_def n_def nat_mult_distrib)
  have iff: "n = 36 \<longleftrightarrow> i < nat (dlength (data ino)) div 36"
    by (simp add: n_def nat_mult_distrib) linarith
  show ?thesis
  proof (cases "n = 36")
    case True
    then have "36 * i + 36 \<le> length ?fb" using iff len by linarith
    then have "put_at (replicate 36 0) 0 (take 36 (drop (36 * i) ?fb)) = take 36 (drop (36 * i) ?fb)"
      by (intro put_at_all) simp
    then show ?thesis
      using s' True iff len by (auto simp: read_entry_def dir_entry_size_def dir_entries_def)
  next
    case False
    then show ?thesis using s' iff len by (auto simp: read_entry_def dir_entry_size_def dir_entries_def)
  qed
qed

text \<open>The search loops find the first entry from \<open>i\<close> on that satisfies the condition.\<close>

lemma find_entry_step:
  fixes s :: "'z fs_state_scheme"
  assumes "bc_inv s" and "get_inode ip s = Some ino" and "inode_ok (bc_dev_valid s) (bc_sect s) (data ino)"
    and "es = dir_entries (bc_sect s) (data ino)" and "length es + 36 < 2 ^ 25" and "i \<le> length es"
    and "length es < fuel + i"
  shows "\<exists>s'. find_entry fuel ip cond (36 * int i) s =
      Some (case find (\<lambda>j. cond (es ! j)) [i..<length es] of
              Some j \<Rightarrow> (36 * int j, Some (es ! j), s') | None \<Rightarrow> (36 * int (length es), None, s')) \<and> bc_step s s'"
  using assms
proof (induction fuel arbitrary: i s)
  case 0
  then show ?case by simp
next
  case (Suc fuel)
  have "36 * int i < 2 ^ 31" using Suc.prems(5,6) by simp
  from read_entry_step [OF Suc.prems(1-3) this] obtain s1 where
    s1: "read_entry ip (36 * int i) s = Some (if i < length es then Some (es ! i) else None, s1)" "bc_step s s1"
    unfolding Suc.prems(4) by blast
  show ?case
  proof (cases "i < length es")
    case False
    then show ?thesis using s1 Suc.prems(6) by simp
  next
    case True
    show ?thesis
    proof (cases "cond (es ! i)")
      case True
      with \<open>i < length es\<close> s1 show ?thesis by (simp add: upt_conv_Cons)
    next
      case False
      obtain s2 where "find_entry fuel ip cond (36 * int (Suc i)) s1 =
          Some (case find (\<lambda>j. cond (es ! j)) [Suc i..<length es] of
            Some j \<Rightarrow> (36 * int j, Some (es ! j), s2) | None \<Rightarrow> (36 * int (length es), None, s2))" "bc_step s1 s2"
        using Suc.IH [of s1 "Suc i"] Suc.prems True bc_step_view [OF s1(2)] bc_step_fs [OF s1(2)] by auto
      moreover have "36 * int i + 36 < 2 ^ 31" using Suc.prems(5) True by simp
      ultimately show ?thesis
        using s1 True False bc_step_trans [OF s1(2)]
        by (auto simp: upt_conv_Cons dir_entry_size_def algebra_simps intro!: exI [of _ s2])
    qed
  qed
qed

subsection \<open>Looking up and adding names\<close>

text \<open>An open directory whose inode is sound and has room for the parent entry.\<close>

definition dir_ok :: "'z dir_state_scheme \<Rightarrow> nat \<Rightarrow> dir \<Rightarrow> inode \<Rightarrow> bool" where
  "dir_ok s dp d ino \<longleftrightarrow> bc_inv s \<and> get_dir dp s = Some d \<and> get_inode (d_inode d) s = Some ino \<and>
     deny_write_cnt ino = 0 \<and> inode_ok (bc_dev_valid s) (bc_sect s) (data ino) \<and> inode_sep (bc_sect s) (data ino) \<and>
     36 \<le> dlength (data ino)"

lemma dir_ok_facts:
  assumes "dir_ok s dp d ino"
  shows "bc_inv s" "get_dir dp s = Some d" "get_inode (d_inode d) s = Some ino" "deny_write_cnt ino = 0"
    "inode_ok (bc_dev_valid s) (bc_sect s) (data ino)" "inode_sep (bc_sect s) (data ino)" "36 \<le> dlength (data ino)"
  using assms by (simp_all add: dir_ok_def)

lemma dir_entries_bounds:
  assumes "dir_ok s dp d ino" and "es = dir_entries (bc_sect s) (data ino)"
  shows "1 \<le> length es" "length es + 36 < 2 ^ 25" "length es < entry_fuel (d_inode d) s"
    "36 * int (length es) \<le> dlength (data ino)"
proof -
  note f = dir_ok_facts [OF assms(1)]
  have len: "length es = nat (dlength (data ino)) div 36"
    unfolding assms(2) by (rule length_dir_entries [OF f(5)])
  have "nsec (data ino) \<le> 16635" using f(5) by (simp add: inode_ok_def)
  then have "nat (dlength (data ino)) \<le> 16635 * 512"
    using nsec_bound [of "data ino"] f(7) by simp
  then show "length es + 36 < 2 ^ 25" using len by simp
  show "1 \<le> length es" "36 * int (length es) \<le> dlength (data ino)" using len f(7) by linarith+
  have "inode_length (d_inode d) s = Some (dlength (data ino))" using f(3) by (simp add: inode_length_def)
  then show "length es < entry_fuel (d_inode d) s" using len by (simp add: entry_fuel_def)
qed

lemma bc_step_dir_ok:
  fixes s s' :: "'z dir_state_scheme"
  assumes "bc_step s s'" and "dir_ok s dp d ino" shows "dir_ok s' dp d ino"
  using assms(2) bc_step_view [OF assms(1)] bc_step_fs [OF assms(1)] bc_step_dirs [of s' s]
  by (simp add: dir_ok_def)

lemma lookup_step:
  assumes ok: "dir_ok s dp d ino" and es: "es = dir_entries (bc_sect s) (data ino)"
    and names: "length nm \<le> 30 \<or> names_ok (bc_sect s) (data ino)"
  shows "\<exists>s'. lookup dp nm s =
      Some (map_option (\<lambda>j. (es ! j, 36 * int j)) (find (\<lambda>j. in_use (es ! j) \<and> nm = c_string (e_name (es ! j))) [1..<length es]), s') \<and>
      bc_step s s'"
proof -
  note f = dir_ok_facts [OF ok] and b = dir_entries_bounds [OF ok es]
  let ?cond = "\<lambda>e. in_use e \<and> same_name nm e \<noteq> Some False"
  have same: "in_use (es ! j) \<Longrightarrow> same_name nm (es ! j) = Some (nm = c_string (e_name (es ! j)))" if "j < length es" for j
    using names that length_entry_name [of j "bc_sect s" "data ino"] same_name_short [of "es ! j" nm] same_name_terminated [of "es ! j" nm]
    by (auto simp: es names_ok_def)
  then have cond: "find (\<lambda>j. ?cond (es ! j)) [1..<length es] = find (\<lambda>j. in_use (es ! j) \<and> nm = c_string (e_name (es ! j))) [1..<length es]"
    by (intro find_cong) auto
  have "length es < entry_fuel (d_inode d) s + 1" using b(3) by simp
  from find_entry_step [OF f(1,3,5) es b(2,1) this, of ?cond] obtain s' where
    s': "find_entry (entry_fuel (d_inode d) s) (d_inode d) ?cond 36 s =
      Some (case find (\<lambda>j. ?cond (es ! j)) [1..<length es] of
              Some j \<Rightarrow> (36 * int j, Some (es ! j), s') | None \<Rightarrow> (36 * int (length es), None, s'))" "bc_step s s'"
    by auto
  show ?thesis
  proof (cases "find (\<lambda>j. in_use (es ! j) \<and> nm = c_string (e_name (es ! j))) [1..<length es]")
    case None
    then show ?thesis using f(2) s' cond by (simp add: lookup_def dir_entry_size_def)
  next
    case (Some j)
    then have "j < length es" "in_use (es ! j)" by (simp_all add: find_upt_Some)
    then show ?thesis using f(2) s' cond Some same [of j] by (simp add: lookup_def dir_entry_size_def)
  qed
qed

lemma dir_entries_put:
  assumes ok: "inode_ok v c d" "inode_ok v' c' d" and j: "j < length (dir_entries c d)" and e: "length (e_name e) = 31"
    and fb: "file_bytes c' d = put_at (file_bytes c d) (36 * j) (dir_entry_bytes e)"
  shows "dir_entries c' d = (dir_entries c d)[j := e]"
proof (rule nth_equalityI)
  have len: "length (dir_entries c d) = nat (dlength d) div 36" "length (file_bytes c d) = nat (dlength d)"
    using length_dir_entries [OF ok(1)] length_file_bytes [OF ok(1)] by simp_all
  show "length (dir_entries c' d) = length ((dir_entries c d)[j := e])"
    using len length_dir_entries [OF ok(2)] by simp
  fix i assume "i < length (dir_entries c' d)"
  then have i: "i < nat (dlength d) div 36" using length_dir_entries [OF ok(2)] by simp
  have l36: "length (dir_entry_bytes e) = 36" using e by (rule length_dir_entry_bytes)
  have jb: "36 * j + 36 \<le> length (file_bytes c d)" and ib: "36 * i + 36 \<le> length (file_bytes c d)"
    using i j len by linarith+
  have c': "dir_entries c' d ! i = dir_entry_of (take 36 (drop (36 * i) (file_bytes c' d)))"
    using i length_file_bytes [OF ok(2)] by (simp add: dir_entries_def)
  show "dir_entries c' d ! i = (dir_entries c d)[j := e] ! i"
  proof (cases "i = j")
    case True
    then have "take 36 (drop (36 * i) (file_bytes c' d)) = dir_entry_bytes e"
      using take_drop_put_at [of "36 * j" "dir_entry_bytes e" "file_bytes c d"] jb l36 fb by simp
    then show ?thesis using c' True j by (simp add: dir_entry_of_bytes [OF e])
  next
    case False
    then have "36 * i + 36 \<le> 36 * j \<or> 36 * j + 36 \<le> 36 * i" by linarith
    then have "take 36 (drop (36 * i) (file_bytes c' d)) = take 36 (drop (36 * i) (file_bytes c d))"
      using jb ib l36 by (intro nth_equalityI) (auto simp: fb nth_put_at)
    then show ?thesis using c' False i len by (simp add: dir_entries_def)
  qed
qed

lemma data_step_dir_ok:
  fixes s s' :: "'z dir_state_scheme"
  assumes "data_step (data ino) s s'" and "dir_ok s dp d ino" shows "dir_ok s' dp d ino"
  using assms(2) data_step_layout [OF assms(1)] data_step_fs [OF assms(1)] bc_step_dirs [of s' s] assms(1)
  by (simp add: dir_ok_def data_step_def)

lemma write_entry_step:
  fixes s :: "'z dir_state_scheme"
  assumes ok: "dir_ok s dp d ino" and es: "es = dir_entries (bc_sect s) (data ino)" and j: "j < length es"
    and e: "length (e_name e) = 31"
  shows "\<exists>s'. inode_write_at (d_inode d) (dir_entry_bytes e) 36 (36 * int j) s = Some (36, s') \<and>
      data_step (data ino) s s' \<and> dir_ok s' dp d ino \<and> dir_entries (bc_sect s') (data ino) = es[j := e]"
proof -
  note f = dir_ok_facts [OF ok] and b = dir_entries_bounds [OF ok es]
  have l36: "length (dir_entry_bytes e) = 36" using e by (rule length_dir_entry_bytes)
  have "36 * int j + 36 \<le> dlength (data ino)" using b(4) j by linarith
  then obtain s' where s': "inode_write_at (d_inode d) (dir_entry_bytes e) 36 (36 * int j) s = Some (36, s')"
      "data_step (data ino) s s'" "file_bytes (bc_sect s') (data ino) =
        put_at (file_bytes (bc_sect s) (data ino)) (nat (36 * int j)) (take (nat 36) (dir_entry_bytes e))"
    using inode_write_via_in_place [OF f(1,3,5,6,4), of "36 * int j" 36 "dir_entry_bytes e" "inode_write_at_depth 1"] l36
    unfolding inode_write_at_Suc by auto
  have ok': "dir_ok s' dp d ino" using s'(2) ok by (rule data_step_dir_ok)
  have "dir_entries (bc_sect s') (data ino) = es[j := e]"
    unfolding es using s'(3) l36 j es
    by (intro dir_entries_put [OF f(5) dir_ok_facts(5) [OF ok'] _ e]) (simp_all add: nat_mult_distrib)
  with s' ok' show ?thesis by blast
qed

lemma dir_add_step:
  fixes s :: "'z dir_state_scheme"
  assumes ok: "dir_ok s dp d ino" and es: "es = dir_entries (bc_sect s) (data ino)"
    and nm: "nm \<noteq> []" "length nm \<le> 30"
    and new: "\<And>j. 1 \<le> j \<Longrightarrow> j < length es \<Longrightarrow> \<not> (in_use (es ! j) \<and> nm = c_string (e_name (es ! j)))"
    and slot: "find (\<lambda>j. \<not> in_use (es ! j)) [0..<length es] = Some k"
  shows "\<exists>s' t. dir_add junk dp nm sec False s = Some (True, s') \<and> dir_ok s' dp d ino \<and>
      dir_entries (bc_sect s') (data ino) = es[k := \<lparr>inode_sector = sec, e_name = strncpy 31 nm, in_use = True\<rparr>] \<and>
      bc_step s t \<and> data_step (data ino) t s'"
proof -
  let ?e = "\<lparr>inode_sector = sec, e_name = strncpy 31 nm, in_use = True\<rparr>"
  have none: "find (\<lambda>j. in_use (es ! j) \<and> nm = c_string (e_name (es ! j))) [1..<length es] = None"
    using new by (auto simp: find_upt_None)
  obtain s1 where s1: "lookup dp nm s = Some (None, s1)" "bc_step s s1"
    using lookup_step [OF ok es, of nm] none nm(2) by auto
  have ok1: "dir_ok s1 dp d ino" using s1(2) ok by (rule bc_step_dir_ok)
  have es1: "es = dir_entries (bc_sect s1) (data ino)" using es bc_step_view [OF s1(2)] by simp
  note f1 = dir_ok_facts [OF ok1] and b1 = dir_entries_bounds [OF ok1 es1]
  obtain s2 where s2: "find_entry (entry_fuel (d_inode d) s1) (d_inode d) (\<lambda>e. \<not> in_use e) 0 s1 =
      Some (36 * int k, Some (es ! k), s2)" "bc_step s1 s2"
    using find_entry_step [OF f1(1,3,5) es1 b1(2), of 0 "entry_fuel (d_inode d) s1" "\<lambda>e. \<not> in_use e"] b1(3) slot by auto
  have ok2: "dir_ok s2 dp d ino" using s2(2) ok1 by (rule bc_step_dir_ok)
  have es2: "es = dir_entries (bc_sect s2) (data ino)" using es1 bc_step_view [OF s2(2)] by simp
  have k: "k < length es" using slot by (simp add: find_upt_Some)
  obtain s3 where "inode_write_at (d_inode d) (dir_entry_bytes ?e) 36 (36 * int k) s2 = Some (36, s3)"
      "dir_ok s3 dp d ino" "dir_entries (bc_sect s3) (data ino) = es[k := ?e]" "data_step (data ino) s2 s3"
    using write_entry_step [OF ok2 es2 k, of ?e] by auto
  then show ?thesis
    using nm s1 s2 dir_ok_facts(2) [OF ok] bc_step_trans [OF s1(2) s2(2)]
    by (intro exI [of _ s3] exI [of _ s2]) (simp add: dir_add_def NAME_MAX_def dir_entry_size_def)
qed

subsection \<open>Listing\<close>

text \<open>Listing moves positions of directories and reads; everything else stays.\<close>

definition dir_step :: "'z dir_state_scheme \<Rightarrow> 'z dir_state_scheme \<Rightarrow> bool" where
  "dir_step s s' \<longleftrightarrow> bc_inv s' \<and> bc_dev_valid s' = bc_dev_valid s \<and> bc_sect s' = bc_sect s \<and> inodes s' = inodes s \<and>
     open_inodes s' = open_inodes s \<and> free_map s' = free_map s \<and> free_map_file s' = free_map_file s \<and> files s' = files s \<and>
     file_table s' = file_table s \<and> cwd s' = cwd s"

lemma dir_step_trans: "dir_step s t \<Longrightarrow> dir_step t u \<Longrightarrow> dir_step s u"
  by (simp add: dir_step_def)

lemma bc_step_dir_step:
  fixes s s' :: "'z dir_state_scheme"
  assumes "bc_step s s'" shows "dir_step s s'" and "dir_step s (set_dir dp d s')"
proof -
  show "dir_step s s'" using bc_step_view [OF assms] bc_step_fs [OF assms] bc_step_dirs [of s' s] by (simp add: dir_step_def)
  moreover have "dir_step s' (set_dir dp d s')" using bc_step_view(1) [OF assms]
    by (simp add: dir_step_def set_dir_def bc_inv_def bc_sect_def bc_dev_def bc_dev_valid_def)
  ultimately show "dir_step s (set_dir dp d s')" by (rule dir_step_trans)
qed

lemma readdir_loop_step:
  fixes s :: "'z dir_state_scheme"
  assumes "dir_ok s dp d ino" and "es = dir_entries (bc_sect s) (data ino)" and "d_pos d = 36 * int i" and "i \<le> length es"
    and "length es < fuel + i"
  shows "\<exists>s'. readdir_loop fuel dp s = Some (map_option (\<lambda>j. es ! j) (find (\<lambda>j. in_use (es ! j)) [i..<length es]), s') \<and>
      dir_ok s' dp (d\<lparr>d_pos := 36 * int (case find (\<lambda>j. in_use (es ! j)) [i..<length es] of Some j \<Rightarrow> Suc j | None \<Rightarrow> length es)\<rparr>) ino \<and>
      bc_sect s' = bc_sect s \<and> dir_step s s'"
  using assms
proof (induction fuel arbitrary: i s d)
  case 0
  then show ?case by simp
next
  case (Suc fuel)
  note f = dir_ok_facts [OF Suc.prems(1)] and b = dir_entries_bounds [OF Suc.prems(1,2)]
  have lim: "36 * int i < 2 ^ 31" using b(2) Suc.prems(4) by simp
  from read_entry_step [OF f(1,3,5) lim] obtain s1 where
    s1: "read_entry (d_inode d) (d_pos d) s = Some (if i < length es then Some (es ! i) else None, s1)" "bc_step s s1"
    unfolding Suc.prems(2,3) by blast
  have ok1: "dir_ok s1 dp d ino" using s1(2) Suc.prems(1) by (rule bc_step_dir_ok)
  note v1 = bc_step_view [OF s1(2)]
  show ?case
  proof (cases "i < length es")
    case False
    then have "i = length es" using Suc.prems(4) by simp
    moreover from this have "d\<lparr>d_pos := 36 * int (length es)\<rparr> = d" using Suc.prems(3) by (cases d) simp
    then have "dir_ok s1 dp (d\<lparr>d_pos := 36 * int (length es)\<rparr>) ino" using ok1 by (simp only:)
    ultimately show ?thesis using s1 v1 f(2) Suc.prems(3) bc_step_dir_step(1) [OF s1(2)] by simp
  next
    case True
    let ?d = "d\<lparr>d_pos := 36 * int (Suc i)\<rparr>"
    let ?s = "set_dir dp ?d s1"
    have p: "int32 (d_pos d + int dir_entry_size) = Some (36 * int (Suc i))"
      using b(2) True Suc.prems(3) by (simp add: dir_entry_size_def)
    have ok2: "dir_ok ?s dp ?d ino"
      using ok1 by (auto simp: dir_ok_def set_dir_def get_dir_def deref_eq_Some bc_inv_def bc_sect_def bc_dev_def
          bc_dev_valid_def get_inode_def)
    have sect: "bc_sect ?s = bc_sect s" using v1 by (simp add: set_dir_def bc_sect_def bc_dev_def)
    have step: "dir_step s ?s" using s1(2) by (rule bc_step_dir_step(2))
    have unf: "readdir_loop (Suc fuel) dp s = (if in_use (es ! i) then Some (Some (es ! i), ?s) else readdir_loop fuel dp ?s)"
      using f(2) s1(1) True p by (simp add: Let_def)
    show ?thesis
    proof (cases "in_use (es ! i)")
      case True
      then show ?thesis using unf ok2 sect step \<open>i < length es\<close> by (simp add: upt_conv_Cons)
    next
      case False
      have "find (\<lambda>j. in_use (es ! j)) [i..<length es] = find (\<lambda>j. in_use (es ! j)) [Suc i..<length es]"
        using False True by (simp add: upt_conv_Cons)
      then show ?thesis
        using Suc.IH [OF ok2, of "Suc i"] Suc.prems(2,5) sect True unf False dir_step_trans [OF step] by auto
    qed
  qed
qed

lemma readdir_step:
  fixes s :: "'z dir_state_scheme"
  assumes "dir_ok s dp d ino" and "es = dir_entries (bc_sect s) (data ino)" and "d_pos d = 36 * int i" and "i \<le> length es"
    and "r = find (\<lambda>j. in_use (es ! j)) [i..<length es]" and "names_ok (bc_sect s) (data ino)"
  shows "\<exists>s'. dir_readdir dp s = Some (map_option (\<lambda>j. c_string (e_name (es ! j))) r, s') \<and>
      dir_ok s' dp (d\<lparr>d_pos := 36 * int (case r of Some j \<Rightarrow> Suc j | None \<Rightarrow> length es)\<rparr>) ino \<and> bc_sect s' = bc_sect s \<and>
      dir_step s s'"
proof -
  have "length es < entry_fuel (d_inode d) s + i" using dir_entries_bounds(3) [OF assms(1,2)] by simp
  from readdir_loop_step [OF assms(1-4) this] obtain s' where s': "readdir_loop (entry_fuel (d_inode d) s) dp s = Some (map_option (\<lambda>j. es ! j) r, s')"
      "dir_ok s' dp (d\<lparr>d_pos := 36 * int (case r of Some j \<Rightarrow> Suc j | None \<Rightarrow> length es)\<rparr>) ino" "bc_sect s' = bc_sect s" "dir_step s s'"
    unfolding assms(5) by blast
  have "terminated (es ! j)" if "r = Some j" for j
    using that assms(2,5,6) by (auto simp: find_upt_Some names_ok_def)
  then show ?thesis using s' dir_ok_facts(2) [OF assms(1)] by (cases r) (auto simp: dir_readdir_def)
qed

subsection \<open>Splitting paths\<close>

lemma split_on_no: "d \<notin> set t \<Longrightarrow> split_on d acc (t @ d # cs) = (rev acc @ t) # split_on d [] cs"
  by (induction t arbitrary: acc) auto

lemma strtok_all_cons: "d \<notin> set t \<Longrightarrow> t \<noteq> [] \<Longrightarrow> strtok_all d (t @ d # cs) = t # strtok_all d cs"
  by (simp add: strtok_all_def split_on_no)

lemma strtok_all_join: "(\<And>t. t \<in> set ts \<Longrightarrow> d \<notin> set t \<and> t \<noteq> []) \<Longrightarrow> strtok_all d (concat (map (\<lambda>t. t @ [d]) ts)) = ts"
  by (induction ts) (auto simp: strtok_all_cons, simp add: strtok_all_def)

lemma split_on_tokens: "t \<in> set (split_on d acc cs) \<Longrightarrow> d \<notin> set acc \<Longrightarrow> d \<notin> set t"
  by (induction d acc cs rule: split_on.induct) (auto split: if_splits)

lemma strtok_all_tokens: "t \<in> set (strtok_all d cs) \<Longrightarrow> d \<notin> set t \<and> t \<noteq> []"
  using split_on_tokens [of t d "[]"] by (auto simp: strtok_all_def)

lemma strtok_all_delim [simp]: "strtok_all d (d # cs) = strtok_all d cs"
  by (simp add: strtok_all_def)

lemma split_loop_tokens:
  assumes "\<forall>t \<in> set ts. t \<noteq> []"
  shows "split_loop dn lt ts =
     (dn @ concat (map (\<lambda>t. t @ ''/'') (filter (\<lambda>t. t \<noteq> []) (butlast (lt # ts)))), last (lt # ts))"
  using assms
proof (induction dn lt ts rule: split_loop.induct)
  case (2 dn lt t ts)
  then show ?case by (cases ts) simp_all
qed simp

lemma split_path_tokens:
  assumes "split_path_filename path = (dn, fn)"
  shows "strtok_all (CHR ''/'') path = strtok_all (CHR ''/'') dn @ (if fn = [] then [] else [fn])"
    and "CHR ''/'' \<notin> set fn"
proof -
  let ?ts = "strtok_all (CHR ''/'') path"
  have ne: "\<forall>t \<in> set ?ts. t \<noteq> []" using strtok_all_tokens by blast
  define pre where "pre = (if length path > 0 \<and> hd path = CHR ''/'' then ''/'' else [])"
  have sp: "dn = pre @ concat (map (\<lambda>t. t @ ''/'') (filter (\<lambda>t. t \<noteq> []) (butlast ([] # ?ts))))" "fn = last ([] # ?ts)"
    using assms split_loop_tokens [OF ne, of pre "[]"] by (simp_all add: split_path_filename_def pre_def Let_def)
  have pre: "strtok_all (CHR ''/'') (pre @ xs) = strtok_all (CHR ''/'') xs" for xs by (simp add: pre_def)
  show "?ts = strtok_all (CHR ''/'') dn @ (if fn = [] then [] else [fn])"
  proof (cases ?ts rule: rev_cases)
    case Nil
    then show ?thesis using sp pre [of "[]"] by (simp add: strtok_all_def)
  next
    case (snoc us u)
    then have u: "u \<noteq> []" and us: "\<And>t. t \<in> set us \<Longrightarrow> CHR ''/'' \<notin> set t \<and> t \<noteq> []"
      using strtok_all_tokens [of _ "CHR ''/''" path] by auto
    have "filter (\<lambda>t. t \<noteq> []) us = us" using us by (simp add: filter_id_conv)
    then have "dn = pre @ concat (map (\<lambda>t. t @ ''/'') us)" "fn = u" using sp snoc by (cases us; simp add: butlast_append)+
    moreover have "strtok_all (CHR ''/'') (concat (map (\<lambda>t. t @ ''/'') us)) = us" using us by (rule strtok_all_join)
    ultimately show ?thesis using snoc u pre by simp
  qed
  show "CHR ''/'' \<notin> set fn"
    using sp(2) strtok_all_tokens [of fn "CHR ''/''" path] by (cases ?ts rule: rev_cases) auto
qed

subsection \<open>An example directory\<close>

definition dir_example_bytes :: "byte list" where
  "dir_example_bytes = replicate 2048 0 @ dir_entry_bytes \<lparr>inode_sector = 3, e_name = replicate 31 0, in_use = True\<rparr>"

definition dir_example :: dir_state where
  "dir_example = file_state.extend (fs_state.extend (fs_example dir_example_bytes 63) \<lparr>file_table = []\<rparr>)
     \<lparr>dirs = [Some \<lparr>d_inode = 1, d_pos = 36, d_open_cnt = 1\<rparr>], cwd = Some 0\<rparr>"

lemma dir_example_simps [simp]:
  "bc_inv dir_example = bc_inv (fs_example dir_example_bytes 63)"
  "bc_sect dir_example = bc_sect (fs_example dir_example_bytes 63)"
  "bc_dev_valid dir_example = bc_dev_valid (fs_example dir_example_bytes 63)"
  "get_inode ip dir_example = get_inode ip (fs_example dir_example_bytes 63)"
  "get_dir 0 dir_example = Some \<lparr>d_inode = 1, d_pos = 36, d_open_cnt = 1\<rparr>"
  by (simp_all add: dir_example_def file_state.defs fs_state.defs bc_inv_def bc_sect_def bc_dev_def bc_dev_valid_def
      get_inode_def get_dir_def deref_def fs_example_def)

lemma dir_example_file:
  "file_bytes (bc_sect dir_example) (disk_inode_example [4, 5] 600) =
     dir_entry_bytes \<lparr>inode_sector = 3, e_name = replicate 31 0, in_use = True\<rparr> @ replicate 564 0"
proof -
  let ?e = "dir_entry_bytes \<lparr>inode_sector = 3, e_name = replicate 31 0, in_use = True\<rparr>"
  have len: "length ?e = 36" by (simp add: dir_entry_bytes_def)
  have ds: "data_sectors c (disk_inode_example [4, 5] 600) = [4, 5]" for c
    by (simp add: data_sectors_def nsec_def sector_count_def sector_of_def disk_inode_example_def
        upt_conv_Cons numeral_2_eq_2)
  have "bc_sect dir_example 4 = ?e @ replicate 476 0" "bc_sect dir_example 5 = replicate 512 0"
    using len by (simp_all add: fs_example_dev [of _ _ 4] fs_example_dev [of _ _ 5] dir_example_bytes_def
        word_less_nat_alt take_replicate)
  then show ?thesis
    using len by (simp add: file_bytes_def ds take_replicate replicate_add [symmetric])
qed

lemma dir_example_entries:
  "dir_entries (bc_sect dir_example) (disk_inode_example [4, 5] 600) =
     \<lparr>inode_sector = 3, e_name = replicate 31 0, in_use = True\<rparr> #
     replicate 15 \<lparr>inode_sector = 0, e_name = replicate 31 0, in_use = False\<rparr>"
proof (rule nth_equalityI)
  let ?e = "dir_entry_bytes \<lparr>inode_sector = 3, e_name = replicate 31 0, in_use = True\<rparr>"
  have len: "length ?e = 36" by (simp add: dir_entry_bytes_def)
  show "length (dir_entries (bc_sect dir_example) (disk_inode_example [4, 5] 600)) =
      length (\<lparr>inode_sector = 3, e_name = replicate 31 0, in_use = True\<rparr> #
     replicate 15 \<lparr>inode_sector = 0, e_name = replicate 31 0, in_use = False\<rparr>)"
    using len by (simp only: dir_entries_def dir_example_file) simp
  fix i assume "i < length (dir_entries (bc_sect dir_example) (disk_inode_example [4, 5] 600))"
  then have i: "i < 16" using len by (simp only: dir_entries_def dir_example_file) simp
  have *: "dir_entries (bc_sect dir_example) (disk_inode_example [4, 5] 600) ! i =
      dir_entry_of (take 36 (drop (36 * i) (?e @ replicate 564 0)))"
    using i len by (simp only: dir_entries_def dir_example_file) simp
  show "dir_entries (bc_sect dir_example) (disk_inode_example [4, 5] 600) ! i =
      (\<lparr>inode_sector = 3, e_name = replicate 31 0, in_use = True\<rparr> #
     replicate 15 \<lparr>inode_sector = 0, e_name = replicate 31 0, in_use = False\<rparr>) ! i"
  proof (cases i)
    case 0
    then show ?thesis unfolding * using len by (simp add: dir_entry_of_bytes)
  next
    case (Suc k)
    then have "take 36 (drop (36 * i) (?e @ replicate 564 0)) = replicate 36 0" using len i by (simp add: take_replicate min_def)
    then show ?thesis unfolding * using Suc i by (simp add: dir_entry_of_def take_replicate)
  qed
qed

lemma dir_example_ok: "dir_ok dir_example 0 \<lparr>d_inode = 1, d_pos = 36, d_open_cnt = 1\<rparr> (inode_example 3 [4, 5] 600)"
  using fs_example_files(3,4) by (simp add: dir_ok_def)

subsection \<open>Properties\<close>

text \<open>A name that is there already is refused; nothing is written.\<close>

lemma dir_add_exists:
  fixes s :: "'z dir_state_scheme"
  assumes ok: "dir_ok s dp d ino" and es: "es = dir_entries (bc_sect s) (data ino)"
    and "1 \<le> j" "j < length es" "in_use (es ! j)" "nm = c_string (e_name (es ! j))"
  shows "\<exists>s'. dir_add junk dp nm sec isdir s = Some (False, s') \<and> bc_step s s'"
proof (cases "nm = [] \<or> length nm > NAME_MAX")
  case True
  then show ?thesis using dir_ok_facts(1) [OF ok] by (auto simp: dir_add_def)
next
  case False
  obtain i where "find (\<lambda>j. in_use (es ! j) \<and> nm = c_string (e_name (es ! j))) [1..<length es] = Some i"
    using assms(3-6) by (cases "find (\<lambda>j. in_use (es ! j) \<and> nm = c_string (e_name (es ! j))) [1..<length es]") (auto simp: find_upt_None)
  then show ?thesis
    using lookup_step [OF ok es, of nm] dir_ok_facts(2) [OF ok] False by (auto simp: dir_add_def NAME_MAX_def)
qed

text \<open>
  C23. \<open>dir_add\<close> of a file with a legal name that the directory does not have yet, in a directory with a
  free slot, stores the entry in the first free slot, keeps every other entry, and makes the name
  resolvable: \<open>lookup\<close> then finds it with the sector that was given. No entry is written when the name is
  empty or too long.
\<close>

theorem dir_add_then_lookup:
  fixes s :: "'z dir_state_scheme"
  assumes "dir_ok s dp d ino" and "es = dir_entries (bc_sect s) (data ino)"
    and "nm \<noteq> []" "length nm \<le> NAME_MAX" "CHR 0x00 \<notin> set nm"
    and "\<forall>j. 1 \<le> j \<longrightarrow> j < length es \<longrightarrow> \<not> (in_use (es ! j) \<and> nm = c_string (e_name (es ! j)))"
    and "1 \<le> k" and "find (\<lambda>j. \<not> in_use (es ! j)) [0..<length es] = Some k"
    and "e = \<lparr>inode_sector = sec, e_name = strncpy 31 nm, in_use = True\<rparr>"
  shows "\<exists>s' s''. dir_add junk dp nm sec False s = Some (True, s') \<and>
      dir_entries (bc_sect s') (data ino) = es[k := e] \<and> lookup dp nm s' = Some (Some (e, 36 * int k), s'')"
proof -
  have nm: "length nm \<le> 30" and k: "k < length es" using assms(4,8) by (auto simp: NAME_MAX_def find_upt_Some)
  obtain s' where s': "dir_add junk dp nm sec False s = Some (True, s')" "dir_ok s' dp d ino"
      "dir_entries (bc_sect s') (data ino) = es[k := e]"
    using dir_add_step [OF assms(1,2,3) nm _ assms(8), of junk sec] assms(6,9) by blast
  have "find (\<lambda>j. in_use (es[k := e] ! j) \<and> nm = c_string (e_name (es[k := e] ! j))) [1..<length (es[k := e])] = Some k"
    using assms(5-7,9) nm k by (auto simp: find_upt_Some nth_list_update c_string_strncpy)
  then show ?thesis using lookup_step [OF s'(2) s'(3) [symmetric], of nm] s' k nm by auto
qed

theorem dir_add_then_lookup_witness:
  "\<exists>s' s'' e. dir_add [] 0 ''a.txt'' 6 False dir_example = Some (True, s') \<and>
      inode_sector e = 6 \<and> lookup 0 ''a.txt'' s' = Some (Some (e, 36), s'')"
proof -
  let ?z = "\<lparr>inode_sector = 0, e_name = replicate 31 0, in_use = False\<rparr> :: dir_entry"
  let ?es = "\<lparr>inode_sector = 3, e_name = replicate 31 0, in_use = True\<rparr> # replicate 15 ?z"
  have z: "\<not> in_use (?es ! j)" if "1 \<le> j" "j < length ?es" for j using that by (cases j) auto
  have "find (\<lambda>j. \<not> in_use (?es ! j)) [0..<length ?es] = Some 1"
    using z [of 1] by (auto simp: find_upt_Some less_Suc0)
  from dir_add_then_lookup [OF dir_example_ok _ _ _ _ _ _ this refl, where nm = "''a.txt''" and sec = 6 and junk = "[]"] z
  show ?thesis using dir_example_entries by (auto simp: NAME_MAX_def)
qed

text \<open>
  C24. \<open>lookup\<close> is exact: it returns the first entry after the parent entry that is in use and has the name, with
  its offset, and it finds nothing only when no entry in use has the name. It always returns and changes
  nothing.
\<close>

theorem lookup_exact:
  fixes s :: "'z dir_state_scheme"
  assumes "dir_ok s dp d ino" and "es = dir_entries (bc_sect s) (data ino)" and "length nm \<le> 30 \<or> names_ok (bc_sect s) (data ino)"
  shows "\<exists>r s'. lookup dp nm s = Some (r, s') \<and> bc_sect s' = bc_sect s \<and>
    (case r of
       None \<Rightarrow> \<forall>j. 1 \<le> j \<longrightarrow> j < length es \<longrightarrow> \<not> (in_use (es ! j) \<and> nm = c_string (e_name (es ! j)))
     | Some (e, ofs) \<Rightarrow> \<exists>j. 1 \<le> j \<and> j < length es \<and> ofs = 36 * int j \<and> e = es ! j \<and> in_use e \<and> nm = c_string (e_name e) \<and>
         (\<forall>i. 1 \<le> i \<longrightarrow> i < j \<longrightarrow> \<not> (in_use (es ! i) \<and> nm = c_string (e_name (es ! i)))))"
proof -
  let ?f = "find (\<lambda>j. in_use (es ! j) \<and> nm = c_string (e_name (es ! j))) [1..<length es]"
  obtain s' where s': "lookup dp nm s = Some (map_option (\<lambda>j. (es ! j, 36 * int j)) ?f, s')" "bc_step s s'"
    using lookup_step [OF assms] by blast
  show ?thesis
  proof (cases ?f)
    case None
    have "lookup dp nm s = Some (None, s')" using s'(1) unfolding None by simp
    then show ?thesis using None bc_step_view(3) [OF s'(2)] by (auto simp: find_upt_None)
  next
    case (Some j)
    have "lookup dp nm s = Some (Some (es ! j, 36 * int j), s')" using s'(1) unfolding Some by simp
    then show ?thesis using Some bc_step_view(3) [OF s'(2)] by (auto simp: find_upt_Some)
  qed
qed

theorem lookup_exact_witness:
  "\<exists>r s'. lookup 0 ''a.txt'' dir_example = Some (r, s') \<and> bc_sect s' = bc_sect dir_example"
  using lookup_exact [OF dir_example_ok refl, of "''a.txt''"] by auto

text \<open>
  Repeated \<open>dir_readdir\<close> lists the names in use in order: a call returns the name of the next entry in use at or
  after the position and moves the position behind it, or reports the end when there is none.
\<close>

theorem dir_readdir_next:
  fixes s :: "'z dir_state_scheme"
  assumes "dir_ok s dp d ino" and "es = dir_entries (bc_sect s) (data ino)" and "d_pos d = 36 * int i" and "i \<le> length es"
    and "r = find (\<lambda>j. in_use (es ! j)) [i..<length es]" and "names_ok (bc_sect s) (data ino)"
  shows "\<exists>s'. dir_readdir dp s = Some (map_option (\<lambda>j. c_string (e_name (es ! j))) r, s') \<and>
      dir_ok s' dp (d\<lparr>d_pos := 36 * int (case r of Some j \<Rightarrow> Suc j | None \<Rightarrow> length es)\<rparr>) ino \<and> bc_sect s' = bc_sect s"
  using readdir_step [OF assms] by blast

theorem dir_readdir_next_witness: "\<exists>s'. dir_readdir 0 dir_example = Some (None, s')"
proof -
  let ?es = "dir_entries (bc_sect dir_example) (disk_inode_example [4, 5] 600)"
  have "\<not> in_use (?es ! j)" if "1 \<le> j" "j < length ?es" for j
    using that unfolding dir_example_entries by (cases j) auto
  then have "find (\<lambda>j. in_use (?es ! j)) [1..<length ?es] = None" by (auto simp: find_upt_None)
  moreover have "1 \<le> length ?es" unfolding dir_example_entries by simp
  moreover have "names_ok (bc_sect dir_example) (disk_inode_example [4, 5] 600)"
    unfolding names_ok_def dir_example_entries by (auto simp: terminated_def)
  ultimately show ?thesis using dir_readdir_next [OF dir_example_ok refl, of 1] by auto
qed

text \<open>
  \<open>split_path_filename\<close> splits a path at its last component: the components of the path are those of the
  directory part followed by the file name, and the file name contains no separator.
\<close>

theorem split_path_filename_components:
  "case split_path_filename path of
     (dn, fn) \<Rightarrow> strtok_all (CHR ''/'') path = strtok_all (CHR ''/'') dn @ (if fn = [] then [] else [fn]) \<and>
       CHR ''/'' \<notin> set fn"
  using split_path_tokens [of path] by (auto split: prod.splits)

text \<open>
  A directory entry stored in its 36 bytes and read back is the same entry, and a legal name stored in
  its name field is read back as the same string.
\<close>

theorem dir_entry_round_trip:
  assumes "length nm \<le> NAME_MAX" and "CHR 0x00 \<notin> set nm" and "e = \<lparr>inode_sector = sec, e_name = strncpy 31 nm, in_use = u\<rparr>"
  shows "length (dir_entry_bytes e) = dir_entry_size \<and> dir_entry_of (dir_entry_bytes e) = e \<and> c_string (e_name e) = nm"
  using assms by (simp add: length_dir_entry_bytes dir_entry_of_bytes dir_entry_size_def c_string_strncpy NAME_MAX_def)

theorem dir_entry_round_trip_witness:
  "dir_entry_of (dir_entry_bytes \<lparr>inode_sector = 9, e_name = strncpy 31 ''a.txt'', in_use = True\<rparr>) =
     \<lparr>inode_sector = 9, e_name = strncpy 31 ''a.txt'', in_use = True\<rparr> \<and> c_string (strncpy 31 ''a.txt'') = ''a.txt''"
  using dir_entry_round_trip [of "''a.txt''" _ 9 True] by (simp add: NAME_MAX_def)

end
