(* ===== verification/Filesys.thy ===== *)
theory Filesys
  imports Directory
begin

text \<open>
  The file system as its clients see it: \<open>src/a3/fs/filesys.c\<close>, the utilities of \<open>src/a3/fs/fsutil.c\<close> and those
  of \<open>src/a3/fs/fsutil2.c\<close>. Console output of the utilities is a result of the model; files of the host are
  arguments and results.

  The arrays of \<open>filesys_create\<close> and \<open>filesys_remove\<close> for the parts of the path are as long as the path itself, one byte
  too short for a path without a separator: such a path makes both undefined.
\<close>

definition MAX_FILES_IN_DIRECTORY :: nat where
  "MAX_FILES_IN_DIRECTORY = 1000"

subsection \<open>Mounting and unmounting\<close>

definition do_format :: "'z dir_state_scheme \<Rightarrow> 'z dir_state_scheme option" where
  "do_format s = do {
     s \<leftarrow> free_map_create s;
     (_, s) \<leftarrow> dir_create ROOT_DIR_SECTOR MAX_FILES_IN_DIRECTORY s;
     free_map_close s
   }"

definition filesys_init :: "bool \<Rightarrow> 'z dir_state_scheme \<Rightarrow> 'z dir_state_scheme option" where
  "filesys_init format s = do {
     hd \<leftarrow> block_get_hd (devs s);
     let s = inode_init (s\<lparr>fs_device := hd\<rparr>);
     s \<leftarrow> free_map_init s;
     let s = buffer_cache_init s;
     s \<leftarrow> (if format then do_format s else Some s);
     s \<leftarrow> free_map_open s;
     Some (init_file_table s)
   }"

definition filesys_done :: "'z dir_state_scheme \<Rightarrow> 'z dir_state_scheme option" where
  "filesys_done s = do {
     s \<leftarrow> free_map_close s;
     s \<leftarrow> buffer_cache_close s;
     free_file_table s
   }"

subsection \<open>Files by name\<close>

text \<open>
  The two arrays of \<open>n\<close> bytes that \<open>split_path_filename\<close> stores the directory and the name in, each with a zero behind
  it; a part that does not fit is written past its array.
\<close>

definition split_into :: "nat \<Rightarrow> string \<Rightarrow> (string \<times> string) option" where
  "split_into n path =
     (let (directory, file_name) = split_path_filename path
      in if length directory < n \<and> length file_name < n then Some (directory, file_name) else None)"

lemma split_into_Some: "split_into n path = Some (dn, nm) \<longleftrightarrow> split_path_filename path = (dn, nm) \<and> length dn < n \<and> length nm < n"
  by (auto simp: split_into_def split: prod.split)

lemma split_into_path: "split_into n path = Some (dn, nm) \<Longrightarrow> split_path_filename path = (dn, nm)"
  by (simp add: split_into_Some)

text \<open>
  \<open>junk\<close> is the uninitialised memory \<open>dir_add\<close> stores in the parent entry of a new directory. The
  directory part of the path is computed and not used, as in the source.
\<close>

definition filesys_create ::
  "byte list \<Rightarrow> string \<Rightarrow> int \<Rightarrow> bool \<Rightarrow> 'z dir_state_scheme \<Rightarrow> (bool \<times> 'z dir_state_scheme) option" where
  "filesys_create junk path initial_size isdir s = do {
     (directory, file_name) \<leftarrow> split_into (length path) path;
     (dir, s) \<leftarrow> dir_open_root s;
     (success, sec, s) \<leftarrow>
       (case dir of
          None \<Rightarrow> Some (False, 0, s)
        | Some dp \<Rightarrow> do {
            (r, s) \<leftarrow> free_map_allocate inode_write_at 1 s;
            (case r of
               None \<Rightarrow> Some (False, 0, s)
             | Some sec \<Rightarrow> do {
                 (ok, s) \<leftarrow> inode_create sec initial_size isdir s;
                 if ok then do {
                   (added, s) \<leftarrow> dir_add junk dp file_name sec isdir s;
                   Some (added, sec, s)
                 } else Some (False, sec, s)
               })
          });
     s \<leftarrow> (if \<not> success \<and> sec \<noteq> 0 then free_map_release inode_write_at sec 1 s else Some s);
     s \<leftarrow> dir_close dir s;
     Some (success, s)
   }"

definition filesys_open :: "string \<Rightarrow> 'z dir_state_scheme \<Rightarrow> (nat option \<times> 'z dir_state_scheme) option" where
  "filesys_open nm s =
     (if length nm = 0 then Some (None, s)
      else do {
        let (directory, file_name) = split_path_filename nm;
        (dir, s) \<leftarrow> dir_open_root s;
        (case dir of
           None \<Rightarrow> Some (None, s)
         | Some dp \<Rightarrow> do {
             (ino, s) \<leftarrow>
               (if length file_name > 0 then do {
                  (ino, s) \<leftarrow> dir_lookup dp file_name s;
                  s \<leftarrow> dir_close dir s;
                  Some (ino, s)
                } else do {
                  ip \<leftarrow> dir_get_inode dp s;
                  Some (Some ip, s)
                });
             (case ino of
                None \<Rightarrow> Some (None, s)
              | Some ip \<Rightarrow> do {
                  rm \<leftarrow> inode_is_removed ip s;
                  if rm then Some (None, s) else file_open ino s
                })
           })
      })"

definition filesys_remove :: "string \<Rightarrow> 'z dir_state_scheme \<Rightarrow> (bool \<times> 'z dir_state_scheme) option" where
  "filesys_remove nm s = do {
     (directory, file_name) \<leftarrow> split_into (length nm) nm;
     (dir, s) \<leftarrow> dir_open_path directory s;
     (success, s) \<leftarrow> (case dir of None \<Rightarrow> Some (False, s) | Some dp \<Rightarrow> dir_remove dp file_name s);
     s \<leftarrow> dir_close dir s;
     Some (success, s)
   }"

definition filesys_chdir :: "string \<Rightarrow> 'z dir_state_scheme \<Rightarrow> (bool \<times> 'z dir_state_scheme) option" where
  "filesys_chdir nm s = do {
     (dir, s) \<leftarrow> dir_open_path nm s;
     (case dir of
        None \<Rightarrow> Some (False, s)
      | Some dp \<Rightarrow> do {
          s \<leftarrow> dir_close (cwd s) s;
          Some (True, s\<lparr>cwd := Some dp\<rparr>)
        })
   }"

subsection \<open>Utilities\<close>

text \<open>The loop \<open>while (dir_readdir(dir, name)) body\<close>; \<open>acc\<close> is what the body accumulates.\<close>

primrec each_name ::
  "nat \<Rightarrow> nat \<Rightarrow> (string \<Rightarrow> 'a \<Rightarrow> 'z dir_state_scheme \<Rightarrow> ('a \<times> 'z dir_state_scheme) option) \<Rightarrow> 'a \<Rightarrow>
   'z dir_state_scheme \<Rightarrow> ('a \<times> 'z dir_state_scheme) option" where
  "each_name 0 dp body acc s = None"
| "each_name (Suc fuel) dp body acc s = do {
     (r, s) \<leftarrow> dir_readdir dp s;
     (case r of
        None \<Rightarrow> Some (acc, s)
      | Some nm \<Rightarrow> do {
          (acc, s) \<leftarrow> body nm acc s;
          each_name fuel dp body acc s
        })
   }"

text \<open>The loop over a directory, with fuel for every entry it can have.\<close>

definition for_names ::
  "nat \<Rightarrow> (string \<Rightarrow> 'a \<Rightarrow> 'z dir_state_scheme \<Rightarrow> ('a \<times> 'z dir_state_scheme) option) \<Rightarrow> 'a \<Rightarrow>
   'z dir_state_scheme \<Rightarrow> ('a \<times> 'z dir_state_scheme) option" where
  "for_names dp body acc s = do {
     d \<leftarrow> get_dir dp s;
     each_name (entry_fuel (d_inode d) s) dp body acc s
   }"

text \<open>The result of \<open>fsutil_ls\<close> is the return value and the lines it prints between its two messages.\<close>

definition fsutil_ls :: "'z dir_state_scheme \<Rightarrow> (int \<times> string list \<times> 'z dir_state_scheme) option" where
  "fsutil_ls s = do {
     (dir, s) \<leftarrow> dir_open_root s;
     (case dir of
        None \<Rightarrow> Some (1, [], s)
      | Some dp \<Rightarrow> do {
          (out, s) \<leftarrow> for_names dp (\<lambda>nm out s. Some (out @ [nm], s)) [] s;
          s \<leftarrow> dir_close dir s;
          Some (0, out, s)
        })
   }"

text \<open>
  The lines most utilities start with: the file of a name from the table, or opened and entered in the
  table. The flag tells whether it was opened.
\<close>

definition table_file :: "string \<Rightarrow> 'z dir_state_scheme \<Rightarrow> ((nat \<times> bool) option \<times> 'z dir_state_scheme) option" where
  "table_file file_name s =
     (case get_file_by_fname file_name s of
        Some fp \<Rightarrow> Some (Some (fp, False), s)
      | None \<Rightarrow> do {
          (r, s) \<leftarrow> filesys_open file_name s;
          (case r of
             None \<Rightarrow> Some (None, s)
           | Some fp \<Rightarrow> Some (Some (fp, True), add_to_file_table (Some fp) file_name s))
        })"

text \<open>The loop of \<open>fsutil_cat\<close>; the pieces it dumps are the result. \<open>junk\<close> is the buffer before it is filled.\<close>

primrec cat_loop ::
  "nat \<Rightarrow> nat \<Rightarrow> byte list \<Rightarrow> int \<Rightarrow> (int \<times> byte list) list \<Rightarrow> 'z dir_state_scheme \<Rightarrow>
   ((int \<times> byte list) list \<times> 'z dir_state_scheme) option" where
  "cat_loop 0 fp buf file_size out s = None"
| "cat_loop (Suc fuel) fp buf file_size out s = do {
     p \<leftarrow> file_tell fp s;
     (n, buf, s) \<leftarrow> file_read fp buf file_size s;
     if n = 0 then Some (out, s)
     else cat_loop fuel fp buf file_size (out @ [(p, take (nat n) buf)]) s
   }"

definition fsutil_cat ::
  "byte list \<Rightarrow> string \<Rightarrow> 'z dir_state_scheme \<Rightarrow> (int \<times> (int \<times> byte list) list \<times> 'z dir_state_scheme) option" where
  "fsutil_cat junk file_name s = do {
     (r, s) \<leftarrow> table_file file_name s;
     (case r of
        None \<Rightarrow> Some (- 1, [], s)
      | Some (fp, opened) \<Rightarrow> do {
          cur_offset \<leftarrow> file_tell fp s;
          s \<leftarrow> file_seek fp 0 s;
          file_size \<leftarrow> file_length fp s;
          (out, s) \<leftarrow> cat_loop (nat file_size + 2) fp (take (nat file_size) (junk @ replicate (nat file_size) 0)) file_size [] s;
          s \<leftarrow> file_seek fp cur_offset s;
          s \<leftarrow> (if opened then do { (_, s) \<leftarrow> remove_from_file_table file_name s; Some s } else Some s);
          Some (0, out, s)
        })
   }"

definition fsutil_rm :: "string \<Rightarrow> 'z dir_state_scheme \<Rightarrow> (int \<times> 'z dir_state_scheme) option" where
  "fsutil_rm file_name s = do {
     (_, s) \<leftarrow> remove_from_file_table file_name s;
     (ok, s) \<leftarrow> filesys_remove file_name s;
     Some (of_bool ok, s)
   }"

definition fsutil_create :: "byte list \<Rightarrow> string \<Rightarrow> int \<Rightarrow> 'z dir_state_scheme \<Rightarrow> (int \<times> 'z dir_state_scheme) option" where
  "fsutil_create junk fname isize s =
     (if length fname = 0 \<or> length fname \<ge> 255 then Some (0, s)
      else do {
        (ok, s) \<leftarrow> filesys_create junk fname isize False s;
        Some (of_bool ok, s)
      })"

text \<open>The caller's buffer is part of the result, since \<open>file_write\<close> stores into it.\<close>

definition fsutil_write ::
  "string \<Rightarrow> byte list \<Rightarrow> int \<Rightarrow> 'z dir_state_scheme \<Rightarrow> (int \<times> byte list \<times> 'z dir_state_scheme) option" where
  "fsutil_write file_name buf sz s = do {
     (r, s) \<leftarrow> table_file file_name s;
     (case r of None \<Rightarrow> Some (- 1, buf, s) | Some (fp, _) \<Rightarrow> file_write fp buf sz s)
   }"

definition fsutil_read ::
  "string \<Rightarrow> byte list \<Rightarrow> int \<Rightarrow> 'z dir_state_scheme \<Rightarrow> (int \<times> byte list \<times> 'z dir_state_scheme) option" where
  "fsutil_read file_name buf sz s = do {
     (r, s) \<leftarrow> table_file file_name s;
     (case r of None \<Rightarrow> Some (- 1, buf, s) | Some (fp, _) \<Rightarrow> file_read fp buf sz s)
   }"

definition fsutil_size :: "string \<Rightarrow> 'z dir_state_scheme \<Rightarrow> (int \<times> 'z dir_state_scheme) option" where
  "fsutil_size file_name s = do {
     (r, s) \<leftarrow> table_file file_name s;
     (case r of
        None \<Rightarrow> Some (- 1, s)
      | Some (fp, _) \<Rightarrow> do {
          cur_offset \<leftarrow> file_tell fp s;
          len \<leftarrow> file_length fp s;
          s \<leftarrow> file_seek fp cur_offset s;
          Some (len, s)
        })
   }"

definition fsutil_seek :: "string \<Rightarrow> int \<Rightarrow> 'z dir_state_scheme \<Rightarrow> (int \<times> 'z dir_state_scheme) option" where
  "fsutil_seek file_name ofs s = do {
     (r, s) \<leftarrow> table_file file_name s;
     (case r of
        None \<Rightarrow> Some (- 1, s)
      | Some (fp, _) \<Rightarrow> do {
          s \<leftarrow> file_seek fp ofs s;
          Some (0, s)
        })
   }"

definition fsutil_close :: "string \<Rightarrow> 'z dir_state_scheme \<Rightarrow> 'z dir_state_scheme option" where
  "fsutil_close file_name s = do {
     (_, s) \<leftarrow> remove_from_file_table file_name s;
     Some s
   }"

definition fsutil_freespace :: "'z dir_state_scheme \<Rightarrow> nat option" where
  "fsutil_freespace s = num_free_sectors s"

subsection \<open>Listing a directory\<close>

definition live_names :: "dir_entry list \<Rightarrow> string list" where
  "live_names es = map (\<lambda>e. c_string (e_name e)) (filter in_use es)"

lemma live_names_drop_None:
  "find (\<lambda>j. in_use (es ! j)) [i..<length es] = None \<Longrightarrow> live_names (drop i es) = []"
  by (auto simp: live_names_def find_upt_None filter_empty_conv in_set_conv_nth)

lemma live_names_drop_Some:
  assumes "find (\<lambda>j. in_use (es ! j)) [i..<length es] = Some j"
  shows "live_names (drop i es) = c_string (e_name (es ! j)) # live_names (drop (Suc j) es)"
proof -
  have j: "i \<le> j" "j < length es" "in_use (es ! j)" "\<And>k. i \<le> k \<Longrightarrow> k < j \<Longrightarrow> \<not> in_use (es ! k)"
    using assms by (auto simp: find_upt_Some)
  have "drop i es = take (j - i) (drop i es) @ es ! j # drop (Suc j) es"
    using j by (metis Cons_nth_drop_Suc append_take_drop_id drop_drop le_add_diff_inverse2)
  moreover have "filter in_use (take (j - i) (drop i es)) = []"
    using j by (auto simp: filter_empty_conv in_set_conv_nth)
  ultimately have "filter in_use (drop i es) = es ! j # filter in_use (drop (Suc j) es)"
    using j(3) by (metis append_Nil filter.simps(2) filter_append)
  then show ?thesis by (simp add: live_names_def)
qed

text \<open>A loop whose body only accumulates sees every name once, in order.\<close>

lemma each_name_step:
  fixes s :: "'z dir_state_scheme"
  assumes "dir_ok s dp d ino" and "es = dir_entries (bc_sect s) (data ino)" and "d_pos d = 36 * int i" and "i \<le> length es"
    and "length es < fuel + i" and "names_ok (bc_sect s) (data ino)"
  shows "\<exists>s' d'. each_name fuel dp (\<lambda>nm acc s. Some (f nm acc, s)) acc s = Some (fold f (live_names (drop i es)) acc, s') \<and>
      dir_ok s' dp d' ino \<and> d_inode d' = d_inode d \<and> d_open_cnt d' = d_open_cnt d \<and> bc_sect s' = bc_sect s \<and> dir_step s s'"
  using assms
proof (induction fuel arbitrary: i s d acc)
  case 0
  then show ?case by simp
next
  case (Suc fuel)
  let ?r = "find (\<lambda>j. in_use (es ! j)) [i..<length es]"
  obtain s1 where s1: "dir_readdir dp s = Some (map_option (\<lambda>j. c_string (e_name (es ! j))) ?r, s1)"
      "dir_ok s1 dp (d\<lparr>d_pos := 36 * int (case ?r of Some j \<Rightarrow> Suc j | None \<Rightarrow> length es)\<rparr>) ino" "bc_sect s1 = bc_sect s"
      "dir_step s s1"
    using readdir_step [OF Suc.prems(1-4) refl Suc.prems(6)] by blast
  show ?case
  proof (cases ?r)
    case None
    then show ?thesis using s1 live_names_drop_None [OF None] by auto
  next
    case (Some j)
    then have j: "i \<le> j" "j < length es" by (simp_all add: find_upt_Some)
    let ?d = "d\<lparr>d_pos := 36 * int (Suc j)\<rparr>"
    have ok1: "dir_ok s1 dp ?d ino" using s1(2) Some by simp
    have "\<exists>s' d'. each_name fuel dp (\<lambda>nm acc s. Some (f nm acc, s)) (f (c_string (e_name (es ! j))) acc) s1 =
        Some (fold f (live_names (drop (Suc j) es)) (f (c_string (e_name (es ! j))) acc), s') \<and>
      dir_ok s' dp d' ino \<and> d_inode d' = d_inode ?d \<and> d_open_cnt d' = d_open_cnt ?d \<and> bc_sect s' = bc_sect s1 \<and> dir_step s1 s'"
      using Suc.prems(2,5,6) j s1(3) by (intro Suc.IH [OF ok1]) auto
    then show ?thesis using s1(1,3) Some live_names_drop_Some [OF Some] dir_step_trans [OF s1(4)] by auto
  qed
qed

lemma dir_reopen_ok:
  fixes s :: "'z dir_state_scheme"
  assumes "dir_ok s dp d ino" and "d_inode d' = d_inode d" shows "dir_ok (set_dir dp d' s) dp d' ino"
    and "bc_sect (set_dir dp d' s) = bc_sect s"
  using assms by (auto simp: dir_ok_def set_dir_def get_dir_def deref_eq_Some bc_inv_def bc_sect_def bc_dev_def
      bc_dev_valid_def get_inode_def)

subsection \<open>Listing the root directory while it is open\<close>

text \<open>
  \<open>fsutil_ls\<close> prints the names of exactly the entries in use of the root directory, in the order of the
  directory, each once, when the root directory is the current directory and stands at its first entry.
\<close>

theorem fsutil_ls_lists:
  fixes s :: "'z dir_state_scheme"
  assumes "dir_ok s dp d ino" and "es = dir_entries (bc_sect s) (data ino)" and "cwd s = Some dp" and "d_pos d = 36"
    and "1 \<le> d_open_cnt d" "d_open_cnt d < 2 ^ 31 - 1" and "names_ok (bc_sect s) (data ino)"
  shows "\<exists>s'. fsutil_ls s = Some (0, live_names (drop 1 es), s') \<and> bc_sect s' = bc_sect s"
proof -
  let ?d = "d\<lparr>d_open_cnt := d_open_cnt d + 1\<rparr>"
  let ?s = "set_dir dp ?d s"
  have root: "dir_open_root s = Some (Some dp, ?s)"
    using assms dir_ok_facts(2) [OF assms(1)] by (simp add: dir_open_root_def)
  have ok1: "dir_ok ?s dp ?d ino" and sect: "bc_sect ?s = bc_sect s" using dir_reopen_ok [OF assms(1), of ?d] by simp_all
  have b: "1 \<le> length es" "length es < entry_fuel (d_inode ?d) ?s + 1"
    using dir_entries_bounds [OF ok1, of es] sect assms(2) by simp_all
  obtain s1 d1 where s1: "each_name (entry_fuel (d_inode ?d) ?s) dp (\<lambda>nm out s. Some (out @ [nm], s)) [] ?s =
      Some (fold (\<lambda>nm out. out @ [nm]) (live_names (drop 1 es)) [], s1)"
      "dir_ok s1 dp d1 ino" "d_open_cnt d1 = d_open_cnt d + 1" "bc_sect s1 = bc_sect s"
    using each_name_step [OF ok1, of es 1 "entry_fuel (d_inode ?d) ?s" "\<lambda>nm out. out @ [nm]" "[]"] assms(2,4,7) sect b by auto
  have "fold (\<lambda>nm out. out @ [nm]) ns acc = acc @ ns" for ns acc :: "string list" by (induction ns arbitrary: acc) auto
  moreover have "dir_close (Some dp) s1 = Some (set_dir dp (d1\<lparr>d_open_cnt := d_open_cnt d\<rparr>) s1)"
    using s1(3) dir_ok_facts(2) [OF s1(2)] assms(5,6) by (simp add: dir_close_def Let_def)
  moreover have "bc_sect (set_dir dp (d1\<lparr>d_open_cnt := d_open_cnt d\<rparr>) s1) = bc_sect s1"
    using dir_reopen_ok(2) [OF s1(2)] by simp
  ultimately show ?thesis
    using root s1 dir_ok_facts(2) [OF ok1] by (simp add: fsutil_ls_def for_names_def)
qed

theorem fsutil_ls_lists_witness: "\<exists>s'. fsutil_ls dir_example = Some (0, [], s')"
proof -
  have "cwd dir_example = Some 0" by (simp add: dir_example_def file_state.defs fs_state.defs fs_example_def)
  moreover have "names_ok (bc_sect dir_example) (disk_inode_example [4, 5] 600)"
    unfolding names_ok_def dir_example_entries by (auto simp: terminated_def)
  ultimately show ?thesis
    using fsutil_ls_lists [OF dir_example_ok refl] dir_example_entries by (auto simp: live_names_def)
qed

subsection \<open>Reading and writing a file by its name\<close>

text \<open>The name is in the table, for a file that may be written and whose inode is intact.\<close>

definition open_as :: "string \<Rightarrow> nat \<Rightarrow> open_file \<Rightarrow> inode \<Rightarrow> 'z dir_state_scheme \<Rightarrow> bool" where
  "open_as nm fp f ino s \<longleftrightarrow> bc_inv s \<and> get_file_by_fname nm s = Some fp \<and> get_file fp s = Some f \<and>
     get_inode (f_inode f) s = Some ino \<and> inode_ok (bc_dev_valid s) (bc_sect s) (data ino) \<and>
     inode_sep (bc_sect s) (data ino) \<and> deny_write_cnt ino = 0"

lemma get_file_by_fname_frame:
  fixes s t :: "'z file_state_scheme"
  shows "fs_state.more s = fs_state.more t \<Longrightarrow> get_file_by_fname nm s = get_file_by_fname nm t"
  by (cases s; cases t) (simp add: get_file_by_fname_def)

lemma fsutil_write_step:
  fixes s :: "'z dir_state_scheme"
  assumes "open_as nm fp f ino s" and p: "0 \<le> pos f" "0 < sz" "pos f + sz \<le> dlength (data ino)" "sz \<le> int (length buf)"
    and b: "b = put_at buf (nat sz - 1) [0]"
  shows "\<exists>s'. fsutil_write nm buf sz s = Some (sz, b, s') \<and> open_as nm fp (f\<lparr>pos := pos f + sz - 2\<rparr>) ino s' \<and>
    file_bytes (bc_sect s') (data ino) = put_at (file_bytes (bc_sect s) (data ino)) (nat (pos f)) (take (nat sz) b) \<and>
    (\<exists>t. data_step (data ino) s t \<and> s' = set_file fp (f\<lparr>pos := pos f + sz - 2\<rparr>) t)"
proof -
  have o: "bc_inv s" "get_file_by_fname nm s = Some fp" "get_file fp s = Some f" "get_inode (f_inode f) s = Some ino"
      "inode_ok (bc_dev_valid s) (bc_sect s) (data ino)" "inode_sep (bc_sect s) (data ino)" "deny_write_cnt ino = 0"
    using assms(1) by (simp_all add: open_as_def)
  obtain s' t where s': "file_write fp buf sz s = Some (sz, b, s')"
      "file_bytes (bc_sect s') (data ino) = put_at (file_bytes (bc_sect s) (data ino)) (nat (pos f)) (take (nat sz) b)"
      "get_file fp s' = Some (f\<lparr>pos := pos f + sz - 2\<rparr>)"
      and t: "data_step (data ino) s t" "s' = set_file fp (f\<lparr>pos := pos f + sz - 2\<rparr>) t"
    using file_write_step [OF o(1,3-7) p b] by blast
  have "fs_state.more s' = fs_state.more s" using t data_step_fs(7) [OF t(1)] by simp
  then have "open_as nm fp (f\<lparr>pos := pos f + sz - 2\<rparr>) ino s'"
    using s'(3) t o data_step_layout(3) [OF t(1) o(6)] data_step_layout(5) [OF t(1) o(6) o(5)] data_step_fs(6) [OF t(1)]
      get_file_by_fname_frame [of s' s nm]
    by (simp add: open_as_def data_step_def)
  moreover have "fsutil_write nm buf sz s = Some (sz, b, s')" using s'(1) o(2) by (simp add: fsutil_write_def table_file_def)
  ultimately show ?thesis using s'(2) t by blast
qed

lemma fsutil_seek_step:
  fixes s :: "'z dir_state_scheme"
  assumes "open_as nm fp f ino s"
  shows "\<exists>s'. fsutil_seek nm ofs s = Some (0, s') \<and> open_as nm fp (f\<lparr>pos := ofs\<rparr>) ino s' \<and> bc_sect s' = bc_sect s"
  using assms get_file_set_file [of fp s f] get_file_by_fname_frame [of "set_file fp (f\<lparr>pos := ofs\<rparr>) s" s nm]
  by (simp add: open_as_def fsutil_seek_def table_file_def file_seek_def)

lemma open_as_seek:
  fixes s :: "'z dir_state_scheme"
  assumes "open_as nm fp f ino s"
  shows "\<exists>s'. file_seek fp ofs s = Some s' \<and> open_as nm fp (f\<lparr>pos := ofs\<rparr>) ino s' \<and> bc_sect s' = bc_sect s"
  using assms get_file_set_file [of fp s f] get_file_by_fname_frame [of "set_file fp (f\<lparr>pos := ofs\<rparr>) s" s nm]
  by (simp add: open_as_def file_seek_def)

lemma open_as_read:
  fixes s :: "'z dir_state_scheme"
  assumes "open_as nm fp f ino s" and p: "0 \<le> pos f" "pos f < 2 ^ 31"
    and n: "n = min (nat sz) (nat (dlength (data ino)) - nat (pos f))" "n \<le> length buf"
  shows "\<exists>s'. file_read fp buf sz s = Some (int n, put_at buf 0 (take n (drop (nat (pos f)) (file_bytes (bc_sect s) (data ino)))), s') \<and>
    open_as nm fp (f\<lparr>pos := pos f + int n\<rparr>) ino s' \<and> bc_sect s' = bc_sect s"
proof -
  have o: "bc_inv s" "get_file fp s = Some f" "get_inode (f_inode f) s = Some ino" "inode_ok (bc_dev_valid s) (bc_sect s) (data ino)"
    using assms(1) by (simp_all add: open_as_def)
  from file_read_step [OF o p n] obtain s' where
    "file_read fp buf sz s = Some (int n, put_at buf 0 (take n (drop (nat (pos f)) (file_bytes (bc_sect s) (data ino)))), s')"
    "get_file fp s' = Some (f\<lparr>pos := pos f + int n\<rparr>)" "bc_inv s'" "bc_sect s' = bc_sect s" "bc_dev_valid s' = bc_dev_valid s"
    "get_inode (f_inode f) s' = Some ino" "fs_state.more s' = fs_state.more s"
    by blast
  then show ?thesis using assms(1) get_file_by_fname_frame [of s' s nm] by (simp add: open_as_def)
qed

lemma fsutil_read_step:
  fixes s :: "'z dir_state_scheme"
  assumes "open_as nm fp f ino s" and p: "0 \<le> pos f" "pos f + int n \<le> dlength (data ino)" and n: "n \<le> length buf"
  shows "\<exists>s'. fsutil_read nm buf (int n) s =
      Some (int n, put_at buf 0 (take n (drop (nat (pos f)) (file_bytes (bc_sect s) (data ino)))), s') \<and>
    open_as nm fp (f\<lparr>pos := pos f + int n\<rparr>) ino s' \<and> bc_sect s' = bc_sect s"
proof -
  have "dlength (data ino) < 2 ^ 31" using assms(1) by (simp add: open_as_def inode_ok_def)
  then have "pos f < 2 ^ 31" "n \<le> nat (dlength (data ino)) - nat (pos f)" using p by linarith+
  then show ?thesis
    using open_as_read [OF assms(1) p(1), of n "int n" buf] n assms(1) by (auto simp: open_as_def fsutil_read_def table_file_def)
qed

text \<open>\<open>cat\<close> reads the whole file in one piece and puts the position back.\<close>

lemma fsutil_cat_step:
  fixes s :: "'z dir_state_scheme"
  assumes "open_as nm fp f ino s"
  shows "\<exists>s'. fsutil_cat junk nm s =
      Some (0, if dlength (data ino) = 0 then [] else [(0, file_bytes (bc_sect s) (data ino))], s') \<and>
    open_as nm fp f ino s' \<and> bc_sect s' = bc_sect s"
proof -
  let ?L = "dlength (data ino)" and ?fb = "file_bytes (bc_sect s) (data ino)"
  let ?l = "nat ?L"
  have L: "0 \<le> ?L" "?L < 2 ^ 31" "length ?fb = ?l" "get_file_by_fname nm s = Some fp" "get_file fp s = Some f"
    using assms length_file_bytes by (auto simp: open_as_def inode_ok_def)
  obtain s0 where s0: "file_seek fp 0 s = Some s0" "open_as nm fp (f\<lparr>pos := 0\<rparr>) ino s0" "bc_sect s0 = bc_sect s"
    using open_as_seek [OF assms, of 0] by blast
  have size: "file_length fp s0 = Some ?L" "file_tell fp s0 = Some 0" "file_tell fp s = Some (pos f)"
    using s0(2) L(5) by (simp_all add: open_as_def file_length_def inode_length_def file_tell_def)
  define buf where "buf = take ?l (junk @ replicate ?l 0)"
  have buf: "length buf = ?l" by (simp add: buf_def)
  obtain s1 where s1: "file_read fp buf ?L s0 = Some (?L, ?fb, s1)" "open_as nm fp (f\<lparr>pos := ?L\<rparr>) ino s1" "bc_sect s1 = bc_sect s"
    using open_as_read [OF s0(2), of ?l ?L buf] L buf s0(3) by (auto simp: put_at_def)
  obtain s2 where s2: "file_read fp ?fb ?L s1 = Some (0, ?fb, s2)" "open_as nm fp (f\<lparr>pos := ?L\<rparr>) ino s2" "bc_sect s2 = bc_sect s"
    using open_as_read [OF s1(2), of 0 ?L ?fb] L s1(3) by (auto simp: put_at_def)
  have loop: "\<exists>s3. cat_loop (?l + 2) fp buf ?L [] s0 = Some (if ?L = 0 then [] else [(0, ?fb)], s3) \<and>
      open_as nm fp (f\<lparr>pos := ?L\<rparr>) ino s3 \<and> bc_sect s3 = bc_sect s"
  proof (cases "?L = 0")
    case True
    then show ?thesis using s1 size(2) by (simp add: numeral_2_eq_2)
  next
    case False
    have "file_tell fp s1 = Some ?L" using s1(2) by (simp add: open_as_def file_tell_def)
    then show ?thesis using False s1(1) s2 size(2) L(3) by (simp add: numeral_2_eq_2)
  qed
  then obtain s3 where s3: "cat_loop (?l + 2) fp buf ?L [] s0 = Some (if ?L = 0 then [] else [(0, ?fb)], s3)"
      "open_as nm fp (f\<lparr>pos := ?L\<rparr>) ino s3" "bc_sect s3 = bc_sect s"
    by blast
  obtain s4 where s4: "file_seek fp (pos f) s3 = Some s4" "open_as nm fp f ino s4" "bc_sect s4 = bc_sect s"
    using open_as_seek [OF s3(2), of "pos f"] s3(3) by auto
  have "fsutil_cat junk nm s = Some (0, if ?L = 0 then [] else [(0, ?fb)], s4)"
    using s0(1) size s3(1) s4(1) L(4) unfolding fsutil_cat_def table_file_def
    by (simp add: buf_def [symmetric] del: cat_loop.simps take_append add_2_eq_Suc')
  then show ?thesis using s4(2,3) by blast
qed

end
