(* ===== verification/Fsutil2.thy ===== *)
theory Fsutil2
  imports Filesys
begin

text \<open>
  The utilities of \<open>src/a3/fs/fsutil2.c\<close>: copying between the host and the file system, searching, the degree of
  fragmentation, defragmentation and the recovery of deleted inodes.

  A file of the host is a list of bytes, or \<open>None\<close> when it cannot be opened. \<open>junk\<close> arguments stand for
  uninitialised memory. Return codes are those of \<open>enum Error\<close> of \<open>src/a3/interpreter.h\<close>.
\<close>

datatype Error =
    NO_ERROR | FILE_DOES_NOT_EXIST | NO_MEM_SPACE | READY_QUEUE_FULL | SCHEDULING_ERROR | TOO_MANY_TOKENS
  | TOO_FEW_TOKENS | NON_ALPHANUMERIC_TOKEN | BAD_COMMAND | ERROR_RM | FILE_CREATION_ERROR | FILESYSTEM_ERROR
  | FILE_WRITE_ERROR | FILE_READ_ERROR

subsection \<open>Copying\<close>

text \<open>
  The loop of \<open>copy_in\<close>: \<open>fread(buffer, sizeof(buffer), sizeof(buffer), file)\<close> reads eight items of eight bytes
  (the size of a pointer) to the start of the buffer. It returns the number of whole items, and sets the end of
  file when it gets less than 64 bytes. \<open>None\<close> inside of the result is the return with \<open>FILE_READ_ERROR\<close>.
\<close>

function fread_loop :: "byte list \<Rightarrow> byte list \<Rightarrow> byte list option option" where
  "fread_loop rest buf = do {
     buf \<leftarrow> mem_put buf 0 (take 64 rest);
     if length (take 64 rest) < 8 then Some None
     else if length rest < 64 then Some (Some buf)
     else fread_loop (drop 64 rest) buf
   }"
  by pat_completeness auto
termination
  by (relation "measure (\<lambda>(rest, _). length rest)") auto

declare fread_loop.simps [simp del]

text \<open>The number of bytes of a file that is too large: the sectors left for data, by the size of the index they need.\<close>

definition large_size :: "nat \<Rightarrow> nat" where
  "large_size free_sectors =
     (if free_sectors \<le> 123 then free_sectors * 512
      else if free_sectors \<le> 123 + 128 then (free_sectors - 2) * 512
      else (free_sectors - (((free_sectors - 3) - 1 - 128) div 128 + 3)) * 512)"

definition copy_in ::
  "byte list \<Rightarrow> string \<Rightarrow> byte list option \<Rightarrow> 'z dir_state_scheme \<Rightarrow> (Error \<times> 'z dir_state_scheme) option" where
  "copy_in junk fname file s =
     (case file of
        None \<Rightarrow> Some (FILE_DOES_NOT_EXIST, s)
      | Some content \<Rightarrow> do {
          let sz = length content;
          let file_sectors = sz div 512 + (if sz mod 512 \<noteq> 0 then 1 else 0);
          free_sectors \<leftarrow> num_free_sectors s;
          let large = file_sectors > free_sectors;
          let n = (if large then large_size free_sectors else sz);
          (ok, s) \<leftarrow> fsutil_create junk fname (if large then 1 else int sz) s;
          if ok = 0 then Some (FILE_CREATION_ERROR, s)
          else do {
            r \<leftarrow> fread_loop content (replicate (n + 1) 0);
            (case r of
               None \<Rightarrow> Some (FILE_READ_ERROR, s)
             | Some buf \<Rightarrow> do {
                 (w, _, s) \<leftarrow> fsutil_write fname buf (if large then int n else int n + 1) s;
                 if w = 0 then Some (FILE_WRITE_ERROR, s)
                 else do {
                   (_, s) \<leftarrow> fsutil_seek fname 0 s;
                   Some (NO_ERROR, s)
                 }
               })
          }
        })"

text \<open>
  \<open>copy_out\<close>; \<open>can_open\<close> tells whether the host file can be created. The result has the bytes \<open>fputs\<close> writes,
  those before the first zero.
\<close>

definition copy_out ::
  "string \<Rightarrow> bool \<Rightarrow> 'z dir_state_scheme \<Rightarrow> (Error \<times> byte list option \<times> 'z dir_state_scheme) option" where
  "copy_out fname can_open s = do {
     (sz, s) \<leftarrow> fsutil_size fname s;
     let buf = replicate (nat (sz + 1)) 0;
     (_, s) \<leftarrow> fsutil_seek fname 0 s;
     (n, buf, s) \<leftarrow> fsutil_read fname buf sz s;
     if n = 0 then Some (FILE_READ_ERROR, None, s)
     else if \<not> can_open then Some (FILE_DOES_NOT_EXIST, None, s)
     else if 0 \<notin> set buf then None
     else Some (NO_ERROR, Some (takeWhile (\<lambda>b. b \<noteq> 0) buf), s)
   }"

subsection \<open>Searching and measuring\<close>

text \<open>\<open>strstr\<close>.\<close>

fun strstr :: "string \<Rightarrow> string \<Rightarrow> bool" where
  "strstr [] pat = (pat = [])"
| "strstr (c # cs) pat = (take (length pat) (c # cs) = pat \<or> strstr cs pat)"

text \<open>The body of the loop of \<open>find_file\<close> for one name; the names it prints are accumulated.\<close>

definition find_in_file ::
  "byte list \<Rightarrow> string \<Rightarrow> string \<Rightarrow> string list \<Rightarrow> 'z dir_state_scheme \<Rightarrow> (string list \<times> 'z dir_state_scheme) option" where
  "find_in_file junk pattern nm out s = do {
     (f, s) \<leftarrow> filesys_open nm s;
     (out, s) \<leftarrow>
       (case f of
          None \<Rightarrow> Some (out, s)
        | Some fp \<Rightarrow> do {
            f_size \<leftarrow> file_length fp s;
            if f_size > 0 then do {
              let buf = take (nat f_size + 1) (junk @ replicate (nat f_size + 1) 0);
              (_, buf, s) \<leftarrow> fsutil_read nm buf f_size s;
              if 0 \<notin> set buf then None
              else Some (if strstr (c_string buf) pattern then out @ [nm] else out, s)
            } else Some (out, s)
          });
     s \<leftarrow> file_close f s;
     Some (out, s)
   }"

definition find_file :: "byte list \<Rightarrow> string \<Rightarrow> 'z dir_state_scheme \<Rightarrow> (string list \<times> 'z dir_state_scheme) option" where
  "find_file junk pattern s = do {
     (dir, s) \<leftarrow> dir_open_root s;
     dp \<leftarrow> dir;
     (out, s) \<leftarrow> for_names dp (find_in_file junk pattern) [] s;
     s \<leftarrow> dir_close dir s;
     Some (out, s)
   }"

text \<open>The loop over the sectors of one file: the distance of two numbers is unsigned.\<close>

fun has_gap :: "block_sector_t list \<Rightarrow> bool" where
  "has_gap (a # b # ts) = (b - a > 3 \<or> has_gap (b # ts))"
| "has_gap _ = False"

text \<open>The counts are those of fragmentable and of fragmented files.\<close>

definition measure_file ::
  "string \<Rightarrow> nat \<times> nat \<Rightarrow> 'z dir_state_scheme \<Rightarrow> ((nat \<times> nat) \<times> 'z dir_state_scheme) option" where
  "measure_file nm acc s = do {
     (f, s) \<leftarrow> filesys_open nm s;
     (acc, s) \<leftarrow>
       (case f of
          None \<Rightarrow> Some (acc, s)
        | Some fp \<Rightarrow> do {
            f_size \<leftarrow> file_length fp s;
            if f_size > 512 then do {
              ip \<leftarrow> file_get_inode fp s;
              (r, s) \<leftarrow> get_inode_data_sectors ip s;
              sectors \<leftarrow> r;
              len \<leftarrow> inode_length ip s;
              nbr_sectors \<leftarrow> bytes_to_sectors len;
              if length sectors < nbr_sectors then None
              else Some ((fst acc + 1, snd acc + (if has_gap (take nbr_sectors sectors) then 1 else 0)), s)
            } else Some (acc, s)
          });
     s \<leftarrow> file_close f s;
     Some (acc, s)
   }"

definition fragmentation_degree :: "'z dir_state_scheme \<Rightarrow> ((nat \<times> nat) \<times> 'z dir_state_scheme) option" where
  "fragmentation_degree s = do {
     (dir, s) \<leftarrow> dir_open_root s;
     dp \<leftarrow> dir;
     (acc, s) \<leftarrow> for_names dp measure_file (0, 0) s;
     s \<leftarrow> dir_close dir s;
     Some (acc, s)
   }"

definition file_count :: "'z dir_state_scheme \<Rightarrow> (nat \<times> 'z dir_state_scheme) option" where
  "file_count s = do {
     (dir, s) \<leftarrow> dir_open_root s;
     (case dir of
        None \<Rightarrow> Some (1, s)
      | Some dp \<Rightarrow> do {
          (count, s) \<leftarrow> for_names dp (\<lambda>nm count s. Some (count + 1, s)) 0 s;
          s \<leftarrow> dir_close dir s;
          Some (count, s)
        })
   }"

subsection \<open>Defragmentation\<close>

record file_store =
  filename :: string
  st_size :: int
  contents :: "byte list"

text \<open>The first loop stores the files that are not empty; the file of an empty one stays open.\<close>

definition store_file ::
  "byte list \<Rightarrow> string \<Rightarrow> file_store list \<Rightarrow> 'z dir_state_scheme \<Rightarrow> (file_store list \<times> 'z dir_state_scheme) option" where
  "store_file junk nm acc s = do {
     (f, s) \<leftarrow> filesys_open nm s;
     (case f of
        None \<Rightarrow> Some (acc, s)
      | Some fp \<Rightarrow> do {
          f_size \<leftarrow> file_length fp s;
          if f_size > 0 then do {
            (_, buf, s) \<leftarrow> fsutil_read nm (take (nat f_size) (junk @ replicate (nat f_size) 0)) f_size s;
            s \<leftarrow> file_close f s;
            Some (acc @ [\<lparr>filename = nm, st_size = f_size, contents = buf\<rparr>], s)
          } else Some (acc, s)
        })
   }"

text \<open>The third loop runs over \<open>total_files\<close> elements; one that was not stored is uninitialised.\<close>

primrec restore_loop :: "byte list \<Rightarrow> nat \<Rightarrow> nat \<Rightarrow> file_store list \<Rightarrow> 'z dir_state_scheme \<Rightarrow> 'z dir_state_scheme option" where
  "restore_loop junk 0 i fs s = Some s"
| "restore_loop junk (Suc m) i fs s = do {
     f \<leftarrow> arr_get fs i;
     (_, s) \<leftarrow> fsutil_create junk (filename f) (st_size f) s;
     (_, _, s) \<leftarrow> fsutil_write (filename f) (contents f) (st_size f) s;
     restore_loop junk m (Suc i) fs s
   }"

definition defragment :: "byte list \<Rightarrow> 'z dir_state_scheme \<Rightarrow> (int \<times> 'z dir_state_scheme) option" where
  "defragment junk s = do {
     (total_files, s) \<leftarrow> file_count s;
     (dir, s) \<leftarrow> dir_open_root s;
     dp \<leftarrow> dir;
     (fs, s) \<leftarrow> for_names dp (store_file junk) [] s;
     s \<leftarrow> dir_close dir s;
     (dir, s) \<leftarrow> dir_open_root s;
     dp \<leftarrow> dir;
     (_, s) \<leftarrow> for_names dp (\<lambda>nm u s. do { (_, s) \<leftarrow> fsutil_rm nm s; Some (u, s) }) () s;
     s \<leftarrow> dir_close dir s;
     (dir, s) \<leftarrow> dir_open_root s;
     s \<leftarrow> restore_loop junk total_files 0 fs s;
     s \<leftarrow> dir_close dir s;
     Some (0, s)
   }"

subsection \<open>Recovery\<close>

text \<open>The body of the loop of \<open>recover(0)\<close> for one sector.\<close>

definition recover_inode :: "byte list \<Rightarrow> nat \<Rightarrow> 'z dir_state_scheme \<Rightarrow> 'z dir_state_scheme option" where
  "recover_inode junk n s = do {
     used \<leftarrow> bitmap_test (free_map s) n;
     if used then Some s
     else do {
       (blk, s) \<leftarrow> buffer_cache_read (of_nat n) s;
       if magic (inode_disk_of blk) = INODE_MAGIC then do {
         (dir, s) \<leftarrow> dir_open_root s;
         dp \<leftarrow> dir;
         fm \<leftarrow> bitmap_mark (free_map s) n;
         let s = s\<lparr>free_map := fm\<rparr>;
         (_, s) \<leftarrow> dir_add junk dp (take 30 (''recovered0-'' @ dec_string n)) (of_nat n) False s;
         dir_close dir s
       } else Some s
     }
   }"

text \<open>
  The loop of \<open>recover(1)\<close> writes, for each sector from 4 on that is not all zero, as many bytes from its
  start as it has bytes that are not zero; the host files are accumulated. Its bound is the number of free
  sectors.
\<close>

definition recover_sector ::
  "nat \<Rightarrow> (string \<times> byte list) list \<times> 'z dir_state_scheme \<Rightarrow> ((string \<times> byte list) list \<times> 'z dir_state_scheme) option" where
  "recover_sector n os = do {
     (blk, s) \<leftarrow> buffer_cache_read (of_nat n) (snd os);
     let sz = length (filter (\<lambda>b. b \<noteq> 0) blk);
     Some (if \<exists>b \<in> set blk. b \<noteq> 0
           then fst os @ [(take 30 (''recovered1-'' @ dec_string n @ ''.txt''), take sz blk)]
           else fst os, s)
   }"

text \<open>
  The body of the loop of \<open>recover(2)\<close>: the bytes behind the end of the file in its last sector. The piece that is
  written starts one byte after the end.
\<close>

definition recover_tail ::
  "string \<Rightarrow> (string \<times> byte list) list \<Rightarrow> 'z dir_state_scheme \<Rightarrow> ((string \<times> byte list) list \<times> 'z dir_state_scheme) option" where
  "recover_tail nm out s = do {
     (f, s) \<leftarrow> filesys_open nm s;
     (case f of
        None \<Rightarrow> Some (out, s)
      | Some fp \<Rightarrow> do {
          ip \<leftarrow> file_get_inode fp s;
          len \<leftarrow> inode_length ip s;
          nbr_sectors \<leftarrow> bytes_to_sectors len;
          (r, s) \<leftarrow> get_inode_data_sectors ip s;
          (out, s) \<leftarrow>
            (case r of
               None \<Rightarrow> Some (out, s)
             | Some sectors \<Rightarrow> do {
                 last_sector \<leftarrow> (if nbr_sectors = 0 then None else arr_get sectors (nbr_sectors - 1));
                 (blk, s) \<leftarrow> buffer_cache_read last_sector s;
                 let start = nat len - (nbr_sectors - 1) * 512;
                 let hidden = filter (\<lambda>b. b \<noteq> 0) (drop start blk);
                 if hidden \<noteq> [] then do {
                   piece \<leftarrow> mem_get blk (int start + 1) (int (length hidden));
                   Some (out @ [(''recovered2-'' @ nm @ ''.txt'', piece)], s)
                 } else Some (out, s)
               });
          s \<leftarrow> file_close f s;
          Some (out, s)
        })
   }"

definition recover ::
  "byte list \<Rightarrow> int \<Rightarrow> 'z dir_state_scheme \<Rightarrow> ((string \<times> byte list) list \<times> 'z dir_state_scheme) option" where
  "recover junk flag s =
     (if flag = 0 then do {
        s \<leftarrow> for_range 0 (bitmap_size (free_map s)) (recover_inode junk) s;
        Some ([], s)
      } else if flag = 1 then do {
        n \<leftarrow> num_free_sectors s;
        for_range 4 n recover_sector ([], s)
      } else if flag = 2 then do {
        (dir, s) \<leftarrow> dir_open_root s;
        dp \<leftarrow> dir;
        (out, s) \<leftarrow> for_names dp recover_tail [] s;
        s \<leftarrow> dir_close dir s;
        Some (out, s)
      } else Some ([], s))"

subsection \<open>The copy loop\<close>

lemma fread_loop_result:
  assumes "min 64 (length rest) \<le> length buf"
  shows "\<exists>r. fread_loop rest buf = Some r \<and> (r = None \<longleftrightarrow> length rest mod 64 < 8) \<and>
    (case r of None \<Rightarrow> True | Some b \<Rightarrow> length b = length buf \<and> drop 64 b = drop 64 buf)"
  using assms
proof (induction rest buf rule: fread_loop.induct)
  case (1 rest buf)
  let ?b = "put_at buf 0 (take 64 rest)"
  have put: "mem_put buf 0 (take 64 rest) = Some ?b" using 1(2) by (simp add: mem_put_def min.commute)
  have len: "length ?b = length buf" "drop 64 ?b = drop 64 buf"
    using 1(2) by (auto simp: put_at_def min_def split: if_splits)
  show ?case
  proof (cases "length rest < 64")
    case True
    then show ?thesis using put len by (subst fread_loop.simps) (auto simp: min_def)
  next
    case False
    have "length (drop 64 rest) mod 64 = length rest mod 64" using False by (simp add: le_mod_geq)
    moreover have "\<exists>r. fread_loop (drop 64 rest) ?b = Some r \<and> (r = None \<longleftrightarrow> length (drop 64 rest) mod 64 < 8) \<and>
        (case r of None \<Rightarrow> True | Some b \<Rightarrow> length b = length ?b \<and> drop 64 b = drop 64 ?b)"
      by (rule 1(1) [OF put]) (use False 1(2) len in auto)
    moreover have "fread_loop rest buf = fread_loop (drop 64 rest) ?b"
      using put False by (subst fread_loop.simps) simp
    ultimately show ?thesis using len by (auto split: option.splits)
  qed
qed

lemma fread_loop_small:
  assumes "8 \<le> length content" "length content < 64"
  shows "fread_loop content (replicate (length content + 1) 0) = Some (Some (content @ [0]))"
proof -
  have "drop (length content) (replicate (length content + 1) 0) = [0]" by (subst drop_replicate) simp
  then have "put_at (replicate (length content + 1) 0) 0 content = content @ [0]" unfolding put_at_def by simp
  then show ?thesis using assms by (subst fread_loop.simps) (simp add: mem_put_def)
qed

subsection \<open>Properties\<close>

text \<open>
  The buffer \<open>copy_in\<close> fills from a host file: for a file of 8 to 63 bytes it is the contents with a terminator; a
  file whose size modulo 64 is below 8 is refused as unreadable; and for every longer file that is accepted the
  buffer is zero from byte 64 on, since every \<open>fread\<close> stores at the start of the buffer.
\<close>

theorem copy_in_buffer:
  shows "(8 \<le> length content \<and> length content < 64 \<longrightarrow>
       fread_loop content (replicate (length content + 1) 0) = Some (Some (content @ [0]))) \<and>
     (length content mod 64 < 8 \<longrightarrow> fread_loop content (replicate (length content + 1) 0) = Some None) \<and>
     (64 \<le> length content \<and> 8 \<le> length content mod 64 \<longrightarrow>
       (\<exists>b. fread_loop content (replicate (length content + 1) 0) = Some (Some b) \<and>
          drop 64 b = replicate (length content - 63) 0))"
proof -
  let ?b = "replicate (length content + 1) (0 :: byte)"
  have "min 64 (length content) \<le> length ?b" by simp
  from fread_loop_result [OF this] obtain r where r: "fread_loop content ?b = Some r" "r = None \<longleftrightarrow> length content mod 64 < 8"
    "case r of None \<Rightarrow> True | Some b \<Rightarrow> length b = length ?b \<and> drop 64 b = drop 64 ?b" by blast
  have "64 \<le> length content \<Longrightarrow> drop 64 ?b = replicate (length content - 63) 0" by (simp add: Suc_diff_le)
  then show ?thesis
    using r fread_loop_small [of content] by (cases r) auto
qed

theorem copy_in_buffer_witness:
  "fread_loop (replicate 10 7) (replicate 11 0) = Some (Some (replicate 10 7 @ [0])) \<and>
   fread_loop (replicate 65 7) (replicate 66 0) = Some None \<and>
   (\<exists>b. fread_loop (replicate 80 7) (replicate 81 0) = Some (Some b) \<and> drop 64 b = replicate 17 0)"
  using copy_in_buffer [of "replicate 10 7"] copy_in_buffer [of "replicate 65 7"] copy_in_buffer [of "replicate 80 7"]
  by simp

end
