(* ===== verification/Process.thy ===== *)
theory Process
  imports Shell_Memory
begin

text \<open>
  Processes of the third shell: \<open>src/a3/pcb.c\<close>, \<open>src/a3/cpu.c\<close> and \<open>src/a3/kernel.c\<close>.

  Process control blocks and pages are heap objects, given by their addresses; a freed object is \<open>None\<close> and
  using it is undefined. The ready queue, the list of least recently used pages and the list of all processes are
  lists of addresses: \<open>Linked_List\<close> shows that the lists of \<open>linked_list.c\<close> behave so. The rest of a script
  that a \<open>FILE\<close> has still to deliver is a string, and a script is an argument, \<open>None\<close> when the file cannot be
  opened. The interpreter, which runs one line, is the argument \<open>parse\<close> of the operations that call it. \<open>Inl n\<close> is
  the end of the program by \<open>exit(n)\<close>. Console output is not part of the model; \<open>border\<close> is the size of the frame
  store.
\<close>

record PAGE =
  index :: "nat list"
  valid_bit :: "bool list"
  page_index :: nat
  page_pid :: int

record PCB =
  p_pid :: int
  p_size :: int
  program_counter :: "int list"
  page_table :: "nat list"
  page_table_size :: int
  source_file :: string

record kernel =
  pages :: "PAGE option list"
  pcbs :: "PCB option list"
  smem :: shellmemory
  QUEUE :: "nat list"
  LRU_CACHE :: "nat list"
  ALL_PCB :: "nat list"
  PID_counter :: int

definition get_page :: "nat \<Rightarrow> 'z kernel_scheme \<Rightarrow> PAGE option" where
  "get_page a s = deref (pages s) a"

definition get_pcb :: "nat \<Rightarrow> 'z kernel_scheme \<Rightarrow> PCB option" where
  "get_pcb a s = deref (pcbs s) a"

definition set_page :: "nat \<Rightarrow> PAGE \<Rightarrow> 'z kernel_scheme \<Rightarrow> 'z kernel_scheme" where
  "set_page a pg s = s\<lparr>pages := (pages s)[a := Some pg]\<rparr>"

definition set_pcb :: "nat \<Rightarrow> PCB \<Rightarrow> 'z kernel_scheme \<Rightarrow> 'z kernel_scheme" where
  "set_pcb a p s = s\<lparr>pcbs := (pcbs s)[a := Some p]\<rparr>"

subsection \<open>Process control blocks\<close>

text \<open>The characters are read one by one; \<open>last\<close> says that the previous one was a newline.\<close>

fun newline_count :: "bool \<Rightarrow> string \<Rightarrow> nat" where
  "newline_count last_nl [] = 0"
| "newline_count last_nl (c # cs) = (if c = CHR 0x0A \<and> \<not> last_nl then 1 else 0) + newline_count (c = CHR 0x0A) cs"

definition count_lines :: "string option \<Rightarrow> int" where
  "count_lines script = (case script of None \<Rightarrow> - 1 | Some cs \<Rightarrow> int (newline_count True cs) + 1)"

text \<open>Division of C rounds towards zero.\<close>

definition c_quot :: "int \<Rightarrow> int \<Rightarrow> int" where
  "c_quot a b = (if a < 0 then - ((- a) div b) else a div b)"

definition PAGE_table_size :: "int \<Rightarrow> int" where
  "PAGE_table_size ls = (if c_rem ls 3 = 0 then c_quot ls 3 else c_quot ls 3 + 1)"

definition PAGE_init :: "int \<Rightarrow> nat \<Rightarrow> PAGE" where
  "PAGE_init pd page_table_index =
     \<lparr>index = [1000, 1000, 1000], valid_bit = [False, False, False], page_index = page_table_index, page_pid = pd\<rparr>"

text \<open>The loop over the lines of a page: the line is stored and its valid bit set; it ends at the end of the file.\<close>

primrec load_frame :: "nat list \<Rightarrow> string \<Rightarrow> PAGE \<Rightarrow> string \<Rightarrow> shellmemory \<Rightarrow> (PAGE \<times> string \<times> shellmemory) option" where
  "load_frame [] p pg src mem = Some (pg, src, mem)"
| "load_frame (j # js) p pg src mem =
     (case fgets 999 src of
        (Some line, src, _) \<Rightarrow> do {
          ix \<leftarrow> arr_get (index pg) j;
          mem \<leftarrow> mem_set_value_at ix p line mem;
          vb \<leftarrow> arr_set (valid_bit pg) j True;
          load_frame js p (pg\<lparr>valid_bit := vb\<rparr>) src mem
        }
      | (None, src, _) \<Rightarrow> Some (pg, src, mem))"

definition load_PAGE :: "nat \<Rightarrow> nat \<Rightarrow> nat \<Rightarrow> 'z kernel_scheme \<Rightarrow> (int \<times> 'z kernel_scheme) option" where
  "load_PAGE border pa page_ix s = do {
     pcb \<leftarrow> get_pcb pa s;
     ga \<leftarrow> arr_get (page_table pcb) page_ix;
     pg \<leftarrow> get_page ga s;
     let pid_str = dec_int (p_pid pcb);
     (ix, mem) \<leftarrow> frame_alloc border pid_str (smem s);
     (case ix of
        None \<Rightarrow> Some (1, s)
      | Some ix \<Rightarrow> do {
          (pg, src, mem) \<leftarrow>
            load_frame [0, 1, 2] pid_str (pg\<lparr>index := ix, valid_bit := [False, False, False]\<rparr>) (source_file pcb) mem;
          Some (0, (set_page ga pg (set_pcb pa (pcb\<lparr>source_file := src\<rparr>) s))\<lparr>smem := mem\<rparr>)
        })
   }"

text \<open>
  \<open>PCB_init\<close> makes the pages and the process and loads the first pages, for which it has the same code as
  \<open>load_PAGE\<close>, except that the program ends when no frame is free.
\<close>

primrec load_first :: "nat \<Rightarrow> nat \<Rightarrow> nat list \<Rightarrow> 'z kernel_scheme \<Rightarrow> (int + 'z kernel_scheme) option" where
  "load_first border pa [] s = Some (Inr s)"
| "load_first border pa (i # is) s = do {
     (r, s) \<leftarrow> load_PAGE border pa i s;
     if r = 1 then Some (Inl 99) else load_first border pa is s
   }"

definition PCB_init :: "nat \<Rightarrow> int \<Rightarrow> string option \<Rightarrow> 'z kernel_scheme \<Rightarrow> (int + nat \<times> 'z kernel_scheme) option" where
  "PCB_init border PID script s =
     (case script of
        None \<Rightarrow> Some (Inl 99)
      | Some content \<Rightarrow> do {
          let sz = count_lines script;
          let n = nat (PAGE_table_size sz);
          let pa = length (pcbs s);
          let pcb = \<lparr>p_pid = PID, p_size = sz, program_counter = replicate n 0,
                     page_table = [length (pages s)..<length (pages s) + n], page_table_size = PAGE_table_size sz,
                     source_file = content\<rparr>;
          let s = s\<lparr>pages := pages s @ map (\<lambda>i. Some (PAGE_init PID i)) [0..<n], pcbs := pcbs s @ [Some pcb]\<rparr>;
          r \<leftarrow> load_first border pa [0..<min 2 n] s;
          on_ok r (\<lambda>s. Some (Inr (pa, s)))
        })"

definition PAGE_evict :: "nat \<Rightarrow> nat \<Rightarrow> 'z kernel_scheme \<Rightarrow> 'z kernel_scheme option" where
  "PAGE_evict pa page_ix s = do {
     pcb \<leftarrow> get_pcb pa s;
     ga \<leftarrow> arr_get (page_table pcb) page_ix;
     for_range 0 3 (\<lambda>i s. do {
       pg \<leftarrow> get_page ga s;
       ix \<leftarrow> arr_get (index pg) i;
       _ \<leftarrow> mem_get_value_at ix (smem s);
       mem \<leftarrow> mem_free_at ix (smem s);
       ixs \<leftarrow> arr_set (index pg) i 0;
       vb \<leftarrow> arr_set (valid_bit pg) i False;
       Some ((set_page ga (pg\<lparr>index := ixs, valid_bit := vb\<rparr>) s)\<lparr>smem := mem\<rparr>)
     }) s
   }"

text \<open>Every index of a page is taken for the start of a frame.\<close>

definition free_PCB :: "nat \<Rightarrow> 'z kernel_scheme \<Rightarrow> 'z kernel_scheme option" where
  "free_PCB pa s = do {
     pcb \<leftarrow> get_pcb pa s;
     s \<leftarrow> for_range 0 (nat (page_table_size pcb)) (\<lambda>i s. do {
            ga \<leftarrow> arr_get (page_table pcb) i;
            pg \<leftarrow> get_page ga s;
            mem \<leftarrow> for_range 0 3 (\<lambda>j mem. do { ix \<leftarrow> arr_get (index pg) j; clear_frame ix mem }) (smem s);
            Some (s\<lparr>smem := mem, pages := (pages s)[ga := None]\<rparr>)
          }) s;
     Some (s\<lparr>pcbs := (pcbs s)[pa := None]\<rparr>)
   }"

definition PCB_equal :: "nat \<Rightarrow> nat \<Rightarrow> 'z kernel_scheme \<Rightarrow> bool option" where
  "PCB_equal p1 p2 s = do { p11 \<leftarrow> get_pcb p1 s; p22 \<leftarrow> get_pcb p2 s; Some (p_pid p11 = p_pid p22) }"

definition PAGE_equal :: "nat \<Rightarrow> nat \<Rightarrow> 'z kernel_scheme \<Rightarrow> bool option" where
  "PAGE_equal p1 p2 s = do {
     p11 \<leftarrow> get_page p1 s;
     p22 \<leftarrow> get_page p2 s;
     i \<leftarrow> arr_get (index p11) 0;
     j \<leftarrow> arr_get (index p22) 0;
     Some (i = j)
   }"

definition PCB_done :: "nat \<Rightarrow> 'z kernel_scheme \<Rightarrow> bool option" where
  "PCB_done pa s = do {
     pcb \<leftarrow> get_pcb pa s;
     r \<leftarrow> first_range 0 (nat (page_table_size pcb)) (\<lambda>i. do { c \<leftarrow> arr_get (program_counter pcb) i; Some (c \<noteq> 3) });
     Some (r = None)
   }"

subsection \<open>The processor\<close>

text \<open>
  The line at position \<open>j\<close> of page \<open>i\<close>; the program counter of that page and the size of the process are updated
  after the line has run.
\<close>

type_synonym 'z parser = "string \<Rightarrow> 'z kernel_scheme \<Rightarrow> (int + int \<times> 'z kernel_scheme) option"

definition cpu_run :: "'z parser \<Rightarrow> nat \<Rightarrow> nat \<Rightarrow> nat \<Rightarrow> 'z kernel_scheme \<Rightarrow> (int + int \<times> 'z kernel_scheme) option" where
  "cpu_run parse pa i j s = do {
     pcb \<leftarrow> get_pcb pa s;
     ga \<leftarrow> arr_get (page_table pcb) i;
     pg \<leftarrow> get_page ga s;
     vb \<leftarrow> arr_get (valid_bit pg) j;
     if \<not> vb then Some (Inr (1, s))
     else do {
       ix \<leftarrow> arr_get (index pg) j;
       line \<leftarrow> mem_get_value_at ix (smem s);
       r \<leftarrow> parse line s;
       on_ok r (\<lambda>(ret, s). do {
         pcb \<leftarrow> get_pcb pa s;
         c \<leftarrow> arr_get (program_counter pcb) i;
         pc \<leftarrow> arr_set (program_counter pcb) i (c + 1);
         Some (Inr (ret, set_pcb pa (pcb\<lparr>program_counter := pc, p_size := p_size pcb - 1\<rparr>) s))
       })
     }
   }"

definition proc_done :: "int \<Rightarrow> bool" where
  "proc_done sz = (\<not> sz > 0)"

subsection \<open>The kernel\<close>

definition kernel_setup :: "'z kernel_scheme \<Rightarrow> 'z kernel_scheme" where
  "kernel_setup s = s\<lparr>QUEUE := [], LRU_CACHE := [], ALL_PCB := []\<rparr>"

text \<open>
  The search for the process of the victim page runs along the list of all processes; behind its end it reads the
  dummy node, which is undefined.
\<close>

fun find_pid :: "int \<Rightarrow> nat list \<Rightarrow> 'z kernel_scheme \<Rightarrow> nat option" where
  "find_pid pd [] s = None"
| "find_pid pd (a # as) s = do { pcb \<leftarrow> get_pcb a s; if p_pid pcb = pd then Some a else find_pid pd as s }"

text \<open>\<open>remove_elem\<close> on the list of pages; a page that is not found makes it undefined.\<close>

fun remove_page :: "nat \<Rightarrow> nat list \<Rightarrow> 'z kernel_scheme \<Rightarrow> (nat \<times> nat list) option" where
  "remove_page ga [] s = None"
| "remove_page ga (b # bs) s = do {
     e \<leftarrow> PAGE_equal ga b s;
     if e then Some (b, bs) else do { (r, cs) \<leftarrow> remove_page ga bs s; Some (r, b # cs) }
   }"

definition run_proc :: "'z parser \<Rightarrow> nat \<Rightarrow> nat \<Rightarrow> nat \<Rightarrow> nat \<Rightarrow> 'z kernel_scheme \<Rightarrow> (int + int \<times> 'z kernel_scheme) option" where
  "run_proc parse border pa i j s = do {
     r \<leftarrow> cpu_run parse pa i j s;
     on_ok r (\<lambda>(ret, s).
       if ret = 1 then do {
         (f, s) \<leftarrow> load_PAGE border pa i s;
         r \<leftarrow> (if f = 1 then
                 (if LRU_CACHE s = [] then Some (Inl 99)
                  else do {
                    victim_page \<leftarrow> get_page (last (LRU_CACHE s)) s;
                    let s = s\<lparr>LRU_CACHE := butlast (LRU_CACHE s)\<rparr>;
                    cur \<leftarrow> find_pid (page_pid victim_page) (ALL_PCB s) s;
                    s \<leftarrow> PAGE_evict cur (page_index victim_page) s;
                    (_, s) \<leftarrow> load_PAGE border pa i s;
                    Some (Inr s)
                  })
               else Some (Inr s));
         on_ok r (\<lambda>s. do {
           pcb \<leftarrow> get_pcb pa s;
           ga \<leftarrow> arr_get (page_table pcb) i;
           Some (Inr (1, s\<lparr>LRU_CACHE := ga # LRU_CACHE s, QUEUE := QUEUE s @ [pa]\<rparr>))
         })
       } else do {
         pcb \<leftarrow> get_pcb pa s;
         ga \<leftarrow> arr_get (page_table pcb) i;
         (b, bs) \<leftarrow> remove_page ga (LRU_CACHE s) s;
         Some (Inr (0, s\<lparr>LRU_CACHE := b # bs\<rparr>))
       })
   }"

definition new_proc :: "nat \<Rightarrow> string option \<Rightarrow> 'z kernel_scheme \<Rightarrow> (int + int \<times> 'z kernel_scheme) option" where
  "new_proc border script s = do {
     pd \<leftarrow> int32 (PID_counter s + 1);
     r \<leftarrow> PCB_init border (PID_counter s) script (s\<lparr>PID_counter := pd\<rparr>);
     on_ok r (\<lambda>(pa, s). do {
       pcb \<leftarrow> get_pcb pa s;
       let s = s\<lparr>ALL_PCB := ALL_PCB s @ [pa], QUEUE := QUEUE s @ [pa]\<rparr>;
       let page_limit = nat (min 2 (page_table_size pcb));
       s \<leftarrow> for_range 0 page_limit (\<lambda>i s. do {
              ga \<leftarrow> arr_get (page_table pcb) i;
              Some (s\<lparr>LRU_CACHE := ga # LRU_CACHE s\<rparr>)
            }) s;
       Some (Inr (0, s))
     })
   }"

text \<open>The first position of a process with a valid bit, for the policy FIFO.\<close>

partial_function (option) first_valid :: "nat \<Rightarrow> nat \<Rightarrow> nat \<Rightarrow> 'z kernel_scheme \<Rightarrow> (nat \<times> nat) option" where
  "first_valid pa i j s = do {
     pcb \<leftarrow> get_pcb pa s;
     ga \<leftarrow> arr_get (page_table pcb) i;
     pg \<leftarrow> get_page ga s;
     vb \<leftarrow> arr_get (valid_bit pg) j;
     if vb then Some (i, j) else if j < 2 then first_valid pa i (j + 1) s else first_valid pa (i + 1) 0 s
   }"

partial_function (option) run_to_end ::
  "'z parser \<Rightarrow> nat \<Rightarrow> nat \<Rightarrow> 'z kernel_scheme \<Rightarrow> (int + 'z kernel_scheme) option" where
  "run_to_end parse border pa s = do {
     pcb \<leftarrow> get_pcb pa s;
     if proc_done (p_size pcb) then Some (Inr s)
     else do {
       (i, j) \<leftarrow> first_valid pa 0 0 s;
       r \<leftarrow> run_proc parse border pa i j s;
       (case r of Inl n \<Rightarrow> Some (Inl n) | Inr (_, s) \<Rightarrow> run_to_end parse border pa s)
     }
   }"

partial_function (option) run_proc_FIFO :: "'z parser \<Rightarrow> nat \<Rightarrow> 'z kernel_scheme \<Rightarrow> (int + int \<times> 'z kernel_scheme) option" where
  "run_proc_FIFO parse border s =
     (case QUEUE s of
        [] \<Rightarrow> Some (Inr (0, s))
      | pa # q \<Rightarrow> do {
          r \<leftarrow> run_to_end parse border pa (s\<lparr>QUEUE := q\<rparr>);
          (case r of
             Inl n \<Rightarrow> Some (Inl n)
           | Inr s \<Rightarrow> do { s \<leftarrow> free_PCB pa s; run_proc_FIFO parse border s })
        })"

fun queue_done :: "nat list \<Rightarrow> 'z kernel_scheme \<Rightarrow> bool option" where
  "queue_done [] s = Some True"
| "queue_done (a # as) s = do { d \<leftarrow> PCB_done a s; if d then queue_done as s else Some False }"

text \<open>
  Running the next line of a process: the first page whose counter is not 3, at its counter. When every counter
  is 3 the index is the size of the table, behind its end.
\<close>

definition run_next :: "'z parser \<Rightarrow> nat \<Rightarrow> nat \<Rightarrow> 'z kernel_scheme \<Rightarrow> (int + int \<times> 'z kernel_scheme) option" where
  "run_next parse border pa s = do {
     pcb \<leftarrow> get_pcb pa s;
     r \<leftarrow> first_range 0 (nat (page_table_size pcb)) (\<lambda>i. do { c \<leftarrow> arr_get (program_counter pcb) i; Some (c \<noteq> 3) });
     let i = (case r of None \<Rightarrow> nat (page_table_size pcb) | Some i \<Rightarrow> i);
     c \<leftarrow> arr_get (program_counter pcb) i;
     if c < 0 then None else run_proc parse border pa i (nat c) s
   }"

text \<open>One iteration of the loop of \<open>run_proc_RR\<close>, for the process \<open>pa\<close> at the head of the queue.\<close>

definition rr_step :: "'z parser \<Rightarrow> nat \<Rightarrow> nat \<Rightarrow> 'z kernel_scheme \<Rightarrow> (int + 'z kernel_scheme) option" where
  "rr_step parse border pa s = do {
     pcb \<leftarrow> get_pcb pa s;
     if p_size pcb > 1 then do {
       r \<leftarrow> run_next parse border pa s;
       on_ok r (\<lambda>(ret, s).
         if ret = 1 then Some (Inr s)
         else do {
           r \<leftarrow> run_next parse border pa s;
           on_ok r (\<lambda>(ret, s). if ret = 1 then Some (Inr s) else Some (Inr (s\<lparr>QUEUE := QUEUE s @ [pa]\<rparr>)))
         })
     } else if p_size pcb = 1 then do {
       r \<leftarrow> run_next parse border pa s;
       on_ok r (\<lambda>(ret, s). Some (Inr s))
     } else Some (Inr s)
   }"

partial_function (option) rr_loop :: "'z parser \<Rightarrow> nat \<Rightarrow> 'z kernel_scheme \<Rightarrow> (int + 'z kernel_scheme) option" where
  "rr_loop parse border s = do {
     d \<leftarrow> queue_done (QUEUE s) s;
     if d then Some (Inr s)
     else (case QUEUE s of
             [] \<Rightarrow> Some (Inl 99)
           | pa # q \<Rightarrow> do {
               r \<leftarrow> rr_step parse border pa (s\<lparr>QUEUE := q\<rparr>);
               (case r of Inl n \<Rightarrow> Some (Inl n) | Inr s \<Rightarrow> rr_loop parse border s)
             })
   }"

fun free_all :: "nat list \<Rightarrow> 'z kernel_scheme \<Rightarrow> 'z kernel_scheme option" where
  "free_all [] s = Some s"
| "free_all (a # as) s = do { s \<leftarrow> free_PCB a s; free_all as s }"

definition run_proc_RR :: "'z parser \<Rightarrow> nat \<Rightarrow> 'z kernel_scheme \<Rightarrow> (int + int \<times> 'z kernel_scheme) option" where
  "run_proc_RR parse border s = do {
     r \<leftarrow> rr_loop parse border s;
     on_ok r (\<lambda>s. do {
       s \<leftarrow> free_all (ALL_PCB s) s;
       Some (Inr (0, s\<lparr>QUEUE := [], LRU_CACHE := [], ALL_PCB := []\<rparr>))
     })
   }"

subsection \<open>Loading a page\<close>

text \<open>The next lines of a script, as \<open>fgets\<close> delivers them, and what is left.\<close>

primrec take_lines :: "nat \<Rightarrow> string \<Rightarrow> string list \<times> string" where
  "take_lines 0 src = ([], src)"
| "take_lines (Suc n) src =
     (case fgets 999 src of
        (Some line, src, _) \<Rightarrow> (case take_lines n src of (ls, r) \<Rightarrow> (line # ls, r))
      | (None, src, _) \<Rightarrow> ([], src))"

lemma length_take_lines: "length (fst (take_lines n src)) \<le> n"
  by (induction n arbitrary: src) (auto split: option.splits prod.splits, metis fst_conv)

lemma take_lines_empty [simp]: "take_lines n [] = ([], [])"
  by (cases n) (simp_all add: fgets_def numeral_eq_Suc)

lemma load_frame_lines:
  assumes "length (index pg) = 3" and "length (valid_bit pg) = 3" and "distinct (index pg)" and "\<forall>x \<in> set (index pg). x < length mem"
  shows "j + n \<le> 3 \<Longrightarrow> \<exists>pg' mem'. load_frame [j..<j + n] p pg src mem = Some (pg', snd (take_lines n src), mem') \<and>
    index pg' = index pg \<and> page_index pg' = page_index pg \<and> page_pid pg' = page_pid pg \<and> length (valid_bit pg') = 3 \<and>
    (\<forall>m < 3. valid_bit pg' ! m = (valid_bit pg ! m \<or> (j \<le> m \<and> m < j + length (fst (take_lines n src))))) \<and> length mem' = length mem \<and>
    (\<forall>m < length (fst (take_lines n src)). mem' ! (index pg ! (j + m)) = \<lparr>var = p, val = fst (take_lines n src) ! m\<rparr>) \<and>
    (\<forall>x < length mem. x \<notin> (!) (index pg) ` {j..<j + length (fst (take_lines n src))} \<longrightarrow> mem' ! x = mem ! x)"
  using assms
proof (induction n arbitrary: j pg src mem)
  case (Suc n)
  obtain l r e where f: "fgets 999 src = (l, r, e)" by (metis prod_cases3)
  have js: "[j..<j + Suc n] = j # [Suc j..<Suc j + n]" by (simp add: upt_conv_Cons)
  show ?case
  proof (cases l)
    case None
    have "load_frame [j..<j + Suc n] p pg src mem = Some (pg, r, mem)" unfolding js using None f by simp
    then show ?thesis using None f Suc.prems by (intro exI [of _ pg] exI [of _ mem]) auto
  next
    case (Some line)
    define pg1 where "pg1 = pg\<lparr>valid_bit := (valid_bit pg)[j := True]\<rparr>"
    define mem1 where "mem1 = mem[index pg ! j := \<lparr>var = p, val = line\<rparr>]"
    obtain ls r2 where ls: "take_lines n r = (ls, r2)" by fastforce
    have ix: "index pg ! j < length mem" using Suc.prems by simp
    have step: "load_frame [j..<j + Suc n] p pg src mem = load_frame [Suc j..<Suc j + n] p pg1 r mem1"
      unfolding js using Some f Suc.prems ix by (simp add: mem_set_value_at_def pg1_def mem1_def)
    obtain pg' mem' where IH: "load_frame [Suc j..<Suc j + n] p pg1 r mem1 = Some (pg', r2, mem')"
      "index pg' = index pg" "page_index pg' = page_index pg" "page_pid pg' = page_pid pg" "length (valid_bit pg') = 3"
      "\<forall>m < 3. valid_bit pg' ! m = (valid_bit pg1 ! m \<or> (Suc j \<le> m \<and> m < Suc j + length ls))" "length mem' = length mem"
      "\<forall>m < length ls. mem' ! (index pg ! (Suc j + m)) = \<lparr>var = p, val = ls ! m\<rparr>"
      "\<forall>x < length mem. x \<notin> (!) (index pg) ` {Suc j..<Suc j + length ls} \<longrightarrow> mem' ! x = mem1 ! x"
      using Suc.IH [of "Suc j" pg1 mem1 r] Suc.prems ls by (auto simp: pg1_def mem1_def)
    have ls3: "length ls \<le> n" using length_take_lines [of n r] ls by simp
    have "index pg ! j \<notin> (!) (index pg) ` {Suc j..<Suc j + length ls}"
      using Suc.prems(1,2,4) ls3 by (auto simp: nth_eq_iff_index_eq)
    then have j: "mem' ! (index pg ! j) = \<lparr>var = p, val = line\<rparr>" using IH(9) ix by (simp add: mem1_def)
    have t: "take_lines (Suc n) src = (line # ls, r2)" using Some f ls by simp
    have "valid_bit pg' ! m = (valid_bit pg ! m \<or> (j \<le> m \<and> m < j + length (line # ls)))" if "m < 3" for m
      using IH(6) that Suc.prems(1,3) by (cases "m = j") (auto simp: pg1_def)
    moreover have "mem' ! (index pg ! (j + m)) = \<lparr>var = p, val = (line # ls) ! m\<rparr>" if "m < length (line # ls)" for m
      using IH(8) j that by (cases m) auto
    moreover have "mem' ! x = mem ! x" if "x < length mem" "x \<notin> (!) (index pg) ` {j..<j + length (line # ls)}" for x
    proof -
      have "x \<noteq> index pg ! j" "x \<notin> (!) (index pg) ` {Suc j..<Suc j + length ls}" using that(2) by auto
      then show ?thesis using IH(9) that(1) by (simp add: mem1_def)
    qed
    ultimately show ?thesis using IH(1-5,7) step t by auto
  qed
qed auto

lemma frame_bounds:
  assumes "border \<le> length mem" and "frame_alloc border p mem = Some (Some ix, m)"
  shows "\<exists>i. ix = [i, i + 1, i + 2] \<and> i + 3 \<le> border \<and> (\<forall>k. i \<le> k \<and> k < i + 3 \<longrightarrow> var (mem ! k) = ''none'') \<and> length m = length mem \<and>
    (\<forall>k < length mem. \<not> (i \<le> k \<and> k < i + 3) \<longrightarrow> m ! k = mem ! k)"
  using frame_alloc_step [OF assms(1), of p] assms(2) by (auto simp: frame_free_def)

text \<open>
  What \<open>load_PAGE\<close> does when a frame is free: the page gets the frame, the next lines of the script are in it, and
  the valid bits tell how many there are.
\<close>

lemma load_PAGE_loads:
  assumes "border \<le> length (smem s)" and pcb: "get_pcb pa s = Some pcb" and ga: "page_table pcb ! i = ga" "i < length (page_table pcb)"
    and pg: "get_page ga s = Some pg" and fr: "\<exists>f. frame_free border (smem s) f"
  shows "\<exists>s' f pg'. load_PAGE border pa i s = Some (0, s') \<and> frame_free border (smem s) f \<and> get_page ga s' = Some pg' \<and>
    index pg' = [f, f + 1, f + 2] \<and> page_pid pg' = page_pid pg \<and> page_index pg' = page_index pg \<and> length (valid_bit pg') = 3 \<and>
    (\<forall>j < 3. valid_bit pg' ! j = (j < length (fst (take_lines 3 (source_file pcb))))) \<and>
    (\<forall>j < length (fst (take_lines 3 (source_file pcb))).
       smem s' ! (f + j) = \<lparr>var = dec_int (p_pid pcb), val = fst (take_lines 3 (source_file pcb)) ! j\<rparr>) \<and>
    (\<forall>k < length (smem s). \<not> (f \<le> k \<and> k < f + 3) \<longrightarrow> smem s' ! k = smem s ! k) \<and> length (smem s') = length (smem s) \<and>
    s' = s\<lparr>pages := (pages s)[ga := Some pg'], pcbs := (pcbs s)[pa := Some (pcb\<lparr>source_file := snd (take_lines 3 (source_file pcb))\<rparr>)], smem := smem s'\<rparr>"
proof -
  define p where "p = dec_int (p_pid pcb)"
  define ls where "ls = fst (take_lines 3 (source_file pcb))"
  obtain ix m where a: "frame_alloc border p (smem s) = Some (Some ix, m)" using frame_alloc_step [OF assms(1), of p] fr by auto
  obtain f where f: "ix = [f, f + 1, f + 2]" "f + 3 \<le> border" "\<forall>k. f \<le> k \<and> k < f + 3 \<longrightarrow> var (smem s ! k) = ''none''"
    "length m = length (smem s)" "\<forall>k < length (smem s). \<not> (f \<le> k \<and> k < f + 3) \<longrightarrow> m ! k = smem s ! k"
    using frame_bounds [OF assms(1) a] by blast
  define pg0 where "pg0 = pg\<lparr>index := ix, valid_bit := [False, False, False]\<rparr>"
  have up: "[0..<0 + 3] = [0, 1, 2 :: nat]" by (simp add: numeral_3_eq_3 upt_rec)
  obtain pg' m' where l: "load_frame [0, 1, 2] p pg0 (source_file pcb) m = Some (pg', snd (take_lines 3 (source_file pcb)), m')"
    "index pg' = ix" "page_index pg' = page_index pg" "page_pid pg' = page_pid pg" "length (valid_bit pg') = 3"
    "\<forall>j < 3. valid_bit pg' ! j = (valid_bit pg0 ! j \<or> j < length ls)" "length m' = length m"
    "\<forall>j < length ls. m' ! (ix ! j) = \<lparr>var = p, val = ls ! j\<rparr>"
    "\<forall>x < length m. x \<notin> (!) ix ` {0..<length ls} \<longrightarrow> m' ! x = m ! x"
    using load_frame_lines [of pg0 m 0 3 p "source_file pcb"] f assms(1) unfolding up by (auto simp: pg0_def ls_def)
  have ls: "length ls \<le> 3" using length_take_lines [of 3] by (simp add: ls_def)
  have nth: "ix ! j = f + j" if "j < 3" for j using that f(1) by (auto simp: less_Suc_eq numeral_3_eq_3)
  define s' where "s' = s\<lparr>pages := (pages s)[ga := Some pg'], pcbs := (pcbs s)[pa := Some (pcb\<lparr>source_file := snd (take_lines 3 (source_file pcb))\<rparr>)], smem := m'\<rparr>"
  have e: "load_PAGE border pa i s = Some (0, s')"
    using pcb ga pg a l(1) by (simp add: load_PAGE_def p_def s'_def set_page_def set_pcb_def pg0_def)
  have g: "get_page ga s' = Some pg'" using pg by (auto simp: get_page_def s'_def deref_eq_Some)
  have v: "valid_bit pg' ! j = (j < length ls)" if "j < 3" for j
    using l(6) that by (auto simp: pg0_def less_Suc_eq numeral_3_eq_3)
  have lines: "m' ! (f + j) = \<lparr>var = p, val = ls ! j\<rparr>" if "j < length ls" for j using l(8) nth that ls by auto
  have other: "m' ! k = smem s ! k" if "k < length (smem s)" "\<not> (f \<le> k \<and> k < f + 3)" for k
  proof -
    have "k \<notin> (!) ix ` {0..<length ls}" using nth ls that(2) by fastforce
    then show ?thesis using l(9) f(4,5) that by simp
  qed
  have "frame_free border (smem s) f" using f(2,3) by (simp add: frame_free_def)
  then show ?thesis
    using e g l(2-5,7) f(1,4) v lines other
    by (intro exI [of _ s'] exI [of _ f] exI [of _ pg'] conjI) (simp_all add: s'_def ls_def p_def)
qed

subsection \<open>Ending a process\<close>

lemma for_range_bind: "i < n \<Longrightarrow> for_range i n body = (\<lambda>s. body i s \<bind> for_range (Suc i) n body)"
  by (rule ext, subst for_range.simps) (simp split: option.splits)

lemma for_range_3: "for_range i (i + 3) body s = do { s \<leftarrow> body i s; s \<leftarrow> body (i + 1) s; body (i + 2) s }"
proof -
  have "for_range (Suc (Suc (Suc i))) (i + 3) body = Some" by (rule ext) (simp add: numeral_3_eq_3)
  then show ?thesis by (simp add: for_range_bind)
qed

lemma clear_frame_eq:
  "st + 3 \<le> length mem \<Longrightarrow> clear_frame st mem = Some (mem[st := none_line, st + 1 := none_line, st + 2 := none_line])"
  by (simp add: clear_frame_def for_range_3 mem_free_at_def)

text \<open>
  Clearing a frame at every index of a page clears two lines behind it.
\<close>

lemma clear_page_lines:
  assumes "k + 5 \<le> length mem"
  shows "\<exists>m. for_range 0 3 (\<lambda>j mem. do { ix \<leftarrow> arr_get [k, k + 1, k + 2] j; clear_frame ix mem }) mem = Some m \<and> length m = length mem \<and>
    (\<forall>x < length mem. m ! x = (if k \<le> x \<and> x < k + 5 then none_line else mem ! x))"
proof -
  have n: "mem[k := none_line, k + 1 := none_line, k + 2 := none_line, k + 1 := none_line, k + 1 + 1 := none_line, k + 1 + 2 := none_line,
    k + 2 := none_line, k + 2 + 1 := none_line, k + 2 + 2 := none_line] ! x = (if k \<le> x \<and> x < k + 5 then none_line else mem ! x)"
    if "x < length mem" for x
  proof (cases "k \<le> x \<and> x < k + 5")
    case True
    then have "x = k \<or> x = k + 1 \<or> x = k + 2 \<or> x = k + 3 \<or> x = k + 4" by linarith
    then show ?thesis using that by (elim disjE) (simp_all add: nth_list_update)
  qed (use that in \<open>auto simp: nth_list_update\<close>)
  show ?thesis
    using assms n for_range_3 [of 0 "\<lambda>j mem. do { ix \<leftarrow> arr_get [k, k + 1, k + 2] j; clear_frame ix mem }" mem]
    by (simp add: clear_frame_eq)
qed

subsection \<open>A process behind the end of its script\<close>

text \<open>
  The process is said to have one more line, its next line is in a page that is not valid there, and its script
  is at the end.
\<close>

definition at_end :: "nat \<Rightarrow> 'z kernel_scheme \<Rightarrow> bool" where
  "at_end pa s \<longleftrightarrow> (\<exists>pcb i ga pg c. get_pcb pa s = Some pcb \<and> p_size pcb = 1 \<and> source_file pcb = [] \<and>
     first_range 0 (nat (page_table_size pcb)) (\<lambda>i. do { c \<leftarrow> arr_get (program_counter pcb) i; Some (c \<noteq> 3) }) = Some (Some i) \<and>
     arr_get (program_counter pcb) i = Some (int c) \<and> arr_get (page_table pcb) i = Some ga \<and> get_page ga s = Some pg \<and>
     arr_get (valid_bit pg) c = Some False \<and> length (valid_bit pg) = 3)"

text \<open>The part of it that is about the page.\<close>

definition invalid_at :: "nat \<Rightarrow> nat \<Rightarrow> 'z kernel_scheme \<Rightarrow> bool" where
  "invalid_at ga c s \<longleftrightarrow> (\<exists>pg. get_page ga s = Some pg \<and> arr_get (valid_bit pg) c = Some False \<and> length (valid_bit pg) = 3)"

lemma get_page_set_page:
  "get_page a (set_page b pg s) = (if a = b \<and> b < length (pages s) then Some pg else get_page a s)"
  by (auto simp: get_page_def set_page_def deref_def arr_get_def)

lemma get_page_smem [simp]: "get_page a (s\<lparr>smem := m\<rparr>) = get_page a s" "get_pcb a (s\<lparr>smem := m\<rparr>) = get_pcb a s"
  by (simp_all add: get_page_def get_pcb_def)

lemma get_page_set_pcb [simp]: "get_page a (set_pcb b p s) = get_page a s" "get_pcb a (set_page b pg s) = get_pcb a s"
  by (simp_all add: get_page_def get_pcb_def set_pcb_def set_page_def)

lemma get_pcb_set_pcb: "get_pcb a s = Some q \<Longrightarrow> get_pcb a (set_pcb a p s) = Some p"
  by (auto simp: get_pcb_def set_pcb_def deref_eq_Some)

lemma PAGE_evict_invalid:
  assumes "PAGE_evict pa i s = Some s'" and "invalid_at ga c s"
  shows "invalid_at ga c s' \<and> pcbs s' = pcbs s \<and> QUEUE s' = QUEUE s"
proof -
  obtain pcb ga' where e: "for_range 0 3 (\<lambda>i s. do {
       pg \<leftarrow> get_page ga' s;
       ix \<leftarrow> arr_get (index pg) i;
       _ \<leftarrow> mem_get_value_at ix (smem s);
       mem \<leftarrow> mem_free_at ix (smem s);
       ixs \<leftarrow> arr_set (index pg) i 0;
       vb \<leftarrow> arr_set (valid_bit pg) i False;
       Some ((set_page ga' (pg\<lparr>index := ixs, valid_bit := vb\<rparr>) s)\<lparr>smem := mem\<rparr>)
     }) s = Some s'"
    using assms(1) by (auto simp: PAGE_evict_def split: bind_splits)
  show ?thesis
  proof (rule for_range_pres [OF e, where P = "\<lambda>t. invalid_at ga c t \<and> pcbs t = pcbs s \<and> QUEUE t = QUEUE s"])
    fix j t t'
    assume t: "invalid_at ga c t \<and> pcbs t = pcbs s \<and> QUEUE t = QUEUE s"
      and b: "do {
       pg \<leftarrow> get_page ga' t;
       ix \<leftarrow> arr_get (index pg) j;
       _ \<leftarrow> mem_get_value_at ix (smem t);
       mem \<leftarrow> mem_free_at ix (smem t);
       ixs \<leftarrow> arr_set (index pg) j 0;
       vb \<leftarrow> arr_set (valid_bit pg) j False;
       Some ((set_page ga' (pg\<lparr>index := ixs, valid_bit := vb\<rparr>) t)\<lparr>smem := mem\<rparr>)
     } = Some t'"
    then obtain pg ixs mem where u: "get_page ga' t = Some pg" "j < length (valid_bit pg)"
      "t' = (set_page ga' (pg\<lparr>index := ixs, valid_bit := (valid_bit pg)[j := False]\<rparr>) t)\<lparr>smem := mem\<rparr>"
      by (auto split: bind_splits simp: arr_set_eq_Some)
    have "invalid_at ga c t'"
      using t u(1,2) by (auto simp: invalid_at_def u(3) get_page_set_page arr_get_eq_Some nth_list_update)
    then show "invalid_at ga c t' \<and> pcbs t' = pcbs s \<and> QUEUE t' = QUEUE s" using t by (simp add: u(3) set_page_def)
  qed (use assms(2) in simp)
qed

lemma load_frame_eof: "load_frame js p pg [] mem = Some (pg, [], mem)"
  by (cases js) (simp_all add: fgets_def numeral_eq_Suc)

lemma load_PAGE_cases:
  assumes "load_PAGE border pa i s = Some (f, s')" and "get_pcb pa s = Some pcb"
  shows "f = 1 \<and> s' = s \<or> (\<exists>ga pg ix m0 pg' src m. f = 0 \<and> get_page ga s = Some pg \<and>
    load_frame [0, 1, 2] (dec_int (p_pid pcb)) (pg\<lparr>index := ix, valid_bit := [False, False, False]\<rparr>) (source_file pcb) m0 = Some (pg', src, m) \<and>
    s' = (set_page ga pg' (set_pcb pa (pcb\<lparr>source_file := src\<rparr>) s))\<lparr>smem := m\<rparr>)"
  using assms unfolding load_PAGE_def Let_def by (auto simp del: load_frame.simps split: bind_splits option.splits) blast+

lemma set_pcb_same: "get_pcb pa s = Some pcb \<Longrightarrow> set_pcb pa pcb s = s"
  by (simp add: set_pcb_def get_pcb_def deref_eq_Some list_update_same_conv)

lemma load_PAGE_at_end:
  assumes "load_PAGE border pa i s = Some (f, s')" and "get_pcb pa s = Some pcb" and "source_file pcb = []"
    and "invalid_at ga c s" and "c < 3"
  shows "invalid_at ga c s' \<and> get_pcb pa s' = Some pcb \<and> QUEUE s' = QUEUE s \<and> pcbs s' = pcbs s"
proof -
  have pcb: "pcb\<lparr>source_file := []\<rparr> = pcb" using assms(3) by (cases pcb) simp
  from load_PAGE_cases [OF assms(1,2)] show ?thesis
  proof (elim disjE exE conjE)
    fix ga' pg ix m0 pg' src m
    assume g: "get_page ga' s = Some pg"
      and l: "load_frame [0, 1, 2] (dec_int (p_pid pcb)) (pg\<lparr>index := ix, valid_bit := [False, False, False]\<rparr>) (source_file pcb) m0 = Some (pg', src, m)"
      and s': "s' = (set_page ga' pg' (set_pcb pa (pcb\<lparr>source_file := src\<rparr>) s))\<lparr>smem := m\<rparr>"
    have "pg' = pg\<lparr>index := ix, valid_bit := [False, False, False]\<rparr>" "src = []" using l assms(3) by (simp_all add: load_frame_eof)
    then have e: "s' = (set_page ga' (pg\<lparr>index := ix, valid_bit := [False, False, False]\<rparr>) s)\<lparr>smem := m\<rparr>"
      using s' pcb set_pcb_same [OF assms(2)] by simp
    have "[False, False, False] ! c = False" using assms(5) by (auto simp: less_Suc_eq numeral_3_eq_3)
    then have "invalid_at ga c s'" using assms(4,5) by (auto simp: e invalid_at_def get_page_set_page arr_get_eq_Some)
    then show ?thesis using assms(2) by (simp add: e) (simp add: set_page_def)
  qed (use assms in simp)
qed

lemma run_proc_at_end:
  fixes s :: "'z kernel_scheme"
  assumes "run_proc parse border pa i c s = Some (Inr (ret, s'))" and "get_pcb pa s = Some pcb" and "source_file pcb = []"
    and ga: "arr_get (page_table pcb) i = Some ga" and iv: "invalid_at ga c s" and "c < 3"
  shows "ret = 1 \<and> get_pcb pa s' = Some pcb \<and> invalid_at ga c s' \<and> QUEUE s' = QUEUE s @ [pa]"
proof -
  have cpu: "cpu_run parse pa i c s = Some (Inr (1, s))" using assms(2) ga iv by (auto simp: cpu_run_def invalid_at_def)
  define ok where "ok t \<longleftrightarrow> get_pcb pa t = Some pcb \<and> invalid_at ga c t \<and> QUEUE t = QUEUE s" for t :: "'z kernel_scheme"
  obtain f s1 where l: "load_PAGE border pa i s = Some (f, s1)"
    using assms(1) cpu by (auto simp: run_proc_def split: bind_splits)
  then have s1: "ok s1" using load_PAGE_at_end [OF l assms(2,3) iv assms(6)] by (simp add: ok_def)
  have fin: "ret = 1 \<and> get_pcb pa s' = Some pcb \<and> invalid_at ga c s' \<and> QUEUE s' = QUEUE s @ [pa]"
    if "ok t" "s' = t\<lparr>LRU_CACHE := x, QUEUE := QUEUE t @ [pa]\<rparr>" "ret = 1" for t x
    using that by (simp add: ok_def invalid_at_def get_page_def get_pcb_def)
  show ?thesis
  proof (cases "f = 1")
    case False
    then show ?thesis using assms(1) cpu l s1 fin [of s1] by (auto simp: run_proc_def ok_def split: bind_splits)
  next
    case True
    define s2 where "s2 = s1\<lparr>LRU_CACHE := butlast (LRU_CACHE s1)\<rparr>"
    have s2: "ok s2" using s1 by (simp add: ok_def s2_def invalid_at_def get_page_def get_pcb_def)
    obtain v cur s3 f4 s4 x where e: "PAGE_evict cur (page_index (v :: PAGE)) s2 = Some s3" "load_PAGE border pa i s3 = Some (f4, s4)"
      "s' = s4\<lparr>LRU_CACHE := x, QUEUE := QUEUE s4 @ [pa]\<rparr>" "ret = 1"
      using assms(1) cpu l True ga by (auto simp: run_proc_def Let_def s2_def split: bind_splits if_splits)
    have s3: "ok s3" using PAGE_evict_invalid [OF e(1)] s2 by (auto simp: ok_def get_pcb_def)
    then have "ok s4" using load_PAGE_at_end [OF e(2) _ assms(3) _ assms(6)] by (auto simp: ok_def)
    then show ?thesis using e(3,4) by (rule fin)
  qed
qed

lemma rr_step_at_end:
  assumes "rr_step parse border pa s = Some (Inr s')" and "at_end pa s" and "QUEUE s = []"
  shows "at_end pa s' \<and> QUEUE s' = [pa]"
proof -
  obtain pcb i ga pg c where a: "get_pcb pa s = Some pcb" "p_size pcb = 1" "source_file pcb = []"
    "first_range 0 (nat (page_table_size pcb)) (\<lambda>i. do { c \<leftarrow> arr_get (program_counter pcb) i; Some (c \<noteq> 3) }) = Some (Some i)"
    "arr_get (program_counter pcb) i = Some (int c)" "arr_get (page_table pcb) i = Some ga" "get_page ga s = Some pg"
    "arr_get (valid_bit pg) c = Some False" "length (valid_bit pg) = 3"
    using assms(2) unfolding at_end_def by blast
  have iv: "invalid_at ga c s" "c < 3" using a(7-9) by (auto simp: invalid_at_def arr_get_eq_Some)
  obtain ret where "run_proc parse border pa i c s = Some (Inr (ret, s'))"
    using assms(1) a(1,2,4,5) by (auto simp: rr_step_def run_next_def on_ok_def split: bind_splits sum.splits)
  then have "get_pcb pa s' = Some pcb" "invalid_at ga c s'" "QUEUE s' = [pa]"
    using run_proc_at_end [OF _ a(1,3,6) iv] assms(3) by auto
  then show ?thesis using a(2-6) unfolding at_end_def invalid_at_def by blast
qed

text \<open>
  The other half: such a turn never goes wrong. The process is the only one, the pages of its table exist, are its
  own and lie in the store, and only they are in the list of least recently used pages.
\<close>

definition own_page :: "PCB \<Rightarrow> nat \<Rightarrow> nat \<Rightarrow> 'z kernel_scheme \<Rightarrow> bool" where
  "own_page pcb len ga s \<longleftrightarrow> (\<exists>pg. get_page ga s = Some pg \<and> page_pid pg = p_pid pcb \<and> page_index pg < length (page_table pcb) \<and>
     length (index pg) = 3 \<and> length (valid_bit pg) = 3 \<and> set (index pg) \<subseteq> {..<len})"

definition resident :: "nat \<Rightarrow> PCB \<Rightarrow> 'z kernel_scheme \<Rightarrow> bool" where
  "resident pa pcb s \<longleftrightarrow> get_pcb pa s = Some pcb \<and> ALL_PCB s = [pa] \<and> set (LRU_CACHE s) \<subseteq> set (page_table pcb) \<and>
     (\<forall>ga \<in> set (page_table pcb). own_page pcb (length (smem s)) ga s)"

definition sole_process :: "nat \<Rightarrow> nat \<Rightarrow> 'z kernel_scheme \<Rightarrow> bool" where
  "sole_process border pa s \<longleftrightarrow> (\<exists>pcb. resident pa pcb s) \<and> LRU_CACHE s \<noteq> [] \<and> border \<le> length (smem s)"

lemma own_page_set_page:
  assumes "own_page pcb len a s" and "page_pid pg = p_pid pcb" and "page_index pg < length (page_table pcb)"
    and "length (index pg) = 3" and "length (valid_bit pg) = 3" and "set (index pg) \<subseteq> {..<len}"
  shows "own_page pcb len a (set_page b pg s)"
  using assms by (auto simp: own_page_def get_page_set_page)

lemma own_page_cong: "pages t = pages s \<Longrightarrow> own_page pcb len a t = own_page pcb len a s"
  by (simp add: own_page_def get_page_def)

lemma resident_page:
  assumes "resident pa pcb s" and "i < length (page_table pcb)"
  shows "\<exists>pg. get_page (page_table pcb ! i) s = Some pg \<and> page_pid pg = p_pid pcb \<and> page_index pg < length (page_table pcb) \<and>
    length (index pg) = 3 \<and> length (valid_bit pg) = 3 \<and> set (index pg) \<subseteq> {..<length (smem s)}"
  using assms nth_mem [OF assms(2)] by (auto simp: resident_def own_page_def)

lemma load_PAGE_runs:
  assumes r: "resident pa pcb s" and "source_file pcb = []" and i: "i < length (page_table pcb)" and b: "border \<le> length (smem s)"
  shows "\<exists>f s'. load_PAGE border pa i s = Some (f, s') \<and> resident pa pcb s' \<and> LRU_CACHE s' = LRU_CACHE s \<and>
    length (smem s') = length (smem s)"
proof -
  have pcb: "get_pcb pa s = Some pcb" "pcb\<lparr>source_file := []\<rparr> = pcb" using r assms(2) by (auto simp: resident_def)
  obtain pg where pg: "get_page (page_table pcb ! i) s = Some pg" "page_pid pg = p_pid pcb" "page_index pg < length (page_table pcb)"
    using resident_page [OF r i] by blast
  show ?thesis
  proof (cases "\<exists>f. frame_free border (smem s) f")
    case False
    then have "frame_alloc border (dec_int (p_pid pcb)) (smem s) = Some (None, smem s)" using frame_alloc_step [OF b] by blast
    then have "load_PAGE border pa i s = Some (1, s)" using pcb(1) pg i by (simp add: load_PAGE_def arr_get_def)
    then show ?thesis using r by blast
  next
    case True
    obtain s' f pg' where l: "load_PAGE border pa i s = Some (0, s')" "frame_free border (smem s) f" "index pg' = [f, f + 1, f + 2]"
      "page_pid pg' = page_pid pg" "page_index pg' = page_index pg" "length (valid_bit pg') = 3" "length (smem s') = length (smem s)"
      "s' = s\<lparr>pages := (pages s)[page_table pcb ! i := Some pg'], pcbs := (pcbs s)[pa := Some (pcb\<lparr>source_file := []\<rparr>)], smem := smem s'\<rparr>"
      using load_PAGE_loads [OF b pcb(1) refl i pg(1) True] assms(2) by auto
    have u: "(pcbs s)[pa := Some pcb] = pcbs s"
      using pcb(1) by (simp add: get_pcb_def deref_eq_Some list_update_same_conv)
    have "s\<lparr>pages := x, pcbs := pcbs s, smem := m\<rparr> = s\<lparr>pages := x, smem := m\<rparr>" for x m by simp
    then have "s' = (set_page (page_table pcb ! i) pg' s)\<lparr>smem := smem s'\<rparr>"
      using l(8) unfolding pcb(2) u set_page_def by metis
    then obtain m where s'm: "s' = (set_page (page_table pcb ! i) pg' s)\<lparr>smem := m\<rparr>" by blast
    have eqs: "pages s' = pages (set_page (page_table pcb ! i) pg' s)" "get_pcb pa s' = get_pcb pa s"
      "ALL_PCB s' = ALL_PCB s" "LRU_CACHE s' = LRU_CACHE s"
      unfolding s'm by (simp_all add: set_page_def get_pcb_def)
    have "set (index pg') \<subseteq> {..<length (smem s)}" using l(2,3) b by (auto simp: frame_free_def)
    then have "own_page pcb (length (smem s)) ga s'" if "ga \<in> set (page_table pcb)" for ga
      using own_page_set_page [of pcb "length (smem s)" ga s pg' "page_table pcb ! i"] r l(3-6) pg that
      unfolding own_page_cong [OF eqs(1)] by (auto simp: resident_def)
    then show ?thesis using l(1,7) r eqs(2-4) by (intro exI [of _ 0] exI [of _ s']) (simp add: resident_def)
  qed
qed

lemma PAGE_evict_runs:
  fixes s :: "'z kernel_scheme"
  assumes r: "resident pa pcb s" and i: "i < length (page_table pcb)"
  shows "\<exists>s'. PAGE_evict pa i s = Some s' \<and> resident pa pcb s' \<and> LRU_CACHE s' = LRU_CACHE s \<and> length (smem s') = length (smem s)"
proof -
  define P where "P t \<longleftrightarrow> resident pa pcb t \<and> LRU_CACHE t = LRU_CACHE s \<and> length (smem t) = length (smem s)" for t :: "'z kernel_scheme"
  let ?ga = "page_table pcb ! i"
  let ?body = "\<lambda>i s. do {
       pg \<leftarrow> get_page ?ga s;
       ix \<leftarrow> arr_get (index pg) i;
       _ \<leftarrow> mem_get_value_at ix (smem s);
       mem \<leftarrow> mem_free_at ix (smem s);
       ixs \<leftarrow> arr_set (index pg) i 0;
       vb \<leftarrow> arr_set (valid_bit pg) i False;
       Some ((set_page ?ga (pg\<lparr>index := ixs, valid_bit := vb\<rparr>) s)\<lparr>smem := mem\<rparr>)
     }"
  have "\<exists>s'. for_range 0 3 ?body s = Some s' \<and> P s'"
  proof (rule for_range_inv)
    fix j :: nat and t assume j: "j < 3" and t: "P t"
    obtain pg where pg: "get_page ?ga t = Some pg" "page_pid pg = p_pid pcb" "page_index pg < length (page_table pcb)"
      "length (index pg) = 3" "length (valid_bit pg) = 3" "set (index pg) \<subseteq> {..<length (smem t)}"
      using resident_page [of pa pcb t i] t i by (auto simp: P_def)
    then have ix: "index pg ! j < length (smem t)" using j by (metis lessThan_iff nth_mem subsetD)
    define pg' where "pg' = pg\<lparr>index := (index pg)[j := 0], valid_bit := (valid_bit pg)[j := False]\<rparr>"
    define t' where "t' = (set_page ?ga pg' t)\<lparr>smem := (smem t)[index pg ! j := none_line]\<rparr>"
    have "?body j t = Some t'" using pg(1,4,5) j ix
      by (simp add: t'_def pg'_def arr_get_def arr_set_def mem_get_value_at_def mem_free_at_def)
    moreover have ix': "set (index pg') \<subseteq> {..<length (smem t)}"
      using pg(6) ix set_update_subset_insert [of "index pg" j 0] by (auto simp: pg'_def)
    have "own_page pcb (length (smem t)) ga (set_page ?ga pg' t)" if "ga \<in> set (page_table pcb)" for ga
    proof (rule own_page_set_page)
      show "own_page pcb (length (smem t)) ga t" using t that unfolding P_def resident_def by blast
    qed (use pg(2-5) ix' in \<open>simp_all add: pg'_def\<close>)
    then have "own_page pcb (length (smem t)) ga t'" if "ga \<in> set (page_table pcb)" for ga
      using that own_page_cong [of t' "set_page ?ga pg' t"] by (simp add: t'_def)
    then have "P t'" using t by (auto simp: P_def resident_def t'_def get_pcb_def set_page_def)
    ultimately show "\<exists>t'. ?body j t = Some t' \<and> P t'" by blast
  qed (use r in \<open>simp_all add: P_def\<close>)
  then show ?thesis using r i by (auto simp: PAGE_evict_def P_def resident_def arr_get_def)
qed

lemma at_end_queue [simp]: "at_end pa (s\<lparr>QUEUE := q\<rparr>) = at_end pa s"
  by (simp add: at_end_def get_pcb_def get_page_def)

lemma resident_fields:
  "resident pa pcb (s\<lparr>LRU_CACHE := l\<rparr>) = (resident pa pcb (s\<lparr>LRU_CACHE := []\<rparr>) \<and> set l \<subseteq> set (page_table pcb))"
  "resident pa pcb (s\<lparr>QUEUE := q\<rparr>) = resident pa pcb s"
  by (auto simp: resident_def own_page_def get_page_def get_pcb_def)

lemma resident_LRU: "resident pa pcb s \<Longrightarrow> set l \<subseteq> set (page_table pcb) \<Longrightarrow> resident pa pcb (s\<lparr>LRU_CACHE := l\<rparr>)"
  by (auto simp: resident_def own_page_def get_page_def get_pcb_def)

lemma run_proc_runs:
  assumes r: "resident pa pcb s" and src: "source_file pcb = []" and l: "LRU_CACHE s \<noteq> []" and b: "border \<le> length (smem s)"
    and cpu: "cpu_run parse pa i c s = Some (Inr (1, s))" and i: "i < length (page_table pcb)"
  shows "\<exists>s'. run_proc parse border pa i c s = Some (Inr (1, s')) \<and> sole_process border pa s'"
proof -
  let ?ga = "page_table pcb ! i"
  have ga: "?ga \<in> set (page_table pcb)" using i by simp
  have fin: "\<exists>s'. (do {
           pcb \<leftarrow> get_pcb pa t;
           ga \<leftarrow> arr_get (page_table pcb) i;
           Some (Inr (1, t\<lparr>LRU_CACHE := ga # LRU_CACHE t, QUEUE := QUEUE t @ [pa]\<rparr>))
         }) = Some (Inr (1 :: int, s')) \<and> sole_process border pa s'"
    if "resident pa pcb t" "border \<le> length (smem t)" for t :: "'a kernel_scheme"
  proof -
    have "resident pa pcb (t\<lparr>LRU_CACHE := ?ga # LRU_CACHE t, QUEUE := QUEUE t @ [pa]\<rparr>)"
      using resident_LRU [OF that(1), of "?ga # LRU_CACHE t"] ga that(1) by (simp add: resident_fields(2)) (simp add: resident_def)
    then show ?thesis using that i by (auto simp: resident_def sole_process_def arr_get_def)
  qed
  obtain f s1 where s1: "load_PAGE border pa i s = Some (f, s1)" "resident pa pcb s1" "LRU_CACHE s1 = LRU_CACHE s" "length (smem s1) = length (smem s)"
    using load_PAGE_runs [OF r src i b] by blast
  show ?thesis
  proof (cases "f = 1")
    case False
    then show ?thesis using fin [OF s1(2)] s1(1,4) b cpu by (simp add: run_proc_def)
  next
    case True
    let ?v = "last (LRU_CACHE s1)" and ?s2 = "s1\<lparr>LRU_CACHE := butlast (LRU_CACHE s1)\<rparr>"
    have "?v \<in> set (page_table pcb)" using s1(2,3) l by (auto simp: resident_def subset_eq)
    then obtain pg where pg: "get_page ?v s1 = Some pg" "page_pid pg = p_pid pcb" "page_index pg < length (page_table pcb)"
      using s1(2) by (auto simp: resident_def own_page_def)
    have s2: "resident pa pcb ?s2" using resident_LRU [OF s1(2)] s1(2) by (meson in_set_butlastD resident_def subset_eq)
    then have cur: "find_pid (page_pid pg) (ALL_PCB ?s2) ?s2 = Some pa" using pg(2) by (simp add: resident_def)
    obtain s3 where s3: "PAGE_evict pa (page_index pg) ?s2 = Some s3" "resident pa pcb s3" "length (smem s3) = length (smem s)"
      using PAGE_evict_runs [OF s2 pg(3)] s1(4) by auto
    obtain f4 s4 where s4: "load_PAGE border pa i s3 = Some (f4, s4)" "resident pa pcb s4" "length (smem s4) = length (smem s)"
      using load_PAGE_runs [OF s3(2) src i] b s3(3) by fastforce
    show ?thesis using fin [OF s4(2)] True s1(1,3) l pg(1) cur s3(1) s4(1,3) b cpu by (simp add: run_proc_def Let_def)
  qed
qed

text \<open>One turn of the loop, from a queue with this process alone: it runs, and nothing has changed that matters.\<close>

lemma livelock_turn:
  assumes a: "at_end pa s" and sole: "sole_process border pa s" and q: "QUEUE s = [pa]"
  shows "\<exists>u. rr_step parse border pa (s\<lparr>QUEUE := []\<rparr>) = Some (Inr u) \<and> at_end pa u \<and> sole_process border pa u \<and> QUEUE u = [pa]"
proof -
  let ?s = "s\<lparr>QUEUE := []\<rparr>"
  obtain pcb i ga pg c where p: "get_pcb pa ?s = Some pcb" "p_size pcb = 1" "source_file pcb = []"
    "first_range 0 (nat (page_table_size pcb)) (\<lambda>i. do { c \<leftarrow> arr_get (program_counter pcb) i; Some (c \<noteq> 3) }) = Some (Some i)"
    "arr_get (program_counter pcb) i = Some (int c)" "arr_get (page_table pcb) i = Some ga" "get_page ga ?s = Some pg"
    "arr_get (valid_bit pg) c = Some False"
    using a unfolding at_end_def by (auto simp: get_pcb_def get_page_def)
  have cpu: "cpu_run parse pa i c ?s = Some (Inr (1, ?s))" using p by (simp add: cpu_run_def)
  have "resident pa pcb ?s" using sole p(1) by (auto simp: sole_process_def resident_fields(2)) (auto simp: resident_def get_pcb_def)
  then obtain u where u: "run_proc parse border pa i c ?s = Some (Inr (1, u))" "sole_process border pa u"
    using run_proc_runs [of pa pcb ?s border parse i c] p(3,6) cpu sole by (auto simp: sole_process_def arr_get_eq_Some)
  have "rr_step parse border pa ?s = Some (Inr u)" using p u(1) by (simp add: rr_step_def run_next_def)
  then show ?thesis using rr_step_at_end [of parse border pa ?s u] a u(2) by auto
qed

lemma at_end_not_done: "at_end pa s \<Longrightarrow> PCB_done pa s = Some False"
  by (auto simp: at_end_def PCB_done_def)

lemma livelock_diverges:
  assumes "rr_loop parse border s = Some r"
  shows "\<not> (at_end pa s \<and> sole_process border pa s \<and> QUEUE s = [pa])"
  using assms
proof (induction rule: rr_loop.raw_induct [rotated 1, consumes 1])
  case (1 rr parse border s r)
  show ?case
  proof
    assume a: "at_end pa s \<and> sole_process border pa s \<and> QUEUE s = [pa]"
    then obtain u where u: "rr_step parse border pa (s\<lparr>QUEUE := []\<rparr>) = Some (Inr u)"
      "at_end pa u \<and> sole_process border pa u \<and> QUEUE u = [pa]" using livelock_turn [of pa s border parse] by blast
    have "rr parse border u = Some r" using 1(2) a u(1) at_end_not_done [of pa s] by auto
    then show False using 1(1) u(2) by blast
  qed
qed

subsection \<open>Properties\<close>

text \<open>
  C32. A process alone in the kernel that has run all lines of its script, while its size counts one more, keeps the
  scheduler busy for ever. The loop has an infinite run: at every turn the queue holds this process, which is not
  done, so the loop goes on; the turn is a page fault that loads nothing, meets no error and no exit, evicts a page
  when no frame is free, and puts the process back into the queue. So the round-robin loop does not come to an end.
  \<open>count_lines\<close> counts one more line than there is for every script that ends with a newline.
\<close>

theorem trailing_newline_livelock:
  assumes "at_end pa s" and "sole_process border pa s" and "QUEUE s = [pa]"
  shows "(\<exists>f. f 0 = s \<and> (\<forall>n. QUEUE (f n) = [pa] \<and> queue_done (QUEUE (f n)) (f n) = Some False \<and>
      rr_step parse border pa (f n\<lparr>QUEUE := []\<rparr>) = Some (Inr (f (Suc n))))) \<and>
    rr_loop parse border s = None"
proof (rule conjI)
  define inv where "inv t \<longleftrightarrow> at_end pa t \<and> sole_process border pa t \<and> QUEUE t = [pa]" for t :: "'a kernel_scheme"
  obtain f where f: "\<forall>n. ((n = 0 \<longrightarrow> f n = s) \<and> inv (f n)) \<and> rr_step parse border pa (f n\<lparr>QUEUE := []\<rparr>) = Some (Inr (f (Suc n)))"
  proof (rule exE [OF dependent_nat_choice [where P = "\<lambda>n t. (n = 0 \<longrightarrow> t = s) \<and> inv t" and
        Q = "\<lambda>n t u. rr_step parse border pa (t\<lparr>QUEUE := []\<rparr>) = Some (Inr u)"]])
    show "\<exists>t. (0 = (0 :: nat) \<longrightarrow> t = s) \<and> inv t" using assms by (simp add: inv_def)
    show "\<exists>u. ((Suc n = 0 \<longrightarrow> u = s) \<and> inv u) \<and> rr_step parse border pa (t\<lparr>QUEUE := []\<rparr>) = Some (Inr u)"
      if "(n = 0 \<longrightarrow> t = s) \<and> inv t" for t n using that livelock_turn [of pa t border parse] by (auto simp: inv_def)
  qed blast
  have "QUEUE (f n) = [pa] \<and> queue_done (QUEUE (f n)) (f n) = Some False" for n
    using f at_end_not_done [of pa "f n"] by (simp add: inv_def)
  then show "\<exists>f. f 0 = s \<and> (\<forall>n. QUEUE (f n) = [pa] \<and> queue_done (QUEUE (f n)) (f n) = Some False \<and>
      rr_step parse border pa (f n\<lparr>QUEUE := []\<rparr>) = Some (Inr (f (Suc n))))"
    using f by blast
  show "rr_loop parse border s = None" using livelock_diverges [of parse border s] assms by fastforce
qed

lemma newline_count_snoc: "newline_count b (cs @ [CHR 0x0A]) =
   newline_count b cs + (if cs = [] then (if b then 0 else 1) else if last cs = CHR 0x0A then 0 else 1)"
  by (induction b cs rule: newline_count.induct) auto

lemma count_lines_trailing:
  assumes "cs \<noteq> []" and "last cs \<noteq> CHR 0x0A"
  shows "count_lines (Some (cs @ [CHR 0x0A])) = count_lines (Some cs) + 1"
  using assms by (simp add: count_lines_def newline_count_snoc)

text \<open>A kernel with one process, whose script was the line \<open>x\<close> with a newline, after that line has run.\<close>

definition kernel0 :: kernel where
  "kernel0 = \<lparr>pages = [], pcbs = [], smem = a3_mem_init 6 2, QUEUE = [], LRU_CACHE = [], ALL_PCB = [], PID_counter = 1\<rparr>"

definition kernel_example :: kernel where
  "kernel_example = \<lparr>pages = [Some \<lparr>index = [0, 1, 2], valid_bit = [True, False, False], page_index = 0, page_pid = 1\<rparr>],
     pcbs = [Some \<lparr>p_pid = 1, p_size = 2, program_counter = [0], page_table = [0], page_table_size = 1, source_file = []\<rparr>],
     smem = \<lparr>var = ''1'', val = [CHR ''x'', CHR 0x0A]\<rparr> # \<lparr>var = ''1'', val = ''none''\<rparr> # \<lparr>var = ''1'', val = ''none''\<rparr> # replicate 5 none_line,
     QUEUE = [0], LRU_CACHE = [0], ALL_PCB = [0], PID_counter = 2\<rparr>"

lemma kernel_example_new_proc: "new_proc 6 (Some [CHR ''x'', CHR 0x0A]) kernel0 = Some (Inr (0, kernel_example))"
  by code_simp

definition kernel_example2 :: kernel where
  "kernel_example2 = \<lparr>pages = [Some \<lparr>index = [3, 4, 5], valid_bit = [False, False, False], page_index = 0, page_pid = 1\<rparr>],
     pcbs = [Some \<lparr>p_pid = 1, p_size = 1, program_counter = [1], page_table = [0], page_table_size = 1, source_file = []\<rparr>],
     smem = \<lparr>var = ''1'', val = [CHR ''x'', CHR 0x0A]\<rparr> # replicate 5 \<lparr>var = ''1'', val = ''none''\<rparr> @ replicate 2 none_line,
     QUEUE = [0], LRU_CACHE = [0, 0], ALL_PCB = [0], PID_counter = 2\<rparr>"

lemma kernel_example_step:
  "rr_step (\<lambda>_ s. Some (Inr (0, s))) 6 0 (kernel_example\<lparr>QUEUE := []\<rparr>) = Some (Inr kernel_example2)"
  by code_simp

lemma kernel_example2_at_end: "at_end 0 kernel_example2"
  unfolding at_end_def
  by (intro exI [of _ "\<lparr>p_pid = 1, p_size = 1, program_counter = [1], page_table = [0], page_table_size = 1, source_file = []\<rparr>"]
      exI [of _ 0] exI [of _ "\<lparr>index = [3, 4, 5], valid_bit = [False, False, False], page_index = 0, page_pid = 1\<rparr>"] exI [of _ 1] conjI) code_simp+

lemma kernel_example2_sole: "sole_process 6 0 kernel_example2"
  unfolding sole_process_def resident_def own_page_def
  by (intro exI [of _ "\<lparr>p_pid = 1, p_size = 1, program_counter = [1], page_table = [0], page_table_size = 1, source_file = []\<rparr>"] conjI)
    (simp_all add: kernel_example2_def get_pcb_def get_page_def deref_def arr_get_def)

theorem trailing_newline_livelock_witness:
  "new_proc 6 (Some [CHR ''x'', CHR 0x0A]) kernel0 = Some (Inr (0, kernel_example)) \<and>
   rr_loop (\<lambda>_ s. Some (Inr (0, s))) 6 kernel_example = None"
proof -
  have "queue_done (QUEUE kernel_example) kernel_example = Some False" by code_simp
  then have "rr_loop (\<lambda>_ s. Some (Inr (0, s))) 6 kernel_example = rr_loop (\<lambda>_ s. Some (Inr (0, s))) 6 kernel_example2"
    using kernel_example_step by (subst rr_loop.simps) (simp add: kernel_example_def)
  then show ?thesis
    using kernel_example_new_proc trailing_newline_livelock [OF kernel_example2_at_end kernel_example2_sole]
    by (simp add: kernel_example2_def)
qed

text \<open>
  C31. When a page fault is served and a frame is free, the page gets a frame that was free, with the next three
  lines of the script in their order, and the valid bits say how many lines there were; nothing else in the
  memory changes, and the process reads on behind those lines.
\<close>

theorem page_fault_loads_next_lines:
  assumes "border \<le> length (smem s)" and "get_pcb pa s = Some pcb" and "page_table pcb ! i = ga" and "i < length (page_table pcb)"
    and "get_page ga s = Some pg" and "frame_free border (smem s) g"
  shows "\<exists>s' f pg'. load_PAGE border pa i s = Some (0, s') \<and> frame_free border (smem s) f \<and>
    get_page ga s' = Some pg' \<and> index pg' = [f, f + 1, f + 2] \<and>
    (\<forall>j < 3. valid_bit pg' ! j = (j < length (fst (take_lines 3 (source_file pcb))))) \<and>
    (\<forall>j < length (fst (take_lines 3 (source_file pcb))). mem_get_value_at (f + j) (smem s') = Some (fst (take_lines 3 (source_file pcb)) ! j)) \<and>
    (\<forall>k < length (smem s). \<not> (f \<le> k \<and> k < f + 3) \<longrightarrow> smem s' ! k = smem s ! k) \<and>
    get_pcb pa s' = Some (pcb\<lparr>source_file := snd (take_lines 3 (source_file pcb))\<rparr>)"
proof -
  obtain s' f pg' where l: "load_PAGE border pa i s = Some (0, s')" "frame_free border (smem s) f" "get_page ga s' = Some pg'"
    "index pg' = [f, f + 1, f + 2]" "\<forall>j < 3. valid_bit pg' ! j = (j < length (fst (take_lines 3 (source_file pcb))))"
    "\<forall>j < length (fst (take_lines 3 (source_file pcb))).
       smem s' ! (f + j) = \<lparr>var = dec_int (p_pid pcb), val = fst (take_lines 3 (source_file pcb)) ! j\<rparr>"
    "\<forall>k < length (smem s). \<not> (f \<le> k \<and> k < f + 3) \<longrightarrow> smem s' ! k = smem s ! k" "length (smem s') = length (smem s)"
    "s' = s\<lparr>pages := (pages s)[ga := Some pg'], pcbs := (pcbs s)[pa := Some (pcb\<lparr>source_file := snd (take_lines 3 (source_file pcb))\<rparr>)], smem := smem s'\<rparr>"
    using load_PAGE_loads [OF assms(1,2,3,4,5)] assms(6) by blast
  have "f + j < length (smem s')" if "j < length (fst (take_lines 3 (source_file pcb)))" for j
    using that l(2,8) assms(1) length_take_lines [of 3 "source_file pcb"] by (simp add: frame_free_def)
  moreover have "get_pcb pa s' = Some (pcb\<lparr>source_file := snd (take_lines 3 (source_file pcb))\<rparr>)"
    using assms(2) by (subst l(9)) (simp add: get_pcb_def deref_eq_Some)
  ultimately show ?thesis
    using l(1-7) by (intro exI [of _ s'] exI [of _ f] exI [of _ pg']) (simp add: mem_get_value_at_def)
qed

theorem page_fault_loads_next_lines_witness:
  "\<exists>s' f. load_PAGE 6 0 0 (kernel_example\<lparr>pcbs := [Some \<lparr>p_pid = 1, p_size = 2, program_counter = [0], page_table = [0], page_table_size = 1, source_file = ''y''\<rparr>]\<rparr>) = Some (0, s') \<and>
     mem_get_value_at f (smem s') = Some ''y''"
proof -
  define pcb where "pcb = \<lparr>p_pid = 1, p_size = 2, program_counter = [0], page_table = [0], page_table_size = 1, source_file = ''y''\<rparr>"
  define s where "s = kernel_example\<lparr>pcbs := [Some pcb]\<rparr>"
  have "6 \<le> length (smem s)" "get_pcb 0 s = Some pcb" "page_table pcb ! 0 = 0" "0 < length (page_table pcb)"
    "get_page 0 s = Some \<lparr>index = [0, 1, 2], valid_bit = [True, False, False], page_index = 0, page_pid = 1\<rparr>" "frame_free 6 (smem s) 3"
    unfolding s_def pcb_def by code_simp+
  from page_fault_loads_next_lines [OF this] obtain s' f where l: "load_PAGE 6 0 0 s = Some (0, s')"
    "\<forall>j < length (fst (take_lines 3 (source_file pcb))). mem_get_value_at (f + j) (smem s') = Some (fst (take_lines 3 (source_file pcb)) ! j)" by blast
  have "fst (take_lines 3 (source_file pcb)) = [''y'']" unfolding pcb_def by code_simp
  then show ?thesis using l unfolding s_def pcb_def by auto
qed

text \<open>
  C35. Ending a process clears more than its frames: the frame of a page is cleared from each of its three indices,
  so the two lines behind it are lost too. When the frame is the last one of the frame store, these are the first two
  variables of the shell.
\<close>

theorem free_PCB_clears_beyond_frame:
  assumes "get_pcb pa s = Some pcb" and "page_table_size pcb = 1" and "page_table pcb = [ga]" and "get_page ga s = Some pg"
    and "index pg = [k, k + 1, k + 2]" and "k + 5 \<le> length (smem s)"
  shows "\<exists>s'. free_PCB pa s = Some s' \<and> get_pcb pa s' = None \<and> get_page ga s' = None \<and>
    (\<forall>x < length (smem s). smem s' ! x = (if k \<le> x \<and> x < k + 5 then none_line else smem s ! x))"
proof -
  obtain m where m: "for_range 0 3 (\<lambda>j mem. do { ix \<leftarrow> arr_get [k, k + 1, k + 2] j; clear_frame ix mem }) (smem s) = Some m" "length m = length (smem s)"
    "\<forall>x < length (smem s). m ! x = (if k \<le> x \<and> x < k + 5 then none_line else smem s ! x)"
    using clear_page_lines [OF assms(6)] by blast
  have "free_PCB pa s = Some (s\<lparr>smem := m, pages := (pages s)[ga := None], pcbs := (pcbs s)[pa := None]\<rparr>)"
    using assms(1-5) m(1) by (simp add: free_PCB_def for_range_bind [of 0 "Suc 0"])
  then show ?thesis using m(3) assms(1,4) by (simp add: get_pcb_def get_page_def deref_def arr_get_def)
qed

definition kernel_example3 :: kernel where
  "kernel_example3 = kernel_example\<lparr>pages := [Some \<lparr>index = [3, 4, 5], valid_bit = [True, False, False], page_index = 0, page_pid = 1\<rparr>],
     smem := a3_mem_set_value 6 2 ''v'' ''1'' (smem kernel_example)\<rparr>"

theorem free_PCB_clears_beyond_frame_witness:
  "a3_mem_get_value 6 2 ''v'' CHR ''p'' (smem kernel_example3) = ''1'' \<and>
   (\<exists>s'. free_PCB 0 kernel_example3 = Some s' \<and> smem s' ! 6 = none_line)"
proof -
  have v: "a3_mem_get_value 6 2 ''v'' CHR ''p'' (smem kernel_example3) = ''1''" by code_simp
  have e: "get_pcb 0 kernel_example3 = Some \<lparr>p_pid = 1, p_size = 2, program_counter = [0], page_table = [0], page_table_size = 1, source_file = []\<rparr>"
    "get_page 0 kernel_example3 = Some \<lparr>index = [3, 4, 5], valid_bit = [True, False, False], page_index = 0, page_pid = 1\<rparr>"
    "length (smem kernel_example3) = 8" by code_simp+
  have "\<exists>s'. free_PCB 0 kernel_example3 = Some s' \<and> get_pcb 0 s' = None \<and> get_page 0 s' = None \<and>
    (\<forall>x < length (smem kernel_example3). smem s' ! x = (if 3 \<le> x \<and> x < 3 + 5 then none_line else smem kernel_example3 ! x))"
    by (rule free_PCB_clears_beyond_frame [OF e(1) _ _ e(2)]) (simp_all add: e(3))
  then show ?thesis using v e(3) by auto
qed

text \<open>
  A command whose status is 1 is taken for a page fault. The line has run and the program counter has moved on, but
  the page, which is resident, gets a second frame with the three lines of the script that come after the lines
  loaded so far; the remaining lines of the page in the first frame are not reachable any more.
\<close>

theorem status_1_reloads_page:
  assumes "border \<le> length (smem s)" and pcb: "get_pcb pa s = Some pcb" and pt: "page_table pcb ! i = ga" "i < length (page_table pcb)"
    and pc: "i < length (program_counter pcb)" and pg: "get_page ga s = Some pg"
    and vb: "j < length (valid_bit pg)" "valid_bit pg ! j" and ix: "j < length (index pg)" "index pg ! j < length (smem s)"
    and parse: "parse (val (smem s ! (index pg ! j))) s = Some (Inr (1, s))" and fr: "frame_free border (smem s) g"
  shows "\<exists>s' f pg' pcb'. run_proc parse border pa i j s = Some (Inr (1, s')) \<and> frame_free border (smem s) f \<and>
    get_page ga s' = Some pg' \<and> index pg' = [f, f + 1, f + 2] \<and>
    (\<forall>m < length (fst (take_lines 3 (source_file pcb))). val (smem s' ! (f + m)) = fst (take_lines 3 (source_file pcb)) ! m) \<and>
    get_pcb pa s' = Some pcb' \<and> program_counter pcb' = (program_counter pcb)[i := program_counter pcb ! i + 1] \<and> QUEUE s' = QUEUE s @ [pa]"
proof -
  define q where "q = pcb\<lparr>program_counter := (program_counter pcb)[i := program_counter pcb ! i + 1], p_size := p_size pcb - 1\<rparr>"
  define t where "t = set_pcb pa q s"
  have cpu: "cpu_run parse pa i j s = Some (Inr (1, t))"
    using pcb pt pc pg vb ix parse by (simp add: cpu_run_def mem_get_value_at_def t_def q_def)
  have tq: "get_pcb pa t = Some q" "get_page ga t = Some pg" "smem t = smem s" "QUEUE t = QUEUE s"
    using get_pcb_set_pcb [OF pcb, of q] pg by (simp_all add: t_def) (simp_all add: set_pcb_def)
  have qf: "page_table q = page_table pcb" "source_file q = source_file pcb"
    "program_counter q = (program_counter pcb)[i := program_counter pcb ! i + 1]" by (simp_all add: q_def)
  have "border \<le> length (smem t)" "page_table q ! i = ga" "i < length (page_table q)" "\<exists>g. frame_free border (smem t) g"
    using assms(1) pt fr by (auto simp: tq(3) qf)
  from load_PAGE_loads [OF this(1) tq(1) this(2,3) tq(2) this(4)]
  obtain s1 f pg' where l: "load_PAGE border pa i t = Some (0, s1)" "frame_free border (smem s) f" "get_page ga s1 = Some pg'" "index pg' = [f, f + 1, f + 2]"
    "\<forall>m < length (fst (take_lines 3 (source_file pcb))). val (smem s1 ! (f + m)) = fst (take_lines 3 (source_file pcb)) ! m"
    "s1 = t\<lparr>pages := (pages t)[ga := Some pg'], pcbs := (pcbs t)[pa := Some (q\<lparr>source_file := snd (take_lines 3 (source_file q))\<rparr>)], smem := smem s1\<rparr>"
    unfolding tq(3) qf(2) by fastforce
  have p1: "get_pcb pa s1 = Some (q\<lparr>source_file := snd (take_lines 3 (source_file q))\<rparr>)" "QUEUE s1 = QUEUE s"
    using tq(1,4) by (subst l(6), simp add: get_pcb_def deref_eq_Some, subst l(6), simp)
  define s' where "s' = s1\<lparr>LRU_CACHE := ga # LRU_CACHE s1, QUEUE := QUEUE s @ [pa]\<rparr>"
  have "run_proc parse border pa i j s = Some (Inr (1, s'))"
    using cpu l(1) p1 pt by (simp add: run_proc_def qf s'_def)
  moreover have "get_page ga s' = Some pg'" "get_pcb pa s' = Some (q\<lparr>source_file := snd (take_lines 3 (source_file q))\<rparr>)"
    using l(3) p1(1) by (simp_all add: s'_def get_page_def get_pcb_def)
  ultimately show ?thesis
    using l(2,4,5) qf(3)
    by (intro exI [of _ s'] exI [of _ f] exI [of _ pg'] exI [of _ "q\<lparr>source_file := snd (take_lines 3 (source_file q))\<rparr>"]) (simp add: s'_def)
qed

theorem status_1_reloads_page_witness:
  "\<exists>s' pg'. run_proc (\<lambda>_ s. Some (Inr (1, s))) 6 0 0 0 kernel_example = Some (Inr (1, s')) \<and> get_page 0 s' = Some pg' \<and> index pg' \<noteq> [0, 1, 2]"
proof -
  have e: "6 \<le> length (smem kernel_example)"
    "get_pcb 0 kernel_example = Some \<lparr>p_pid = 1, p_size = 2, program_counter = [0], page_table = [0], page_table_size = 1, source_file = []\<rparr>"
    "get_page 0 kernel_example = Some \<lparr>index = [0, 1, 2], valid_bit = [True, False, False], page_index = 0, page_pid = 1\<rparr>"
    "frame_free 6 (smem kernel_example) 3" "\<not> frame_free 6 (smem kernel_example) 0" by code_simp+
  obtain s' f pg' where "run_proc (\<lambda>_ s. Some (Inr (1, s))) 6 0 0 0 kernel_example = Some (Inr (1, s'))" "frame_free 6 (smem kernel_example) f"
    "get_page 0 s' = Some pg'" "index pg' = [f, f + 1, f + 2]"
    using status_1_reloads_page [OF e(1,2) _ _ _ e(3), where i = 0 and j = 0 and parse = "\<lambda>_ s. Some (Inr (1, s))", OF _ _ _ _ _ _ _ _ e(4)] e(1) by fastforce
  then show ?thesis using e(5) by (intro exI [of _ s'] exI [of _ pg'], cases "f = 0") auto
qed

end
