(* ===== verification/Shell3.thy ===== *)
theory Shell3
  imports Fsutil2 Process Shell1 Debug
begin

text \<open>
  The shell of the third assignment: \<open>src/a3/shell.c\<close> and \<open>src/a3/interpreter.c\<close>, which put the kernel of
  \<open>Process\<close> and the file system of \<open>Filesys\<close> and \<open>Fsutil2\<close> together.

  The state extends the kernel by the file system, the operating system of the host, the output, the counter of
  script names and the pointer that \<open>strtok\<close> keeps between its calls. \<open>parseInput\<close> calls itself through the kernel,
  and all its calls share that pointer. The argument \<open>env\<close> has what the shell uses of the host, the sizes of the
  memory and the path of the working directory; \<open>junk\<close> in it is uninitialised memory. \<open>a3_parse\<close> counts how deep
  \<open>parseInput\<close> runs inside of itself; \<open>Inl n\<close> is \<open>exit(n)\<close>.
\<close>

datatype printed = Line string | Text string | Fragmentation "nat \<times> nat"

record 'h a3_env =
  host_system :: "string \<Rightarrow> 'h \<Rightarrow> 'h"
  host_read :: "string \<Rightarrow> 'h \<Rightarrow> byte list option"
  host_store :: "string \<Rightarrow> byte list \<Rightarrow> 'h \<Rightarrow> 'h option"
  FRAME_STORE_SIZE :: nat
  VAR_STORE_SIZE :: nat
  cwd_path :: string
  a3_help_text :: string
  a3_junk :: "byte list"

record 'h a3_shell = kernel +
  fsys :: dir_state
  a3_host :: 'h
  a3_out :: "printed list"
  new_name_count :: nat
  strtok_save :: string

type_synonym 'h a3_result = "(int + int \<times> 'h a3_shell) option"

abbreviation a3_ok :: "int \<times> 'h a3_shell \<Rightarrow> 'h a3_result" where
  "a3_ok r \<equiv> Some (Inr r)"

definition say :: "printed \<Rightarrow> 'h a3_shell \<Rightarrow> 'h a3_shell" where
  "say out s = s\<lparr>a3_out := a3_out s @ [out]\<rparr>"

definition host_command :: "'h a3_env \<Rightarrow> string \<Rightarrow> 'h a3_shell \<Rightarrow> 'h a3_shell" where
  "host_command env command s = s\<lparr>a3_host := host_system env command (a3_host s)\<rparr>"

definition bytes_of_string :: "string \<Rightarrow> byte list" where
  "bytes_of_string cs = map byte_of_char cs"

subsection \<open>Library functions\<close>

definition isalnum :: "char \<Rightarrow> bool" where
  "isalnum c \<longleftrightarrow> (let n = (of_char c :: nat) in 48 \<le> n \<and> n \<le> 57 \<or> 65 \<le> n \<and> n \<le> 90 \<or> 97 \<le> n \<and> n \<le> 122)"

definition isspace :: "char \<Rightarrow> bool" where
  "isspace c \<longleftrightarrow> (let n = (of_char c :: nat) in n = 32 \<or> 9 \<le> n \<and> n \<le> 13)"

definition isdigit :: "char \<Rightarrow> bool" where
  "isdigit c \<longleftrightarrow> (let n = (of_char c :: nat) in 48 \<le> n \<and> n \<le> 57)"

primrec digits_value :: "string \<Rightarrow> int \<Rightarrow> int" where
  "digits_value [] a = a"
| "digits_value (c # cs) a = digits_value cs (10 * a + (int (of_char c) - 48))"

text \<open>A number that does not fit in an \<open>int\<close> is undefined.\<close>

definition atoi :: "string \<Rightarrow> int option" where
  "atoi str =
     (let cs = dropWhile isspace str;
          neg = (cs \<noteq> [] \<and> hd cs = CHR ''-'');
          ds = takeWhile isdigit (if cs \<noteq> [] \<and> (hd cs = CHR ''-'' \<or> hd cs = CHR ''+'') then tl cs else cs);
          n = digits_value ds 0
      in int32 (if neg then - n else n))"

text \<open>\<open>strtok\<close> with the delimiter \<open>;\<close>: the next token of a string, and what is left behind the delimiter.\<close>

definition strtok_from :: "string \<Rightarrow> string option \<times> string" where
  "strtok_from str =
     (let cs = dropWhile (\<lambda>c. c = CHR '';'') str
      in if cs = [] then (None, [])
         else (Some (takeWhile (\<lambda>c. c \<noteq> CHR '';'') cs), drop 1 (dropWhile (\<lambda>c. c \<noteq> CHR '';'') cs)))"

definition strtok_start :: "string \<Rightarrow> 'h a3_shell \<Rightarrow> string option \<times> 'h a3_shell" where
  "strtok_start str s = (fst (strtok_from str), s\<lparr>strtok_save := snd (strtok_from str)\<rparr>)"

definition strtok_next :: "'h a3_shell \<Rightarrow> string option \<times> 'h a3_shell" where
  "strtok_next s = strtok_start (strtok_save s) s"

subsection \<open>Errors\<close>

definition a3_error_msgs :: "string list" where
  "a3_error_msgs =
     [''no error'', ''file does not exist'', ''no space left in shell memory'', ''ready queue is full'',
      ''scheduling policy error'', ''too many tokens'', ''too few tokens'', ''non-alphanumeric token'', ''unknown name'',
      ''rm'', ''file could not be created'', ''bad filesystem'', ''file could not be written (maybe no space?)'',
      ''file could not be read'']"

primrec a3_error_number :: "Error \<Rightarrow> nat" where
  "a3_error_number NO_ERROR = 0"
| "a3_error_number FILE_DOES_NOT_EXIST = 1"
| "a3_error_number NO_MEM_SPACE = 2"
| "a3_error_number READY_QUEUE_FULL = 3"
| "a3_error_number SCHEDULING_ERROR = 4"
| "a3_error_number TOO_MANY_TOKENS = 5"
| "a3_error_number TOO_FEW_TOKENS = 6"
| "a3_error_number NON_ALPHANUMERIC_TOKEN = 7"
| "a3_error_number BAD_COMMAND = 8"
| "a3_error_number ERROR_RM = 9"
| "a3_error_number FILE_CREATION_ERROR = 10"
| "a3_error_number FILESYSTEM_ERROR = 11"
| "a3_error_number FILE_WRITE_ERROR = 12"
| "a3_error_number FILE_READ_ERROR = 13"

definition a3_handle_error :: "Error \<Rightarrow> 'h a3_shell \<Rightarrow> 'h a3_result" where
  "a3_handle_error e s =
     a3_ok (int (a3_error_number e), say (Line (''Bad command: '' @ a3_error_msgs ! a3_error_number e)) s)"

subsection \<open>Commands on variables\<close>

definition a3_help :: "'h a3_env \<Rightarrow> 'h a3_shell \<Rightarrow> 'h a3_result" where
  "a3_help env s = a3_ok (0, say (Line (a3_help_text env)) s)"

definition a3_quit :: "'h a3_shell \<Rightarrow> 'h a3_result" where
  "a3_quit s = a3_ok (- 1, say (Line ''Bye!'') s)"

definition isAlphaNumStr :: "string \<Rightarrow> bool" where
  "isAlphaNumStr str \<longleftrightarrow> str \<noteq> [] \<and> (\<forall>c \<in> set str. isalnum c)"

definition a3_set :: "'h a3_env \<Rightarrow> string \<Rightarrow> string \<Rightarrow> 'h a3_shell \<Rightarrow> 'h a3_result" where
  "a3_set env v x s =
     (if length v + 1 + length x < 1000
      then a3_ok (0, s\<lparr>smem := a3_mem_set_value (FRAME_STORE_SIZE env) (VAR_STORE_SIZE env) v x (smem s)\<rparr>) else None)"

text \<open>
  The loop that collects the value in an array of 505 characters; \<open>Some None\<close> is the return with an error at a token
  that is not alphanumeric.
\<close>

fun set_buffer :: "string \<Rightarrow> string list \<Rightarrow> string option option" where
  "set_buffer buf [] = Some (Some buf)"
| "set_buffer buf (w # ws) =
     (if \<not> isAlphaNumStr w then Some None
      else let buf = buf @ w @ (if ws = [] then [] else '' '')
           in if length buf < 505 then set_buffer buf ws else None)"

definition a3_print :: "'h a3_env \<Rightarrow> string \<Rightarrow> 'h a3_shell \<Rightarrow> 'h a3_result" where
  "a3_print env v s = a3_ok (0, say (Line (a3_mem_get_value (FRAME_STORE_SIZE env) (VAR_STORE_SIZE env) v CHR ''p'' (smem s))) s)"

text \<open>Behind a dollar sign every suffix of the name is tested.\<close>

definition a3_echo :: "'h a3_env \<Rightarrow> string \<Rightarrow> 'h a3_shell \<Rightarrow> 'h a3_result" where
  "a3_echo env v s =
     (if v = [] \<or> hd v \<noteq> CHR ''$'' then
        (if \<not> isAlphaNumStr v then a3_handle_error NON_ALPHANUMERIC_TOKEN s else a3_ok (0, say (Line v) s))
      else if \<exists>k < length (tl v). \<not> isAlphaNumStr (drop k (tl v)) then a3_handle_error NON_ALPHANUMERIC_TOKEN s
      else a3_ok (0, say (Line (a3_mem_get_value (FRAME_STORE_SIZE env) (VAR_STORE_SIZE env) (tl v) CHR ''e'' (smem s))) s))"

definition a3_resetmem :: "'h a3_env \<Rightarrow> 'h a3_shell \<Rightarrow> 'h a3_result" where
  "a3_resetmem env s = do {
     mem \<leftarrow> reset_var_zone (FRAME_STORE_SIZE env) (VAR_STORE_SIZE env) (smem s);
     a3_ok (0, s\<lparr>smem := mem\<rparr>)
   }"

subsection \<open>Running scripts\<close>

type_synonym 'h a3_parser = "string \<Rightarrow> 'h a3_shell \<Rightarrow> 'h a3_result"

text \<open>A file of the host opened for reading, as text.\<close>

definition host_script :: "'h a3_env \<Rightarrow> string \<Rightarrow> 'h a3_shell \<Rightarrow> string option" where
  "host_script env f s = map_option (map char_of_byte) (host_read env f (a3_host s))"

definition a3_run :: "'h a3_env \<Rightarrow> 'h a3_parser \<Rightarrow> string \<Rightarrow> 'h a3_shell \<Rightarrow> 'h a3_result" where
  "a3_run env parse script s = do {
     r \<leftarrow> new_proc (FRAME_STORE_SIZE env) (host_script env script s) s;
     on_ok r (\<lambda>(e, s). if e \<noteq> 0 then a3_ok (1, s) else run_proc_RR parse (FRAME_STORE_SIZE env) s)
   }"

primrec new_procs :: "'h a3_env \<Rightarrow> string list \<Rightarrow> 'h a3_shell \<Rightarrow> (int + bool \<times> 'h a3_shell) option" where
  "new_procs env [] s = Some (Inr (True, s))"
| "new_procs env (f # fs) s = do {
     r \<leftarrow> new_proc (FRAME_STORE_SIZE env) (host_script env f s) s;
     on_ok r (\<lambda>(e, s). if e \<noteq> 0 then Some (Inr (False, s)) else new_procs env fs s)
   }"

definition a3_exec :: "'h a3_env \<Rightarrow> 'h a3_parser \<Rightarrow> string list \<Rightarrow> string \<Rightarrow> 'h a3_shell \<Rightarrow> 'h a3_result" where
  "a3_exec env parse scripts policy s =
     (if length scripts > 3 then a3_ok (1, say (Line ''exec can only take between 1 to 3 scripts'') s)
      else do {
        r \<leftarrow> new_procs env scripts s;
        on_ok r (\<lambda>(ok, s).
          if \<not> ok then a3_ok (1, s)
          else if policy = ''FIFO'' then run_proc_FIFO parse (FRAME_STORE_SIZE env) s
          else if policy = ''RR'' then run_proc_RR parse (FRAME_STORE_SIZE env) s
          else a3_ok (0, s))
      })"

text \<open>
  A script is copied to the backing store under a name with as many letters \<open>a\<close> behind it as scripts have been
  copied. The three arrays have 100 characters.
\<close>

definition backing_copy :: "'h a3_env \<Rightarrow> string \<Rightarrow> 'h a3_shell \<Rightarrow> (string \<times> 'h a3_shell) option" where
  "backing_copy env f s =
     (let old_name = f @ replicate (new_name_count s) CHR ''a'';
          new_name = ''./backing_store/'' @ old_name;
          cmd = ''cp ./'' @ f @ '' '' @ new_name
      in if length old_name < 100 \<and> length new_name < 100 \<and> length cmd < 100
         then Some (new_name, (host_command env cmd s)\<lparr>new_name_count := new_name_count s + 1\<rparr>) else None)"

primrec backing_copies :: "'h a3_env \<Rightarrow> string list \<Rightarrow> 'h a3_shell \<Rightarrow> (string list \<times> 'h a3_shell) option" where
  "backing_copies env [] s = Some ([], s)"
| "backing_copies env (f # fs) s = do {
     (n, s) \<leftarrow> backing_copy env f s;
     (ns, s) \<leftarrow> backing_copies env fs s;
     Some (n # ns, s)
   }"

definition reset_backing_store :: "'h a3_env \<Rightarrow> 'h a3_shell \<Rightarrow> 'h a3_shell" where
  "reset_backing_store env s =
     host_command env (take 1068 (''mkdir '' @ cwd_path env @ ''/backing_store''))
       (host_command env (take 1068 (''rm -rf '' @ cwd_path env @ ''/backing_store'')) s)"

definition run_command :: "'h a3_env \<Rightarrow> 'h a3_parser \<Rightarrow> string \<Rightarrow> 'h a3_shell \<Rightarrow> 'h a3_result" where
  "run_command env parse f s = do {
     (n, s) \<leftarrow> backing_copy env f s;
     r \<leftarrow> a3_run env parse n s;
     on_ok r (\<lambda>(ret, s). a3_ok (ret, reset_backing_store env s))
   }"

definition exec_command :: "'h a3_env \<Rightarrow> 'h a3_parser \<Rightarrow> string list \<Rightarrow> 'h a3_shell \<Rightarrow> 'h a3_result" where
  "exec_command env parse fs s = do {
     (ns, s) \<leftarrow> backing_copies env fs s;
     r \<leftarrow> a3_exec env parse ns ''RR'' s;
     on_ok r (\<lambda>(ret, s). a3_ok (ret, reset_backing_store env s))
   }"

subsection \<open>Commands on the file system\<close>

definition quit_command :: "'h a3_env \<Rightarrow> 'h a3_shell \<Rightarrow> 'h a3_result" where
  "quit_command env s = do {
     let s = host_command env (take 1068 (''rm -rf '' @ cwd_path env @ ''/backing_store'')) s;
     f \<leftarrow> filesys_done (fsys s);
     a3_quit (s\<lparr>fsys := f\<rparr>)
   }"

definition ls_command :: "'h a3_shell \<Rightarrow> 'h a3_result" where
  "ls_command s = do {
     (status, names, f) \<leftarrow> fsutil_ls (fsys s);
     let s = fold (\<lambda>n. say (Line n)) names (say (Line ''Files in the root directory:'') (s\<lparr>fsys := f\<rparr>));
     if status = 1 then a3_handle_error FILESYSTEM_ERROR s else a3_ok (0, say (Line ''End of listing.'') s)
   }"

text \<open>\<open>fsutil_cat\<close> reports a missing file by -1, for which the interpreter does not look.\<close>

text \<open>The calls of \<open>hex_dump\<close> for the pieces that \<open>fsutil_cat\<close> reads.\<close>

definition dump_text :: "(int \<times> byte list) list \<Rightarrow> string" where
  "dump_text pieces = concat (map (\<lambda>(p, bs). hex_dump (nat (p mod 2 ^ 64)) bs True) pieces)"

definition cat_command :: "'h a3_env \<Rightarrow> string \<Rightarrow> 'h a3_shell \<Rightarrow> 'h a3_result" where
  "cat_command env nm s = do {
     (status, pieces, f) \<leftarrow> fsutil_cat (a3_junk env) nm (fsys s);
     let s = say (Line (''Printing <'' @ nm @ ''> to the console...'')) (s\<lparr>fsys := f\<rparr>);
     let s = (if status = - 1 then say (Line ''Error'') s else say (Line ''Done printing'') (say (Text (dump_text pieces)) s));
     if status = 1 then a3_handle_error FILE_DOES_NOT_EXIST s else a3_ok (0, s)
   }"

definition rm_command :: "string \<Rightarrow> 'h a3_shell \<Rightarrow> 'h a3_result" where
  "rm_command nm s = do {
     (status, f) \<leftarrow> fsutil_rm nm (fsys s);
     let s = s\<lparr>fsys := f\<rparr>;
     if status = 0 then a3_handle_error ERROR_RM s else a3_ok (status, s)
   }"

definition create_command :: "'h a3_env \<Rightarrow> string \<Rightarrow> string \<Rightarrow> 'h a3_shell \<Rightarrow> 'h a3_result" where
  "create_command env nm sz s = do {
     n \<leftarrow> atoi sz;
     (status, f) \<leftarrow> fsutil_create (a3_junk env) nm n (fsys s);
     let s = s\<lparr>fsys := f\<rparr>;
     if status = 0 then a3_handle_error FILE_CREATION_ERROR s else a3_ok (0, s)
   }"

text \<open>The buffer holds the tokens with spaces between them and two zero bytes, which are written too.\<close>

definition write_command :: "string \<Rightarrow> string list \<Rightarrow> 'h a3_shell \<Rightarrow> 'h a3_result" where
  "write_command nm tokens s = do {
     let buf = bytes_of_string (join_tokens tokens) @ [0, 0];
     (bytes_written, _, f) \<leftarrow> fsutil_write nm buf (int (length buf)) (fsys s);
     let s = s\<lparr>fsys := f\<rparr>;
     if bytes_written = - 1 then a3_handle_error FILE_WRITE_ERROR s
     else if bytes_written \<noteq> int (length buf)
     then a3_ok (0, say (Line (''Warning: could only write '' @ dec_int bytes_written @ '' out of '' @ dec_string (length buf) @
                             '' bytes (reached end of file)'')) s)
     else a3_ok (0, s)
   }"

definition find_command :: "'h a3_env \<Rightarrow> string list \<Rightarrow> 'h a3_shell \<Rightarrow> 'h a3_result" where
  "find_command env tokens s = do {
     (names, f) \<leftarrow> find_file (a3_junk env) (join_tokens tokens) (fsys s);
     a3_ok (0, fold (\<lambda>n. say (Line n)) names (s\<lparr>fsys := f\<rparr>))
   }"

text \<open>
  Below -1 the size of the buffer is huge as an unsigned number and \<open>malloc\<close> fails. The status is 1 when all bytes
  have been read.
\<close>

definition read_command :: "string \<Rightarrow> string \<Rightarrow> 'h a3_shell \<Rightarrow> 'h a3_result" where
  "read_command nm sz s = do {
     n \<leftarrow> atoi sz;
     m \<leftarrow> int32 (n + 1);
     _ \<leftarrow> (if 0 \<le> m then Some () else None);
     (bytes_read, buf, f) \<leftarrow> fsutil_read nm (replicate (nat m) 0) n (fsys s);
     let s = s\<lparr>fsys := f\<rparr>;
     if bytes_read = - 1 then a3_handle_error FILE_READ_ERROR s
     else if 0 \<notin> set buf then None
     else a3_ok (of_bool (bytes_read = n), say (Line (c_string buf)) s)
   }"

definition copy_in_command :: "'h a3_env \<Rightarrow> string \<Rightarrow> 'h a3_shell \<Rightarrow> 'h a3_result" where
  "copy_in_command env nm s = do {
     (status, f) \<leftarrow> copy_in (a3_junk env) nm (host_read env nm (a3_host s)) (fsys s);
     let s = s\<lparr>fsys := f\<rparr>;
     if status \<noteq> NO_ERROR then a3_handle_error status s else a3_ok (0, s)
   }"

definition copy_out_command :: "'h a3_env \<Rightarrow> string \<Rightarrow> 'h a3_shell \<Rightarrow> 'h a3_result" where
  "copy_out_command env nm s = do {
     (status, content, f) \<leftarrow> copy_out nm (host_store env nm [] (a3_host s) \<noteq> None) (fsys s);
     let s = s\<lparr>fsys := f\<rparr>;
     s \<leftarrow> (case content of
             None \<Rightarrow> Some s
           | Some bs \<Rightarrow> do { h \<leftarrow> host_store env nm bs (a3_host s); Some (s\<lparr>a3_host := h\<rparr>) });
     if status \<noteq> NO_ERROR then a3_handle_error status s else a3_ok (0, s)
   }"

definition size_command :: "string \<Rightarrow> 'h a3_shell \<Rightarrow> 'h a3_result" where
  "size_command nm s = do {
     (len, f) \<leftarrow> fsutil_size nm (fsys s);
     let s = s\<lparr>fsys := f\<rparr>;
     if len = - 1 then a3_handle_error FILE_DOES_NOT_EXIST s
     else a3_ok (0, say (Line (''File length: '' @ dec_int len)) s)
   }"

definition seek_command :: "string \<Rightarrow> string \<Rightarrow> 'h a3_shell \<Rightarrow> 'h a3_result" where
  "seek_command nm ofs s = do {
     n \<leftarrow> atoi ofs;
     (status, f) \<leftarrow> fsutil_seek nm n (fsys s);
     let s = s\<lparr>fsys := f\<rparr>;
     if status = - 1 then a3_handle_error FILE_DOES_NOT_EXIST s else a3_ok (0, s)
   }"

definition freespace_command :: "'h a3_shell \<Rightarrow> 'h a3_result" where
  "freespace_command s = do {
     n \<leftarrow> fsutil_freespace (fsys s);
     total \<leftarrow> int32 (int n * 512);
     a3_ok (0, say (Line (''Num free sectors: '' @ dec_string n @ '' ('' @ dec_int total @ '' total bytes)'')) s)
   }"

definition fragmentation_command :: "'h a3_shell \<Rightarrow> 'h a3_result" where
  "fragmentation_command s = do {
     (r, f) \<leftarrow> fragmentation_degree (fsys s);
     a3_ok (0, say (Fragmentation r) (s\<lparr>fsys := f\<rparr>))
   }"

definition defragment_command :: "'h a3_env \<Rightarrow> 'h a3_shell \<Rightarrow> 'h a3_result" where
  "defragment_command env s = do {
     (_, f) \<leftarrow> defragment (a3_junk env) (fsys s);
     a3_ok (0, s\<lparr>fsys := f\<rparr>)
   }"

text \<open>The files that \<open>recover\<close> writes go to the host, where they can be created.\<close>

definition recover_command :: "'h a3_env \<Rightarrow> string \<Rightarrow> 'h a3_shell \<Rightarrow> 'h a3_result" where
  "recover_command env flag s = do {
     n \<leftarrow> atoi flag;
     (out, f) \<leftarrow> recover (a3_junk env) n (fsys s);
     let h = fold (\<lambda>(nm, bs) h. case host_store env nm bs h of None \<Rightarrow> h | Some h \<Rightarrow> h) out (a3_host s);
     a3_ok (0, s\<lparr>fsys := f, a3_host := h\<rparr>)
   }"

subsection \<open>The interpreter\<close>

definition set_command :: "'h a3_env \<Rightarrow> string \<Rightarrow> string list \<Rightarrow> 'h a3_shell \<Rightarrow> 'h a3_result" where
  "set_command env v tokens s =
     (if \<not> isAlphaNumStr v then a3_handle_error NON_ALPHANUMERIC_TOKEN s
      else do {
        r \<leftarrow> set_buffer [] tokens;
        (case r of None \<Rightarrow> a3_handle_error NON_ALPHANUMERIC_TOKEN s | Some x \<Rightarrow> a3_set env v x s)
      })"

definition a3_interpreter :: "'h a3_env \<Rightarrow> 'h a3_parser \<Rightarrow> string list \<Rightarrow> 'h a3_shell \<Rightarrow> 'h a3_result" where
  "a3_interpreter env parse args s =
     (let n = length args; ws = map strip args; cmd = ws ! 0;
          many = a3_handle_error TOO_MANY_TOKENS s; few = a3_handle_error TOO_FEW_TOKENS s
      in if n < 1 then few
         else if cmd = ''help'' then (if n > 1 then many else a3_help env s)
         else if cmd = ''quit'' \<or> cmd = ''exit'' then (if n > 1 then many else quit_command env s)
         else if cmd = ''set'' then (if n < 3 then few else set_command env (ws ! 1) (drop 2 ws) s)
         else if cmd = ''print'' then (if n < 2 then few else if n > 2 then many else a3_print env (ws ! 1) s)
         else if cmd = ''run'' then (if n < 2 then few else if n > 2 then many else run_command env parse (ws ! 1) s)
         else if cmd = ''echo'' then (if n > 2 then many else if n < 2 then None else a3_echo env (ws ! 1) s)
         else if cmd = ''exec'' then (if n \<le> 1 then few else if n > 5 then many else exec_command env parse (drop 1 ws) s)
         else if cmd = ''resetmem'' then a3_resetmem env s
         else if cmd = ''ls'' then (if n > 1 then many else ls_command s)
         else if cmd = ''cat'' then (if n \<noteq> 2 then many else cat_command env (ws ! 1) s)
         else if cmd = ''rm'' then (if n \<noteq> 2 then many else rm_command (ws ! 1) s)
         else if cmd = ''create'' then (if n \<noteq> 3 then many else create_command env (ws ! 1) (ws ! 2) s)
         else if cmd = ''write'' then (if n < 3 then few else write_command (ws ! 1) (drop 2 ws) s)
         else if cmd = ''find_file'' then (if n < 2 then few else find_command env (drop 1 ws) s)
         else if cmd = ''read'' then (if n \<noteq> 3 then many else read_command (ws ! 1) (ws ! 2) s)
         else if cmd = ''copy_in'' then (if n \<noteq> 2 then many else copy_in_command env (ws ! 1) s)
         else if cmd = ''copy_out'' then (if n \<noteq> 2 then many else copy_out_command env (ws ! 1) s)
         else if cmd = ''size'' then (if n \<noteq> 2 then many else size_command (ws ! 1) s)
         else if cmd = ''seek'' then (if n \<noteq> 3 then many else seek_command (ws ! 1) (ws ! 2) s)
         else if cmd = ''freespace'' then (if n \<noteq> 1 then many else freespace_command s)
         else if cmd = ''fragmentation_degree'' then (if n \<noteq> 1 then many else fragmentation_command s)
         else if cmd = ''defragment'' then (if n \<noteq> 1 then many else defragment_command env s)
         else if cmd = ''recover'' then (if n \<noteq> 2 then many else recover_command env (ws ! 1) s)
         else a3_handle_error BAD_COMMAND s)"

subsection \<open>The parser\<close>

text \<open>
  The words of a section: spaces in front are skipped, every other space ends a word. The array of the section has
  1000 characters and that of the words 100 entries.
\<close>

function a3_words :: "string \<Rightarrow> string list" where
  "a3_words cs =
     (if cs = [] then []
      else let w = takeWhile (\<lambda>c. c \<noteq> CHR '' '') cs; rest = dropWhile (\<lambda>c. c \<noteq> CHR '' '') cs
           in if rest = [] then [w] else w # a3_words (tl rest))"
  by pat_completeness auto
termination
proof (relation "measure length", goal_cases)
  case (2 cs w rest)
  then have "rest \<noteq> []" "length rest \<le> length cs" by (simp_all add: length_dropWhile_le)
  then have "length (tl rest) < length cs" by (cases rest) auto
  then show ?case by simp
qed simp

declare a3_words.simps [simp del]

definition a3_split :: "string \<Rightarrow> string list option" where
  "a3_split token =
     (let ws = a3_words (dropWhile (\<lambda>c. c = CHR '' '') token)
      in if length token < 1000 \<and> length ws \<le> 100 then Some ws else None)"

partial_function (option) a3_parse_loop ::
  "(string list \<Rightarrow> 'h a3_shell \<Rightarrow> 'h a3_result) \<Rightarrow> string option \<Rightarrow> int \<Rightarrow> 'h a3_shell \<Rightarrow> 'h a3_result" where
  "a3_parse_loop interp tokens ret s =
     (case tokens of
        None \<Rightarrow> a3_ok (ret, s)
      | Some token \<Rightarrow> do {
          ws \<leftarrow> a3_split token;
          r \<leftarrow> interp ws s;
          (case r of
             Inl n \<Rightarrow> Some (Inl n)
           | Inr (ret, s) \<Rightarrow>
               (case strtok_next s of
                  (tokens, s) \<Rightarrow> if ret = - 1 then a3_ok (ret, s) else a3_parse_loop interp tokens ret s))
        })"

primrec a3_parse :: "nat \<Rightarrow> 'h a3_env \<Rightarrow> string \<Rightarrow> 'h a3_shell \<Rightarrow> 'h a3_result" where
  "a3_parse 0 env ui s = None"
| "a3_parse (Suc n) env ui s =
     (case strtok_start ui s of (tokens, s) \<Rightarrow> a3_parse_loop (a3_interpreter env (a3_parse n env)) tokens 0 s)"

subsection \<open>The shell\<close>

primrec a3_lines :: "nat \<Rightarrow> 'h a3_env \<Rightarrow> string list \<Rightarrow> 'h a3_shell \<Rightarrow> (int + 'h a3_shell) option" where
  "a3_lines n env [] s = Some (Inr s)"
| "a3_lines n env (userInput # uis) s = do {
     r \<leftarrow> a3_parse n env userInput s;
     on_ok r (\<lambda>(errorCode, s). if errorCode = - 1 then Some (Inl 99) else a3_lines n env uis s)
   }"

text \<open>The start on the disk image \<open>img\<close> in the file \<open>fname\<close>, on a state whose file system is that of static storage.\<close>

definition a3_main ::
  "nat \<Rightarrow> 'h a3_env \<Rightarrow> nat \<Rightarrow> string \<Rightarrow> byte list \<Rightarrow> bool \<Rightarrow> string list \<Rightarrow> 'h a3_shell \<Rightarrow> (int + 'h a3_shell) option" where
  "a3_main n env fuel fname img format uis s = do {
     let s = host_command env ''mkdir backing_store'' (host_command env ''rm -rf backing_store'' s);
     let s = say (Line ''Shell v2.1'') s;
     let s = say (Line (''Frame Store Size = '' @ dec_string (FRAME_STORE_SIZE env) @ ''; Variable Store Size = '' @
                        dec_string (VAR_STORE_SIZE env))) s;
     let s = kernel_setup (s\<lparr>smem := a3_mem_init (FRAME_STORE_SIZE env) (VAR_STORE_SIZE env)\<rparr>);
     d \<leftarrow> ide_init fuel (a3_junk env) fname img;
     f \<leftarrow> filesys_init format ((fsys s)\<lparr>devs := d\<rparr>);
     a3_lines n env uis (s\<lparr>fsys := f\<rparr>)
   }"

subsection \<open>Numbers\<close>

lemma of_char_digit: "k < 10 \<Longrightarrow> of_char (char_of (48 + k) :: char) = (48 + k :: nat)"
  by simp

lemma digits_value_snoc: "digits_value (cs @ [c]) a = 10 * digits_value cs a + (int (of_char c) - 48)"
  by (induction cs arbitrary: a) simp_all

lemma dec_string_digits: "dec_string n \<noteq> [] \<and> (\<forall>c \<in> set (dec_string n). isdigit c)"
proof (induction n rule: dec_string.induct)
  case (1 n)
  have "isdigit (char_of (48 + k))" if "k < 10" for k :: nat
    using that by (simp add: isdigit_def of_char_digit Let_def)
  then show ?case using 1 by (subst (1 2) dec_string.simps) auto
qed

lemma dec_string_value: "digits_value (dec_string n) 0 = int n"
proof (induction n rule: dec_string.induct)
  case (1 n)
  show ?case
  proof (cases "n < 10")
    case True
    then show ?thesis by (subst dec_string.simps) (simp add: of_char_digit)
  next
    case False
    have "of_char (char_of (48 + n mod 10) :: char) = 48 + n mod 10" by (rule of_char_digit) simp
    moreover have "10 * int (n div 10) + int (n mod 10) = int n" by presburger
    ultimately show ?thesis using False 1 by (subst dec_string.simps) (simp add: digits_value_snoc)
  qed
qed

lemma isdigit_not: "isdigit c \<Longrightarrow> \<not> isspace c \<and> c \<noteq> CHR ''-'' \<and> c \<noteq> CHR ''+'' \<and> c \<noteq> CHR '' '' \<and> c \<noteq> CHR '';'' \<and> c \<noteq> newline \<and> c \<noteq> CHR 0x0D \<and> c \<noteq> CHR 0x00"
  by (auto simp: isdigit_def isspace_def Let_def)

lemma atoi_dec_string:
  assumes "int n < 2 ^ 31" shows "atoi (dec_string n) = Some (int n)"
proof -
  obtain c cs where c: "dec_string n = c # cs" "isdigit c" using dec_string_digits [of n] by (cases "dec_string n") auto
  have "takeWhile isdigit (c # cs) = c # cs" using dec_string_digits [of n] c(1) unfolding takeWhile_eq_all_conv by simp
  moreover have "digits_value (c # cs) 0 = int n" using dec_string_value [of n] c(1) by simp
  ultimately show ?thesis using c(1) isdigit_not [OF c(2)] assms by (simp only: atoi_def Let_def dropWhile.simps list.sel if_False if_True simp_thms) simp
qed

subsection \<open>A line with one command\<close>

lemma a3_words_last: "CHR '' '' \<notin> set w \<Longrightarrow> w \<noteq> [] \<Longrightarrow> a3_words w = [w]"
  by (subst a3_words.simps) (auto simp: takeWhile_eq_all_conv dropWhile_eq_Nil_conv Let_def)

lemma a3_words_step:
  assumes "CHR '' '' \<notin> set w" shows "a3_words (w @ CHR '' '' # rest) = w # a3_words rest"
proof -
  have ne: "\<forall>x \<in> set w. x \<noteq> CHR '' ''" using assms by blast
  have "takeWhile (\<lambda>c. c \<noteq> CHR '' '') (w @ CHR '' '' # rest) = w" "dropWhile (\<lambda>c. c \<noteq> CHR '' '') (w @ CHR '' '' # rest) = CHR '' '' # rest"
    using ne by (simp_all add: takeWhile_append2 dropWhile_append2)
  then show ?thesis by (subst a3_words.simps) (simp add: Let_def)
qed

lemma is_word_space: "is_word w \<Longrightarrow> CHR '' '' \<notin> set w \<and> CHR '';'' \<notin> set w \<and> w \<noteq> []"
  by (auto simp: is_word_def a1_sep_def)

lemma a3_words_line:
  "ws \<noteq> [] \<Longrightarrow> \<forall>w \<in> set ws. is_word w \<Longrightarrow> map strip (a3_words (join_tokens ws @ [newline])) = ws"
proof (induction ws rule: list_nonempty_induct)
  case (single w)
  then have "a3_words (w @ [newline]) = [w @ [newline]]" using is_word_space by (intro a3_words_last) auto
  moreover have "strip (w @ [newline]) = w" using single by (simp add: strip_def is_word_def a1_sep_def takeWhile_append2)
  ultimately show ?case by simp
next
  case (cons w ws)
  have "join_tokens (w # ws) = w @ CHR '' '' # join_tokens ws" using cons by (cases ws) simp_all
  then show ?case
    using cons is_word_space [of w] a3_words_step [of w "join_tokens ws @ [newline]"] strip_word [of w] by (simp add: is_word_def)
qed

text \<open>A line of words is given to the interpreter, which does not see the end of the line.\<close>

definition fits_line :: "string list \<Rightarrow> bool" where
  "fits_line ws \<longleftrightarrow> ws \<noteq> [] \<and> (\<forall>w \<in> set ws. is_word w) \<and> length (join_tokens ws) < 999 \<and> length ws \<le> 100"

lemma join_tokens_head: "ws \<noteq> [] \<Longrightarrow> is_word (hd ws) \<Longrightarrow> \<exists>c cs. join_tokens ws = c # cs \<and> c \<noteq> CHR '' '' \<and> c \<noteq> CHR '';''"
  by (cases ws; cases "hd ws") (auto simp: is_word_def a1_sep_def)

lemma set_join_tokens: "set (join_tokens ws) \<subseteq> insert (CHR '' '') (\<Union> (set ` set ws))"
  by (cases ws) auto

lemma a3_parse_line:
  assumes "fits_line ws"
  shows "a3_parse (Suc n) env (join_tokens ws @ [newline]) s = do {
     r \<leftarrow> a3_interpreter env (a3_parse n env) ws (s\<lparr>strtok_save := []\<rparr>);
     (case r of Inl k \<Rightarrow> Some (Inl k)
      | Inr (ret, s) \<Rightarrow>
          (case strtok_next s of (t, s) \<Rightarrow> if ret = - 1 then a3_ok (ret, s) else a3_parse_loop (a3_interpreter env (a3_parse n env)) t ret s))
   }"
proof -
  let ?line = "join_tokens ws @ [newline]"
  have ws: "ws \<noteq> []" "\<forall>w \<in> set ws. is_word w" using assms by (simp_all add: fits_line_def)
  obtain c cs where c: "join_tokens ws = c # cs" "c \<noteq> CHR '' ''" "c \<noteq> CHR '';''" using join_tokens_head ws by (metis hd_in_set)
  have semi: "CHR '';'' \<notin> set ?line" using set_join_tokens [of ws] ws(2) is_word_space by auto
  then have "takeWhile (\<lambda>c. c \<noteq> CHR '';'') ?line = ?line" "dropWhile (\<lambda>c. c \<noteq> CHR '';'') ?line = []"
    unfolding takeWhile_eq_all_conv dropWhile_eq_Nil_conv by blast+
  then have tok: "strtok_from ?line = (Some ?line, [])" using c by (simp add: strtok_from_def)
  let ?vs = "a3_words ?line"
  have v: "map strip ?vs = ws" using a3_words_line ws by blast
  then have len: "length ?vs = length ws" by (metis length_map)
  have "dropWhile (\<lambda>c. c = CHR '' '') ?line = ?line" using c by simp
  then have split: "a3_split ?line = Some ?vs" using assms len by (simp add: a3_split_def fits_line_def)
  have "map strip ws = ws" using ws(2) strip_word by (simp add: is_word_def map_idI)
  then have "a3_interpreter env p ?vs = a3_interpreter env p ws" for p
    unfolding a3_interpreter_def using v len by (simp add: fun_eq_iff)
  then show ?thesis by (simp add: strtok_start_def tok) (subst a3_parse_loop.simps, simp add: split)
qed

lemma a3_lines_line:
  assumes "fits_line ws" and "a3_interpreter env (a3_parse n env) ws (s\<lparr>strtok_save := []\<rparr>) = a3_ok (ret, t)"
    and "strtok_save t = []" and "ret \<noteq> - 1"
  shows "a3_lines (Suc n) env ((join_tokens ws @ [newline]) # uis) s = a3_lines (Suc n) env uis t"
proof -
  have "strtok_next t = (None, t)" using assms(3) by (simp add: strtok_next_def strtok_start_def strtok_from_def)
  then have "a3_parse (Suc n) env (join_tokens ws @ [newline]) s = a3_ok (ret, t)"
    using a3_parse_line [OF assms(1), of n env s] assms(2,4) by (simp add: a3_parse_loop.simps)
  then show ?thesis using assms(4) by (simp only: a3_lines.simps bind.bind_lunit on_ok_simps prod.case if_False)
qed

subsection \<open>Commands on an open file\<close>

lemma bytes_of_string_append [simp]: "bytes_of_string (xs @ ys) = bytes_of_string xs @ bytes_of_string ys"
  by (simp add: bytes_of_string_def)

lemma length_bytes_of_string [simp]: "length (bytes_of_string xs) = length xs"
  by (simp add: bytes_of_string_def)

lemma c_string_bytes_of_string: "CHR 0x00 \<notin> set str \<Longrightarrow> c_string (bytes_of_string str @ 0 # bs) = str"
  by (subst c_string_def, subst takeWhile_append2) (auto simp: bytes_of_string_def byte_of_char_0 comp_def)

text \<open>After a write the position is behind the text, on the first of the two zeros.\<close>

lemma write_command_step:
  assumes "open_as nm fp f ino (fsys s)" and "0 \<le> pos f" and "pos f + int (length (join_tokens ts)) + 2 \<le> dlength (data ino)"
  shows "\<exists>s'. write_command nm ts s = a3_ok (0, s') \<and> a3_out s' = a3_out s \<and> strtok_save s' = strtok_save s \<and>
    open_as nm fp (f\<lparr>pos := pos f + int (length (join_tokens ts))\<rparr>) ino (fsys s') \<and>
    file_bytes (bc_sect (fsys s')) (data ino) =
      put_at (file_bytes (bc_sect (fsys s)) (data ino)) (nat (pos f)) (bytes_of_string (join_tokens ts) @ [0, 0])"
proof -
  define buf where "buf = bytes_of_string (join_tokens ts) @ [0, 0]"
  have len: "length buf = length (join_tokens ts) + 2" by (simp add: buf_def)
  have b: "buf = put_at buf (nat (int (length buf)) - 1) [0]" unfolding buf_def nat_int by (simp add: put_at_def)
  obtain g where "fsutil_write nm buf (int (length buf)) (fsys s) = Some (int (length buf), buf, g)"
      "open_as nm fp (f\<lparr>pos := pos f + int (length buf) - 2\<rparr>) ino g"
      "file_bytes (bc_sect g) (data ino) = put_at (file_bytes (bc_sect (fsys s)) (data ino)) (nat (pos f)) (take (nat (int (length buf))) buf)"
    using fsutil_write_step [OF assms(1,2) _ _ _ b] assms(3) len by auto
  then show ?thesis using len by (simp add: write_command_def buf_def [symmetric] Let_def)
qed

lemma seek_command_step:
  assumes "open_as nm fp f ino (fsys s)" and "int n < 2 ^ 31"
  shows "\<exists>s'. seek_command nm (dec_string n) s = a3_ok (0, s') \<and> a3_out s' = a3_out s \<and> strtok_save s' = strtok_save s \<and>
    open_as nm fp (f\<lparr>pos := int n\<rparr>) ino (fsys s') \<and> bc_sect (fsys s') = bc_sect (fsys s)"
  using fsutil_seek_step [OF assms(1), of "int n"] atoi_dec_string [OF assms(2)] by (auto simp: seek_command_def Let_def)

lemma read_command_step:
  assumes "open_as nm fp f ino (fsys s)" and "0 \<le> pos f" and "pos f + int n \<le> dlength (data ino)" and "int n + 1 < 2 ^ 31"
  shows "\<exists>s'. read_command nm (dec_string n) s = a3_ok (1, s') \<and> strtok_save s' = strtok_save s \<and>
    a3_out s' = a3_out s @ [Line (c_string (take n (drop (nat (pos f)) (file_bytes (bc_sect (fsys s)) (data ino))) @ [0]))]"
proof -
  let ?bs = "take n (drop (nat (pos f)) (file_bytes (bc_sect (fsys s)) (data ino)))"
  obtain g where g: "fsutil_read nm (replicate (n + 1) 0) (int n) (fsys s) = Some (int n, put_at (replicate (n + 1) 0) 0 ?bs, g)"
    using fsutil_read_step [OF assms(1-3), of "replicate (n + 1) 0"] by auto
  have "length (file_bytes (bc_sect (fsys s)) (data ino)) = nat (dlength (data ino))"
    using assms(1) length_file_bytes by (auto simp: open_as_def)
  then have "length ?bs = n" using assms(2,3) by simp
  then have b: "put_at (replicate (n + 1) 0) 0 ?bs = ?bs @ [0]"
    by (simp add: put_at_def drop_replicate del: replicate.simps) simp
  have "atoi (dec_string n) = Some (int n)" "int32 (int n + 1) = Some (int n + 1)" "nat (int n + 1) = n + 1"
    using assms(4) atoi_dec_string [of n] by (simp_all add: nat_add_distrib)
  then show ?thesis using g [unfolded b] by (simp add: read_command_def Let_def say_def)
qed

text \<open>Two texts, the second over the zeros of the first, read as one.\<close>

lemma put_at_twice_slice:
  assumes "p + length xs + length ys + 2 \<le> length fb"
  shows "take (length xs + length ys) (drop p (put_at (put_at fb p (xs @ [a, b])) (p + length xs) (ys @ [c, d]))) = xs @ ys"
  using assms by (intro nth_equalityI) (auto simp: nth_put_at nth_append)

lemma cat_command_step:
  assumes "open_as nm fp f ino (fsys s)"
  shows "\<exists>s' t. cat_command env nm s = a3_ok (0, s') \<and> strtok_save s' = strtok_save s \<and>
    a3_out s' = a3_out s @ [Line (''Printing <'' @ nm @ ''> to the console...''), Text t, Line ''Done printing''] \<and>
    dump_bytes t = file_bytes (bc_sect (fsys s)) (data ino)"
proof -
  let ?fb = "file_bytes (bc_sect (fsys s)) (data ino)"
  define pieces :: "(int \<times> byte list) list" where "pieces = (if dlength (data ino) = 0 then [] else [(0, ?fb)])"
  obtain g where g: "fsutil_cat (a3_junk env) nm (fsys s) = Some (0, pieces, g)"
    using fsutil_cat_step [OF assms] unfolding pieces_def by blast
  have "length ?fb = nat (dlength (data ino))" "dlength (data ino) < 2 ^ 31" "0 \<le> dlength (data ino)"
    using assms length_file_bytes by (auto simp: open_as_def inode_ok_def)
  note len = this
  have "dump_bytes (dump_text pieces) = ?fb"
  proof (cases "dlength (data ino) = 0")
    case True
    then have "?fb = []" using len(1) by simp
    then show ?thesis using True by (simp add: pieces_def dump_text_def dump_bytes_def lines_of.simps)
  next
    case False
    have "length ?fb \<le> 2 ^ 32" using len by simp
    then have "dump_bytes (hex_dump 0 ?fb True) = ?fb" using hex_dump_lines [of 0 ?fb True] by simp
    moreover have "dump_text pieces = hex_dump 0 ?fb True" using False by (simp add: pieces_def dump_text_def)
    ultimately show ?thesis by simp
  qed
  then show ?thesis using g by (simp add: cat_command_def say_def)
qed

end
