(* ===== verification/Inode_Growth.thy ===== *)
theory Inode_Growth
  imports Inode "HOL-Library.Multiset"
begin

text \<open>
  Files that grow: what \<open>inode_reserve\<close>, \<open>inode_allocate\<close>, \<open>inode_create\<close> and the extending part of
  \<open>inode_write_at\<close> do to the disk, for files of at most 123 sectors, which need no index blocks.

  \<open>fs_ok\<close> is the invariant of the mounted file system: the sectors of the free map's own file are marked in it, and the
  map on the disk is up to date (\<open>fm_saved\<close>).
  \<open>took\<close> is the step of an allocation: the sectors it hands out were free, are distinct and are cleared, and
  nothing else changes but the free map and its file. \<open>file_ok\<close> is the invariant of one open file, and files with
  different sectors do not see each other.
\<close>

subsection \<open>The mounted file system\<close>

definition used :: "'z fs_state_scheme \<Rightarrow> block_sector_t \<Rightarrow> bool" where
  "used s t \<longleftrightarrow> unat t < bit_cnt (free_map s) \<and> bval (free_map s) (unat t)"

text \<open>The sectors of the file of the free map: sector 0 with its inode, its index blocks and its data.\<close>

definition fm_sectors :: "'z fs_state_scheme \<Rightarrow> block_sector_t set" where
  "fm_sectors s =
     (case fm_inode s of
        None \<Rightarrow> {}
      | Some ino \<Rightarrow> insert 0 (set (index_blocks (bc_sect s) (data ino) (nsec (data ino))) \<union> set (data_sectors (bc_sect s) (data ino))))"

text \<open>The free map on disk is up to date: mounting the disk again would read the same bits.\<close>

definition fm_saved :: "'z fs_state_scheme \<Rightarrow> bool" where
  "fm_saved s \<longleftrightarrow>
     (\<exists>fmi b. fm_inode s = Some fmi \<and> sector fmi = 0 \<and> open_cnt fmi = 1 \<and> \<not> removed fmi \<and>
        bc_sect s 0 = inode_disk_bytes (data fmi) \<and> disk_wf (data fmi) \<and>
        0 \<notin> set (index_blocks (bc_sect s) (data fmi) (nsec (data fmi))) \<union> set (data_sectors (bc_sect s) (data fmi)) \<and>
        bitmap_inv b \<and> bitmap_bits b = bitmap_bits (free_map s) \<and> file_bytes (bc_sect s) (data fmi) = bitmap_image b)"

lemma fm_saved_cong:
  assumes "fm_saved s" and fmi: "fm_inode s = Some fmi" "fm_inode s' = Some fmi"
    and sect: "bc_sect s' 0 = bc_sect s 0"
    and layout: "index_blocks (bc_sect s') (data fmi) (nsec (data fmi)) = index_blocks (bc_sect s) (data fmi) (nsec (data fmi))"
      "data_sectors (bc_sect s') (data fmi) = data_sectors (bc_sect s) (data fmi)"
    and b: "bitmap_inv b" "bitmap_bits b = bitmap_bits (free_map s')" "file_bytes (bc_sect s') (data fmi) = bitmap_image b"
  shows "fm_saved s'"
  using assms by (auto simp: fm_saved_def)

definition fs_ok :: "'z fs_state_scheme \<Rightarrow> bool" where
  "fs_ok s \<longleftrightarrow> fm_ok s \<and> fm_saved s \<and> (\<forall>t \<in> fm_sectors s. used s t) \<and> used s 0 \<and>
     (\<forall>t. unat t < bit_cnt (free_map s) \<longrightarrow> bc_dev_valid s t)"

lemma fs_ok_facts:
  assumes "fs_ok s"
  shows "bc_inv s" and "\<And>t. t \<in> fm_sectors s \<Longrightarrow> used s t" and "used s 0" and "\<not> used s (- 1)"
    and "\<And>t. used s t \<Longrightarrow> bc_dev_valid s t" and "\<And>t. unat t < bit_cnt (free_map s) \<Longrightarrow> bc_dev_valid s t"
    and "\<And>t. used s t \<Longrightarrow> length (bc_sect s t) = 512"
proof -
  show inv: "bc_inv s" using assms by (simp add: fs_ok_def fm_ok_def)
  show "t \<in> fm_sectors s \<Longrightarrow> used s t" "used s 0" "unat t < bit_cnt (free_map s) \<Longrightarrow> bc_dev_valid s t" for t
    using assms by (simp_all add: fs_ok_def)
  then show "used s t \<Longrightarrow> bc_dev_valid s t" for t by (simp add: used_def)
  then show "used s t \<Longrightarrow> length (bc_sect s t) = 512" for t
    using bc.sect_length [of s t] inv by (simp add: bc_valid_def)
  have "unat (- 1 :: block_sector_t) = 2 ^ 32 - 1" by (simp add: unsigned_minus_1_eq_mask mask_eq_exp_minus_1)
  then show "\<not> used s (- 1)" using assms by (simp add: used_def fs_ok_def fm_ok_def)
qed

text \<open>Changes outside of the sectors of the free map keep the file system.\<close>

lemma fs_ok_outside:
  fixes s s' :: "'z fs_state_scheme"
  assumes "fs_ok s" and "bc_inv s'" and "bc_dev_valid s' = bc_dev_valid s" and "free_map s' = free_map s"
    and "fm_inode s' = fm_inode s" and "\<And>t. t \<in> fm_sectors s \<Longrightarrow> bc_sect s' t = bc_sect s t"
  shows "fs_ok s'" and "fm_sectors s' = fm_sectors s" and "used s' = used s"
proof -
  obtain fmi where fmi: "fm_inode s = Some fmi" using assms(1) by (auto simp: fs_ok_def fm_ok_def split: option.splits)
  let ?d = "data fmi"
  have ix: "\<And>t. t \<in> set (index_blocks (bc_sect s) ?d (nsec ?d)) \<Longrightarrow> bc_sect s' t = bc_sect s t"
    using assms(6) fmi by (simp add: fm_sectors_def)
  note eq = data_sectors_cong [OF ix] index_blocks_cong [OF ix]
  show fms: "fm_sectors s' = fm_sectors s" using eq assms(5) fmi by (simp add: fm_sectors_def)
  show us: "used s' = used s" using assms(4) by (simp add: used_def fun_eq_iff)
  have "inode_ok (bc_dev_valid s') (bc_sect s') ?d" "inode_sep (bc_sect s') ?d"
    using assms(1,3,6) fmi eq by (auto simp: fs_ok_def fm_ok_def inode_ok_def inode_sep_def fm_sectors_def)
  moreover have "fm_saved s'"
  proof -
    have sv: "fm_saved s" using assms(1) by (simp add: fs_ok_def)
    then obtain b where b: "bitmap_inv b" "bitmap_bits b = bitmap_bits (free_map s)" "file_bytes (bc_sect s) ?d = bitmap_image b"
      using fmi by (auto simp: fm_saved_def)
    have "file_bytes (bc_sect s') ?d = file_bytes (bc_sect s) ?d"
      using eq assms(6) fmi by (simp add: file_bytes_def fm_sectors_def cong: map_cong)
    moreover have "bc_sect s' 0 = bc_sect s 0" using assms(6) fmi by (simp add: fm_sectors_def)
    ultimately show ?thesis using fm_saved_cong [OF sv fmi _ _ eq(2,1) b(1)] b(2,3) assms(4,5) fmi by simp
  qed
  ultimately show "fs_ok s'"
    using assms(1-5) fmi fms us by (simp add: fs_ok_def fm_ok_def)
qed

lemma fm_saved_data_step:
  fixes s s' :: "'z fs_state_scheme"
  assumes "fm_saved s0" and fmi: "fm_inode s0 = Some fmi" "fm_inode s' = Some fmi" and sect: "bc_sect s = bc_sect s0"
    and step: "data_step (data fmi) s s'" "inode_sep (bc_sect s) (data fmi)" and b: "bitmap_inv (free_map s')"
    and fb: "file_bytes (bc_sect s') (data fmi) = bitmap_image (free_map s')"
  shows "fm_saved s'"
proof -
  note lay = data_step_layout(1,2) [OF step]
  have "0 \<notin> set (data_sectors (bc_sect s) (data fmi))" using assms(1) fmi(1) sect by (auto simp: fm_saved_def)
  then have "bc_sect s' 0 = bc_sect s0 0" using step(1) sect by (simp add: data_step_def)
  then show ?thesis using fm_saved_cong [OF assms(1) fmi _ _ _ b refl fb] lay sect by simp
qed

subsection \<open>Taking sectors\<close>

definition took :: "block_sector_t list \<Rightarrow> 'z fs_state_scheme \<Rightarrow> 'z fs_state_scheme \<Rightarrow> bool" where
  "took ts s s' \<longleftrightarrow> fs_ok s' \<and> distinct ts \<and> bit_cnt (free_map s') = bit_cnt (free_map s) \<and>
     (\<forall>t \<in> set ts. \<not> used s t \<and> bc_sect s' t = zeros) \<and> (\<forall>t. used s' t \<longleftrightarrow> used s t \<or> t \<in> set ts) \<and>
     (\<forall>t. t \<notin> set ts \<longrightarrow> t \<notin> fm_sectors s \<longrightarrow> bc_sect s' t = bc_sect s t) \<and> fm_sectors s' = fm_sectors s \<and>
     inodes s' = inodes s \<and> files s' = files s \<and> free_map_file s' = free_map_file s \<and> open_inodes s' = open_inodes s \<and>
     bc_dev_valid s' = bc_dev_valid s \<and> fs_state.more s' = fs_state.more s"

lemma took_refl: "fs_ok s \<Longrightarrow> took [] s s"
  by (simp add: took_def)

lemma took_trans:
  assumes "fs_ok s" and "took ts s t" and "took us t u"
  shows "took (ts @ us) s u"
proof -
  have "v \<notin> fm_sectors t \<and> v \<notin> set us" if "v \<in> set ts" for v
    using that assms fs_ok_facts(2) [OF assms(1)] by (auto simp: took_def)
  then show ?thesis using assms(2,3) by (auto simp: took_def)
qed

lemma free_map_allocate_took:
  fixes s :: "'z fs_state_scheme"
  assumes "fs_ok s"
  shows "\<exists>r s'. free_map_allocate (inode_write_at_depth (Suc n)) 1 s = Some (r, s') \<and>
     (case r of
        None \<Rightarrow> s' = s \<and> (\<forall>t. unat t < bit_cnt (free_map s) \<longrightarrow> used s t)
      | Some t \<Rightarrow> \<not> used s t \<and> unat t < bit_cnt (free_map s) \<and> fs_ok s' \<and> bit_cnt (free_map s') = bit_cnt (free_map s) \<and>
          (\<forall>u. used s' u \<longleftrightarrow> used s u \<or> u = t) \<and> (\<forall>u. u \<notin> fm_sectors s \<longrightarrow> bc_sect s' u = bc_sect s u) \<and>
          fm_sectors s' = fm_sectors s \<and> inodes s' = inodes s \<and> files s' = files s \<and> free_map_file s' = free_map_file s \<and>
          open_inodes s' = open_inodes s \<and> bc_dev_valid s' = bc_dev_valid s \<and> fs_state.more s' = fs_state.more s)"
proof -
  have fm: "fm_ok s" using assms by (simp add: fs_ok_def)
  then obtain fmi where fmi: "fm_inode s = Some fmi" by (auto simp: fm_ok_def split: option.splits)
  obtain r s' where a: "free_map_allocate (inode_write_at_depth (Suc n)) 1 s = Some (r, s')" "fm_ok s'"
      "case r of None \<Rightarrow> s' = s \<and> (\<forall>i < bit_cnt (free_map s). bval (free_map s) i) | Some t \<Rightarrow> alloc_step t fmi s s'"
    using free_map_allocate_step [OF fm fmi, of n] by blast
  show ?thesis
  proof (cases r)
    case None
    then show ?thesis using a by (auto simp: used_def)
  next
    case (Some t)
    let ?s = "s\<lparr>free_map := free_map s'\<rparr>"
    have al: "unat t < bit_cnt (free_map s)" "\<not> bval (free_map s) (unat t)" "bit_cnt (free_map s') = bit_cnt (free_map s)"
        "\<forall>i < bit_cnt (free_map s). bval (free_map s') i \<longleftrightarrow> i = unat t \<or> bval (free_map s) i" "data_step (data fmi) ?s s'"
      using a(3) Some by (simp_all add: alloc_step_def)
    note ds = data_step_fs [OF al(5)]
    have sep: "inode_sep (bc_sect ?s) (data fmi)" using fm fmi by (simp add: fm_ok_def)
    note lay = data_step_layout(1,2) [OF al(5) sep]
    have fmi': "fm_inode s' = Some fmi" using data_step_fm_inode [OF al(5)] fmi by simp
    have fms: "fm_sectors s' = fm_sectors s" using lay fmi fmi' by (simp add: fm_sectors_def)
    have us: "used s' u \<longleftrightarrow> used s u \<or> u = t" for u
      using al(1,3,4) by (auto simp: used_def word_unat_eq_iff)
    have sect: "u \<notin> fm_sectors s \<Longrightarrow> bc_sect s' u = bc_sect s u" for u
      using al(5) fmi by (simp add: fm_sectors_def data_step_def)
    have v: "bc_dev_valid s' = bc_dev_valid s" using al(5) by (simp add: data_step_def)
    have sv: "fm_saved s" "bitmap_inv (free_map s')" using assms a(2) by (simp_all add: fs_ok_def fm_ok_def)
    have "fm_saved s'"
      by (rule fm_saved_data_step [OF sv(1) fmi fmi' _ al(5) sep sv(2)]) (use a(3) Some in \<open>simp_all add: alloc_step_def\<close>)
    then have "fs_ok s'" using assms a(2) fms us v al(3) by (auto simp: fs_ok_def)
    then show ?thesis
      using a(1) Some al(1-3) fms us sect v ds by (simp add: used_def)
  qed
qed

text \<open>The sector is cleared before it is used.\<close>

lemma reserve_entry_took:
  fixes s :: "'z fs_state_scheme"
  assumes "fs_ok s"
  shows "\<exists>ok e s' ts. reserve_entry (inode_write_at_depth (Suc n)) p s = Some (ok, e, s') \<and> took ts s s' \<and>
     (if p \<noteq> 0 then ok \<and> e = p \<and> ts = []
      else if ok then e \<noteq> 0 \<and> ts = [e]
      else e = 0 \<and> ts = [] \<and> (\<forall>t. unat t < bit_cnt (free_map s') \<longrightarrow> used s' t))"
proof (cases "p = 0")
  case False
  then show ?thesis using took_refl [OF assms] by (auto simp: reserve_entry_def)
next
  case p: True
  obtain r s1 where a: "free_map_allocate (inode_write_at_depth (Suc n)) 1 s = Some (r, s1)"
     "case r of
        None \<Rightarrow> s1 = s \<and> (\<forall>t. unat t < bit_cnt (free_map s) \<longrightarrow> used s t)
      | Some t \<Rightarrow> \<not> used s t \<and> unat t < bit_cnt (free_map s) \<and> fs_ok s1 \<and> bit_cnt (free_map s1) = bit_cnt (free_map s) \<and>
          (\<forall>u. used s1 u \<longleftrightarrow> used s u \<or> u = t) \<and> (\<forall>u. u \<notin> fm_sectors s \<longrightarrow> bc_sect s1 u = bc_sect s u) \<and>
          fm_sectors s1 = fm_sectors s \<and> inodes s1 = inodes s \<and> files s1 = files s \<and> free_map_file s1 = free_map_file s \<and>
          open_inodes s1 = open_inodes s \<and> bc_dev_valid s1 = bc_dev_valid s \<and> fs_state.more s1 = fs_state.more s"
    using free_map_allocate_took [OF assms, of n] by blast
  show ?thesis
  proof (cases r)
    case None
    then show ?thesis using a p took_refl [OF assms] by (auto simp: reserve_entry_def)
  next
    case (Some t)
    have al: "\<not> used s t" "unat t < bit_cnt (free_map s)" "fs_ok s1" "bit_cnt (free_map s1) = bit_cnt (free_map s)"
          "\<And>u. used s1 u \<longleftrightarrow> used s u \<or> u = t" "\<And>u. u \<notin> fm_sectors s \<Longrightarrow> bc_sect s1 u = bc_sect s u"
          "fm_sectors s1 = fm_sectors s" "inodes s1 = inodes s" "files s1 = files s" "free_map_file s1 = free_map_file s"
          "open_inodes s1 = open_inodes s" "bc_dev_valid s1 = bc_dev_valid s" "fs_state.more s1 = fs_state.more s"
      using a(2) Some by simp_all
    have "bc_dev_valid s1 t" using fs_ok_facts(6) [OF assms al(2)] al(12) by simp
    then obtain s2 where s2: "buffer_cache_write t zeros s1 = Some s2" "bc_inv s2" "bc_dev_valid s2 = bc_dev_valid s1"
        "bc_sect s2 = (bc_sect s1)(t := zeros)" "bc_state.more s2 = bc_state.more s1" "inodes s2 = inodes s1"
        "free_map s2 = free_map s1" "free_map_file s2 = free_map_file s1" "files s2 = files s1" "open_inodes s2 = open_inodes s1"
      using buffer_cache_write_fs [of s1 t zeros] fs_ok_facts(1) [OF al(3)] by (auto simp: zeros_def)
    have nin: "t \<notin> fm_sectors s" using al(1) fs_ok_facts(2) [OF assms] by blast
    have fmi: "fm_inode s2 = fm_inode s1" using s2(8,9,6) by (rule fm_inode_cong)
    have same: "\<And>u. u \<in> fm_sectors s1 \<Longrightarrow> bc_sect s2 u = bc_sect s1 u" using s2(4) nin al(7) by auto
    have ok2: "fs_ok s2" "fm_sectors s2 = fm_sectors s1" "used s2 = used s1"
      by (rule fs_ok_outside [OF al(3) s2(2,3,7) fmi], erule same)+
    have "took [t] s s2"
      unfolding took_def by (simp add: ok2 al s2(3,4,6-10) bc_more_fs [OF s2(5)])
    moreover have "t \<noteq> 0" using al(1) fs_ok_facts(3) [OF assms] by auto
    ultimately show ?thesis using a(1) Some p s2(1) by (auto simp: reserve_entry_def)
  qed
qed

text \<open>
  The loop over the direct blocks: the entries that are 0 are filled with the sectors taken; on a full disk some of
  them are.
\<close>

definition blocks_of :: "block_sector_t list \<Rightarrow> block_sector_t multiset" where
  "blocks_of bs = filter_mset (\<lambda>t. t \<noteq> 0) (mset bs)"

lemma blocks_of_update:
  assumes "i < length bs" and "bs ! i = 0" and "t \<noteq> 0"
  shows "blocks_of (bs[i := t]) = add_mset t (blocks_of bs)"
  using assms nth_mem_mset [of i bs] by (simp add: blocks_of_def mset_update filter_diff_mset)

text \<open>
  What the loop over an array of entries relies on: \<open>entry\<close> fills one entry, \<open>taken ts s s'\<close> is the step that takes the
  sectors \<open>ts\<close>, and \<open>inv\<close> is what the steps keep. The mounted file system provides it, and so does a disk that is being
  formatted, whose free map has no file yet.
\<close>

locale sector_taking =
  fixes wr :: "'z writer" and inv :: "'z fs_state_scheme \<Rightarrow> bool"
    and taken :: "block_sector_t list \<Rightarrow> 'z fs_state_scheme \<Rightarrow> 'z fs_state_scheme \<Rightarrow> bool"
  assumes taken_inv: "taken ts s s' \<Longrightarrow> inv s'"
    and taken_refl: "inv s \<Longrightarrow> taken [] s s"
    and taken_trans: "inv s \<Longrightarrow> taken ts s t \<Longrightarrow> taken us t u \<Longrightarrow> taken (ts @ us) s u"
    and entry: "inv s \<Longrightarrow> \<exists>r e s' ts. reserve_entry wr p s = Some (r, e, s') \<and> taken ts s s' \<and>
      (if p \<noteq> 0 then r \<and> e = p \<and> ts = []
       else if r then e \<noteq> 0 \<and> ts = [e]
       else e = 0 \<and> ts = [] \<and> (\<forall>t. unat t < bit_cnt (free_map s') \<longrightarrow> used s' t))"
begin

lemma reserve_direct:
  assumes "inv s" and "i + m \<le> length bs"
  shows "\<exists>ok bs' s' ts. reserve_loop (\<lambda>e _. reserve_entry wr e) 1 m i k bs s = Some (ok, bs', s') \<and>
     taken ts s s' \<and> length bs' = length bs \<and> blocks_of bs' = blocks_of bs + mset ts \<and>
     (\<forall>j < length bs. bs ! j \<noteq> 0 \<longrightarrow> bs' ! j = bs ! j) \<and>
     (\<forall>j < length bs. bs' ! j \<noteq> bs ! j \<longrightarrow> bs' ! j \<in> set ts) \<and> (\<forall>j < length bs. i + m \<le> j \<longrightarrow> bs' ! j = bs ! j) \<and>
     length ts \<le> m \<and> (\<not> ok \<longrightarrow> length ts < m) \<and>
     (if ok then \<forall>j. i \<le> j \<and> j < i + m \<longrightarrow> bs' ! j \<noteq> 0 else \<forall>t. unat t < bit_cnt (free_map s') \<longrightarrow> used s' t)"
  using assms
proof (induction m arbitrary: i k bs s)
  case 0
  show ?case
    by (rule exI [of _ True], rule exI [of _ bs], rule exI [of _ s], rule exI [of _ "[]"]) (auto simp: taken_refl [OF 0(1)])
next
  case (Suc m)
  have i: "i < length bs" using Suc.prems(2) by simp
  obtain ok e s1 ts where e: "reserve_entry wr (bs ! i) s = Some (ok, e, s1)" "taken ts s s1"
     "if bs ! i \<noteq> 0 then ok \<and> e = bs ! i \<and> ts = []
      else if ok then e \<noteq> 0 \<and> ts = [e]
      else e = 0 \<and> ts = [] \<and> (\<forall>t. unat t < bit_cnt (free_map s1) \<longrightarrow> used s1 t)"
    using entry [OF Suc.prems(1), of "bs ! i"] by blast
  have b: "blocks_of (bs[i := e]) = blocks_of bs + mset ts"
    using e(3) i blocks_of_update [OF i, of e] list_update_id [of bs i] by (cases "bs ! i = 0"; cases ok) auto
  have keep: "bs[i := e] ! j = bs ! j \<or> (bs ! j = 0 \<and> bs[i := e] ! j \<in> set ts)" for j
    using e(3) i by (cases "j = i"; cases "bs ! i = 0"; cases ok) auto
  show ?case
  proof (cases ok)
    case False
    then have f: "bs[i := e] = bs" "ts = []" "\<forall>t. unat t < bit_cnt (free_map s1) \<longrightarrow> used s1 t"
      using e(3) i by (auto simp: list_update_same_conv split: if_splits)
    show ?thesis
      by (rule exI [of _ False], rule exI [of _ bs], rule exI [of _ s1], rule exI [of _ "[]"])
        (use f e(1,2) i False in \<open>auto simp: Let_def\<close>)
  next
    case True
    have ok1: "inv s1" using e(2) by (rule taken_inv)
    obtain ok' bs' s' us where r: "reserve_loop (\<lambda>e _. reserve_entry wr e) 1 m (Suc i) (k - min k 1) (bs[i := e]) s1 = Some (ok', bs', s')"
       "taken us s1 s'" "length bs' = length bs" "blocks_of bs' = blocks_of (bs[i := e]) + mset us"
       "\<forall>j < length bs. bs[i := e] ! j \<noteq> 0 \<longrightarrow> bs' ! j = bs[i := e] ! j"
       "\<forall>j < length bs. bs' ! j \<noteq> bs[i := e] ! j \<longrightarrow> bs' ! j \<in> set us"
       "if ok' then \<forall>j. Suc i \<le> j \<and> j < Suc i + m \<longrightarrow> bs' ! j \<noteq> 0 else \<forall>t. unat t < bit_cnt (free_map s') \<longrightarrow> used s' t"
       "length us \<le> m" "\<not> ok' \<longrightarrow> length us < m" "\<forall>j < length bs. Suc i + m \<le> j \<longrightarrow> bs' ! j = bs[i := e] ! j"
      using Suc.IH [OF ok1, of "Suc i" "bs[i := e]" "k - min k 1"] Suc.prems(2) by auto
    have tk: "taken (ts @ us) s s'" using Suc.prems(1) e(2) r(2) by (rule taken_trans)
    have e0: "e \<noteq> 0" using e(3) True by (auto split: if_splits)
    have 1: "bs' ! j = bs ! j" if "j < length bs" "bs ! j \<noteq> 0" for j using that r(5) keep [of j] by auto
    have 2: "bs' ! j \<in> set (ts @ us)" if "j < length bs" "bs' ! j \<noteq> bs ! j" for j
      using that r(5,6) keep [of j] by (cases "bs' ! j = bs[i := e] ! j") auto
    have 3: "if ok' then \<forall>j. i \<le> j \<and> j < i + Suc m \<longrightarrow> bs' ! j \<noteq> 0 else \<forall>t. unat t < bit_cnt (free_map s') \<longrightarrow> used s' t"
    proof (cases ok')
      case True
      have "bs' ! i \<noteq> 0" using r(5) i e0 by auto
      moreover have "bs' ! j \<noteq> 0" if "Suc i \<le> j" "j < i + Suc m" for j using that r(7) True by simp
      ultimately show ?thesis using True by (metis le_eq_less_or_eq Suc_le_eq)
    qed (use r(7) in simp)
    have 5: "length (ts @ us) \<le> Suc m \<and> (\<not> ok' \<longrightarrow> length (ts @ us) < Suc m)"
      using e(3) r(8,9) True by (auto split: if_splits)
    have 4: "reserve_loop (\<lambda>e _. reserve_entry wr e) 1 (Suc m) i k bs s = Some (ok', bs', s')"
      using e(1) True i r(1) by (simp add: Let_def)
    show ?thesis
      by (rule exI [of _ ok'], rule exI [of _ bs'], rule exI [of _ s'], rule exI [of _ "ts @ us"])
        (use tk r(3,4,10) b 1 2 3 4 5 in simp)
  qed
qed

end

interpretation mnt: sector_taking "inode_write_at_depth (Suc n)" fs_ok took for n
proof unfold_locales
  show "took ts s s' \<Longrightarrow> fs_ok s'" for ts and s s' :: "'a fs_state_scheme" by (simp add: took_def)
qed (rule took_refl took_trans reserve_entry_took; assumption)+

lemmas reserve_direct_took = mnt.reserve_direct

subsection \<open>Files without index blocks\<close>

text \<open>
  The blocks of a file are the entries of its array that are not 0. There may be more than its length needs: a growth
  that failed on a full disk keeps what it got.
\<close>

definition file_blocks :: "inode_disk \<Rightarrow> block_sector_t list" where
  "file_blocks d = filter (\<lambda>t. t \<noteq> 0) (direct_blocks d)"

definition disk_ok :: "'z fs_state_scheme \<Rightarrow> inode_disk \<Rightarrow> bool" where
  "disk_ok s d \<longleftrightarrow> length (direct_blocks d) = 123 \<and> 0 \<le> dlength d \<and> nsec d \<le> 123 \<and>
     (\<forall>i < nsec d. direct_blocks d ! i \<noteq> 0) \<and> distinct (file_blocks d) \<and>
     (\<forall>t \<in> set (file_blocks d). used s t \<and> t \<notin> fm_sectors s)"

definition file_ok :: "'z fs_state_scheme \<Rightarrow> inode \<Rightarrow> bool" where
  "file_ok s ino \<longleftrightarrow> disk_ok s (data ino) \<and> used s (sector ino) \<and> sector ino \<notin> set (file_blocks (data ino)) \<and>
     sector ino \<notin> fm_sectors s \<and> deny_write_cnt ino = 0"

lemma mset_file_blocks: "mset (file_blocks d) = blocks_of (direct_blocks d)"
  by (simp add: file_blocks_def blocks_of_def)

lemma direct_data_sectors:
  assumes "length (direct_blocks d) = 123" and "nsec d \<le> 123"
  shows "data_sectors c d = take (nsec d) (direct_blocks d)" and "index_blocks c d (nsec d) = []"
  using assms by (auto simp: list_eq_iff_nth_eq data_sectors_nth sector_of_def index_blocks_def)

lemma disk_ok_data:
  assumes "disk_ok s d" shows "set (data_sectors c d) \<subseteq> set (file_blocks d)"
proof
  fix t assume "t \<in> set (data_sectors c d)"
  then have "t \<in> set (take (nsec d) (direct_blocks d))" using assms direct_data_sectors(1) [of d c] by (simp add: disk_ok_def)
  then obtain i where "i < nsec d" "i < 123" "direct_blocks d ! i = t" using assms by (auto simp: disk_ok_def in_set_conv_nth)
  then show "t \<in> set (file_blocks d)" using assms by (auto simp: disk_ok_def file_blocks_def)
qed

lemma nsec_small: "nsec d \<le> 123 \<Longrightarrow> 0 \<le> dlength d \<Longrightarrow> dlength d \<le> 62976"
  using nsec_bound [of d] by simp

lemma disk_ok_inode_via:
  assumes f: "\<And>t. used s t \<Longrightarrow> bc_dev_valid s t" "\<And>t. used s t \<Longrightarrow> length (bc_sect s t) = 512" "\<not> used s (- 1)"
    and "disk_ok s d"
  shows "inode_ok (bc_dev_valid s) (bc_sect s) d" and "inode_sep (bc_sect s) d"
proof -
  have d: "length (direct_blocks d) = 123" "0 \<le> dlength d" "nsec d \<le> 123" "distinct (file_blocks d)"
      "\<And>t. t \<in> set (file_blocks d) \<Longrightarrow> used s t"
    using assms(4) by (simp_all add: disk_ok_def)
  note ds = direct_data_sectors [OF d(1,3)]
  have sub: "t \<in> set (data_sectors (bc_sect s) d) \<Longrightarrow> used s t" for t
    using disk_ok_data [OF assms(4), of "bc_sect s"] d(5) by blast
  show "inode_ok (bc_dev_valid s) (bc_sect s) d"
    using d(1-3) nsec_small [OF d(3,2)] ds(2) sub f by (auto simp: inode_ok_def)
  have "\<forall>t \<in> set (take (nsec d) (direct_blocks d)). t \<noteq> 0"
    using assms(4) by (auto simp: disk_ok_def set_conv_nth)
  then have "filter (\<lambda>t. t \<noteq> 0) (take (nsec d) (direct_blocks d)) = take (nsec d) (direct_blocks d)" by simp
  moreover have "distinct (filter (\<lambda>t. t \<noteq> 0) (take (nsec d) (direct_blocks d)))"
    using d(4) filter_append [of "\<lambda>t. t \<noteq> 0" "take (nsec d) (direct_blocks d)" "drop (nsec d) (direct_blocks d)"]
    by (simp add: file_blocks_def)
  ultimately show "inode_sep (bc_sect s) d" using ds by (simp add: inode_sep_def)
qed

lemma disk_ok_inode:
  assumes "fs_ok s" and "disk_ok s d"
  shows "inode_ok (bc_dev_valid s) (bc_sect s) d" and "inode_sep (bc_sect s) d"
  using disk_ok_inode_via [OF fs_ok_facts(5,7,4) [OF assms(1)] assms(2)] by blast+

text \<open>The file of the free map is not such a file.\<close>

lemma fm_not_file:
  assumes "fs_ok s" and "get_inode ip s = Some ino" and "file_ok s ino" and "free_map_file s = Some fp" "get_file fp s = Some f"
  shows "f_inode f \<noteq> ip"
proof
  assume "f_inode f = ip"
  then have fm: "fm_inode s = Some ino" using assms(2,4,5) by (simp add: fm_inode_def)
  then have "0 < nat (dlength (data ino))"
    using assms(1) byte_cnt_pos by (simp add: fs_ok_def fm_ok_def bitmap_file_size_def)
  then have "0 < nsec (data ino)" using nsec_covers [of 0 "data ino"] by simp
  then have "sector_of (bc_sect s) (data ino) 0 \<in> fm_sectors s \<inter> set (data_sectors (bc_sect s) (data ino))"
    using sector_of_in [of 0 "data ino" "bc_sect s"] fm by (simp add: fm_sectors_def)
  then show False
    using assms(3) disk_ok_data [of s "data ino" "bc_sect s"] by (auto simp: file_ok_def disk_ok_def)
qed

lemma fm_inode_set_inode:
  assumes "fs_ok s" and "get_inode ip s = Some ino" and "file_ok s ino"
  shows "fm_inode (set_inode ip x s) = fm_inode s"
proof -
  obtain fp f fmi where fp: "free_map_file s = Some fp" "get_file fp s = Some f" "get_inode (f_inode f) s = Some fmi"
    using assms(1) by (auto simp: fs_ok_def fm_ok_def fm_inode_def split: option.splits bind_splits)
  have "f_inode f \<noteq> ip" by (rule fm_not_file [OF assms fp(1,2)])
  then show ?thesis
    using fp by (simp add: fm_inode_def set_inode_def get_file_def get_inode_def deref_def arr_get_def split: if_splits)
qed

subsection \<open>Growing a file\<close>

text \<open>
  The step of an operation on the inode \<open>ip\<close> that takes the sectors \<open>ts\<close> and writes to no other sectors than those of
  \<open>W\<close>, \<open>ts\<close> and the free map.
\<close>

definition grew :: "nat \<Rightarrow> block_sector_t set \<Rightarrow> block_sector_t list \<Rightarrow> 'z fs_state_scheme \<Rightarrow> 'z fs_state_scheme \<Rightarrow> bool" where
  "grew ip W ts s s' \<longleftrightarrow> fs_ok s' \<and> distinct ts \<and> (\<forall>t \<in> set ts. \<not> used s t) \<and>
     bit_cnt (free_map s') = bit_cnt (free_map s) \<and> (\<forall>t. used s' t \<longleftrightarrow> used s t \<or> t \<in> set ts) \<and>
     (\<forall>t. t \<notin> W \<longrightarrow> t \<notin> set ts \<longrightarrow> t \<notin> fm_sectors s \<longrightarrow> bc_sect s' t = bc_sect s t) \<and> fm_sectors s' = fm_sectors s \<and>
     (\<forall>j. j \<noteq> ip \<longrightarrow> get_inode j s' = get_inode j s) \<and> files s' = files s \<and> free_map_file s' = free_map_file s \<and>
     open_inodes s' = open_inodes s \<and> length (inodes s') = length (inodes s) \<and>
     bc_dev_valid s' = bc_dev_valid s \<and> fs_state.more s' = fs_state.more s"

lemma took_grew: "took ts s s' \<Longrightarrow> grew ip {} ts s s'"
  by (simp add: took_def grew_def get_inode_def)

text \<open>What such a step, or several, do to the disk.\<close>

definition disk_grew :: "block_sector_t set \<Rightarrow> block_sector_t list \<Rightarrow> 'z fs_state_scheme \<Rightarrow> 'z fs_state_scheme \<Rightarrow> bool" where
  "disk_grew W ts s s' \<longleftrightarrow> fs_ok s' \<and> distinct ts \<and> (\<forall>t \<in> set ts. \<not> used s t) \<and>
     bit_cnt (free_map s') = bit_cnt (free_map s) \<and> (\<forall>t. used s' t \<longleftrightarrow> used s t \<or> t \<in> set ts) \<and>
     (\<forall>t. t \<notin> W \<longrightarrow> t \<notin> set ts \<longrightarrow> t \<notin> fm_sectors s \<longrightarrow> bc_sect s' t = bc_sect s t) \<and> fm_sectors s' = fm_sectors s"

lemma grew_disk: "grew ip W ts s s' \<Longrightarrow> disk_grew W ts s s'"
  by (simp add: grew_def disk_grew_def)

lemma disk_grew_trans:
  assumes "disk_grew W ts s t" and "disk_grew V us t u" and "W \<union> V \<subseteq> X \<union> set ts"
  shows "disk_grew X (ts @ us) s u"
proof -
  have "set ts \<inter> set us = {}" using assms(1,2) by (auto simp: disk_grew_def)
  moreover have "bc_sect u v = bc_sect s v" if "v \<notin> X" "v \<notin> set (ts @ us)" "v \<notin> fm_sectors s" for v
  proof -
    have "v \<notin> W" "v \<notin> V" "v \<notin> fm_sectors t" using that assms by (auto simp: disk_grew_def)
    then show ?thesis using that assms(1,2) by (simp add: disk_grew_def)
  qed
  ultimately show ?thesis using assms(1,2) unfolding disk_grew_def by auto
qed

text \<open>A file that shares no sector with the growing one does not notice.\<close>

lemma disk_grew_other:
  assumes "disk_grew W ts s s'" and "fs_ok s" and "disk_ok s d" and "W \<inter> set (file_blocks d) = {}"
  shows "disk_ok s' d" and "file_bytes (bc_sect s') d = file_bytes (bc_sect s) d" and "set ts \<inter> set (file_blocks d) = {}"
proof -
  have d: "length (direct_blocks d) = 123" "nsec d \<le> 123" "\<And>t. t \<in> set (file_blocks d) \<Longrightarrow> used s t \<and> t \<notin> fm_sectors s"
    using assms(3) by (simp_all add: disk_ok_def)
  show fresh: "set ts \<inter> set (file_blocks d) = {}" using assms(1) d(3) by (auto simp: disk_grew_def)
  show "disk_ok s' d" using assms(1,3) by (auto simp: disk_grew_def disk_ok_def)
  have "bc_sect s' t = bc_sect s t" if "t \<in> set (data_sectors (bc_sect s) d)" for t
  proof -
    have "t \<in> set (file_blocks d)" using that disk_ok_data [OF assms(3)] by blast
    then show ?thesis using assms(1,4) d(3) [of t] fresh by (auto simp: disk_grew_def)
  qed
  then show "file_bytes (bc_sect s') d = file_bytes (bc_sect s) d"
    using direct_data_sectors(1) [OF d(1,2)] by (simp add: file_bytes_def cong: map_cong)
qed

lemmas grew_other_disk = disk_grew_other [OF grew_disk]

text \<open>The blocks of a grown array.\<close>

lemma grown_disk_ok:
  assumes "disk_ok s d" and ts: "distinct ts" "\<forall>t \<in> set ts. \<not> used s t \<and> t \<notin> fm_sectors s"
      "\<forall>t. used s' t \<longleftrightarrow> used s t \<or> t \<in> set ts" "fm_sectors s' = fm_sectors s"
    and bs: "length bs = 123" "blocks_of bs = blocks_of (direct_blocks d) + mset ts"
    and "\<And>j. j < 123 \<Longrightarrow> direct_blocks d ! j \<noteq> 0 \<Longrightarrow> bs ! j = direct_blocks d ! j"
    and len: "0 \<le> len" "sector_count len \<le> 123" "\<And>j. j < sector_count len \<Longrightarrow> bs ! j \<noteq> 0"
  shows "disk_ok s' (d\<lparr>direct_blocks := bs, dlength := len\<rparr>)"
    and "mset (file_blocks (d\<lparr>direct_blocks := bs, dlength := len\<rparr>)) = mset (file_blocks d) + mset ts"
proof -
  let ?d = "d\<lparr>direct_blocks := bs, dlength := len\<rparr>"
  show m: "mset (file_blocks ?d) = mset (file_blocks d) + mset ts" using bs(2) by (simp add: mset_file_blocks)
  have d: "distinct (file_blocks d)" "\<And>t. t \<in> set (file_blocks d) \<Longrightarrow> used s t \<and> t \<notin> fm_sectors s"
    using assms(1) by (simp_all add: disk_ok_def)
  have "distinct (file_blocks d @ ts)" using d ts by auto
  moreover have eq: "mset (file_blocks ?d) = mset (file_blocks d @ ts)" using m by simp
  ultimately have "distinct (file_blocks ?d)" by (metis mset_eq_imp_distinct_iff)
  moreover have "set (file_blocks ?d) = set (file_blocks d) \<union> set ts" using mset_eq_setD [OF eq] by simp
  ultimately show "disk_ok s' ?d"
    using bs(1) len d(2) ts(2-4) by (auto simp: disk_ok_def nsec_def)
qed

lemma inode_reserve_small:
  fixes s :: "'z fs_state_scheme"
  assumes "fs_ok s" and "disk_ok s d" and "dlength d \<le> len" and "sector_count len \<le> 123"
  obtains ok bs s' ts where "inode_reserve (inode_write_at_depth (Suc n)) d len s = Some (ok, d\<lparr>direct_blocks := bs\<rparr>, s')"
    "took ts s s'" "length bs = 123" "\<forall>j < 123. j < nsec d \<or> sector_count len \<le> j \<longrightarrow> bs ! j = direct_blocks d ! j"
    "disk_ok s' (d\<lparr>direct_blocks := bs, dlength := if ok then len else dlength d\<rparr>)"
    "mset (file_blocks (d\<lparr>direct_blocks := bs\<rparr>)) = mset (file_blocks d) + mset ts"
    "\<forall>j < 123. bs ! j \<noteq> direct_blocks d ! j \<longrightarrow> bs ! j \<in> set ts"
    "length ts \<le> sector_count len \<and> (\<not> ok \<longrightarrow> length ts < sector_count len \<and> (\<forall>t. unat t < bit_cnt (free_map s') \<longrightarrow> used s' t))"
proof -
  have d: "length (direct_blocks d) = 123" "0 \<le> dlength d" "nsec d \<le> 123" "\<And>j. j < nsec d \<Longrightarrow> direct_blocks d ! j \<noteq> 0"
    using assms(2) by (simp_all add: disk_ok_def)
  let ?k = "sector_count len"
  obtain ok bs s' ts where r: "reserve_loop (\<lambda>e _. reserve_entry (inode_write_at_depth (Suc n)) e) 1 ?k 0 ?k (direct_blocks d) s = Some (ok, bs, s')"
     "took ts s s'" "length bs = 123" "blocks_of bs = blocks_of (direct_blocks d) + mset ts"
     "\<forall>j < 123. direct_blocks d ! j \<noteq> 0 \<longrightarrow> bs ! j = direct_blocks d ! j"
     "\<forall>j < 123. bs ! j \<noteq> direct_blocks d ! j \<longrightarrow> bs ! j \<in> set ts"
     "if ok then \<forall>j. 0 \<le> j \<and> j < 0 + ?k \<longrightarrow> bs ! j \<noteq> 0 else \<forall>t. unat t < bit_cnt (free_map s') \<longrightarrow> used s' t"
     "length ts \<le> ?k" "\<not> ok \<longrightarrow> length ts < ?k" "\<forall>j < 123. ?k \<le> j \<longrightarrow> bs ! j = direct_blocks d ! j"
    using reserve_direct_took [OF assms(1), of 0 ?k "direct_blocks d" n ?k] assms(4) d(1) by auto
  have kept: "bs ! j = direct_blocks d ! j" if "j < nsec d" for j using that r(5) d(3,4) by simp
  let ?len = "if ok then len else dlength d"
  have l: "0 \<le> ?len" "sector_count ?len \<le> 123" "\<And>j. j < sector_count ?len \<Longrightarrow> bs ! j \<noteq> 0"
    using assms(3,4) d r(7) kept by (auto simp: nsec_def split: if_splits)
  have tk: "distinct ts" "\<forall>t \<in> set ts. \<not> used s t \<and> t \<notin> fm_sectors s" "\<forall>t. used s' t \<longleftrightarrow> used s t \<or> t \<in> set ts"
      "fm_sectors s' = fm_sectors s"
    using r(2) fs_ok_facts(2) [OF assms(1)] by (auto simp: took_def)
  have old: "\<And>j. j < 123 \<Longrightarrow> direct_blocks d ! j \<noteq> 0 \<Longrightarrow> bs ! j = direct_blocks d ! j" using r(5) by blast
  have 1: "disk_ok s' (d\<lparr>direct_blocks := bs, dlength := ?len\<rparr>)"
    using old l(3) by (rule grown_disk_ok(1) [OF assms(2) tk r(3,4) _ l(1,2)])
  have "mset (file_blocks (d\<lparr>direct_blocks := bs, dlength := ?len\<rparr>)) = mset (file_blocks d) + mset ts"
    using old l(3) by (rule grown_disk_ok(2) [OF assms(2) tk r(3,4) _ l(1,2)])
  then have 2: "mset (file_blocks (d\<lparr>direct_blocks := bs\<rparr>)) = mset (file_blocks d) + mset ts" by (simp add: file_blocks_def)
  have 3: "inode_reserve (inode_write_at_depth (Suc n)) d len s = Some (ok, d\<lparr>direct_blocks := bs\<rparr>, s')"
    using r(1) assms(3,4) d(2) bytes_to_sectors_small [of len] by (simp add: inode_reserve_def Let_def DIRECT_BLOCKS_COUNT_def)
  have 4: "\<forall>j < 123. bs ! j \<noteq> direct_blocks d ! j \<longrightarrow> bs ! j \<in> set ts" using r(6) by blast
  have 5: "length ts \<le> ?k \<and> (\<not> ok \<longrightarrow> length ts < ?k \<and> (\<forall>t. unat t < bit_cnt (free_map s') \<longrightarrow> used s' t))" using r(7,8,9) by simp
  have 0: "\<forall>j < 123. j < nsec d \<or> ?k \<le> j \<longrightarrow> bs ! j = direct_blocks d ! j" using kept r(10) by blast
  show ?thesis by (rule that [OF 3 r(2,3) 0 1 2 4 5])
qed

text \<open>The part of \<open>inode_write_at\<close> that extends the file, on a full disk too.\<close>

lemma inode_extend_grew:
  fixes s :: "'z fs_state_scheme"
  assumes "fs_ok s" and ino: "get_inode ip s = Some ino" and "file_ok s ino"
    and "dlength (data ino) \<le> len" and "sector_count len \<le> 123"
  obtains ok bs s' ts where "inode_extend (inode_write_at_depth (Suc n)) ip len s = Some (ok, s')"
    "grew ip {sector ino} ts s s'" "length bs = 123"
    "\<forall>j < 123. j < nsec (data ino) \<or> sector_count len \<le> j \<longrightarrow> bs ! j = direct_blocks (data ino) ! j"
    "get_inode ip s' = Some (ino\<lparr>data := (data ino)\<lparr>direct_blocks := bs, dlength := if ok then len else dlength (data ino)\<rparr>\<rparr>)"
    "disk_ok s' ((data ino)\<lparr>direct_blocks := bs, dlength := if ok then len else dlength (data ino)\<rparr>)"
    "mset (file_blocks ((data ino)\<lparr>direct_blocks := bs\<rparr>)) = mset (file_blocks (data ino)) + mset ts"
    "ok \<longrightarrow> bc_sect s' (sector ino) = inode_disk_bytes ((data ino)\<lparr>direct_blocks := bs, dlength := len\<rparr>)"
    "length ts \<le> sector_count len \<and> (\<not> ok \<longrightarrow> length ts < sector_count len \<and> (\<forall>t. unat t < bit_cnt (free_map s') \<longrightarrow> used s' t))"
proof -
  let ?d = "data ino"
  have f: "disk_ok s ?d" "used s (sector ino)" "sector ino \<notin> fm_sectors s" using assms(3) by (simp_all add: file_ok_def)
  obtain ok bs s1 ts where r: "inode_reserve (inode_write_at_depth (Suc n)) ?d len s = Some (ok, ?d\<lparr>direct_blocks := bs\<rparr>, s1)"
    "took ts s s1" "length bs = 123" "\<forall>j < 123. j < nsec ?d \<or> sector_count len \<le> j \<longrightarrow> bs ! j = direct_blocks ?d ! j"
    "disk_ok s1 (?d\<lparr>direct_blocks := bs, dlength := if ok then len else dlength ?d\<rparr>)"
    "mset (file_blocks (?d\<lparr>direct_blocks := bs\<rparr>)) = mset (file_blocks ?d) + mset ts"
    "\<forall>j < 123. bs ! j \<noteq> direct_blocks ?d ! j \<longrightarrow> bs ! j \<in> set ts"
    "length ts \<le> sector_count len \<and> (\<not> ok \<longrightarrow> length ts < sector_count len \<and> (\<forall>t. unat t < bit_cnt (free_map s1) \<longrightarrow> used s1 t))"
    by (rule inode_reserve_small [where n = n, OF assms(1) f(1) assms(4,5)])
  let ?d' = "?d\<lparr>direct_blocks := bs, dlength := if ok then len else dlength ?d\<rparr>"
  have t: "fs_ok s1" "inodes s1 = inodes s" "fm_sectors s1 = fm_sectors s" "\<And>t. used s1 t \<longleftrightarrow> used s t \<or> t \<in> set ts"
    using r(2) by (simp_all add: took_def)
  have g1: "get_inode ip s1 = Some ino" using ino t(2) by (simp add: get_inode_def)
  have u1: "used s1 (sector ino)" using f(2) t(4) by simp
  have fo1: "file_ok s1 ino"
    using assms(3) t grew_other_disk(1) [OF took_grew [OF r(2)] assms(1) f(1)] by (auto simp: file_ok_def)
  define s2 where "s2 = set_inode ip (ino\<lparr>data := ?d'\<rparr>) s1"
  have g2: "get_inode ip s2 = Some (ino\<lparr>data := ?d'\<rparr>)" unfolding s2_def using g1 by (rule get_set_inode)
  have fm2: "fm_inode s2 = fm_inode s1" unfolding s2_def using t(1) g1 fo1 by (rule fm_inode_set_inode)
  have s2: "bc_inv s2" "bc_dev_valid s2 = bc_dev_valid s1" "free_map s2 = free_map s1" "bc_sect s2 = bc_sect s1"
      "files s2 = files s1" "free_map_file s2 = free_map_file s1" "open_inodes s2 = open_inodes s1"
      "fs_state.more s2 = fs_state.more s1" "\<And>j. j \<noteq> ip \<Longrightarrow> get_inode j s2 = get_inode j s1" "length (inodes s2) = length (inodes s1)"
    using fs_ok_facts(1) [OF t(1)] by (simp_all add: s2_def set_inode_def get_inode_def deref_def arr_get_def)
  have ok2: "fs_ok s2" "fm_sectors s2 = fm_sectors s1" "used s2 = used s1"
    by (rule fs_ok_outside [OF t(1) s2(1-3) fm2], simp add: s2(4))+
  have grew2: "grew ip {} ts s s2"
    using r(2) ok2 s2 by (simp add: took_def grew_def get_inode_def)
  have do2: "disk_ok s2 ?d'" using r(5) ok2(2,3) by (simp add: disk_ok_def)
  show ?thesis
  proof (cases ok)
    case False
    have "inode_extend (inode_write_at_depth (Suc n)) ip len s = Some (ok, s2)"
      using ino r(1) False by (simp add: inode_extend_def s2_def)
    moreover have "grew ip {sector ino} ts s s2" using grew2 by (auto simp: grew_def)
    ultimately show ?thesis
      using that [OF _ _ r(3,4) g2 do2 r(6)] r(8) False ok2(3) s2(3) by simp
  next
    case True
    have len: "length (inode_disk_bytes ?d') = 512" using r(3) by (intro length_inode_disk_bytes) simp
    have v: "bc_dev_valid s2 (sector ino)" using fs_ok_facts(5) [OF t(1) u1] s2(2) by simp
    obtain s3 where s3: "buffer_cache_write (sector ino) (inode_disk_bytes ?d') s2 = Some s3" "bc_inv s3"
        "bc_dev_valid s3 = bc_dev_valid s2" "bc_sect s3 = (bc_sect s2)(sector ino := inode_disk_bytes ?d')"
        "bc_state.more s3 = bc_state.more s2" "inodes s3 = inodes s2" "free_map s3 = free_map s2"
        "free_map_file s3 = free_map_file s2" "files s3 = files s2" "open_inodes s3 = open_inodes s2"
      by (rule buffer_cache_write_fs [OF s2(1) v len])
    have fm3: "fm_inode s3 = fm_inode s2" using s3(8,9,6) by (rule fm_inode_cong)
    have same: "\<And>t. t \<in> fm_sectors s2 \<Longrightarrow> bc_sect s3 t = bc_sect s2 t" using f(3) ok2(2) t(3) s3(4) by auto
    have ok3: "fs_ok s3" "fm_sectors s3 = fm_sectors s2" "used s3 = used s2"
      by (rule fs_ok_outside [OF ok2(1) s3(2,3,7) fm3], erule same)+
    have "inode_extend (inode_write_at_depth (Suc n)) ip len s = Some (ok, s3)"
      using ino r(1) True s3(1) by (simp add: inode_extend_def s2_def)
    moreover have "grew ip {sector ino} ts s s3"
      using grew2 ok3 s3(3,4,6-10) bc_more_fs [OF s3(5)] by (simp add: grew_def get_inode_def)
    moreover have "get_inode ip s3 = Some (ino\<lparr>data := ?d'\<rparr>)" using g2 s3(6) by (simp add: get_inode_def)
    moreover have "disk_ok s3 ?d'" using do2 ok3(2,3) by (simp add: disk_ok_def)
    ultimately show ?thesis
      using that [OF _ _ r(3,4) _ _ r(6)] r(8) True s3(4) by simp
  qed
qed

text \<open>Steps compose, and steps that take no sector are such steps.\<close>

lemma grew_trans:
  assumes "grew ip W ts s t" and "grew ip V us t u" and "fs_ok s" and "W \<union> V \<subseteq> X \<union> set ts"
  shows "grew ip X (ts @ us) s u"
proof -
  have "set ts \<inter> set us = {}" using assms(1,2) by (auto simp: grew_def)
  moreover have "bc_sect u v = bc_sect s v" if "v \<notin> X" "v \<notin> set (ts @ us)" "v \<notin> fm_sectors s" for v
  proof -
    have "v \<notin> W" "v \<notin> V" "v \<notin> fm_sectors t" using that assms by (auto simp: grew_def)
    then show ?thesis using that assms(1,2) by (simp add: grew_def)
  qed
  ultimately show ?thesis using assms(1,2) unfolding grew_def by auto
qed

lemma bc_step_grew:
  fixes s s' :: "'z fs_state_scheme"
  assumes "fs_ok s" and "bc_step s s'"
  shows "grew ip {} [] s s'"
proof -
  note v = bc_step_view [OF assms(2)] and f = bc_step_fs [OF assms(2)]
  have fm: "fm_inode s' = fm_inode s" using f(4,2,1) by (rule fm_inode_cong)
  have "fs_ok s'" "fm_sectors s' = fm_sectors s" "used s' = used s"
    by (rule fs_ok_outside [OF assms(1) v(1,2) f(3) fm], simp add: v)+
  then show ?thesis using v f by (simp add: grew_def)
qed

lemma data_step_grew:
  fixes s s' :: "'z fs_state_scheme"
  assumes "fs_ok s" and "disk_ok s d" and "data_step d s s'"
  shows "grew ip (set (file_blocks d)) [] s s'"
proof -
  note f = data_step_fs [OF assms(3)]
  have v: "bc_inv s'" "bc_dev_valid s' = bc_dev_valid s" using assms(3) by (simp_all add: data_step_def)
  have out: "bc_sect s' t = bc_sect s t" if "t \<notin> set (file_blocks d)" for t
    using that disk_ok_data [OF assms(2), of "bc_sect s"] assms(3) by (auto simp: data_step_def)
  then have same: "\<And>t. t \<in> fm_sectors s \<Longrightarrow> bc_sect s' t = bc_sect s t" using assms(2) by (auto simp: disk_ok_def)
  have "fs_ok s'" "fm_sectors s' = fm_sectors s" "used s' = used s"
    by (rule fs_ok_outside [OF assms(1) v f(3) data_step_fm_inode [OF assms(3)]], erule same)+
  then show ?thesis using v f out by (simp add: grew_def)
qed

text \<open>What a file held before it grew.\<close>

lemma grown_file_prefix:
  assumes "disk_ok s d" and d': "length bs = 123" "\<forall>j < nsec d. bs ! j = direct_blocks d ! j"
      "dlength d \<le> len" "sector_count len \<le> 123"
    and c': "\<And>t. t \<in> set (data_sectors c d) \<Longrightarrow> c' t = c t" "\<And>t. t \<in> set (data_sectors c d) \<Longrightarrow> length (c t) = 512"
  shows "take (nat (dlength d)) (file_bytes c' (d\<lparr>direct_blocks := bs, dlength := len\<rparr>)) = file_bytes c d"
proof -
  let ?d = "d\<lparr>direct_blocks := bs, dlength := len\<rparr>" and ?k = "nsec d"
  have d: "length (direct_blocks d) = 123" "0 \<le> dlength d" "?k \<le> 123" using assms(1) by (simp_all add: disk_ok_def)
  have k: "?k \<le> nsec ?d" using d'(3) by (simp add: nsec_def sector_count_def zdiv_mono1 nat_mono)
  have pre: "take ?k bs = take ?k (direct_blocks d)" using d d'(1,2) by (simp add: list_eq_iff_nth_eq)
  have ds: "data_sectors c d = take ?k (direct_blocks d)" using d by (simp add: direct_data_sectors)
  have "data_sectors c' ?d = take (nsec ?d) bs" using d' by (simp add: direct_data_sectors nsec_def)
  also have "\<dots> = data_sectors c d @ drop ?k (take (nsec ?d) bs)"
    using pre k append_take_drop_id [of ?k "take (nsec ?d) bs"] ds by (simp add: min_absorb1)
  finally have "concat (map c' (data_sectors c' ?d)) = concat (map c (data_sectors c d)) @ concat (map c' (drop ?k (take (nsec ?d) bs)))"
    using c'(1) by (simp cong: map_cong)
  moreover have "nat (dlength d) \<le> length (concat (map c (data_sectors c d)))"
    using nsec_bound [OF d(2)] c'(2) by (subst length_concat_equal [where k = 512]) auto
  ultimately show ?thesis using d'(3) d(2) by (simp add: file_bytes_def min_absorb1 nat_mono)
qed

text \<open>A file that has no more sectors than its length needs: no growth of it has failed.\<close>

definition tight :: "inode_disk \<Rightarrow> bool" where
  "tight d \<longleftrightarrow> (\<forall>j < 123. nsec d \<le> j \<longrightarrow> direct_blocks d ! j = 0)"

text \<open>A write that starts inside of a file or at its end and goes beyond the end.\<close>

lemma inode_write_at_grew:
  fixes s :: "'z fs_state_scheme"
  assumes "fs_ok s" and ino: "get_inode ip s = Some ino" and "file_ok s ino"
    and ofs: "0 \<le> ofs" "ofs \<le> dlength (data ino)" "dlength (data ino) < ofs + sz" "sector_count (ofs + sz) \<le> 123" "sz \<le> int (length buf)"
  obtains ok d' s' ts where "inode_write_at ip buf sz ofs s = Some (if ok then sz else 0, s')"
    "grew ip (insert (sector ino) (set (file_blocks (data ino)))) ts s s'"
    "get_inode ip s' = Some (ino\<lparr>data := d'\<rparr>)" "file_ok s' (ino\<lparr>data := d'\<rparr>)"
    "mset (file_blocks d') = mset (file_blocks (data ino)) + mset ts"
    "file_bytes (bc_sect s') d' = (if ok then take (nat ofs) (file_bytes (bc_sect s) (data ino)) @ take (nat sz) buf
       else file_bytes (bc_sect s) (data ino))"
    "ok \<longrightarrow> bc_sect s' (sector ino) = inode_disk_bytes d'"
    "length ts \<le> sector_count (ofs + sz) \<and> (\<not> ok \<longrightarrow> length ts < sector_count (ofs + sz) \<and> (\<forall>t. unat t < bit_cnt (free_map s') \<longrightarrow> used s' t))"
    "is_dir d' = is_dir (data ino) \<and> (ok \<longrightarrow> tight (data ino) \<longrightarrow> tight d')"
proof -
  let ?d = "data ino" and ?len = "ofs + sz" and ?fb = "file_bytes (bc_sect s) (data ino)"
  have do: "disk_ok s ?d" "used s (sector ino)" "sector ino \<notin> set (file_blocks ?d)" "sector ino \<notin> fm_sectors s" "deny_write_cnt ino = 0"
    using assms(3) by (simp_all add: file_ok_def)
  have lim: "?len \<le> 62976" "0 \<le> dlength ?d" "dlength ?d \<le> ?len"
    using nsec_small [of "?d\<lparr>dlength := ?len\<rparr>"] ofs do(1) by (simp_all add: nsec_def disk_ok_def)
  note io = disk_ok_inode [OF assms(1) do(1)]
  obtain s1 where s1: "byte_to_sector ip (?len - 1) s = Some (- 1, s1)" "bc_step s s1"
    using byte_to_sector_step [OF fs_ok_facts(1) [OF assms(1)] ino io(1), of "?len - 1"] ofs lim by auto
  have g1: "grew ip {} [] s s1" using assms(1) s1(2) by (rule bc_step_grew)
  have ok1: "fs_ok s1" "get_inode ip s1 = Some ino" "file_ok s1 ino"
    using g1 assms(3) grew_other_disk(1) [OF g1 assms(1) do(1)] bc_step_fs(6) [OF s1(2)] ino by (auto simp: grew_def file_ok_def)
  obtain ok bs s2 ts where x: "inode_extend (inode_write_at_depth (Suc 0)) ip ?len s1 = Some (ok, s2)"
    "grew ip {sector ino} ts s1 s2" "length bs = 123" "\<forall>j < 123. j < nsec ?d \<or> sector_count ?len \<le> j \<longrightarrow> bs ! j = direct_blocks ?d ! j"
    "get_inode ip s2 = Some (ino\<lparr>data := ?d\<lparr>direct_blocks := bs, dlength := if ok then ?len else dlength ?d\<rparr>\<rparr>)"
    "disk_ok s2 (?d\<lparr>direct_blocks := bs, dlength := if ok then ?len else dlength ?d\<rparr>)"
    "mset (file_blocks (?d\<lparr>direct_blocks := bs\<rparr>)) = mset (file_blocks ?d) + mset ts"
    "ok \<longrightarrow> bc_sect s2 (sector ino) = inode_disk_bytes (?d\<lparr>direct_blocks := bs, dlength := ?len\<rparr>)"
    "length ts \<le> sector_count (ofs + sz) \<and> (\<not> ok \<longrightarrow> length ts < sector_count (ofs + sz) \<and> (\<forall>t. unat t < bit_cnt (free_map s2) \<longrightarrow> used s2 t))"
    by (rule inode_extend_grew [where n = 0, OF ok1 lim(3) ofs(4)])
  define d' where "d' = ?d\<lparr>direct_blocks := bs, dlength := if ok then ?len else dlength ?d\<rparr>"
  have g2: "grew ip {sector ino} ts s s2" using grew_trans [OF g1 x(2) assms(1), of "{sector ino}"] by simp
  have ms: "mset (file_blocks d') = mset (file_blocks ?d) + mset ts" using x(7) by (simp add: d'_def file_blocks_def)
  have fb': "set (file_blocks d') = set (file_blocks ?d) \<union> set ts" using arg_cong [OF ms, of set_mset] by simp
  have sec2: "used s2 (sector ino)" "sector ino \<notin> set (file_blocks d')" "sector ino \<notin> fm_sectors s2"
    using g2 do fb' by (auto simp: grew_def)
  have fo2: "file_ok s2 (ino\<lparr>data := d'\<rparr>)" using x(6) sec2 do(5) by (simp add: file_ok_def d'_def)
  have ok2: "fs_ok s2" using g2 by (simp add: grew_def)
  have get2: "get_inode ip s2 = Some (ino\<lparr>data := d'\<rparr>)" using x(5) by (simp add: d'_def)
  have start: "inode_write_at ip buf sz ofs s = (if ok then inode_write_loop ip buf sz ofs 0 s2 else Some (0, s2))"
    using ino do(5) s1(1) x(1) ofs lim by (auto simp: inode_write_at_Suc inode_write_via_def)
  have pre: "\<forall>j < nsec ?d. bs ! j = direct_blocks ?d ! j" using x(4) do(1) by (simp add: disk_ok_def)
  have "nsec ?d \<le> sector_count ?len" using lim(3) by (simp add: nsec_def sector_count_def zdiv_mono1 nat_mono)
  then have td: "is_dir d' = is_dir ?d \<and> (ok \<longrightarrow> tight ?d \<longrightarrow> tight d')" using x(4) by (simp add: d'_def tight_def nsec_def)
  have kept: "take (nat (dlength ?d)) (file_bytes (bc_sect s2) d') = ?fb"
    unfolding d'_def
  proof (rule grown_file_prefix [OF do(1) x(3) pre])
    fix t assume t: "t \<in> set (data_sectors (bc_sect s) ?d)"
    then have "t \<in> set (file_blocks ?d)" using disk_ok_data [OF do(1)] by blast
    then have "t \<notin> {sector ino}" "t \<notin> set ts" "t \<notin> fm_sectors s"
      using do(1,3) grew_other_disk(3) [OF g2 assms(1) do(1)] by (auto simp: disk_ok_def)
    then show "bc_sect s2 t = bc_sect s t" using g2 unfolding grew_def by blast
    show "length (bc_sect s t) = 512" using t io(1) by (simp add: inode_ok_def)
  qed (use lim ofs(4) do(1) in \<open>simp_all add: disk_ok_def nsec_def\<close>)
  show ?thesis
  proof (cases ok)
    case False
    have "length (file_bytes (bc_sect s2) d') = nat (dlength ?d)"
      using length_file_bytes [OF disk_ok_inode(1) [OF ok2]] fo2 False by (simp add: file_ok_def d'_def)
    then have "file_bytes (bc_sect s2) d' = ?fb" using kept by simp
    moreover have "grew ip (insert (sector ino) (set (file_blocks ?d))) ts s s2" using g2 by (auto simp: grew_def)
    ultimately show ?thesis
      using that [of ok s2 ts d'] start get2 x(9) fo2 ms td False by simp
  next
    case True
    have d': "dlength d' = ?len" "disk_ok s2 d'" using True x(6) by (simp_all add: d'_def)
    note io2 = disk_ok_inode [OF ok2 d'(2)]
    obtain s3 where s3: "inode_write_loop ip buf sz ofs 0 s2 = Some (sz, s3)" "data_step d' s2 s3"
        "file_bytes (bc_sect s3) d' = put_at (file_bytes (bc_sect s2) d') (nat ofs) (take (nat sz) buf)"
      using inode_write_loop_correct [OF fs_ok_facts(1) [OF ok2] get2, of ofs 0 "nat sz" sz buf] io2 ofs lim d'(1)
      by (auto simp: nat_add_distrib nat_le_iff)
    have g3: "grew ip (set (file_blocks d')) [] s2 s3" using ok2 d'(2) s3(2) by (rule data_step_grew)
    have g: "grew ip (insert (sector ino) (set (file_blocks ?d))) ts s s3"
      using grew_trans [OF g2 g3 assms(1), of "insert (sector ino) (set (file_blocks ?d))"] fb' by auto
    have fo3: "file_ok s3 (ino\<lparr>data := d'\<rparr>)"
      using fo2 g3 by (auto simp: file_ok_def disk_ok_def grew_def)
    have len: "length (file_bytes (bc_sect s2) d') = nat ?len" using length_file_bytes [OF io2(1)] d'(1) by simp
    have "file_bytes (bc_sect s3) d' = take (nat ofs) (file_bytes (bc_sect s2) d') @ take (nat sz) buf"
      unfolding s3(3) put_at_def using len ofs by (simp add: nat_add_distrib)
    moreover have "take (nat ofs) (file_bytes (bc_sect s2) d') = take (nat ofs) ?fb"
      unfolding kept [symmetric] using ofs by (simp add: min_absorb1 nat_mono)
    moreover have "bc_sect s3 (sector ino) = inode_disk_bytes d'"
      using x(8) True sec2 g3 by (simp add: grew_def d'_def)
    moreover have "get_inode ip s3 = Some (ino\<lparr>data := d'\<rparr>)" using data_step_fs(6) [OF s3(2)] get2 by simp
    ultimately show ?thesis
      using that [of ok s3 ts d'] x(9) start True s3(1) g fo3 ms td by simp
  qed
qed

subsection \<open>Creating an inode\<close>

text \<open>Short files need the loop over the direct blocks only, whatever the inode says its length is.\<close>

lemma inode_reserve_short:
  assumes "0 \<le> len" and "sector_count len \<le> 123"
  shows "inode_reserve wr d len s =
     map_option (\<lambda>(ok, bs, s'). (ok, d\<lparr>direct_blocks := bs\<rparr>, s'))
       (reserve_loop (\<lambda>e _. reserve_entry wr e) 1 (sector_count len) 0 (sector_count len) (direct_blocks d) s)"
  using assms by (cases "reserve_loop (\<lambda>e _. reserve_entry wr e) 1 (sector_count len) 0 (sector_count len) (direct_blocks d) s")
    (auto simp: inode_reserve_def Let_def DIRECT_BLOCKS_COUNT_def bytes_to_sectors_small)

lemma inode_reserve_dlength:
  assumes "inode_reserve wr (d\<lparr>dlength := l\<rparr>) len s = Some (ok, d\<lparr>dlength := l, direct_blocks := bs\<rparr>, s')"
    and "0 \<le> len" "sector_count len \<le> 123"
  shows "inode_reserve wr d len s = Some (ok, d\<lparr>direct_blocks := bs\<rparr>, s')"
proof -
  have "bs' = bs" if "d\<lparr>dlength := l, direct_blocks := bs'\<rparr> = d\<lparr>dlength := l, direct_blocks := bs\<rparr>" for bs'
    using arg_cong [OF that, of direct_blocks] by simp
  then show ?thesis using assms(1) by (auto simp: inode_reserve_short [OF assms(2,3)])
qed

lemma filter_prefix_length:
  assumes "n \<le> length xs" and "\<forall>i < n. P (xs ! i)" shows "n \<le> length (filter P xs)"
proof -
  have "filter P (take n xs) = take n xs" using assms by (auto simp: filter_id_conv in_set_conv_nth)
  then have "filter P xs = take n xs @ filter P (drop n xs)" by (metis append_take_drop_id filter_append)
  then show ?thesis using assms(1) by simp
qed

lemma filter_zeros [simp]: "filter (\<lambda>t. t \<noteq> 0) (replicate n (0 :: block_sector_t)) = []"
  by simp

lemma file_bytes_zero:
  assumes "disk_ok s d" and io: "inode_ok v c d" and "\<And>t. t \<in> set (file_blocks d) \<Longrightarrow> c t = replicate 512 0"
  shows "file_bytes c d = replicate (nat (dlength d)) 0"
proof (rule nth_equalityI)
  show "length (file_bytes c d) = length (replicate (nat (dlength d)) 0)" using length_file_bytes [OF io] by simp
  fix p assume "p < length (file_bytes c d)"
  then have p: "p < nat (dlength d)" using length_file_bytes [OF io] by simp
  have "sector_of c d (p div 512) \<in> set (file_blocks d)"
    using sector_of_in [OF nsec_covers [OF p]] disk_ok_data [OF assms(1)] by blast
  then show "file_bytes c d ! p = replicate (nat (dlength d)) 0 ! p"
    using file_bytes_nth [OF io p] assms(3) p by simp
qed

text \<open>The new file is all zeros; on a full disk the sectors that were found are lost.\<close>

lemma inode_create_grew:
  fixes s :: "'z fs_state_scheme"
  assumes "fs_ok s" and sec: "used s sec" "sec \<notin> fm_sectors s" and len: "0 \<le> len" "sector_count len \<le> 123"
  obtains ok d s' ts where "inode_create sec len isdir s = Some (ok, s')" "grew ip {sec} ts s s'" "inodes s' = inodes s"
    "ok \<longrightarrow> bc_sect s' sec = inode_disk_bytes d \<and> disk_wf d \<and> disk_ok s' d \<and> set (file_blocks d) = set ts \<and>
      dlength d = len \<and> is_dir d = isdir \<and> length ts = sector_count len \<and> file_bytes (bc_sect s') d = replicate (nat len) 0"
    "length ts \<le> sector_count len \<and> (\<not> ok \<longrightarrow> length ts < sector_count len \<and> (\<forall>t. unat t < bit_cnt (free_map s') \<longrightarrow> used s' t))"
proof -
  define d where "d = \<lparr>direct_blocks = replicate 123 0, indirect_block = 0, doubly_indirect_block = 0,
              is_dir = isdir, dlength = len, magic = INODE_MAGIC\<rparr>"
  have d0: "disk_ok s (d\<lparr>dlength := 0\<rparr>)" by (simp add: disk_ok_def d_def nsec_def sector_count_def file_blocks_def)
  have "dlength (d\<lparr>dlength := 0\<rparr>) \<le> len" using len(1) by simp
  from inode_reserve_small [where n = 1, OF assms(1) d0 this len(2)] obtain ok bs s1 ts where
    r: "inode_reserve (inode_write_at_depth (Suc 1)) (d\<lparr>dlength := 0\<rparr>) len s = Some (ok, d\<lparr>dlength := 0, direct_blocks := bs\<rparr>, s1)"
    "took ts s s1" "length bs = 123"
    "disk_ok s1 (d\<lparr>dlength := 0, direct_blocks := bs, dlength := if ok then len else dlength (d\<lparr>dlength := 0\<rparr>)\<rparr>)"
    "mset (file_blocks (d\<lparr>dlength := 0, direct_blocks := bs\<rparr>)) = mset (file_blocks (d\<lparr>dlength := 0\<rparr>)) + mset ts"
    "\<forall>j < 123. bs ! j \<noteq> direct_blocks (d\<lparr>dlength := 0\<rparr>) ! j \<longrightarrow> bs ! j \<in> set ts"
    "length ts \<le> sector_count len \<and> (\<not> ok \<longrightarrow> length ts < sector_count len \<and> (\<forall>t. unat t < bit_cnt (free_map s1) \<longrightarrow> used s1 t))" by metis
  let ?d = "d\<lparr>direct_blocks := bs\<rparr>"
  have ra: "inode_allocate inode_write_at d s = Some (ok, ?d, s1)"
    using inode_reserve_dlength [OF r(1) len] by (simp add: inode_allocate_def inode_write_at_def d_def numeral_2_eq_2)
  have ms: "mset (file_blocks ?d) = mset ts" using r(5) by (simp add: file_blocks_def d_def)
  have fb: "set (file_blocks ?d) = set ts" using arg_cong [OF ms, of set_mset] by simp
  have g1: "grew ip {} ts s s1" using r(2) by (rule took_grew)
  have i1: "inodes s1 = inodes s" and ok1: "fs_ok s1" using r(2) by (simp_all add: took_def)
  show ?thesis
  proof (cases ok)
    case False
    have "inode_create sec len isdir s = Some (ok, s1)" using ra False by (simp add: inode_create_def d_def Let_def)
    moreover have "grew ip {sec} ts s s1" using g1 by (simp add: grew_def)
    ultimately show ?thesis using that [of ok s1 ts] False i1 r(7) by simp
  next
    case True
    have dok: "disk_ok s1 ?d" using r(4) True by (simp add: disk_ok_def nsec_def file_blocks_def d_def)
    have lenb: "length (inode_disk_bytes ?d) = 512" using r(3) by (intro length_inode_disk_bytes) simp
    have u1: "used s1 sec" "sec \<notin> fm_sectors s1" using g1 sec by (simp_all add: grew_def)
    have v: "bc_dev_valid s1 sec" using fs_ok_facts(5) [OF ok1 u1(1)] .
    obtain s2 where s2: "buffer_cache_write sec (inode_disk_bytes ?d) s1 = Some s2" "bc_inv s2"
        "bc_dev_valid s2 = bc_dev_valid s1" "bc_sect s2 = (bc_sect s1)(sec := inode_disk_bytes ?d)"
        "bc_state.more s2 = bc_state.more s1" "inodes s2 = inodes s1" "free_map s2 = free_map s1"
        "free_map_file s2 = free_map_file s1" "files s2 = files s1" "open_inodes s2 = open_inodes s1"
      by (rule buffer_cache_write_fs [OF fs_ok_facts(1) [OF ok1] v lenb])
    have fm2: "fm_inode s2 = fm_inode s1" using s2(8,9,6) by (rule fm_inode_cong)
    have same: "\<And>t. t \<in> fm_sectors s1 \<Longrightarrow> bc_sect s2 t = bc_sect s1 t" using u1(2) s2(4) by auto
    have ok2: "fs_ok s2" "fm_sectors s2 = fm_sectors s1" "used s2 = used s1"
      by (rule fs_ok_outside [OF ok1 s2(2,3,7) fm2], erule same)+
    have g12: "grew ip {sec} [] s1 s2"
      using ok2 s2(3,4,6-10) bc_more_fs [OF s2(5)] by (simp add: grew_def get_inode_def)
    have g2: "grew ip {sec} ts s s2" using grew_trans [OF g1 g12 assms(1), of "{sec}"] by simp
    have dok2: "disk_ok s2 ?d" using dok ok2(2,3) by (simp add: disk_ok_def)
    have nsec: "nsec ?d = sector_count len" by (simp add: nsec_def d_def)
    have zero: "bc_sect s2 t = replicate 512 0" if "t \<in> set ts" for t
    proof -
      have "t \<noteq> sec" using that r(2) sec(1) by (auto simp: took_def)
      then show ?thesis using that r(2) s2(4) by (simp add: took_def zeros_def)
    qed
    have io: "inode_ok (bc_dev_valid s2) (bc_sect s2) ?d" by (rule disk_ok_inode(1) [OF ok2(1) dok2])
    have dl: "dlength ?d = len" by (simp add: d_def)
    have "sector_count len \<le> length (file_blocks ?d)"
      using filter_prefix_length [of "sector_count len" bs "\<lambda>t. t \<noteq> 0"] dok nsec r(3) len(2) by (auto simp: disk_ok_def file_blocks_def)
    then have lents: "length ts = sector_count len" using r(7) arg_cong [OF ms, of size] by simp
    have "file_bytes (bc_sect s2) ?d = replicate (nat len) 0" using file_bytes_zero [OF dok2 io] zero fb dl by simp
    moreover have "disk_wf ?d" using r(3) dl nsec_small [of ?d] len nsec by (simp add: disk_wf_def)
    moreover have "inode_create sec len isdir s = Some (ok, s2)" using ra True s2(1) by (simp add: inode_create_def d_def Let_def)
    ultimately show ?thesis
      using that [of ok s2 ts ?d] g2 True i1 s2(4,6) dok2 fb dl r(7) lents by (simp add: d_def)
  qed
qed

subsection \<open>Releasing sectors\<close>

text \<open>The sectors \<open>ts\<close> are given back; nothing else changes but the free map and its file.\<close>

definition gave :: "block_sector_t set \<Rightarrow> 'z fs_state_scheme \<Rightarrow> 'z fs_state_scheme \<Rightarrow> bool" where
  "gave ts s s' \<longleftrightarrow> fs_ok s' \<and> bit_cnt (free_map s') = bit_cnt (free_map s) \<and> (\<forall>t. used s' t \<longleftrightarrow> used s t \<and> t \<notin> ts) \<and>
     (\<forall>t. t \<notin> fm_sectors s \<longrightarrow> bc_sect s' t = bc_sect s t) \<and> fm_sectors s' = fm_sectors s \<and> inodes s' = inodes s \<and>
     files s' = files s \<and> free_map_file s' = free_map_file s \<and> open_inodes s' = open_inodes s \<and>
     bc_dev_valid s' = bc_dev_valid s \<and> fs_state.more s' = fs_state.more s"

lemma gave_refl: "fs_ok s \<Longrightarrow> gave {} s s"
  by (simp add: gave_def)

lemma gave_trans: "gave ts s t \<Longrightarrow> gave us t u \<Longrightarrow> gave (ts \<union> us) s u"
  by (auto simp: gave_def)

lemma bitmap_clear_one:
  assumes "bitmap_inv b" and "i < bit_cnt b"
  shows "\<exists>b'. bitmap_set_multiple b i 1 False = Some b' \<and> bitmap_inv b' \<and> bit_cnt b' = bit_cnt b \<and>
     (\<forall>j < bit_cnt b. bval b' j \<longleftrightarrow> bval b j \<and> j \<noteq> i)"
proof -
  have len: "length (bitmap_bits c) = bit_cnt c" for c by (simp add: bitmap_bits_def)
  obtain b' where b': "bitmap_set_multiple b i 1 False = Some b'" "bitmap_inv b'"
      "bitmap_bits b' = take i (bitmap_bits b) @ replicate 1 False @ drop (i + 1) (bitmap_bits b)"
    using bitmap_set_multiple_correct [OF assms(1), of i 1 False] assms(2) by auto
  then have eq: "bitmap_bits b' = (bitmap_bits b)[i := False]" using assms(2) len by (simp add: upd_conv_take_nth_drop)
  then have cnt: "bit_cnt b' = bit_cnt b" using len by (metis length_list_update)
  have "bval b' j \<longleftrightarrow> bval b j \<and> j \<noteq> i" if "j < bit_cnt b" for j
    using arg_cong [OF eq, of "\<lambda>xs. xs ! j"] that cnt assms(2) by (simp add: bitmap_bits_def nth_list_update split: if_splits)
  then show ?thesis using b' cnt by blast
qed

lemma free_map_release_gave:
  fixes s :: "'z fs_state_scheme"
  assumes "fs_ok s" and t: "used s t" "t \<notin> fm_sectors s" "t \<noteq> 0"
  shows "\<exists>s'. free_map_release (inode_write_at_depth (Suc n)) t 1 s = Some s' \<and> gave {t} s s'"
proof -
  let ?b = "free_map s"
  have fm: "fm_ok s" using assms(1) by (simp add: fs_ok_def)
  then have inv: "bitmap_inv ?b" by (simp add: fm_ok_def)
  obtain fmi fp where fmi: "fm_inode s = Some fmi" "free_map_file s = Some fp"
    using fm by (auto simp: fm_ok_def fm_inode_def split: option.splits bind_splits)
  obtain b' where b': "bitmap_set_multiple ?b (unat t) 1 False = Some b'" "bitmap_inv b'" "bit_cnt b' = bit_cnt ?b"
      "\<And>i. i < bit_cnt ?b \<Longrightarrow> bval b' i \<longleftrightarrow> bval ?b i \<and> i \<noteq> unat t"
    using bitmap_clear_one [OF inv, of "unat t"] t(1) by (auto simp: used_def)
  let ?s = "s\<lparr>free_map := b'\<rparr>"
  have fm1: "fm_ok ?s" using fm fmi b' by (simp add: fm_ok_def bitmap_file_size_def)
  obtain s' where s': "bitmap_write (inode_write_at_depth (Suc n)) b' fp ?s = Some (True, s')" "data_step (data fmi) ?s s'"
      "file_bytes (bc_sect s') (data fmi) = bitmap_image b'"
    using bitmap_write_saves [OF fm1, of fmi fp b' n] fmi b'(2) by auto
  note ds = data_step_fs [OF s'(2)]
  have sep: "inode_sep (bc_sect ?s) (data fmi)" "inode_ok (bc_dev_valid ?s) (bc_sect ?s) (data fmi)"
    using fm fmi by (simp_all add: fm_ok_def)
  note lay = data_step_layout [OF s'(2) sep(1)]
  have fmi': "fm_inode s' = Some fmi" using data_step_fm_inode [OF s'(2)] fmi by simp
  have fms: "fm_sectors s' = fm_sectors s" using lay(1,2) fmi fmi' by (simp add: fm_sectors_def)
  have us: "used s' u \<longleftrightarrow> used s u \<and> u \<notin> {t}" for u
    using b'(3,4) ds(3) by (auto simp: used_def word_unat_eq_iff)
  have v: "bc_dev_valid s' = bc_dev_valid s" "bc_inv s'" using s'(2) by (simp_all add: data_step_def)
  have "fm_ok s'" using fm1 lay sep(2) s'(2) fmi fmi' ds(3) by (simp add: fm_ok_def data_step_def)
  moreover have sv: "fm_saved s" using assms(1) by (simp add: fs_ok_def)
  moreover have "fm_saved s'"
    by (rule fm_saved_data_step [OF sv fmi(1) fmi' _ s'(2) sep(1)]) (use b'(2) s'(3) ds(3) in simp_all)
  ultimately have "fs_ok s'" using assms fms us v ds(3) b'(3) by (auto simp: fs_ok_def)
  moreover have "u \<notin> fm_sectors s \<Longrightarrow> bc_sect s' u = bc_sect s u" for u
    using s'(2) fmi by (simp add: fm_sectors_def data_step_def)
  ultimately have "gave {t} s s'" using us fms ds v b'(3) by (simp add: gave_def)
  then show ?thesis using b'(1) fmi(2) s'(1) by (simp add: free_map_release_def)
qed

subsection \<open>The properties of growing files\<close>

definition file_sectors :: "inode \<Rightarrow> block_sector_t set" where
  "file_sectors ino = insert (sector ino) (set (file_blocks (data ino)))"

lemma disk_grew_other_file:
  assumes "disk_grew W ts s s'" and "fs_ok s" and "file_ok s ino" and "W \<inter> file_sectors ino = {}"
  shows "file_ok s' ino" and "file_bytes (bc_sect s') (data ino) = file_bytes (bc_sect s) (data ino)"
    and "bc_sect s' (sector ino) = bc_sect s (sector ino)" and "set ts \<inter> file_sectors ino = {}"
proof -
  have f: "disk_ok s (data ino)" "used s (sector ino)" "sector ino \<notin> fm_sectors s" "W \<inter> set (file_blocks (data ino)) = {}"
    using assms(3,4) by (auto simp: file_ok_def file_sectors_def)
  note o = disk_grew_other [OF assms(1,2) f(1,4)]
  show fresh: "set ts \<inter> file_sectors ino = {}" using o(3) f(2) assms(1) by (auto simp: file_sectors_def disk_grew_def)
  then show "file_ok s' ino" using o(1) assms(1,3) by (auto simp: file_ok_def disk_grew_def)
  show "file_bytes (bc_sect s') (data ino) = file_bytes (bc_sect s) (data ino)" by (rule o(2))
  show "bc_sect s' (sector ino) = bc_sect s (sector ino)"
    using assms(1,4) f(3) fresh by (auto simp: disk_grew_def file_sectors_def)
qed

lemmas grew_other_file = disk_grew_other_file [OF grew_disk]

lemma all_used:
  assumes "fs_ok s" and "\<forall>t. unat t < bit_cnt (free_map s) \<longrightarrow> used s t"
  shows "\<forall>i < bit_cnt (free_map s). bval (free_map s) i"
proof (intro allI impI)
  fix i assume i: "i < bit_cnt (free_map s)"
  then have "i < 2 ^ 32" using assms(1) by (simp add: fs_ok_def fm_ok_def)
  then have "unat (of_nat i :: block_sector_t) = i" by (simp add: unat_of_nat take_bit_nat_eq_self)
  then show "bval (free_map s) i" using assms(2) i by (auto simp: used_def dest: spec [of _ "of_nat i"])
qed

text \<open>
  C16. A write that starts inside of a file or at its end and ends beyond its end makes the file longer, up to 123
  sectors: afterwards the file ends where the write ends, it holds what was before the start of the write followed by
  what was written, and the inode on disk is up to date; or the disk is full, 0 is returned and no byte of the file has
  changed. The comment on \<open>inode_write_at\<close> and two in \<open>file.c\<close> say that growth is not implemented; it is. Every other open file with sectors of its own keeps its inode and
  its bytes, and none of the sectors taken is one of its.
\<close>

theorem inode_write_at_extends:
  fixes s :: "'z fs_state_scheme"
  assumes "fs_ok s" and "get_inode ip s = Some ino" and "file_ok s ino"
    and "0 \<le> ofs" "ofs \<le> dlength (data ino)" "dlength (data ino) < ofs + sz" "sector_count (ofs + sz) \<le> 123" "sz \<le> int (length buf)"
  shows "\<exists>n s' ino'. inode_write_at ip buf sz ofs s = Some (n, s') \<and> fs_ok s' \<and> get_inode ip s' = Some ino' \<and> file_ok s' ino' \<and>
    (n = sz \<and> bc_sect s' (sector ino) = inode_disk_bytes (data ino') \<and>
       file_bytes (bc_sect s') (data ino') = take (nat ofs) (file_bytes (bc_sect s) (data ino)) @ take (nat sz) buf \<or>
     n = 0 \<and> (\<forall>i < bit_cnt (free_map s'). bval (free_map s') i) \<and>
       file_bytes (bc_sect s') (data ino') = file_bytes (bc_sect s) (data ino)) \<and>
    (\<forall>j other. j \<noteq> ip \<and> get_inode j s = Some other \<and> file_ok s other \<and> file_sectors ino \<inter> file_sectors other = {} \<longrightarrow>
       get_inode j s' = Some other \<and> file_ok s' other \<and> file_sectors ino' \<inter> file_sectors other = {} \<and>
       file_bytes (bc_sect s') (data other) = file_bytes (bc_sect s) (data other))"
proof -
  obtain ok d' s' ts where w: "inode_write_at ip buf sz ofs s = Some (if ok then sz else 0, s')"
    "grew ip (insert (sector ino) (set (file_blocks (data ino)))) ts s s'"
    "get_inode ip s' = Some (ino\<lparr>data := d'\<rparr>)" "file_ok s' (ino\<lparr>data := d'\<rparr>)"
    "mset (file_blocks d') = mset (file_blocks (data ino)) + mset ts"
    "file_bytes (bc_sect s') d' = (if ok then take (nat ofs) (file_bytes (bc_sect s) (data ino)) @ take (nat sz) buf
       else file_bytes (bc_sect s) (data ino))"
    "ok \<longrightarrow> bc_sect s' (sector ino) = inode_disk_bytes d'"
    "length ts \<le> sector_count (ofs + sz) \<and> (\<not> ok \<longrightarrow> length ts < sector_count (ofs + sz) \<and> (\<forall>t. unat t < bit_cnt (free_map s') \<longrightarrow> used s' t))"
    "is_dir d' = is_dir (data ino) \<and> (ok \<longrightarrow> tight (data ino) \<longrightarrow> tight d')"
    by (rule inode_write_at_grew [OF assms])
  have fb: "file_sectors (ino\<lparr>data := d'\<rparr>) = file_sectors ino \<union> set ts"
    using arg_cong [OF w(5), of set_mset] by (simp add: file_sectors_def)
  have g: "grew ip (file_sectors ino) ts s s'" using w(2) by (simp add: file_sectors_def)
  have other: "get_inode j s' = Some other \<and> file_ok s' other \<and> file_sectors (ino\<lparr>data := d'\<rparr>) \<inter> file_sectors other = {} \<and>
       file_bytes (bc_sect s') (data other) = file_bytes (bc_sect s) (data other)"
    if "j \<noteq> ip" "get_inode j s = Some other" "file_ok s other" "file_sectors ino \<inter> file_sectors other = {}" for j other
    using that grew_other_file [OF g assms(1) that(3,4)] g fb by (auto simp: grew_def)
  have "fs_ok s'" using g by (simp add: grew_def)
  moreover from this have "(if ok then sz else 0) = sz \<and> bc_sect s' (sector ino) = inode_disk_bytes (data (ino\<lparr>data := d'\<rparr>)) \<and>
       file_bytes (bc_sect s') (data (ino\<lparr>data := d'\<rparr>)) = take (nat ofs) (file_bytes (bc_sect s) (data ino)) @ take (nat sz) buf \<or>
     (if ok then sz else 0) = 0 \<and> (\<forall>i < bit_cnt (free_map s'). bval (free_map s') i) \<and>
       file_bytes (bc_sect s') (data (ino\<lparr>data := d'\<rparr>)) = file_bytes (bc_sect s) (data ino)"
    using w(6-8) all_used [of s'] by (cases ok) simp_all
  ultimately show ?thesis
    by (intro exI [of _ "if ok then sz else 0"] exI [of _ s'] exI [of _ "ino\<lparr>data := d'\<rparr>"]) (use w(1,3,4) other in blast)
qed

subsection \<open>An example\<close>

lemma bval_63: assumes "n < 7" shows "bval \<lparr>bit_cnt = 7, bits = [63]\<rparr> n \<longleftrightarrow> n < 6"
proof -
  have "(63 :: 64 word) = mask 6" by (simp add: mask_eq_exp_minus_1)
  then have "bit (63 :: 64 word) n \<longleftrightarrow> n < 6" using assms by (simp only: bit_mask_iff possible_bit_word) auto
  then show ?thesis using assms by (simp add: bval_def)
qed

lemma fs_example_used [simp]: "used (fs_example h 63) t \<longleftrightarrow> t < 6"
proof -
  have "t < 6 \<longleftrightarrow> unat t < 6" by (simp add: word_less_nat_alt)
  then show ?thesis using bval_63 [of "unat t"] by (auto simp: used_def)
qed

text \<open>An image whose free map is up to date: its inode is in sector 0, and its bits in sector 2.\<close>

definition saved_image :: "64 word \<Rightarrow> byte list" where
  "saved_image w = inode_disk_bytes (disk_inode_example [2] 8) @ replicate 512 0 @ le_bytes 8 w"

lemma disk_example_8 [simp]:
  "nsec (disk_inode_example [2] 8) = 1" "data_sectors c (disk_inode_example [2] 8) = [2]"
  "index_blocks c (disk_inode_example [2] 8) (Suc 0) = []" "disk_wf (disk_inode_example [2] 8)"
  "length (inode_disk_bytes (disk_inode_example [2] 8)) = 512"
proof -
  have d: "nsec (disk_inode_example [2] 8) = 1" "length (direct_blocks (disk_inode_example [2] 8)) = 123"
      "take 1 (direct_blocks (disk_inode_example [2] 8)) = [2]"
    by (simp_all add: nsec_def sector_count_def disk_inode_example_def)
  then show "nsec (disk_inode_example [2] 8) = 1" "data_sectors c (disk_inode_example [2] 8) = [2]"
    "index_blocks c (disk_inode_example [2] 8) (Suc 0) = []" "disk_wf (disk_inode_example [2] 8)"
    "length (inode_disk_bytes (disk_inode_example [2] 8)) = 512"
    using direct_data_sectors [OF d(2), of c] length_inode_disk_bytes [OF d(2)]
    by (simp_all add: disk_wf_def)
qed

lemma fs_example_saved:
  assumes h: "h = inode_disk_bytes (disk_inode_example [2] 8) @ r @ le_bytes 8 w @ r'" and len: "length r = 512" "length r' \<le> 3064"
  shows "bc_sect (fs_example h x) 0 = inode_disk_bytes (disk_inode_example [2] 8)"
    and "file_bytes (bc_sect (fs_example h x)) (disk_inode_example [2] 8) = bitmap_image \<lparr>bit_cnt = n, bits = [w]\<rparr>"
proof -
  have lh: "length h \<le> 4096" using len by (simp add: h)
  show "bc_sect (fs_example h x) 0 = inode_disk_bytes (disk_inode_example [2] 8)"
    using lh by (simp add: fs_example_dev [of _ _ 0] h)
  have "take 8 (bc_sect (fs_example h x) 2) = le_bytes 8 w"
    using lh len(1) by (simp add: fs_example_dev [of _ _ 2] h word_less_nat_alt take_drop)
  then show "file_bytes (bc_sect (fs_example h x)) (disk_inode_example [2] 8) = bitmap_image \<lparr>bit_cnt = n, bits = [w]\<rparr>"
    by (simp add: file_bytes_def bitmap_image_def)
qed

lemma fs_example_fs: "fs_ok (fs_example (saved_image 63) 63)" and fs_example_fm_sectors [simp]: "fm_sectors (fs_example h 63) = {0, 2}"
proof -
  show fms: "fm_sectors (fs_example h 63) = {0, 2}" for h using fs_example_fmi by (simp add: fm_sectors_def)
  have h: "saved_image 63 = inode_disk_bytes (disk_inode_example [2] 8) @ replicate 512 0 @ le_bytes 8 (63 :: 64 word) @ []"
    by (simp add: saved_image_def)
  have "fm_saved (fs_example (saved_image 63) 63)"
    using fs_example_saved [OF h, of 63] fs_example_fmi
    by (auto simp: fm_saved_def bitmap_inv_def elem_cnt_def DIV_ROUND_UP_def ELEM_BITS_def intro!: exI [of _ "\<lparr>bit_cnt = 7, bits = [63]\<rparr>"])
  moreover have "bc_dev_valid (fs_example h 63) t" if "unat t < 7" for h t using that by (simp add: word_less_nat_alt)
  ultimately show "fs_ok (fs_example (saved_image 63) 63)" using fs_example_fm fms by (simp add: fs_ok_def)
qed

lemma fs_example_file [simp]: "file_ok (fs_example h 63) (inode_example 3 [4, 5] 600)"
proof -
  have "direct_blocks (disk_inode_example [4, 5] 600) = [4, 5] @ replicate 121 0" "nsec (disk_inode_example [4, 5] 600) = 2"
    by (simp_all add: nsec_def sector_count_def disk_inode_example_def)
  moreover have "\<forall>i < 2. ([4, 5] @ replicate 121 (0 :: block_sector_t)) ! i \<noteq> 0" by (auto simp: less_2_cases_iff)
  ultimately show ?thesis by (simp add: file_ok_def disk_ok_def file_blocks_def)
qed

text \<open>One sector is free: a file of 600 bytes in two sectors grows to 1100 bytes in three.\<close>

theorem inode_write_at_extends_witness:
  "\<exists>n s' ino'. inode_write_at 1 (replicate 500 7) 500 600 (fs_example (saved_image 63) 63) = Some (n, s') \<and> fs_ok s' \<and>
     get_inode 1 s' = Some ino' \<and> file_ok s' ino'"
  using inode_write_at_extends [of "fs_example (saved_image 63) 63" 1 "inode_example 3 [4, 5] 600" 600 500 "replicate 500 7"] fs_example_fs
  by (auto simp: sector_count_def)

end
