(* ===== verification/Create.thy ===== *)
theory Create
  imports Inode_Growth Filesys
begin

text \<open>
  Making and opening files by name: \<open>filesys_create\<close> and \<open>filesys_open\<close> (\<open>src/a3/fs/filesys.c\<close>) on a mounted file
  system, composed of the free map, the inodes, the directory and the table of open files.

  \<open>mounted\<close> is the invariant of a file system between two commands: \<open>fs_ok\<close>, an intact root directory \<open>rd\<close> on the disk, and
  open inodes in sectors that are marked in the free map. The root directory is closed, as after \<open>filesys_init\<close>, or it is
  the current directory and open. \<open>root_ok\<close> and \<open>closable\<close> hold within a command: \<open>dir_open_root\<close> leads from \<open>mounted\<close> to
  \<open>closable\<close> (\<open>mounted_open\<close>) and \<open>dir_close\<close> back (\<open>mounted_close\<close>), and every step between them keeps \<open>closable\<close>.
\<close>

subsection \<open>The mounted root directory\<close>

definition root_ok :: "'z dir_state_scheme \<Rightarrow> nat \<Rightarrow> dir \<Rightarrow> inode \<Rightarrow> bool" where
  "root_ok s dp d ino \<longleftrightarrow> fs_ok s \<and> cwd s = Some dp \<and> get_dir dp s = Some d \<and>
     get_inode (d_inode d) s = Some ino \<and> d_inode d \<in> set (open_inodes s) \<and> file_ok s ino \<and> 36 \<le> dlength (data ino) \<and>
     used s ROOT_DIR_SECTOR \<and>
     (\<forall>ip \<in> set (open_inodes s). \<exists>i. get_inode ip s = Some i \<and> used s (sector i))"

definition free_sectors :: "'z fs_state_scheme \<Rightarrow> block_sector_t set" where
  "free_sectors s = {t. unat t < bit_cnt (free_map s) \<and> \<not> used s t}"

lemma root_ok_facts:
  assumes "root_ok s dp d ino"
  shows "fs_ok s" "cwd s = Some dp" "get_dir dp s = Some d"
    "get_inode (d_inode d) s = Some ino" "file_ok s ino" "disk_ok s (data ino)"
    "\<And>ip. ip \<in> set (open_inodes s) \<Longrightarrow> \<exists>i. get_inode ip s = Some i \<and> used s (sector i)"
  using assms by (auto simp: root_ok_def file_ok_def)

lemma root_dir_ok: "root_ok s dp d ino \<Longrightarrow> dir_ok s dp d ino"
  using disk_ok_inode [of s "data ino"] fs_ok_facts(1) [of s] by (auto simp: root_ok_def dir_ok_def file_ok_def)

text \<open>What the invariants of the file system depend on; directories and the table of files are not part of it.\<close>

definition same_fs :: "'z fs_state_scheme \<Rightarrow> 'z fs_state_scheme \<Rightarrow> bool" where
  "same_fs s s' \<longleftrightarrow> bc_inv s' = bc_inv s \<and> bc_sect s' = bc_sect s \<and> bc_dev_valid s' = bc_dev_valid s \<and> free_map s' = free_map s \<and>
     fm_inode s' = fm_inode s"

lemma same_fs_ok:
  assumes "same_fs s s'"
  shows "fs_ok s' = fs_ok s" "used s' = used s" "fm_sectors s' = fm_sectors s" "file_ok s' = file_ok s" "disk_ok s' = disk_ok s"
    "free_sectors s' = free_sectors s"
proof -
  have s: "bc_inv s' = bc_inv s" "bc_sect s' = bc_sect s" "bc_dev_valid s' = bc_dev_valid s" "free_map s' = free_map s"
      "fm_inode s' = fm_inode s"
    using assms by (simp_all add: same_fs_def)
  show us: "used s' = used s" using s by (simp add: used_def fun_eq_iff)
  show fs: "fm_sectors s' = fm_sectors s" using s by (simp add: fm_sectors_def split: option.splits)
  show "fs_ok s' = fs_ok s" using s us fs by (simp add: fs_ok_def fm_ok_def fm_saved_def split: option.splits)
  show d: "disk_ok s' = disk_ok s" using us fs by (simp add: disk_ok_def fun_eq_iff)
  show "file_ok s' = file_ok s" using us fs d by (simp add: file_ok_def fun_eq_iff)
  show "free_sectors s' = free_sectors s" using us s by (simp add: free_sectors_def)
qed

lemma set_dir_fs [simp]:
  "bc_sect (set_dir dp d s) = bc_sect s" "bc_inv (set_dir dp d s) = bc_inv s" "bc_dev_valid (set_dir dp d s) = bc_dev_valid s"
  "free_map (set_dir dp d s) = free_map s" "get_inode ip (set_dir dp d s) = get_inode ip s" "inodes (set_dir dp d s) = inodes s"
  "open_inodes (set_dir dp d s) = open_inodes s" "files (set_dir dp d s) = files s" "free_map_file (set_dir dp d s) = free_map_file s"
  "cwd (set_dir dp d s) = cwd s" "file_table (set_dir dp d s) = file_table s"
  by (simp_all add: set_dir_def bc_inv_def bc_sect_def bc_dev_def bc_dev_valid_def get_inode_def)

lemma dir_upd_fs [simp]:
  fixes s :: "'z dir_state_scheme"
  shows "bc_sect (s\<lparr>dirs := x\<rparr>) = bc_sect s" "bc_inv (s\<lparr>dirs := x\<rparr>) = bc_inv s" "bc_dev_valid (s\<lparr>dirs := x\<rparr>) = bc_dev_valid s"
    "get_inode ip (s\<lparr>dirs := x\<rparr>) = get_inode ip s" "bc_sect (s\<lparr>cwd := c\<rparr>) = bc_sect s" "bc_inv (s\<lparr>cwd := c\<rparr>) = bc_inv s"
    "bc_dev_valid (s\<lparr>cwd := c\<rparr>) = bc_dev_valid s" "get_inode ip (s\<lparr>cwd := c\<rparr>) = get_inode ip s" "get_dir dp (s\<lparr>cwd := c\<rparr>) = get_dir dp s"
  by (simp_all add: bc_inv_def bc_sect_def bc_dev_def bc_dev_valid_def get_inode_def get_dir_def)

lemma file_table_upd_fs [simp]:
  fixes s :: "'z file_state_scheme"
  shows "bc_sect (s\<lparr>file_table := x\<rparr>) = bc_sect s" "bc_inv (s\<lparr>file_table := x\<rparr>) = bc_inv s"
    "bc_dev_valid (s\<lparr>file_table := x\<rparr>) = bc_dev_valid s"
    "get_file fp (s\<lparr>file_table := x\<rparr>) = get_file fp s" "get_inode ip (s\<lparr>file_table := x\<rparr>) = get_inode ip s"
  by (simp_all add: bc_inv_def bc_sect_def bc_dev_def bc_dev_valid_def get_inode_def get_file_def)

lemma same_fs_upd:
  fixes s :: "'z dir_state_scheme" and t :: "'y file_state_scheme"
  shows "same_fs s (set_dir dp d s)" "same_fs s (s\<lparr>dirs := x\<rparr>)" "same_fs s (s\<lparr>cwd := c\<rparr>)" "same_fs t (t\<lparr>file_table := y\<rparr>)"
proof -
  have "fm_inode (set_dir dp d s) = fm_inode s" "fm_inode (s\<lparr>dirs := x\<rparr>) = fm_inode s" "fm_inode (s\<lparr>cwd := c\<rparr>) = fm_inode s"
      "fm_inode (t\<lparr>file_table := y\<rparr>) = fm_inode t"
    by (rule fm_inode_cong; simp)+
  then show "same_fs s (set_dir dp d s)" "same_fs s (s\<lparr>dirs := x\<rparr>)" "same_fs s (s\<lparr>cwd := c\<rparr>)" "same_fs t (t\<lparr>file_table := y\<rparr>)"
    by (simp_all add: same_fs_def)
qed

lemmas same_fs_simps [simp] = same_fs_upd [THEN same_fs_ok(1)] same_fs_upd [THEN same_fs_ok(2)] same_fs_upd [THEN same_fs_ok(3)]
  same_fs_upd [THEN same_fs_ok(4)] same_fs_upd [THEN same_fs_ok(5)] same_fs_upd [THEN same_fs_ok(6)]

lemma get_set_dir: "get_dir dp s = Some d \<Longrightarrow> get_dir dp (set_dir dp x s) = Some x"
  by (simp add: get_dir_def set_dir_def deref_eq_Some)

lemma set_dir_back: "get_dir dp s = Some d \<Longrightarrow> set_dir dp d (set_dir dp x s) = s"
  by (auto simp: get_dir_def set_dir_def deref_eq_Some list_update_same_conv)

text \<open>Steps that take sectors and change no open inode keep the mounted root directory.\<close>

lemma root_grew:
  assumes "root_ok s dp d ino" and "grew ip W ts s s'" and "inodes s' = inodes s"
  shows "root_ok s' dp d ino"
proof -
  have "file_ok s' ino" using assms(1,2) by (auto simp: root_ok_def file_ok_def disk_ok_def grew_def)
  moreover have "get_inode j s' = get_inode j s" for j using assms(3) by (simp add: get_inode_def)
  moreover have "fs_state.more s' = fs_state.more s" using assms(2) by (simp add: grew_def)
  ultimately show ?thesis using assms(1,2) bc_step_dirs [of s' s] by (fastforce simp: root_ok_def grew_def)
qed

lemma root_set_dir: "root_ok s dp d ino \<Longrightarrow> d_inode d' = d_inode d \<Longrightarrow> root_ok (set_dir dp d' s) dp d' ino"
  by (auto simp: root_ok_def get_set_dir)

lemma free_sectors_grew:
  assumes "disk_grew W ts s s'"
  shows "card (free_sectors s') = card (free_sectors s) - length ts" and "set ts \<subseteq> free_sectors s"
proof -
  show sub: "set ts \<subseteq> free_sectors s" using assms by (auto simp: disk_grew_def free_sectors_def used_def)
  have "free_sectors s' = free_sectors s - set ts" using assms by (auto simp: free_sectors_def disk_grew_def)
  moreover have "card (set ts) = length ts" using assms by (simp add: disk_grew_def distinct_card)
  ultimately show "card (free_sectors s') = card (free_sectors s) - length ts" using sub by (simp add: card_Diff_subset)
qed

text \<open>When all sectors are taken, there were no more than those that were taken.\<close>

lemma grew_full:
  assumes "disk_grew W ts s s'" and "\<forall>t. unat t < bit_cnt (free_map s') \<longrightarrow> used s' t"
  shows "card (free_sectors s) = length ts"
proof -
  have "free_sectors s = set ts" using assms free_sectors_grew(2) [OF assms(1)] by (auto simp: disk_grew_def free_sectors_def)
  then show ?thesis using assms(1) by (simp add: disk_grew_def distinct_card)
qed

subsection \<open>Taking sectors for a file\<close>

lemma free_map_allocate_grew:
  fixes s :: "'z fs_state_scheme"
  assumes "fs_ok s" and "free_sectors s \<noteq> {}"
  obtains t s' where "free_map_allocate inode_write_at 1 s = Some (Some t, s')" "grew ip {} [t] s s'" "inodes s' = inodes s"
    "t \<notin> fm_sectors s"
proof -
  obtain r s' where a: "free_map_allocate inode_write_at 1 s = Some (r, s')"
     "case r of
        None \<Rightarrow> s' = s \<and> (\<forall>t. unat t < bit_cnt (free_map s) \<longrightarrow> used s t)
      | Some t \<Rightarrow> \<not> used s t \<and> unat t < bit_cnt (free_map s) \<and> fs_ok s' \<and> bit_cnt (free_map s') = bit_cnt (free_map s) \<and>
          (\<forall>u. used s' u \<longleftrightarrow> used s u \<or> u = t) \<and> (\<forall>u. u \<notin> fm_sectors s \<longrightarrow> bc_sect s' u = bc_sect s u) \<and>
          fm_sectors s' = fm_sectors s \<and> inodes s' = inodes s \<and> files s' = files s \<and> free_map_file s' = free_map_file s \<and>
          open_inodes s' = open_inodes s \<and> bc_dev_valid s' = bc_dev_valid s \<and> fs_state.more s' = fs_state.more s"
    using free_map_allocate_took [OF assms(1), of 1] by (auto simp: inode_write_at_def numeral_2_eq_2)
  obtain t where t: "r = Some t" using a(2) assms(2) by (cases r) (auto simp: free_sectors_def)
  then have "grew ip {} [t] s s'" using a(2) by (auto simp: grew_def get_inode_def)
  moreover have "t \<notin> fm_sectors s" using a(2) t fs_ok_facts(2) [OF assms(1)] by auto
  ultimately show ?thesis using that a t by simp
qed

text \<open>Adding a name writes to the sectors of the directory only.\<close>

lemma dir_add_grew:
  fixes s :: "'z dir_state_scheme"
  assumes root: "root_ok s dp d ino" and es: "es = dir_entries (bc_sect s) (data ino)"
    and nm: "nm \<noteq> []" "length nm \<le> 30"
    and new: "\<forall>j. 1 \<le> j \<longrightarrow> j < length es \<longrightarrow> \<not> (in_use (es ! j) \<and> nm = c_string (e_name (es ! j)))"
    and slot: "find (\<lambda>j. \<not> in_use (es ! j)) [0..<length es] = Some k"
  obtains s' where "dir_add junk dp nm sec False s = Some (True, s')" "grew ip (set (file_blocks (data ino))) [] s s'"
    "inodes s' = inodes s" "root_ok s' dp d ino"
    "dir_entries (bc_sect s') (data ino) = es[k := \<lparr>inode_sector = sec, e_name = strncpy 31 nm, in_use = True\<rparr>]"
proof -
  obtain s' t where s': "dir_add junk dp nm sec False s = Some (True, s')" "bc_step s t" "data_step (data ino) t s'"
      "dir_entries (bc_sect s') (data ino) = es[k := \<lparr>inode_sector = sec, e_name = strncpy 31 nm, in_use = True\<rparr>]"
    using dir_add_step [OF root_dir_ok [OF root] es nm _ slot, of junk sec] new by blast
  note f = root_ok_facts [OF root]
  have g1: "grew j {} [] s t" for j using f(1) s'(2) by (rule bc_step_grew)
  have "fs_ok t" "disk_ok t (data ino)" using g1 [of 0] f(6) grew_other_disk(1) [OF g1 f(1,6)] by (auto simp: grew_def)
  then have g2: "grew j (set (file_blocks (data ino))) [] t s'" for j using s'(3) by (rule data_step_grew)
  have g: "grew j (set (file_blocks (data ino))) [] s s'" for j
    using grew_trans [OF g1 g2 f(1), of "set (file_blocks (data ino))"] by simp
  have i: "inodes s' = inodes s" using data_step_fs(1) [OF s'(3)] bc_step_fs(1) [OF s'(2)] by simp
  show ?thesis by (rule that [OF s'(1) g i root_grew [OF root g i] s'(4)])
qed

text \<open>A new inode in a free sector, with its data sectors.\<close>

lemma alloc_inode_grew:
  fixes s :: "'z fs_state_scheme"
  assumes "fs_ok s" and len: "0 \<le> len" "sector_count len \<le> 123" "sector_count len < card (free_sectors s)"
  obtains sec s1 s2 ts d' where "free_map_allocate inode_write_at 1 s = Some (Some sec, s1)"
    "inode_create sec len isdir s1 = Some (True, s2)" "grew ip {} (sec # ts) s s2" "inodes s2 = inodes s" "sec \<notin> fm_sectors s"
    "bc_sect s2 sec = inode_disk_bytes d'" "disk_wf d'" "disk_ok s2 d'" "set (file_blocks d') = set ts" "dlength d' = len"
    "is_dir d' = isdir" "length ts = sector_count len" "file_bytes (bc_sect s2) d' = replicate (nat len) 0"
proof -
  have "free_sectors s \<noteq> {}" using len(3) by auto
  then obtain sec s1 where s1: "free_map_allocate inode_write_at 1 s = Some (Some sec, s1)" "grew ip {} [sec] s s1"
      "inodes s1 = inodes s" "sec \<notin> fm_sectors s"
    by (rule free_map_allocate_grew [OF assms(1)])
  have fs1: "fs_ok s1" "used s1 sec" "sec \<notin> fm_sectors s1" using s1(2,4) by (auto simp: grew_def)
  have free1: "sector_count len \<le> card (free_sectors s1)"
    using free_sectors_grew(1) [OF grew_disk [OF s1(2)]] len(3) by simp
  obtain ok d' s2 ts where s2: "inode_create sec len isdir s1 = Some (ok, s2)" "grew ip {sec} ts s1 s2" "inodes s2 = inodes s1"
    "ok \<longrightarrow> bc_sect s2 sec = inode_disk_bytes d' \<and> disk_wf d' \<and> disk_ok s2 d' \<and> set (file_blocks d') = set ts \<and>
      dlength d' = len \<and> is_dir d' = isdir \<and> length ts = sector_count len \<and>
      file_bytes (bc_sect s2) d' = replicate (nat len) 0"
    "length ts \<le> sector_count len \<and>
      (\<not> ok \<longrightarrow> length ts < sector_count len \<and> (\<forall>t. unat t < bit_cnt (free_map s2) \<longrightarrow> used s2 t))"
    by (rule inode_create_grew [OF fs1 len(1,2)])
  have ok: "ok" using s2(5) grew_full [OF grew_disk [OF s2(2)]] free1 by auto
  have "grew ip {} (sec # ts) s s2" using grew_trans [OF s1(2) s2(2) assms(1), of "{}"] by simp
  then show ?thesis using that [of sec s1 s2 ts d'] s1 s2 ok by simp
qed

subsection \<open>Opening objects\<close>

text \<open>Opening allocates objects in memory and reads: the disk and what is open stay as they are.\<close>

definition more_open :: "'z fs_state_scheme \<Rightarrow> 'z fs_state_scheme \<Rightarrow> bool" where
  "more_open s s' \<longleftrightarrow> bc_inv s' \<and> bc_sect s' = bc_sect s \<and> bc_dev_valid s' = bc_dev_valid s \<and> free_map s' = free_map s \<and>
     free_map_file s' = free_map_file s \<and> fs_state.more s' = fs_state.more s \<and>
     (\<forall>j i. get_inode j s = Some i \<longrightarrow> get_inode j s' = Some i) \<and> (\<forall>j f. get_file j s = Some f \<longrightarrow> get_file j s' = Some f)"

lemma more_open_trans: "more_open s t \<Longrightarrow> more_open t u \<Longrightarrow> more_open s u"
  by (simp add: more_open_def)

lemma bc_step_more_open:
  fixes s s' :: "'z fs_state_scheme"
  shows "bc_step s s' \<Longrightarrow> more_open s s'"
  using bc_step_view [of s s'] bc_step_fs [of s s'] by (simp add: more_open_def get_file_def)

lemma more_open_fs:
  assumes "fs_ok s" and "more_open s s'"
  shows "fs_ok s'" "fm_sectors s' = fm_sectors s" "used s' = used s" "disk_ok s' = disk_ok s" "file_ok s' = file_ok s"
proof -
  have m: "bc_inv s'" "bc_sect s' = bc_sect s" "bc_dev_valid s' = bc_dev_valid s" "free_map s' = free_map s"
      "free_map_file s' = free_map_file s" "\<And>j i. get_inode j s = Some i \<Longrightarrow> get_inode j s' = Some i"
      "\<And>j f. get_file j s = Some f \<Longrightarrow> get_file j s' = Some f"
    using assms(2) by (simp_all add: more_open_def)
  obtain fp f fmi where "free_map_file s = Some fp" "get_file fp s = Some f" "get_inode (f_inode f) s = Some fmi"
    using assms(1) by (auto simp: fs_ok_def fm_ok_def fm_inode_def split: option.splits bind_splits)
  then have fm: "fm_inode s' = fm_inode s" using m(5-7) by (simp add: fm_inode_def)
  show fs: "fs_ok s'" "fm_sectors s' = fm_sectors s" "used s' = used s"
    by (rule fs_ok_outside [OF assms(1) m(1,3,4) fm], simp add: m(2))+
  then show d: "disk_ok s' = disk_ok s" by (simp add: disk_ok_def fun_eq_iff)
  then show "file_ok s' = file_ok s" using fs by (simp add: file_ok_def fun_eq_iff)
qed

lemma find_open_none:
  "\<forall>ip \<in> set ips. \<exists>i. get_inode ip s = Some i \<and> sector i \<noteq> sec \<Longrightarrow> find_open ips sec s = Some None"
  by (induction ips) auto

lemma inode_open_new:
  fixes s :: "'z fs_state_scheme"
  assumes "bc_inv s" and "bc_dev_valid s sec" and "\<forall>ip \<in> set (open_inodes s). \<exists>i. get_inode ip s = Some i \<and> sector i \<noteq> sec"
  shows "\<exists>s'. inode_open sec s = Some (length (inodes s), s') \<and> more_open s s' \<and> open_inodes s' = length (inodes s) # open_inodes s \<and>
    get_inode (length (inodes s)) s' = Some \<lparr>sector = sec, open_cnt = 1, removed = False, deny_write_cnt = 0,
      data = inode_disk_of (bc_sect s sec)\<rparr> \<and> files s' = files s"
proof -
  let ?i = "\<lparr>sector = sec, open_cnt = 1, removed = False, deny_write_cnt = 0, data = inode_disk_of (bc_sect s sec)\<rparr>"
  obtain t where t: "buffer_cache_read sec s = Some (bc_sect s sec, t)" "bc_step s t"
    using buffer_cache_read_step [OF assms(1,2)] by blast
  let ?t = "t\<lparr>inodes := inodes t @ [Some ?i], open_inodes := length (inodes s) # open_inodes t\<rparr>"
  have "more_open s ?t"
    using bc_step_view [OF t(2)] bc_step_fs [OF t(2)]
    by (auto simp: more_open_def get_inode_def get_file_def deref_eq_Some nth_append bc_inv_def bc_sect_def bc_dev_def bc_dev_valid_def)
  moreover have "get_inode (length (inodes s)) ?t = Some ?i" using bc_step_fs(1) [OF t(2)] by (simp add: get_inode_def deref_eq_Some)
  ultimately show ?thesis
    using t find_open_none [OF assms(3)] bc_step_fs [OF t(2)] by (intro exI [of _ ?t]) (simp add: inode_open_def Let_def)
qed

lemma file_open_step:
  fixes s :: "'z fs_state_scheme"
  assumes "bc_inv s"
  shows "\<exists>s'. file_open (Some ip) s = Some (Some (length (files s)), s') \<and> more_open s s' \<and> open_inodes s' = open_inodes s \<and>
    get_file (length (files s)) s' = Some \<lparr>f_inode = ip, pos = 0, deny_write = False\<rparr>"
  using assms by (auto simp: file_open_def more_open_def get_inode_def get_file_def deref_eq_Some nth_append
      bc_inv_def bc_sect_def bc_dev_def bc_dev_valid_def)

lemma root_more_open:
  assumes "root_ok s dp d ino" and "more_open s s'"
    and "\<forall>ip \<in> set (open_inodes s'). ip \<in> set (open_inodes s) \<or> (\<exists>i. get_inode ip s' = Some i \<and> used s (sector i))"
    and "set (open_inodes s) \<subseteq> set (open_inodes s')"
  shows "root_ok s' dp d ino"
proof -
  note m = more_open_fs [OF root_ok_facts(1) [OF assms(1)] assms(2)]
  have mm: "fs_state.more s' = fs_state.more s" "\<And>j i. get_inode j s = Some i \<Longrightarrow> get_inode j s' = Some i"
    using assms(2) by (simp_all add: more_open_def)
  have "\<exists>i. get_inode ip s' = Some i \<and> used s' (sector i)" if "ip \<in> set (open_inodes s')" for ip
    using that assms(3) root_ok_facts(7) [OF assms(1), of ip] mm(2) m(3) by fastforce
  then show ?thesis using assms(1,4) m mm(2) bc_step_dirs [OF mm(1)] by (auto simp: root_ok_def)
qed

subsection \<open>Opening and closing the root directory\<close>

text \<open>
  Between two commands the root directory is usually closed: then its inode is in sector 1 and not in memory. It may
  also stay open as \<open>cwd\<close>. \<open>rd\<close> is the inode of the root directory as it is on disk.
\<close>

definition root_closed :: "'z fs_state_scheme \<Rightarrow> inode_disk \<Rightarrow> bool" where
  "root_closed s rd \<longleftrightarrow>
     file_ok s \<lparr>sector = ROOT_DIR_SECTOR, open_cnt = 1, removed = False, deny_write_cnt = 0, data = rd\<rparr> \<and>
     bc_sect s ROOT_DIR_SECTOR = inode_disk_bytes rd \<and> disk_wf rd \<and>
     (\<forall>ip \<in> set (open_inodes s). \<forall>i. get_inode ip s = Some i \<longrightarrow> sector i \<noteq> ROOT_DIR_SECTOR)"

definition mounted :: "'z dir_state_scheme \<Rightarrow> inode_disk \<Rightarrow> bool" where
  "mounted s rd \<longleftrightarrow> fs_ok s \<and> 36 \<le> dlength rd \<and> names_ok (bc_sect s) rd \<and>
     (\<forall>ip \<in> set (open_inodes s). \<exists>i. get_inode ip s = Some i \<and> used s (sector i)) \<and>
     (case cwd s of
        None \<Rightarrow> root_closed s rd
      | Some dp \<Rightarrow> \<exists>d ino. root_ok s dp d ino \<and> data ino = rd \<and> 1 \<le> d_open_cnt d \<and> d_open_cnt d < 2 ^ 31 - 1)"

text \<open>A root directory that has been opened by \<open>dir_open_root\<close> and can be closed.\<close>

definition closable :: "'z dir_state_scheme \<Rightarrow> nat \<Rightarrow> dir \<Rightarrow> inode \<Rightarrow> bool" where
  "closable s dp d ino \<longleftrightarrow> root_ok s dp d ino \<and> names_ok (bc_sect s) (data ino) \<and>
     (2 \<le> d_open_cnt d \<and> d_open_cnt d < 2 ^ 31 \<or>
      d_open_cnt d = 1 \<and> open_cnt ino = 1 \<and> \<not> removed ino \<and> sector ino = ROOT_DIR_SECTOR \<and>
      bc_sect s ROOT_DIR_SECTOR = inode_disk_bytes (data ino) \<and> disk_wf (data ino) \<and>
      (\<forall>jp \<in> set (remove1 (d_inode d) (open_inodes s)). \<forall>i. get_inode jp s = Some i \<longrightarrow> sector i \<noteq> ROOT_DIR_SECTOR))"

lemma mounted_fs: "mounted s rd \<Longrightarrow> fs_ok s"
  by (simp add: mounted_def)

lemma mounted_names: "mounted s rd \<Longrightarrow> names_ok (bc_sect s) rd"
  by (simp add: mounted_def)

lemma closable_root: "closable s dp d ino \<Longrightarrow> root_ok s dp d ino"
  by (simp add: closable_def)

lemma closable_names: "closable s dp d ino \<Longrightarrow> names_ok (bc_sect s) (data ino)"
  by (simp add: closable_def)

text \<open>What the memory keeps: open inodes and files, and the table.\<close>

definition keeps :: "'z dir_state_scheme \<Rightarrow> 'z dir_state_scheme \<Rightarrow> bool" where
  "keeps s s' \<longleftrightarrow> files s' = files s \<and> file_table s' = file_table s \<and> bc_dev_valid s' = bc_dev_valid s \<and>
     (\<forall>j i. get_inode j s = Some i \<longrightarrow> get_inode j s' = Some i)"

lemma keeps_trans: "keeps s t \<Longrightarrow> keeps t u \<Longrightarrow> keeps s u"
  by (simp add: keeps_def)

lemma mounted_open:
  fixes s :: "'z dir_state_scheme"
  assumes "mounted s rd"
  obtains s0 dp d ino where "dir_open_root s = Some (Some dp, s0)" "closable s0 dp d ino" "data ino = rd" "keeps s s0"
    "disk_grew {} [] s s0" "bc_sect s0 = bc_sect s"
    "if d_open_cnt d = 1 then get_inode (d_inode d) s = None \<and> open_inodes s0 = d_inode d # open_inodes s
     else open_inodes s0 = open_inodes s"
    "(d_open_cnt d = 1 \<longleftrightarrow> cwd s = None) \<and> (if cwd s = None then d_pos d = 36 else cwd s = Some dp)"
proof (cases "cwd s")
  case (Some dp)
  then obtain d ino where r: "root_ok s dp d ino" "data ino = rd" "1 \<le> d_open_cnt d" "d_open_cnt d < 2 ^ 31 - 1"
    using assms by (auto simp: mounted_def)
  let ?d = "d\<lparr>d_open_cnt := d_open_cnt d + 1\<rparr>"
  let ?u = "set_dir dp ?d s"
  have "dir_open_root s = Some (Some dp, ?u)" using r root_ok_facts(2,3) [OF r(1)] by (simp add: dir_open_root_def)
  moreover have "closable ?u dp ?d ino" using r root_set_dir [OF r(1), of ?d] mounted_names [OF assms] by (simp add: closable_def)
  moreover have "disk_grew {} [] s ?u" using mounted_fs [OF assms] by (simp add: disk_grew_def)
  moreover have "(d_open_cnt ?d = 1 \<longleftrightarrow> cwd s = None) \<and> (if cwd s = None then d_pos ?d = 36 else cwd s = Some dp)" "d_open_cnt ?d \<noteq> 1"
    using Some r(3) by simp_all
  ultimately show ?thesis using that [of dp ?u ?d ino] r(2) by (simp add: keeps_def)
next
  case None
  let ?i = "\<lparr>sector = ROOT_DIR_SECTOR, open_cnt = 1, removed = False, deny_write_cnt = 0, data = rd\<rparr>" and ?ip = "length (inodes s)"
  let ?d = "\<lparr>d_inode = ?ip, d_pos = 36, d_open_cnt = 1\<rparr>"
  have m: "fs_ok s" "root_closed s rd" "36 \<le> dlength rd" "\<forall>ip \<in> set (open_inodes s). \<exists>i. get_inode ip s = Some i \<and> used s (sector i)"
    using assms None by (simp_all add: mounted_def)
  have rc: "file_ok s ?i" "inode_disk_of (bc_sect s ROOT_DIR_SECTOR) = rd" "used s ROOT_DIR_SECTOR" "disk_wf rd"
    "\<forall>ip \<in> set (open_inodes s). \<forall>i. get_inode ip s = Some i \<longrightarrow> sector i \<noteq> ROOT_DIR_SECTOR"
    "bc_sect s ROOT_DIR_SECTOR = inode_disk_bytes rd"
    using m(2) inode_disk_of_bytes [of rd] by (simp_all add: root_closed_def file_ok_def)
  have "\<forall>ip \<in> set (open_inodes s). \<exists>i. get_inode ip s = Some i \<and> sector i \<noteq> ROOT_DIR_SECTOR" using m(4) rc(5) by blast
  then obtain t where t: "inode_open ROOT_DIR_SECTOR s = Some (?ip, t)" "more_open s t" "open_inodes t = ?ip # open_inodes s"
      "get_inode ?ip t = Some ?i" "files t = files s"
    using inode_open_new [OF fs_ok_facts(1) [OF m(1)] fs_ok_facts(5) [OF m(1) rc(3)]] rc(2) by metis
  note mo = more_open_fs [OF m(1) t(2)]
  have tm: "bc_sect t = bc_sect s" "fs_state.more t = fs_state.more s" "\<And>j i. get_inode j s = Some i \<Longrightarrow> get_inode j t = Some i"
      "free_map t = free_map s" "bc_dev_valid t = bc_dev_valid s"
    using t(2) by (simp_all add: more_open_def)
  let ?u = "t\<lparr>dirs := dirs t @ [Some ?d], cwd := Some (length (dirs t))\<rparr>"
  have "cwd t = None" "file_table t = file_table s" using bc_step_dirs [OF tm(2)] None by simp_all
  have op: "dir_open_root s = Some (Some (length (dirs t)), ?u)"
    using None t(1) by (simp add: dir_open_root_def dir_open_def dir_entry_size_def)
  have "get_dir (length (dirs t)) ?u = Some ?d" by (simp add: get_dir_def deref_eq_Some)
  then have root: "root_ok ?u (length (dirs t)) ?d ?i"
    using m(3,4) mo rc t(3,4) tm(3) by (force simp: root_ok_def)
  have new: "get_inode ?ip s = None" by (simp add: get_inode_def deref_def arr_get_def)
  have "remove1 ?ip (open_inodes ?u) = open_inodes s" using t(3) by simp
  then have "closable ?u (length (dirs t)) ?d ?i" using root rc m(4) tm(1,3) mounted_names [OF assms] by (fastforce simp: closable_def)
  moreover have "disk_grew {} [] s ?u" using mo(1-3) m(1) tm(1,4) by (simp add: disk_grew_def)
  moreover have "keeps s ?u" using tm(3,5) t(5) \<open>file_table t = file_table s\<close> by (simp add: keeps_def)
  ultimately show ?thesis using that [OF op, of ?d ?i] tm(1) t(3) new None by simp
qed


lemma mounted_close:
  fixes s :: "'z dir_state_scheme"
  assumes "closable s dp d ino"
  obtains s' where "dir_close (Some dp) s = Some s'" "mounted s' (data ino)" "disk_grew {} [] s s'" "bc_sect s' = bc_sect s"
    "files s' = files s" "file_table s' = file_table s" "bc_dev_valid s' = bc_dev_valid s"
    "open_inodes s' = (if d_open_cnt d = 1 then remove1 (d_inode d) (open_inodes s) else open_inodes s)"
    "\<forall>j i. get_inode j s = Some i \<longrightarrow> (d_open_cnt d = 1 \<longrightarrow> j \<noteq> d_inode d) \<longrightarrow> get_inode j s' = Some i"
    "cwd s' = (if d_open_cnt d = 1 then None else cwd s)"
proof -
  have root: "root_ok s dp d ino" using assms by (rule closable_root)
  note f = root_ok_facts [OF root]
  show ?thesis
  proof (cases "d_open_cnt d = 1")
    case False
    then have c: "2 \<le> d_open_cnt d" "d_open_cnt d < 2 ^ 31" using assms by (auto simp: closable_def)
    let ?d = "d\<lparr>d_open_cnt := d_open_cnt d - 1\<rparr>"
    let ?u = "set_dir dp ?d s"
    have "dir_close (Some dp) s = Some ?u" using f(3) c by (simp add: dir_close_def)
    moreover have "mounted ?u (data ino)"
      using root_set_dir [OF root, of ?d] c f(1,2) root closable_names [OF assms] by (auto simp: mounted_def root_ok_def)
    ultimately show ?thesis using that [of ?u] f(1) False by (simp add: disk_grew_def)
  next
    case True
    let ?ip = "d_inode d" and ?ino = "ino\<lparr>open_cnt := 0\<rparr>"
    have c: "open_cnt ino = 1" "\<not> removed ino" "sector ino = ROOT_DIR_SECTOR"
        "bc_sect s ROOT_DIR_SECTOR = inode_disk_bytes (data ino)" "disk_wf (data ino)"
        "\<forall>jp \<in> set (remove1 ?ip (open_inodes s)). \<forall>i. get_inode jp s = Some i \<longrightarrow> sector i \<noteq> ROOT_DIR_SECTOR"
      using assms True by (auto simp: closable_def)
    let ?s1 = "set_dir dp (d\<lparr>d_open_cnt := 0\<rparr>) s"
    let ?t = "?s1\<lparr>inodes := (inodes ?s1)[?ip := None], open_inodes := remove1 ?ip (open_inodes ?s1)\<rparr>"
    let ?u = "?t\<lparr>dirs := (dirs ?t)[dp := None], cwd := None\<rparr>"
    have "inode_close (Some ?ip) ?s1 = Some ?t"
      using f(4) c(1,2) by (simp add: inode_close_def Let_def set_inode_def)
    then have close: "dir_close (Some dp) s = Some ?u" using f(3) True by (simp add: dir_close_def)
    have gi: "j \<noteq> ?ip \<Longrightarrow> get_inode j ?u = get_inode j s" for j by (simp add: get_inode_def deref_def arr_get_def set_dir_def)
    have gf: "get_file j ?u = get_file j s" for j by (simp add: get_file_def)
    obtain fp fl fmi where fm: "free_map_file s = Some fp" "get_file fp s = Some fl" "get_inode (f_inode fl) s = Some fmi"
      using f(1) by (auto simp: fs_ok_def fm_ok_def fm_inode_def split: option.splits bind_splits)
    have "f_inode fl \<noteq> ?ip" by (rule fm_not_file [OF f(1,4,5) fm(1,2)])
    then have "fm_inode ?u = fm_inode s" using fm gi [of "f_inode fl"] gf [of fp] by (simp add: fm_inode_def)
    then have same: "same_fs s ?u" by (simp add: same_fs_def bc_inv_def bc_sect_def bc_dev_def bc_dev_valid_def set_dir_def)
    note sf = same_fs_ok [OF same] and se = same [unfolded same_fs_def]
    have "file_ok s \<lparr>sector = ROOT_DIR_SECTOR, open_cnt = 1, removed = False, deny_write_cnt = 0, data = data ino\<rparr>"
      using f(5) c(3) by (simp add: file_ok_def)
    have ois: "open_inodes ?u = remove1 ?ip (open_inodes s)" by simp
    moreover have nin: "jp \<noteq> ?ip" if "jp \<in> set (remove1 ?ip (open_inodes s))" for jp
      using that c(3,6) f(4) by auto
    ultimately have closed: "root_closed ?u (data ino)"
      using f(5) c(3-6) sf(4) se gi by (auto simp: root_closed_def file_ok_def)
    have "\<exists>i. get_inode ip ?u = Some i \<and> used ?u (sector i)" if "ip \<in> set (open_inodes ?u)" for ip
    proof -
      have "ip \<in> set (open_inodes s)" "ip \<noteq> ?ip" using that nin [of ip] notin_set_remove1 [of ip "open_inodes s" ?ip] by auto
      then show ?thesis using f(7) gi [of ip] sf(2) by auto
    qed
    moreover have "36 \<le> dlength (data ino)" using root by (simp add: root_ok_def)
    ultimately have m: "mounted ?u (data ino)" using closed sf(1) f(1) closable_names [OF assms] se by (simp add: mounted_def)
    have "disk_grew {} [] s ?u" using f(1) sf se by (simp add: disk_grew_def)
    then show ?thesis using that [OF close m] se True gi by (simp add: set_dir_def)
  qed
qed


text \<open>Steps between the opening and the closing.\<close>

lemma closable_grew:
  assumes "closable s dp d ino" and "grew ip W ts s s'" and "inodes s' = inodes s" and "sector ino \<notin> W"
    and "names_ok (bc_sect s') (data ino)"
  shows "closable s' dp d ino"
proof -
  note root = closable_root [OF assms(1)]
  have "sector ino \<notin> set ts" "sector ino \<notin> fm_sectors s" using root_ok_facts(5) [OF root] assms(2) by (auto simp: file_ok_def grew_def)
  then have "bc_sect s' (sector ino) = bc_sect s (sector ino)" using assms(2,4) by (simp add: grew_def)
  moreover have "open_inodes s' = open_inodes s" "\<And>j. get_inode j s' = get_inode j s"
    using assms(2,3) by (simp_all add: grew_def get_inode_def)
  ultimately show ?thesis using assms(1,5) root_grew [OF root assms(2,3)] by (auto simp: closable_def)
qed

lemma closable_more_open:
  assumes "closable s dp d ino" and "more_open s s'"
    and "open_inodes s' = open_inodes s \<or> (\<exists>n i. open_inodes s' = n # open_inodes s \<and> n \<noteq> d_inode d \<and> get_inode n s' = Some i \<and>
      used s (sector i) \<and> sector i \<noteq> sector ino)"
  shows "closable s' dp d ino"
proof -
  note root = closable_root [OF assms(1)]
  have m: "bc_sect s' = bc_sect s" "\<And>j i. get_inode j s = Some i \<Longrightarrow> get_inode j s' = Some i"
    using assms(2) by (simp_all add: more_open_def)
  have root': "root_ok s' dp d ino" by (rule root_more_open [OF root assms(2)]) (use assms(3) in auto)
  have "sector i \<noteq> ROOT_DIR_SECTOR"
    if c: "sector ino = ROOT_DIR_SECTOR" "\<forall>jp \<in> set (remove1 (d_inode d) (open_inodes s)). \<forall>i. get_inode jp s = Some i \<longrightarrow> sector i \<noteq> ROOT_DIR_SECTOR"
      and jp: "jp \<in> set (remove1 (d_inode d) (open_inodes s'))" "get_inode jp s' = Some i" for jp i
  proof (cases "jp \<in> set (remove1 (d_inode d) (open_inodes s))")
    case True
    then obtain i0 where "get_inode jp s = Some i0" using root_ok_facts(7) [OF root] notin_set_remove1 by metis
    then show ?thesis using c(2) True m(2) jp(2) by fastforce
  next
    case False
    then show ?thesis using assms(3) c(1) jp by auto
  qed
  then show ?thesis using assms(1) root' m(1) unfolding closable_def by metis
qed

text \<open>What giving back sectors does to the disk: the counterpart of \<open>disk_grew\<close>.\<close>

definition freed :: "block_sector_t set \<Rightarrow> 'z fs_state_scheme \<Rightarrow> 'z fs_state_scheme \<Rightarrow> bool" where
  "freed ts s s' \<longleftrightarrow> fs_ok s' \<and> bit_cnt (free_map s') = bit_cnt (free_map s) \<and> (\<forall>t. used s' t \<longleftrightarrow> used s t \<and> t \<notin> ts) \<and>
     (\<forall>t. t \<notin> fm_sectors s \<longrightarrow> bc_sect s' t = bc_sect s t) \<and> fm_sectors s' = fm_sectors s \<and>
     bc_dev_valid s' = bc_dev_valid s \<and> fs_state.more s' = fs_state.more s"

lemma gave_freed: "gave ts s s' \<Longrightarrow> freed ts s s'"
  by (simp add: gave_def freed_def)

lemma freed_trans: "freed ts s t \<Longrightarrow> freed us t u \<Longrightarrow> freed (ts \<union> us) s u"
  by (auto simp: freed_def)

lemma freed_file_ok:
  assumes "file_ok s ino" and "freed ts s s'" and "ts \<inter> file_sectors ino = {}"
  shows "file_ok s' ino"
proof -
  have u: "\<And>t. used s' t \<longleftrightarrow> used s t \<and> t \<notin> ts" and f: "fm_sectors s' = fm_sectors s" using assms(2) by (simp_all add: freed_def)
  have "t \<notin> ts" if "t = sector ino \<or> t \<in> set (file_blocks (data ino))" for t
    using that assms(3) by (auto simp: file_sectors_def)
  then show ?thesis using assms(1) by (auto simp: file_ok_def disk_ok_def u f)
qed

lemma freed_bytes:
  assumes "freed ts s s'" and "disk_ok s d"
  shows "file_bytes (bc_sect s') d = file_bytes (bc_sect s) d"
proof -
  have d: "length (direct_blocks d) = 123" "nsec d \<le> 123" using assms(2) by (simp_all add: disk_ok_def)
  have "bc_sect s' t = bc_sect s t" if "t \<in> set (data_sectors (bc_sect s) d)" for t
  proof -
    have "t \<in> set (file_blocks d)" using that disk_ok_data [OF assms(2)] by blast
    then show ?thesis using assms by (simp add: disk_ok_def freed_def)
  qed
  then show ?thesis using direct_data_sectors(1) [OF d] by (simp add: file_bytes_def cong: map_cong)
qed

lemma free_sectors_freed:
  assumes "freed ts s s'" and "\<And>t. t \<in> ts \<Longrightarrow> used s t"
  shows "free_sectors s' = free_sectors s \<union> ts"
  using assms by (auto simp: freed_def free_sectors_def used_def)

text \<open>Inodes may be closed on the way, but not that of the directory.\<close>

lemma closable_freed:
  assumes "closable s dp d ino" and "freed ts s s'" and "ts \<inter> file_sectors ino = {}" and "ROOT_DIR_SECTOR \<notin> ts"
    and "d_inode d \<in> set (open_inodes s')"
    and mem: "\<And>ip. ip \<in> set (open_inodes s') \<Longrightarrow> ip \<in> set (open_inodes s) \<and> get_inode ip s' = get_inode ip s \<and>
      (\<forall>i. get_inode ip s = Some i \<longrightarrow> sector i \<notin> ts)"
    and rest: "set (remove1 (d_inode d) (open_inodes s')) \<subseteq> set (remove1 (d_inode d) (open_inodes s))"
  shows "closable s' dp d ino"
proof -
  note root = closable_root [OF assms(1)] and f = root_ok_facts [OF closable_root [OF assms(1)]]
  have g: "\<And>t. used s' t \<longleftrightarrow> used s t \<and> t \<notin> ts" "fs_ok s'" "fs_state.more s' = fs_state.more s"
      "\<And>t. t \<notin> fm_sectors s \<Longrightarrow> bc_sect s' t = bc_sect s t"
    using assms(2) by (simp_all add: freed_def)
  have fo: "file_ok s' ino" by (rule freed_file_ok [OF f(5) assms(2,3)])
  have o: "\<exists>i. get_inode ip s' = Some i \<and> used s' (sector i)" if "ip \<in> set (open_inodes s')" for ip
    using f(7) [of ip] mem [OF that] g(1) by auto
  have di: "get_inode (d_inode d) s' = Some ino" using mem [OF assms(5)] f(4) by simp
  then have "root_ok s' dp d ino" using root fo g(1,2) di assms(4,5) o bc_step_dirs [OF g(3)] by (simp add: root_ok_def)
  moreover have "bc_sect s' (sector ino) = bc_sect s (sector ino)" using f(5) g(4) by (simp add: file_ok_def)
  moreover have "sector i \<noteq> ROOT_DIR_SECTOR"
    if "\<forall>jp \<in> set (remove1 (d_inode d) (open_inodes s)). \<forall>i. get_inode jp s = Some i \<longrightarrow> sector i \<noteq> ROOT_DIR_SECTOR"
      "jp \<in> set (remove1 (d_inode d) (open_inodes s'))" "get_inode jp s' = Some i" for jp i
  proof -
    have "jp \<in> set (open_inodes s')" using that(2) by (meson notin_set_remove1)
    then have "get_inode jp s = Some i" using mem [of jp] that(3) by simp
    then show ?thesis using that(1,2) rest by blast
  qed
  moreover have "names_ok (bc_sect s') (data ino)"
    using names_ok_bytes [OF freed_bytes [OF assms(2) f(6)]] closable_names [OF assms(1)] by simp
  ultimately show ?thesis using assms(1) unfolding closable_def by metis
qed

lemma closable_gave:
  assumes "closable s dp d ino" and "gave ts s s'" and "ts \<inter> file_sectors ino = {}"
    and "\<forall>ip \<in> set (open_inodes s). \<forall>i. get_inode ip s = Some i \<longrightarrow> sector i \<notin> ts" and "ROOT_DIR_SECTOR \<notin> ts"
  shows "closable s' dp d ino"
proof -
  have g: "open_inodes s' = open_inodes s" "\<And>j. get_inode j s' = get_inode j s"
    using assms(2) by (simp_all add: gave_def get_inode_def)
  have "d_inode d \<in> set (open_inodes s)" using closable_root [OF assms(1)] by (simp add: root_ok_def)
  then show ?thesis by (intro closable_freed [OF assms(1) gave_freed [OF assms(2)] assms(3,5)]) (use g assms(4) in auto)
qed

text \<open>What was in memory before the opening is there after the closing.\<close>

lemma keeps_session:
  assumes "keeps s s0"
    and c: "if c then get_inode ip s = None \<and> open_inodes s0 = ip # open_inodes s else open_inodes s0 = open_inodes s"
    and mid: "\<forall>j i. get_inode j s0 = Some i \<longrightarrow> get_inode j s3 = Some i"
    and close: "\<forall>j i. get_inode j s3 = Some i \<longrightarrow> (c \<longrightarrow> j \<noteq> ip) \<longrightarrow> get_inode j s' = Some i"
    and "files s' = files s0" "file_table s' = file_table s0" "bc_dev_valid s' = bc_dev_valid s0"
  shows "keeps s s'"
proof -
  have "get_inode j s' = Some i" if j: "get_inode j s = Some i" for j i
  proof -
    have "c \<longrightarrow> j \<noteq> ip" using c j by (auto split: if_splits)
    moreover have "get_inode j s0 = Some i" using assms(1) j by (simp add: keeps_def)
    ultimately show ?thesis using mid close by blast
  qed
  then show ?thesis using assms(1,5-7) by (simp add: keeps_def)
qed

subsection \<open>Creating a file\<close>

text \<open>Inside of an open root directory: an inode in a free sector, its data sectors, and an entry in the first free slot.\<close>

lemma create_inner:
  fixes s :: "'z dir_state_scheme"
  assumes root: "root_ok s dp d ino" and es: "es = dir_entries (bc_sect s) (data ino)" and nm: "nm \<noteq> []" "length nm \<le> 30"
    and new: "\<forall>j. 1 \<le> j \<longrightarrow> j < length es \<longrightarrow> \<not> (in_use (es ! j) \<and> nm = c_string (e_name (es ! j)))"
    and slot: "find (\<lambda>j. \<not> in_use (es ! j)) [0..<length es] = Some k"
    and len: "0 \<le> len" "sector_count len \<le> 123" "sector_count len < card (free_sectors s)"
  obtains sec ts d' s1 s2 s3 where "free_map_allocate inode_write_at 1 s = Some (Some sec, s1)"
    "inode_create sec len False s1 = Some (True, s2)" "dir_add junk dp nm sec False s2 = Some (True, s3)"
    "grew ip (set (file_blocks (data ino))) (sec # ts) s s3" "inodes s3 = inodes s" "length ts = sector_count len"
    "dir_entries (bc_sect s3) (data ino) = es[k := \<lparr>inode_sector = sec, e_name = strncpy 31 nm, in_use = True\<rparr>]"
    "bc_sect s3 sec = inode_disk_bytes d'" "disk_wf d'" "disk_ok s3 d'" "set (file_blocks d') = set ts" "dlength d' = len"
    "\<not> is_dir d'" "file_bytes (bc_sect s3) d' = replicate (nat len) 0"
proof -
  note f = root_ok_facts [OF root]
  let ?W = "set (file_blocks (data ino))"
  obtain sec s1 s2 ts d' where s2: "free_map_allocate inode_write_at 1 s = Some (Some sec, s1)"
    "inode_create sec len False s1 = Some (True, s2)" "grew ip {} (sec # ts) s s2" "inodes s2 = inodes s" "sec \<notin> fm_sectors s"
    "bc_sect s2 sec = inode_disk_bytes d'" "disk_wf d'" "disk_ok s2 d'" "set (file_blocks d') = set ts" "dlength d' = len"
    "is_dir d' = False" "length ts = sector_count len" "file_bytes (bc_sect s2) d' = replicate (nat len) 0"
    by (rule alloc_inode_grew [OF f(1) len])
  have root2: "root_ok s2 dp d ino" using s2(4) by (rule root_grew [OF root s2(3)])
  have es2: "es = dir_entries (bc_sect s2) (data ino)"
    using grew_other_disk(2) [OF s2(3) f(1), of "data ino"] f(6) es by (simp add: dir_entries_def)
  obtain s3 where s3: "dir_add junk dp nm sec False s2 = Some (True, s3)" "grew ip ?W [] s2 s3" "inodes s3 = inodes s2"
    "root_ok s3 dp d ino"
    "dir_entries (bc_sect s3) (data ino) = es[k := \<lparr>inode_sector = sec, e_name = strncpy 31 nm, in_use = True\<rparr>]"
    by (rule dir_add_grew [OF root2 es2 nm new slot])
  have g: "grew ip ?W (sec # ts) s s3" using grew_trans [OF s2(3) s3(2) f(1), of ?W] by auto
  have "t \<in> ?W \<Longrightarrow> used s t" for t using f(6) by (simp add: disk_ok_def)
  then have disj: "?W \<inter> set (sec # ts) = {}" using g by (auto simp: grew_def)
  have ok2: "fs_ok s2" using s2(3) by (simp add: grew_def)
  have "?W \<inter> set (file_blocks d') = {}" using disj s2(9) by auto
  note d3 = grew_other_disk(1,2) [OF s3(2) ok2 s2(8) this]
  have "bc_sect s3 sec = bc_sect s2 sec" using s3(2) disj s2(3,5) by (auto simp: grew_def)
  then show ?thesis by (intro that [OF s2(1,2) s3(1) g]) (use s2 s3(3,5) d3 in simp_all)
qed

lemma filesys_create_mounted:
  fixes s :: "'z dir_state_scheme"
  assumes m: "mounted s rd" and es: "es = dir_entries (bc_sect s) rd" and path: "split_into (length path) path = Some (dn, nm)"
    and nm: "nm \<noteq> []" "length nm \<le> 30"
    and new: "\<forall>j. 1 \<le> j \<longrightarrow> j < length es \<longrightarrow> \<not> (in_use (es ! j) \<and> nm = c_string (e_name (es ! j)))"
    and slot: "find (\<lambda>j. \<not> in_use (es ! j)) [0..<length es] = Some k"
    and len: "0 \<le> len" "sector_count len \<le> 123" "sector_count len < card (free_sectors s)"
  obtains sec ts d' s' where "filesys_create junk path len False s = Some (True, s')" "mounted s' rd" "keeps s s'"
    "disk_grew (set (file_blocks rd)) (sec # ts) s s'" "open_inodes s' = open_inodes s" "length ts = sector_count len"
    "dir_entries (bc_sect s') rd = es[k := \<lparr>inode_sector = sec, e_name = strncpy 31 nm, in_use = True\<rparr>]"
    "bc_sect s' sec = inode_disk_bytes d'" "disk_wf d'" "disk_ok s' d'" "set (file_blocks d') = set ts" "dlength d' = len"
    "\<not> is_dir d'" "file_bytes (bc_sect s') d' = replicate (nat len) 0" "cwd s' = cwd s"
proof -
  obtain s0 dp d ino where s0: "dir_open_root s = Some (Some dp, s0)" "closable s0 dp d ino" "data ino = rd" "keeps s s0"
    "disk_grew {} [] s s0" "bc_sect s0 = bc_sect s"
    "if d_open_cnt d = 1 then get_inode (d_inode d) s = None \<and> open_inodes s0 = d_inode d # open_inodes s
     else open_inodes s0 = open_inodes s"
    "(d_open_cnt d = 1 \<longleftrightarrow> cwd s = None) \<and> (if cwd s = None then d_pos d = 36 else cwd s = Some dp)"
    by (rule mounted_open [OF m])
  note root0 = closable_root [OF s0(2)]
  have es0: "es = dir_entries (bc_sect s0) (data ino)" using es s0(3,6) by simp
  have len0: "sector_count len < card (free_sectors s0)" using len(3) free_sectors_grew(1) [OF s0(5)] by simp
  obtain sec ts d' s1 s2 s3 where s3: "free_map_allocate inode_write_at 1 s0 = Some (Some sec, s1)"
    "inode_create sec len False s1 = Some (True, s2)" "dir_add junk dp nm sec False s2 = Some (True, s3)"
    "grew 0 (set (file_blocks (data ino))) (sec # ts) s0 s3" "inodes s3 = inodes s0" "length ts = sector_count len"
    "dir_entries (bc_sect s3) (data ino) = es[k := \<lparr>inode_sector = sec, e_name = strncpy 31 nm, in_use = True\<rparr>]"
    "bc_sect s3 sec = inode_disk_bytes d'" "disk_wf d'" "disk_ok s3 d'" "set (file_blocks d') = set ts" "dlength d' = len"
    "\<not> is_dir d'" "file_bytes (bc_sect s3) d' = replicate (nat len) 0"
    by (rule create_inner [OF root0 es0 nm new slot len(1,2) len0])
  have "sector ino \<notin> set (file_blocks (data ino))" using root_ok_facts(5) [OF root0] by (simp add: file_ok_def)
  moreover have "names_ok (bc_sect s3) (data ino)"
    by (rule names_ok_update [OF closable_names [OF s0(2)] s3(7) [unfolded es0]]) (rule terminated_strncpy [OF nm(2)])
  ultimately have cl3: "closable s3 dp d ino" by (rule closable_grew [OF s0(2) s3(4,5)])
  obtain s' where s': "dir_close (Some dp) s3 = Some s'" "mounted s' (data ino)" "disk_grew {} [] s3 s'" "bc_sect s' = bc_sect s3"
    "files s' = files s3" "file_table s' = file_table s3" "bc_dev_valid s' = bc_dev_valid s3"
    "open_inodes s' = (if d_open_cnt d = 1 then remove1 (d_inode d) (open_inodes s3) else open_inodes s3)"
    "\<forall>j i. get_inode j s3 = Some i \<longrightarrow> (d_open_cnt d = 1 \<longrightarrow> j \<noteq> d_inode d) \<longrightarrow> get_inode j s' = Some i"
    "cwd s' = (if d_open_cnt d = 1 then None else cwd s3)"
    by (rule mounted_close [OF cl3])
  have op: "filesys_create junk path len False s = Some (True, s')"
    using path s0(1) s3(1-3) s'(1) by (simp add: filesys_create_def)
  have g3: "files s3 = files s0" "fs_state.more s3 = fs_state.more s0" "open_inodes s3 = open_inodes s0" "bc_dev_valid s3 = bc_dev_valid s0"
    "\<And>j. get_inode j s3 = get_inode j s0" using s3(4,5) by (simp_all add: grew_def get_inode_def)
  have "disk_grew (set (file_blocks rd)) (sec # ts) s0 s'"
    using disk_grew_trans [OF grew_disk [OF s3(4)] s'(3), of "set (file_blocks rd)"] s0(3) by auto
  then have dg: "disk_grew (set (file_blocks rd)) (sec # ts) s s'"
    using disk_grew_trans [OF s0(5), of "set (file_blocks rd)" "sec # ts" s' "set (file_blocks rd)"] by simp
  have k: "keeps s s'"
    by (rule keeps_session [OF s0(4,7) _ s'(9)]) (use s'(5-7) g3 bc_step_dirs(4) [OF g3(2)] in simp_all)
  have oi: "open_inodes s' = open_inodes s" using s0(7) s'(8) g3(3) by (auto split: if_splits)
  have "cwd s3 = Some dp" using root_ok_facts(2) [OF closable_root [OF cl3]] .
  then have cwd: "cwd s' = cwd s" using s0(8) s'(10) by (auto split: if_splits)
  have "disk_ok s' d'" using s'(3) s3(10) by (auto simp: disk_grew_def disk_ok_def)
  then show ?thesis
    by (intro that [OF op _ k dg oi s3(6), of d']) (use s0(3) s3 s'(2,4) cwd in simp_all)
qed

subsection \<open>Opening a file\<close>

lemma mounted_more_open:
  assumes "mounted s rd" and "more_open s s'" and "open_inodes s' = open_inodes s"
  shows "mounted s' rd"
proof -
  note mo = more_open_fs [OF mounted_fs [OF assms(1)] assms(2)]
  have m: "bc_sect s' = bc_sect s" "\<And>j i. get_inode j s = Some i \<Longrightarrow> get_inode j s' = Some i" "fs_state.more s' = fs_state.more s"
    using assms(2) by (simp_all add: more_open_def)
  have cwd: "cwd s' = cwd s" using bc_step_dirs [OF m(3)] by simp
  have o: "\<exists>i. get_inode ip s = Some i \<and> get_inode ip s' = Some i \<and> used s (sector i)" if "ip \<in> set (open_inodes s)" for ip
    using assms(1) that m(2) by (fastforce simp: mounted_def)
  show ?thesis
  proof (cases "cwd s")
    case None
    then have rc: "root_closed s rd" using assms(1) by (simp add: mounted_def)
    have "sector i \<noteq> ROOT_DIR_SECTOR" if "ip \<in> set (open_inodes s')" "get_inode ip s' = Some i" for ip i
      using o [of ip] that assms(3) rc by (auto simp: root_closed_def)
    then have "root_closed s' rd" using rc mo m(1) by (simp add: root_closed_def)
    then show ?thesis using assms(1,3) None cwd mo o m(1) by (force simp: mounted_def)
  next
    case (Some dp)
    then obtain d ino where r: "root_ok s dp d ino" "data ino = rd" "1 \<le> d_open_cnt d" "d_open_cnt d < 2 ^ 31 - 1"
      using assms(1) by (auto simp: mounted_def)
    have "root_ok s' dp d ino" by (rule root_more_open [OF r(1) assms(2)]) (simp_all add: assms(3))
    then show ?thesis using assms(1,3) Some cwd mo o r m(1) by (force simp: mounted_def)
  qed
qed

text \<open>A file that is in the root directory and not open.\<close>

lemma filesys_open_mounted:
  fixes s :: "'z dir_state_scheme"
  assumes m: "mounted s rd" and es: "es = dir_entries (bc_sect s) rd" and path: "split_path_filename path = (dn, nm)"
    and nm: "nm \<noteq> []" "nm \<noteq> ''.''" "nm \<noteq> ''..''"
    and j: "find (\<lambda>j. in_use (es ! j) \<and> nm = c_string (e_name (es ! j))) [1..<length es] = Some j"
    and sec: "sec = inode_sector (es ! j)" "used s sec" "\<forall>ip \<in> set (open_inodes s). \<forall>i. get_inode ip s = Some i \<longrightarrow> sector i \<noteq> sec"
    and root_sec: "sec \<noteq> ROOT_DIR_SECTOR"
  obtains s' fp ip where "filesys_open path s = Some (Some fp, s')" "mounted s' rd" "disk_grew {} [] s s'" "bc_sect s' = bc_sect s"
    "file_table s' = file_table s" "\<forall>j i. get_inode j s = Some i \<longrightarrow> get_inode j s' = Some i"
    "get_file fp s' = Some \<lparr>f_inode = ip, pos = 0, deny_write = False\<rparr>"
    "get_inode ip s' = Some \<lparr>sector = sec, open_cnt = 1, removed = False, deny_write_cnt = 0, data = inode_disk_of (bc_sect s sec)\<rparr>"
    "open_inodes s' = ip # open_inodes s" "cwd s' = cwd s"
proof -
  let ?i = "\<lparr>sector = sec, open_cnt = 1, removed = False, deny_write_cnt = 0, data = inode_disk_of (bc_sect s sec)\<rparr>"
  obtain s0 dp d ino where s0: "dir_open_root s = Some (Some dp, s0)" "closable s0 dp d ino" "data ino = rd" "keeps s s0"
    "disk_grew {} [] s s0" "bc_sect s0 = bc_sect s"
    "if d_open_cnt d = 1 then get_inode (d_inode d) s = None \<and> open_inodes s0 = d_inode d # open_inodes s
     else open_inodes s0 = open_inodes s"
    "(d_open_cnt d = 1 \<longleftrightarrow> cwd s = None) \<and> (if cwd s = None then d_pos d = 36 else cwd s = Some dp)"
    by (rule mounted_open [OF m])
  note root0 = closable_root [OF s0(2)]
  have others: "\<exists>i. get_inode ip s0 = Some i \<and> sector i \<noteq> sec" if "ip \<in> set (open_inodes s0)" for ip
  proof (cases "ip \<in> set (open_inodes s)")
    case True
    then obtain i where "get_inode ip s = Some i" using m by (auto simp: mounted_def)
    then show ?thesis using sec(3) True s0(4) by (auto simp: keeps_def)
  next
    case False
    then have "d_open_cnt d = 1" "ip = d_inode d" using that s0(7) by (auto split: if_splits)
    then show ?thesis using s0(2) root_sec root_ok_facts(4) [OF root0] by (auto simp: closable_def)
  qed
  have other: "sector ino \<noteq> sec"
    using others [of "d_inode d"] root_ok_facts(4) [OF root0] root0 by (auto simp: root_ok_def)
  obtain s1 where s1: "lookup dp nm s0 = Some (Some (es ! j, 36 * int j), s1)" "bc_step s0 s1"
    using lookup_step [OF root_dir_ok [OF root0], of es nm] closable_names [OF s0(2)] j es s0(3,6) by auto
  note m1 = bc_step_more_open [OF s1(2)]
  have cl1: "closable s1 dp d ino" using closable_more_open [OF s0(2) m1] bc_step_fs(5) [OF s1(2)] by simp
  note f1 = root_ok_facts [OF closable_root [OF cl1]]
  have u1: "used s1 sec" and sect1: "bc_sect s1 = bc_sect s"
    using more_open_fs(3) [OF root_ok_facts(1) [OF root0] m1] sec(2) s0(5,6) bc_step_view(3) [OF s1(2)] by (simp_all add: disk_grew_def)
  have "\<exists>i. get_inode ip s1 = Some i \<and> sector i \<noteq> sec" if "ip \<in> set (open_inodes s1)" for ip
    using others [of ip] that bc_step_fs(5,6) [OF s1(2)] by simp
  then obtain s2 where s2: "inode_open sec s1 = Some (length (inodes s1), s2)" "more_open s1 s2"
      "open_inodes s2 = length (inodes s1) # open_inodes s1" "get_inode (length (inodes s1)) s2 = Some ?i" "files s2 = files s1"
    using inode_open_new [of s1 sec] fs_ok_facts(1,5) [OF f1(1)] u1 sect1 by metis
  let ?n = "length (inodes s1)"
  have n: "?n \<noteq> d_inode d" using f1(4) by (auto simp: get_inode_def deref_eq_Some)
  have cl2: "closable s2 dp d ino" using closable_more_open [OF cl1 s2(2)] s2(3,4) u1 n other by auto
  have look: "dir_lookup dp nm s0 = Some (Some ?n, s2)"
    using s1(1) s2(1) nm sec(1) root_ok_facts(3) [OF root0] by (simp add: dir_lookup_def)
  obtain s3 where s3: "dir_close (Some dp) s2 = Some s3" "mounted s3 (data ino)" "disk_grew {} [] s2 s3" "bc_sect s3 = bc_sect s2"
    "files s3 = files s2" "file_table s3 = file_table s2" "bc_dev_valid s3 = bc_dev_valid s2"
    "open_inodes s3 = (if d_open_cnt d = 1 then remove1 (d_inode d) (open_inodes s2) else open_inodes s2)"
    "\<forall>j i. get_inode j s2 = Some i \<longrightarrow> (d_open_cnt d = 1 \<longrightarrow> j \<noteq> d_inode d) \<longrightarrow> get_inode j s3 = Some i"
    "cwd s3 = (if d_open_cnt d = 1 then None else cwd s2)"
    by (rule mounted_close [OF cl2])
  have i3: "get_inode ?n s3 = Some ?i" using s2(4) s3(9) n by blast
  obtain s4 where s4: "file_open (Some ?n) s3 = Some (Some (length (files s3)), s4)" "more_open s3 s4"
      "open_inodes s4 = open_inodes s3" "get_file (length (files s3)) s4 = Some \<lparr>f_inode = ?n, pos = 0, deny_write = False\<rparr>"
    using file_open_step [of s3] fs_ok_facts(1) [OF mounted_fs [OF s3(2)]] by blast
  have "path \<noteq> []" using path nm by (auto simp: split_path_filename_def strtok_all_def)
  then have op: "filesys_open path s = Some (Some (length (files s3)), s4)"
    using path nm s0(1) look s3(1) i3 s4(1) by (simp add: filesys_open_def inode_is_removed_def)
  have m4: "mounted s4 rd" using mounted_more_open [OF s3(2) s4(2,3)] s0(3) by simp
  have "disk_grew {} [] s s2"
    using s0(5,6) more_open_fs(1-3) [OF root_ok_facts(1) [OF root0] m1] more_open_fs(1-3) [OF f1(1) s2(2)] m1 s2(2)
    by (simp add: disk_grew_def more_open_def)
  then have "disk_grew {} [] s s3" using disk_grew_trans [OF _ s3(3), of "{}" "[]" s "{}"] by simp
  then have dg: "disk_grew {} [] s s4"
    using more_open_fs(1-3) [OF mounted_fs [OF s3(2)] s4(2)] s4(2) by (simp add: disk_grew_def more_open_def)
  have sect: "bc_sect s4 = bc_sect s" using s0(6) m1 s2(2) s3(4) s4(2) by (simp add: more_open_def)
  have "fs_state.more s2 = fs_state.more s0" "fs_state.more s4 = fs_state.more s3" using m1 s2(2) s4(2) by (simp_all add: more_open_def)
  then have ft: "file_table s4 = file_table s" using s0(4) s3(6) bc_step_dirs(4) [of s2 s0] bc_step_dirs(4) [of s4 s3] by (simp add: keeps_def)
  have kept: "\<forall>j i. get_inode j s = Some i \<longrightarrow> get_inode j s4 = Some i"
  proof (intro allI impI)
    fix j i assume j: "get_inode j s = Some i"
    then have "get_inode j s2 = Some i" using s0(4) m1 s2(2) by (simp add: keeps_def more_open_def)
    moreover have "d_open_cnt d = 1 \<longrightarrow> j \<noteq> d_inode d" using s0(7) j by (auto split: if_splits)
    ultimately show "get_inode j s4 = Some i" using s3(9) s4(2) by (simp add: more_open_def)
  qed
  have oi: "open_inodes s4 = ?n # open_inodes s"
    using s0(7) s3(8) s2(3) s4(3) bc_step_fs(5) [OF s1(2)] n by (auto split: if_splits)
  have "cwd s2 = Some dp" using root_ok_facts(2) [OF closable_root [OF cl2]] .
  then have cwd: "cwd s4 = cwd s" using s0(8) s3(10) bc_step_dirs(2) [of s4 s3] s4(2) by (auto simp: more_open_def split: if_splits)
  have "get_inode ?n s4 = Some ?i" using i3 s4(2) by (simp add: more_open_def)
  from that [OF op m4 dg sect ft kept s4(4) this oi cwd] show ?thesis .
qed


subsection \<open>Creating and then opening\<close>

lemma mounted_root_used: "mounted s rd \<Longrightarrow> used s ROOT_DIR_SECTOR"
  by (auto simp: mounted_def root_closed_def file_ok_def root_ok_def split: option.splits)

lemma create_open:
  fixes s :: "'z dir_state_scheme"
  assumes m: "mounted s rd" and es: "es = dir_entries (bc_sect s) rd" and path: "split_into (length path) path = Some (dn, nm)"
    and nm: "nm \<notin> {[], ''.'', ''..''}" "length nm \<le> NAME_MAX" "CHR 0x00 \<notin> set nm"
    and new: "\<forall>j. 1 \<le> j \<longrightarrow> j < length es \<longrightarrow> \<not> (in_use (es ! j) \<and> nm = c_string (e_name (es ! j)))"
    and slot: "1 \<le> k" "find (\<lambda>j. \<not> in_use (es ! j)) [0..<length es] = Some k"
    and len: "0 \<le> len" "sector_count len \<le> 123" "sector_count len < card (free_sectors s)"
  obtains s1 s2 fp ip i ts where "filesys_create junk path len False s = Some (True, s1)" "mounted s1 rd" "keeps s s1"
    "filesys_open path s1 = Some (Some fp, s2)" "mounted s2 rd" "file_table s2 = file_table s1" "free_sectors s2 = free_sectors s1"
    "\<forall>j i. get_inode j s = Some i \<longrightarrow> get_inode j s2 = Some i"
    "disk_grew (set (file_blocks rd)) (sector i # ts) s s1" "disk_grew (set (file_blocks rd)) (sector i # ts) s s2"
    "get_file fp s2 = Some \<lparr>f_inode = ip, pos = 0, deny_write = False\<rparr>" "get_inode ip s2 = Some i" "file_ok s2 i"
    "file_sectors i = set (sector i # ts)" "dlength (data i) = len" "\<not> is_dir (data i)"
    "file_bytes (bc_sect s2) (data i) = replicate (nat len) 0"
    "dir_entries (bc_sect s2) rd = es[k := \<lparr>inode_sector = sector i, e_name = strncpy 31 nm, in_use = True\<rparr>]"
    "length ts = sector_count len"
proof -
  have nm': "nm \<noteq> []" "nm \<noteq> ''.''" "nm \<noteq> ''..''" "length nm \<le> 30" using nm(1,2) by (simp_all add: NAME_MAX_def)
  let ?W = "set (file_blocks rd)"
  obtain sec ts d' s1 where s1: "filesys_create junk path len False s = Some (True, s1)" "mounted s1 rd" "keeps s s1"
    "disk_grew ?W (sec # ts) s s1" "open_inodes s1 = open_inodes s" "length ts = sector_count len"
    "dir_entries (bc_sect s1) rd = es[k := \<lparr>inode_sector = sec, e_name = strncpy 31 nm, in_use = True\<rparr>]"
    "bc_sect s1 sec = inode_disk_bytes d'" "disk_wf d'" "disk_ok s1 d'" "set (file_blocks d') = set ts" "dlength d' = len"
    "\<not> is_dir d'" "file_bytes (bc_sect s1) d' = replicate (nat len) 0" "cwd s1 = cwd s"
    by (rule filesys_create_mounted [OF m es path nm'(1,4) new slot(2) len])
  let ?i = "\<lparr>sector = sec, open_cnt = 1, removed = False, deny_write_cnt = 0, data = inode_disk_of (bc_sect s1 sec)\<rparr>"
  define es1 where "es1 = dir_entries (bc_sect s1) rd"
  have k: "k < length es" using slot(2) by (simp add: find_upt_Some)
  have find: "find (\<lambda>j. in_use (es1 ! j) \<and> nm = c_string (e_name (es1 ! j))) [1..<length es1] = Some k"
    using new nm(3) nm'(4) slot(1) k s1(7) by (auto simp: es1_def find_upt_Some nth_list_update c_string_strncpy)
  have sec: "sec = inode_sector (es1 ! k)" using k s1(7) by (simp add: es1_def)
  have used1: "used s1 sec" and fresh: "\<not> used s sec" using s1(4) by (auto simp: disk_grew_def)
  have "sector i \<noteq> sec" if ip: "ip \<in> set (open_inodes s1)" "get_inode ip s1 = Some i" for ip i
  proof -
    obtain i0 where "get_inode ip s = Some i0" "used s (sector i0)" using m ip(1) s1(5) by (auto simp: mounted_def)
    then show ?thesis using ip(2) s1(3) fresh by (auto simp: keeps_def)
  qed
  then have closed: "\<forall>ip \<in> set (open_inodes s1). \<forall>i. get_inode ip s1 = Some i \<longrightarrow> sector i \<noteq> sec" by blast
  have nroot: "sec \<noteq> ROOT_DIR_SECTOR" using fresh mounted_root_used [OF m] by auto
  obtain s2 fp ip where s2: "filesys_open path s1 = Some (Some fp, s2)" "mounted s2 rd" "disk_grew {} [] s1 s2" "bc_sect s2 = bc_sect s1"
    "file_table s2 = file_table s1" "\<forall>j i. get_inode j s1 = Some i \<longrightarrow> get_inode j s2 = Some i"
    "get_file fp s2 = Some \<lparr>f_inode = ip, pos = 0, deny_write = False\<rparr>" "get_inode ip s2 = Some ?i"
    "open_inodes s2 = ip # open_inodes s1" "cwd s2 = cwd s1"
    by (rule filesys_open_mounted [OF s1(2) es1_def split_into_path [OF path] nm'(1-3) find sec used1 closed nroot])
  have data: "inode_disk_of (bc_sect s1 sec) = d'" using s1(8) inode_disk_of_bytes [OF s1(9)] by simp
  have g2: "disk_grew ?W (sec # ts) s s2" using disk_grew_trans [OF s1(4) s2(3), of ?W] by auto
  have "sec \<notin> fm_sectors s" "sec \<notin> set ts" "fm_sectors s2 = fm_sectors s" "used s2 sec"
    using fresh fs_ok_facts(2) [OF mounted_fs [OF m]] g2 by (auto simp: disk_grew_def)
  moreover have "disk_ok s2 d'" using s1(10) s2(3) by (auto simp: disk_grew_def disk_ok_def)
  ultimately have fo: "file_ok s2 ?i" using s1(11) data by (simp add: file_ok_def)
  have fsec: "file_sectors ?i = set (sector ?i # ts)" using s1(11) data by (simp add: file_sectors_def)
  have kept: "\<forall>j i. get_inode j s = Some i \<longrightarrow> get_inode j s2 = Some i" using s1(3) s2(6) by (simp add: keeps_def)
  have "free_sectors s2 = free_sectors s1" using s2(3) by (simp add: disk_grew_def free_sectors_def)
  then show ?thesis
    by (intro that [OF s1(1-3) s2(1,2,5) _ kept _ _ s2(7,8) fo fsec]) (use s1 g2 data s2(4) in simp_all)
qed

text \<open>
  C14. A file of at most 123 sectors that is created with a new name can be opened by it: in a mounted file system whose
  root directory has a free slot, with enough free sectors and a path that has a separator, so that the arrays of the
  code have room for its two parts, \<open>filesys_create\<close> succeeds, and \<open>filesys_open\<close> then returns a new file at
  position 0 whose inode is intact and whose bytes are all zero. The directory has the new entry in its first free
  slot and all others as before; every open file with sectors of its own keeps its inode and its bytes, and shares no
  sector with the new file; and the file system is mounted as before. The root directory is closed between the two
  operations, as it is between commands, unless it was open before.
\<close>

theorem filesys_create_then_open:
  fixes s :: "'z dir_state_scheme"
  assumes "mounted s rd" and "es = dir_entries (bc_sect s) rd" and "split_into (length path) path = Some (dn, nm)"
    and "nm \<notin> {[], ''.'', ''..''}" "length nm \<le> NAME_MAX" "CHR 0x00 \<notin> set nm"
    and "\<forall>j. 1 \<le> j \<longrightarrow> j < length es \<longrightarrow> \<not> (in_use (es ! j) \<and> nm = c_string (e_name (es ! j)))"
    and "1 \<le> k" "find (\<lambda>j. \<not> in_use (es ! j)) [0..<length es] = Some k"
    and "0 \<le> len" "sector_count len \<le> 123" "sector_count len < card (free_sectors s)"
  shows "\<exists>s1 s2 fp ip i. filesys_create junk path len False s = Some (True, s1) \<and> filesys_open path s1 = Some (Some fp, s2) \<and>
    get_file fp s2 = Some \<lparr>f_inode = ip, pos = 0, deny_write = False\<rparr> \<and> get_inode ip s2 = Some i \<and> file_ok s2 i \<and>
    file_bytes (bc_sect s2) (data i) = replicate (nat len) 0 \<and> mounted s2 rd \<and>
    dir_entries (bc_sect s2) rd = es[k := \<lparr>inode_sector = sector i, e_name = strncpy 31 nm, in_use = True\<rparr>] \<and>
    (\<forall>j other. get_inode j s = Some other \<and> file_ok s other \<and> set (file_blocks rd) \<inter> file_sectors other = {} \<longrightarrow>
       get_inode j s2 = Some other \<and> file_ok s2 other \<and> file_sectors i \<inter> file_sectors other = {} \<and>
       file_bytes (bc_sect s2) (data other) = file_bytes (bc_sect s) (data other))"
proof -
  let ?W = "set (file_blocks rd)"
  obtain s1 s2 fp ip i ts where o: "filesys_create junk path len False s = Some (True, s1)" "mounted s1 rd" "keeps s s1"
    "filesys_open path s1 = Some (Some fp, s2)" "mounted s2 rd" "file_table s2 = file_table s1" "free_sectors s2 = free_sectors s1"
    "\<forall>j i. get_inode j s = Some i \<longrightarrow> get_inode j s2 = Some i"
    "disk_grew ?W (sector i # ts) s s1" "disk_grew ?W (sector i # ts) s s2"
    "get_file fp s2 = Some \<lparr>f_inode = ip, pos = 0, deny_write = False\<rparr>" "get_inode ip s2 = Some i" "file_ok s2 i"
    "file_sectors i = set (sector i # ts)" "dlength (data i) = len" "\<not> is_dir (data i)"
    "file_bytes (bc_sect s2) (data i) = replicate (nat len) 0"
    "dir_entries (bc_sect s2) rd = es[k := \<lparr>inode_sector = sector i, e_name = strncpy 31 nm, in_use = True\<rparr>]"
    "length ts = sector_count len"
    by (rule create_open [OF assms])
  have "get_inode j s2 = Some other \<and> file_ok s2 other \<and> file_sectors i \<inter> file_sectors other = {} \<and>
       file_bytes (bc_sect s2) (data other) = file_bytes (bc_sect s) (data other)"
    if "get_inode j s = Some other \<and> file_ok s other \<and> ?W \<inter> file_sectors other = {}" for j other
    using that disk_grew_other_file [OF o(10) mounted_fs [OF assms(1)], of other] o(8,14) by simp
  then show ?thesis using o(1,4,5,11-13,17,18) by blast
qed

subsection \<open>Writing by name\<close>

lemma set_file_fs_ok [simp]:
  "used (set_file fp f s) = used s" "free_map (set_file fp f s) = free_map s"
  by (simp_all add: used_def set_file_def fun_eq_iff)

text \<open>What a write leaves of an open inode, on the disk and in memory.\<close>

definition file_written :: "'z fs_state_scheme \<Rightarrow> 'z fs_state_scheme \<Rightarrow> nat \<Rightarrow> inode \<Rightarrow> inode \<Rightarrow> bool" where
  "file_written s t ip i i' \<longleftrightarrow>
     (\<exists>ts. grew ip (file_sectors i) ts s t \<and> mset (file_blocks (data i')) = mset (file_blocks (data i)) + mset ts) \<and>
     i' = i\<lparr>data := data i'\<rparr> \<and> is_dir (data i') = is_dir (data i) \<and> (tight (data i) \<longrightarrow> tight (data i')) \<and>
     (bc_sect s (sector i) = inode_disk_bytes (data i) \<longrightarrow> bc_sect t (sector i) = inode_disk_bytes (data i'))"

text \<open>A growing file behind an open file: the position moves to the second last byte, as for any write.\<close>

lemma file_write_grows:
  fixes s :: "'z fs_state_scheme"
  assumes fs: "fs_ok s" and f: "get_file fp s = Some f" and i: "get_inode (f_inode f) s = Some i" "file_ok s i"
    and p: "0 \<le> pos f" "pos f \<le> dlength (data i)" "dlength (data i) < pos f + sz" "sector_count (pos f + sz) \<le> 123"
      "sz \<le> int (length buf)" "0 < sz" and room: "sector_count (pos f + sz) \<le> card (free_sectors s)"
    and b: "b = put_at buf (nat sz - 1) [0]"
  shows "\<exists>s' t i'. file_write fp buf sz s = Some (sz, b, s') \<and> s' = set_file fp (f\<lparr>pos := pos f + sz - 2\<rparr>) t \<and> fs_ok t \<and>
    get_file fp t = Some f \<and> get_inode (f_inode f) t = Some i' \<and> file_ok t i' \<and> fs_state.more t = fs_state.more s \<and>
    dlength (data i') = pos f + sz \<and>
    file_bytes (bc_sect t) (data i') = take (nat (pos f)) (file_bytes (bc_sect s) (data i)) @ take (nat sz) b \<and>
    file_written s t (f_inode f) i i'"
proof -
  have put: "mem_put buf (sz - 1) [0] = Some b" using p by (simp add: mem_put_def b nat_diff_distrib)
  have lb: "sz \<le> int (length b)" using p by (simp add: b)
  obtain ok d' t ts where w: "inode_write_at (f_inode f) b sz (pos f) s = Some (if ok then sz else 0, t)"
    "grew (f_inode f) (insert (sector i) (set (file_blocks (data i)))) ts s t"
    "get_inode (f_inode f) t = Some (i\<lparr>data := d'\<rparr>)" "file_ok t (i\<lparr>data := d'\<rparr>)"
    "mset (file_blocks d') = mset (file_blocks (data i)) + mset ts"
    "file_bytes (bc_sect t) d' = (if ok then take (nat (pos f)) (file_bytes (bc_sect s) (data i)) @ take (nat sz) b
       else file_bytes (bc_sect s) (data i))"
    "ok \<longrightarrow> bc_sect t (sector i) = inode_disk_bytes d'"
    "length ts \<le> sector_count (pos f + sz) \<and>
      (\<not> ok \<longrightarrow> length ts < sector_count (pos f + sz) \<and> (\<forall>u. unat u < bit_cnt (free_map t) \<longrightarrow> used t u))"
    "is_dir d' = is_dir (data i) \<and> (ok \<longrightarrow> tight (data i) \<longrightarrow> tight d')"
    by (rule inode_write_at_grew [OF fs i p(1-4) lb])
  have ok: ok using w(8) grew_full [OF grew_disk [OF w(2)]] room by auto
  have fst: "fs_ok t" "get_file fp t = Some f" "fs_state.more t = fs_state.more s" using w(2) f by (simp_all add: grew_def get_file_def)
  have old: "disk_ok s (data i)" "disk_ok t d'" using i(2) w(4) by (simp_all add: file_ok_def)
  have "nat (dlength d') = nat (pos f) + nat sz"
    using length_file_bytes [OF disk_ok_inode(1) [OF fst(1) old(2)]] length_file_bytes [OF disk_ok_inode(1) [OF fs old(1)]] w(6) ok p lb
    by simp
  then have dl: "dlength d' = pos f + sz" using p old(2) by (simp add: disk_ok_def)
  have "pos f + sz \<le> 62976" using nsec_small [of d'] old(2) dl by (simp add: disk_ok_def)
  then have "file_write fp buf sz s = Some (sz, b, set_file fp (f\<lparr>pos := pos f + sz - 2\<rparr>) t)"
    using put f w(1) ok p fst(2) by (simp add: file_write_def algebra_simps)
  moreover have "file_written s t (f_inode f) i (i\<lparr>data := d'\<rparr>)"
    using w(2,3,5,7,9) ok by (auto simp: file_written_def file_sectors_def)
  ultimately show ?thesis using fst w(3,4,6) ok dl
    by (intro exI [of _ "set_file fp (f\<lparr>pos := pos f + sz - 2\<rparr>) t"] exI [of _ t] exI [of _ "i\<lparr>data := d'\<rparr>"]) simp
qed

lemma open_as_file:
  fixes s :: "'z dir_state_scheme"
  assumes "fs_ok s" and "get_file_by_fname nm s = Some fp" and "get_file fp s = Some f" and "get_inode (f_inode f) s = Some i"
    and "file_ok s i"
  shows "open_as nm fp f i s"
proof -
  have "disk_ok s (data i)" "deny_write_cnt i = 0" using assms(5) by (simp_all add: file_ok_def)
  then show ?thesis using assms disk_ok_inode [OF assms(1)] fs_ok_facts(1) [OF assms(1)] by (simp add: open_as_def)
qed

text \<open>The first write to a file that is not in the table opens it; it may be too short for what is written.\<close>

lemma fsutil_write_new:
  fixes s :: "'z dir_state_scheme"
  assumes new: "nm \<notin> fst ` set (file_table s)" and op: "filesys_open nm s = Some (Some fp, t)" "file_table t = file_table s"
    and fs: "fs_ok t" "get_file fp t = Some \<lparr>f_inode = ip, pos = 0, deny_write = False\<rparr>" "get_inode ip t = Some i" "file_ok t i"
    and sz: "sz = int (length buf)" "0 < sz" "sector_count sz \<le> 123" "sector_count sz \<le> card (free_sectors t)"
    and b: "put_at buf (nat sz - 1) [0] = buf"
  shows "\<exists>s' i'. fsutil_write nm buf sz s = Some (sz, buf, s') \<and>
    open_as nm fp \<lparr>f_inode = ip, pos = sz - 2, deny_write = False\<rparr> i' s' \<and> sz \<le> dlength (data i') \<and>
    take (nat sz) (file_bytes (bc_sect s') (data i')) = buf \<and>
    (\<exists>v. s' = set_file fp \<lparr>f_inode = ip, pos = sz - 2, deny_write = False\<rparr> v \<and> file_ok v i' \<and>
      file_written (add_to_file_table (Some fp) nm t) v ip i i')"
proof -
  let ?f = "\<lparr>f_inode = ip, pos = 0, deny_write = False\<rparr>" and ?f' = "\<lparr>f_inode = ip, pos = sz - 2, deny_write = False\<rparr>"
  let ?t = "add_to_file_table (Some fp) nm t"
  have n: "find (\<lambda>(n, _). n = nm) xs = None" if "nm \<notin> fst ` set xs" for xs :: "(string \<times> nat option) list"
    using that by (force simp: find_None_iff)
  have tab: "get_file_by_fname nm s = None" using n [OF new] by (simp add: get_file_by_fname_def)
  have find: "find (\<lambda>(n, _). n = nm) (file_table t) = None" using n new op(2) by simp
  have app: "find P xs = None \<Longrightarrow> P y \<Longrightarrow> find P (xs @ [y]) = Some y" for P xs and y :: "string \<times> nat option"
    by (induction xs) (auto split: if_splits)
  have t: "?t = t\<lparr>file_table := file_table t @ [(nm, Some fp)]\<rparr>" "get_file_by_fname nm ?t = Some fp"
    using find app [OF find, of "(nm, Some fp)"] by (simp_all add: add_to_file_table_def get_file_by_fname_def)
  have u: "fs_ok ?t" "file_ok ?t i" "bc_sect ?t = bc_sect t" "get_file fp ?t = Some ?f" "get_inode ip ?t = Some i"
    "free_sectors ?t = free_sectors t" unfolding t(1) using fs by simp_all
  have as: "open_as nm fp ?f i ?t" by (rule open_as_file [OF u(1) t(2) u(4)]) (use u in simp_all)
  have eq: "fsutil_write nm buf sz s = fsutil_write nm buf sz ?t"
    using tab op(1) t(2) by (simp add: fsutil_write_def table_file_def)
  have do: "disk_ok ?t (data i)" using u(2) by (simp add: file_ok_def)
  have lt: "length (file_bytes (bc_sect t) (data i)) = nat (dlength (data i))"
    using length_file_bytes [OF disk_ok_inode(1) [OF u(1) do]] u(3) by simp
  show ?thesis
  proof (cases "sz \<le> dlength (data i)")
    case True
    then obtain s' v where s': "fsutil_write nm buf sz ?t = Some (sz, buf, s')" "open_as nm fp ?f' i s'"
      "file_bytes (bc_sect s') (data i) = put_at (file_bytes (bc_sect ?t) (data i)) 0 (take (nat sz) buf)"
      and v: "data_step (data i) ?t v" "s' = set_file fp ?f' v"
      using fsutil_write_step [OF as, of sz buf] sz(1,2) b by auto
    have g: "grew ip (set (file_blocks (data i))) [] ?t v" by (rule data_step_grew [OF u(1) do v(1)])
    have "sector i \<notin> set (file_blocks (data i))" "sector i \<notin> fm_sectors ?t" using u(2) by (simp_all add: file_ok_def)
    then have wr: "file_written ?t v ip i i" using g by (auto simp: file_written_def grew_def file_sectors_def)
    have "file_ok v i" using u(2) grew_other_disk(1) [OF g u(1) do] g by (auto simp: file_ok_def disk_ok_def grew_def)
    note this wr s'
    moreover have "take (nat sz) (put_at (file_bytes (bc_sect t) (data i)) 0 buf) = buf"
      using True sz lt by (simp add: put_at_def)
    ultimately show ?thesis using eq True sz(1) u(3) v(2) by (intro exI [of _ s'] exI [of _ i]) auto
  next
    case False
    then have "dlength (data i) < pos ?f + sz" "0 \<le> dlength (data i)" using do by (simp_all add: disk_ok_def)
    then obtain v i' where v: "file_write fp buf sz ?t = Some (sz, buf, set_file fp ?f' v)" "fs_ok v" "get_file fp v = Some ?f"
      "get_inode ip v = Some i'" "file_ok v i'" "fs_state.more v = fs_state.more ?t" "dlength (data i') = sz"
      "file_bytes (bc_sect v) (data i') = buf" "file_written ?t v ip i i'"
      using file_write_grows [OF u(1,4), of i sz buf buf] u(2,5,6) sz b by auto
    have "get_file_by_fname nm v = Some fp" using t(2) get_file_by_fname_frame [OF v(6), of nm] by simp
    then have "open_as nm fp ?f i' v" by (rule open_as_file [OF v(2)]) (use v in simp_all)
    then have op': "open_as nm fp ?f' i' (set_file fp ?f' v)"
      using get_file_set_file [OF v(3), of ?f'] get_file_by_fname_frame [of "set_file fp ?f' v" v nm]
      by (simp add: open_as_def)
    have "fsutil_write nm buf sz s = Some (sz, buf, set_file fp ?f' v)"
      unfolding eq using v(1) t(2) by (simp add: fsutil_write_def table_file_def)
    moreover have "take (nat sz) buf = buf" "sz \<le> dlength (data i')" using sz(1) v(7) by simp_all
    ultimately show ?thesis
      using op' v(5,8,9) by (intro exI [of _ "set_file fp ?f' v"] exI [of _ i'] conjI exI [of _ v]) (simp_all only: set_file_simps)
  qed
qed

text \<open>Creating a file and writing to it, through the utilities; the file grows when it is created too short.\<close>

lemma fsutil_create_write:
  fixes s :: "'z dir_state_scheme"
  assumes m: "mounted s rd" and es: "es = dir_entries (bc_sect s) rd" and path: "split_into (length path) path = Some (dn, nm)"
    and nm: "nm \<notin> {[], ''.'', ''..''}" "length nm \<le> NAME_MAX" "CHR 0x00 \<notin> set nm"
    and new: "\<forall>j. 1 \<le> j \<longrightarrow> j < length es \<longrightarrow> \<not> (in_use (es ! j) \<and> nm = c_string (e_name (es ! j)))"
    and slot: "1 \<le> k" "find (\<lambda>j. \<not> in_use (es ! j)) [0..<length es] = Some k"
    and len: "0 \<le> len" "sector_count len \<le> 123" "sector_count len + sector_count sz < card (free_sectors s)"
    and pl: "path \<noteq> []" "length path < 255" "path \<notin> fst ` set (file_table s)"
    and sz: "sz = int (length buf)" "0 < sz" "sector_count sz \<le> 123" and b: "put_at buf (nat sz - 1) [0] = buf"
  shows "\<exists>s1 s' fp ip i. fsutil_create junk path len s = Some (1, s1) \<and> fsutil_write path buf sz s1 = Some (sz, buf, s') \<and>
    open_as path fp \<lparr>f_inode = ip, pos = sz - 2, deny_write = False\<rparr> i s' \<and> sz \<le> dlength (data i) \<and>
    take (nat sz) (file_bytes (bc_sect s') (data i)) = buf"
proof -
  let ?W = "set (file_blocks rd)"
  have len': "sector_count len < card (free_sectors s)" using len(3) by simp
  obtain s1 s2 fp ip i ts where o: "filesys_create junk path len False s = Some (True, s1)" "mounted s1 rd" "keeps s s1"
    "filesys_open path s1 = Some (Some fp, s2)" "mounted s2 rd" "file_table s2 = file_table s1" "free_sectors s2 = free_sectors s1"
    "\<forall>j i. get_inode j s = Some i \<longrightarrow> get_inode j s2 = Some i"
    "disk_grew ?W (sector i # ts) s s1" "disk_grew ?W (sector i # ts) s s2"
    "get_file fp s2 = Some \<lparr>f_inode = ip, pos = 0, deny_write = False\<rparr>" "get_inode ip s2 = Some i" "file_ok s2 i"
    "file_sectors i = set (sector i # ts)" "dlength (data i) = len" "\<not> is_dir (data i)"
    "file_bytes (bc_sect s2) (data i) = replicate (nat len) 0"
    "dir_entries (bc_sect s2) rd = es[k := \<lparr>inode_sector = sector i, e_name = strncpy 31 nm, in_use = True\<rparr>]"
    "length ts = sector_count len"
    by (rule create_open [OF m es path nm new slot len(1,2) len'])
  have tab: "path \<notin> fst ` set (file_table s1)" using pl(3) o(3) by (simp add: keeps_def)
  have "sector_count sz \<le> card (free_sectors s2)" using free_sectors_grew(1) [OF o(9)] o(7,19) len(3) by simp
  from fsutil_write_new [OF tab o(4,6) mounted_fs [OF o(5)] o(11-13) sz this b]
  show ?thesis using o(1) pl(1,2) by (auto simp: fsutil_create_def)
qed

text \<open>What makes a creation by name possible.\<close>

definition creatable :: "'z dir_state_scheme \<Rightarrow> inode_disk \<Rightarrow> string \<Rightarrow> bool" where
  "creatable s rd path \<longleftrightarrow>
     (let es = dir_entries (bc_sect s) rd; nm = snd (split_path_filename path)
      in mounted s rd \<and> split_into (length path) path \<noteq> None \<and> nm \<notin> {[], ''.'', ''..''} \<and> length nm \<le> NAME_MAX \<and> CHR 0x00 \<notin> set nm \<and>
         (\<forall>j. 1 \<le> j \<longrightarrow> j < length es \<longrightarrow> \<not> (in_use (es ! j) \<and> nm = c_string (e_name (es ! j)))) \<and>
         (\<exists>k \<ge> 1. find (\<lambda>j. \<not> in_use (es ! j)) [0..<length es] = Some k))"

lemma creatable_write:
  fixes s :: "'z dir_state_scheme"
  assumes "creatable s rd path"
    and "0 \<le> len" "sector_count len \<le> 123" "sector_count len + sector_count sz < card (free_sectors s)"
    and "path \<noteq> []" "length path < 255" "path \<notin> fst ` set (file_table s)"
    and "sz = int (length buf)" "0 < sz" "sector_count sz \<le> 123" "put_at buf (nat sz - 1) [0] = buf"
  shows "\<exists>s1 s' fp ip i. fsutil_create junk path len s = Some (1, s1) \<and> fsutil_write path buf sz s1 = Some (sz, buf, s') \<and>
    open_as path fp \<lparr>f_inode = ip, pos = sz - 2, deny_write = False\<rparr> i s' \<and> sz \<le> dlength (data i) \<and>
    take (nat sz) (file_bytes (bc_sect s') (data i)) = buf"
proof -
  obtain dn nm where p: "split_into (length path) path = Some (dn, nm)" using assms(1) by (auto simp: creatable_def Let_def)
  then obtain k where "mounted s rd" "nm \<notin> {[], ''.'', ''..''}" "length nm \<le> NAME_MAX" "CHR 0x00 \<notin> set nm"
    "\<forall>j. 1 \<le> j \<longrightarrow> j < length (dir_entries (bc_sect s) rd) \<longrightarrow>
      \<not> (in_use (dir_entries (bc_sect s) rd ! j) \<and> nm = c_string (e_name (dir_entries (bc_sect s) rd ! j)))"
    "1 \<le> k" "find (\<lambda>j. \<not> in_use (dir_entries (bc_sect s) rd ! j)) [0..<length (dir_entries (bc_sect s) rd)] = Some k"
    using assms(1) split_into_path [OF p] by (auto simp: creatable_def Let_def)
  from fsutil_create_write [OF this(1) refl p this(2-) assms(2-)] show ?thesis .
qed


subsection \<open>Listing\<close>

lemma closable_dir_step:
  fixes s :: "'z dir_state_scheme"
  assumes "closable s dp d ino" and "dir_step s s'" and "get_dir dp s' = Some d'" "d_inode d' = d_inode d" "d_open_cnt d' = d_open_cnt d"
  shows "closable s' dp d' ino"
proof -
  have st: "bc_inv s' = bc_inv s" "bc_sect s' = bc_sect s" "bc_dev_valid s' = bc_dev_valid s" "free_map s' = free_map s" "cwd s' = cwd s"
      "inodes s' = inodes s" "open_inodes s' = open_inodes s" "free_map_file s' = free_map_file s" "files s' = files s"
    using assms(2) fs_ok_facts(1) [OF root_ok_facts(1) [OF closable_root [OF assms(1)]]] by (simp_all add: dir_step_def)
  have "fm_inode s' = fm_inode s" using st(8,9,6) by (rule fm_inode_cong)
  then have "same_fs s s'" using st by (simp add: same_fs_def)
  note sf = same_fs_ok [OF this]
  have "get_inode j s' = get_inode j s" for j using st(6) by (simp add: get_inode_def)
  then show ?thesis using assms(1,3-5) sf st by (simp add: closable_def root_ok_def)
qed

text \<open>
  C30. \<open>fsutil_ls\<close> prints the names of exactly the entries in use of the root directory, in the order of the
  directory, each once; it opens and closes the root directory, returns, and leaves the disk as it is, so that a second
  call prints the same.
\<close>

theorem fsutil_ls_names:
  fixes s :: "'z dir_state_scheme"
  assumes "mounted s rd" and "cwd s = None"
  shows "\<exists>s'. fsutil_ls s = Some (0, live_names (drop 1 (dir_entries (bc_sect s) rd)), s') \<and>
    mounted s' rd \<and> cwd s' = None \<and> bc_sect s' = bc_sect s"
proof -
  let ?es = "dir_entries (bc_sect s) rd"
  obtain s0 dp d ino where s0: "dir_open_root s = Some (Some dp, s0)" "closable s0 dp d ino" "data ino = rd" "keeps s s0"
    "disk_grew {} [] s s0" "bc_sect s0 = bc_sect s"
    "if d_open_cnt d = 1 then get_inode (d_inode d) s = None \<and> open_inodes s0 = d_inode d # open_inodes s
     else open_inodes s0 = open_inodes s"
    "(d_open_cnt d = 1 \<longleftrightarrow> cwd s = None) \<and> (if cwd s = None then d_pos d = 36 else cwd s = Some dp)"
    by (rule mounted_open [OF assms(1)])
  have dok: "dir_ok s0 dp d ino" by (rule root_dir_ok [OF closable_root [OF s0(2)]])
  have es: "?es = dir_entries (bc_sect s0) (data ino)" using s0(3,6) by simp
  have b: "1 \<le> length ?es" "length ?es < entry_fuel (d_inode d) s0 + 1" using dir_entries_bounds [OF dok es] by simp_all
  obtain s1 d1 where s1: "each_name (entry_fuel (d_inode d) s0) dp (\<lambda>nm out s. Some (out @ [nm], s)) [] s0 =
      Some (fold (\<lambda>nm out. out @ [nm]) (live_names (drop 1 ?es)) [], s1)"
      "dir_ok s1 dp d1 ino" "d_inode d1 = d_inode d" "d_open_cnt d1 = d_open_cnt d" "dir_step s0 s1"
    using each_name_step [OF dok es, of 1 "entry_fuel (d_inode d) s0" "\<lambda>nm out. out @ [nm]" "[]"] s0(8) assms(2) b closable_names [OF s0(2)] by auto
  have acc: "fold (\<lambda>nm out. out @ [nm]) ns acc = acc @ ns" for ns acc :: "string list" by (induction ns arbitrary: acc) auto
  have cl1: "closable s1 dp d1 ino" by (rule closable_dir_step [OF s0(2) s1(5) dir_ok_facts(2) [OF s1(2)] s1(3,4)])
  obtain s' where s': "dir_close (Some dp) s1 = Some s'" "mounted s' (data ino)" "disk_grew {} [] s1 s'" "bc_sect s' = bc_sect s1"
    "files s' = files s1" "file_table s' = file_table s1" "bc_dev_valid s' = bc_dev_valid s1"
    "open_inodes s' = (if d_open_cnt d1 = 1 then remove1 (d_inode d1) (open_inodes s1) else open_inodes s1)"
    "\<forall>j i. get_inode j s1 = Some i \<longrightarrow> (d_open_cnt d1 = 1 \<longrightarrow> j \<noteq> d_inode d1) \<longrightarrow> get_inode j s' = Some i"
    "cwd s' = (if d_open_cnt d1 = 1 then None else cwd s1)"
    by (rule mounted_close [OF cl1])
  have "fsutil_ls s = Some (0, live_names (drop 1 ?es), s')"
    using s0(1) s1(1) s'(1) dir_ok_facts(2) [OF dok] by (simp add: fsutil_ls_def for_names_def acc)
  moreover have "bc_sect s1 = bc_sect s0" using s1(5) by (simp add: dir_step_def)
  ultimately show ?thesis using s0(3,6,8) s'(2,4,10) s1(4) assms(2) by auto
qed

subsection \<open>Creating a file that is there already\<close>

text \<open>
  C17. Creating a file of at most 123 sectors under a name that exists (by a path whose parts fit the arrays of the code) fails, as it should, and leaves the directory as it is, but loses
  sectors: the data sectors of the new inode stay marked in the free map although no inode refers to them. Only the
  sector of the inode is released.
\<close>

theorem filesys_create_existing_leaks:
  fixes s :: "'z dir_state_scheme"
  assumes "mounted s rd" and "es = dir_entries (bc_sect s) rd" and "split_into (length path) path = Some (dn, nm)"
    and "1 \<le> j" "j < length es" "in_use (es ! j)" "nm = c_string (e_name (es ! j))"
    and "0 \<le> len" "sector_count len \<le> 123" "sector_count len < card (free_sectors s)"
  shows "\<exists>s'. filesys_create junk path len isdir s = Some (False, s') \<and> mounted s' rd \<and> open_inodes s' = open_inodes s \<and>
    dir_entries (bc_sect s') rd = es \<and> card (free_sectors s') + sector_count len = card (free_sectors s)"
proof -
  obtain s0 dp d ino where s0: "dir_open_root s = Some (Some dp, s0)" "closable s0 dp d ino" "data ino = rd" "keeps s s0"
    "disk_grew {} [] s s0" "bc_sect s0 = bc_sect s"
    "if d_open_cnt d = 1 then get_inode (d_inode d) s = None \<and> open_inodes s0 = d_inode d # open_inodes s
     else open_inodes s0 = open_inodes s"
    "(d_open_cnt d = 1 \<longleftrightarrow> cwd s = None) \<and> (if cwd s = None then d_pos d = 36 else cwd s = Some dp)"
    by (rule mounted_open [OF assms(1)])
  note root0 = closable_root [OF s0(2)] and f0 = root_ok_facts [OF closable_root [OF s0(2)]]
  have free0: "free_sectors s0 = free_sectors s" using s0(5) by (simp add: disk_grew_def free_sectors_def)
  then have len0: "sector_count len < card (free_sectors s0)" using assms(10) by simp
  obtain sec s1 s2 ts d' where s2: "free_map_allocate inode_write_at 1 s0 = Some (Some sec, s1)"
    "inode_create sec len isdir s1 = Some (True, s2)" "grew 0 {} (sec # ts) s0 s2" "inodes s2 = inodes s0" "sec \<notin> fm_sectors s0"
    "bc_sect s2 sec = inode_disk_bytes d'" "disk_wf d'" "disk_ok s2 d'" "set (file_blocks d') = set ts" "dlength d' = len"
    "is_dir d' = isdir" "length ts = sector_count len" "file_bytes (bc_sect s2) d' = replicate (nat len) 0"
    by (rule alloc_inode_grew [OF f0(1) assms(8,9) len0])
  have fb2: "file_bytes (bc_sect s2) (data ino) = file_bytes (bc_sect s0) (data ino)"
    using grew_other_disk(2) [OF s2(3) f0(1), of "data ino"] f0(6) by simp
  have cl2: "closable s2 dp d ino"
    by (rule closable_grew [OF s0(2) s2(3,4)]) (use names_ok_bytes [OF fb2] closable_names [OF s0(2)] in simp_all)
  note root2 = closable_root [OF cl2]
  have es2: "es = dir_entries (bc_sect s2) (data ino)"
    using fb2 assms(2) s0(3,6) by (simp add: dir_entries_def)
  obtain s3 where s3: "dir_add junk dp nm sec isdir s2 = Some (False, s3)" "bc_step s2 s3"
    using dir_add_exists [OF root_dir_ok [OF root2] es2 assms(4-7)] by blast
  note m3 = bc_step_more_open [OF s3(2)] and v3 = bc_step_view [OF s3(2)] bc_step_fs [OF s3(2)]
  note o3 = more_open_fs [OF root_ok_facts(1) [OF root2] m3]
  have cl3: "closable s3 dp d ino" using closable_more_open [OF cl2 m3] v3(8) by simp
  have fresh: "\<not> used s0 sec" and used2: "used s2 sec" using s2(3) by (auto simp: grew_def)
  have sec: "used s3 sec" "sec \<notin> fm_sectors s3" "sec \<noteq> 0" "sec \<noteq> ROOT_DIR_SECTOR"
    using o3 used2 s2(3,5) fresh fs_ok_facts(3) [OF f0(1)] root0 by (auto simp: grew_def root_ok_def)
  then obtain s4 where s4: "free_map_release inode_write_at sec 1 s3 = Some s4" "gave {sec} s3 s4"
    using free_map_release_gave [OF o3(1), of sec 1] by (auto simp: inode_write_at_def numeral_2_eq_2)
  have dirsec: "{sec} \<inter> file_sectors ino = {}" using f0(5) fresh by (auto simp: file_ok_def disk_ok_def file_sectors_def)
  have "open_inodes s3 = open_inodes s0" "\<And>j. get_inode j s3 = get_inode j s0" using s2(3,4) v3 by (simp_all add: grew_def get_inode_def)
  then have closed: "\<forall>ip \<in> set (open_inodes s3). \<forall>i. get_inode ip s3 = Some i \<longrightarrow> sector i \<notin> {sec}"
    using f0(7) fresh by fastforce
  have cl4: "closable s4 dp d ino" by (rule closable_gave [OF cl3 s4(2) dirsec closed]) (use sec in simp)
  obtain s5 where s5: "dir_close (Some dp) s4 = Some s5" "mounted s5 (data ino)" "disk_grew {} [] s4 s5" "bc_sect s5 = bc_sect s4"
    "files s5 = files s4" "file_table s5 = file_table s4" "bc_dev_valid s5 = bc_dev_valid s4"
    "open_inodes s5 = (if d_open_cnt d = 1 then remove1 (d_inode d) (open_inodes s4) else open_inodes s4)"
    "\<forall>j i. get_inode j s4 = Some i \<longrightarrow> (d_open_cnt d = 1 \<longrightarrow> j \<noteq> d_inode d) \<longrightarrow> get_inode j s5 = Some i"
    "cwd s5 = (if d_open_cnt d = 1 then None else cwd s4)"
    by (rule mounted_close [OF cl4])
  have create: "filesys_create junk path len isdir s = Some (False, s5)"
    using assms(3) s0(1) s2(1,2) s3(1) s4(1) s5(1) sec(3) by (simp add: filesys_create_def)
  have "file_bytes (bc_sect s4) (data ino) = file_bytes (bc_sect s3) (data ino)"
    using gave_freed [OF s4(2)] root_ok_facts(6) [OF closable_root [OF cl3]] by (rule freed_bytes)
  then have es: "dir_entries (bc_sect s5) rd = es" using es2 v3(3) s5(4) s0(3) by (simp add: dir_entries_def)
  have "open_inodes s4 = open_inodes s0" using s4(2) s2(3) v3(8) by (simp add: gave_def grew_def)
  then have oi: "open_inodes s5 = open_inodes s" using s5(8) s0(7) by (auto split: if_splits)
  have "used s4 t \<longleftrightarrow> (used s0 t \<or> t \<in> set (sec # ts)) \<and> t \<noteq> sec" for t
    using s2(3) s4(2) o3(3) by (simp add: gave_def grew_def)
  moreover have "bit_cnt (free_map s4) = bit_cnt (free_map s0)" using s2(3) s4(2) v3(6) by (simp add: gave_def grew_def)
  moreover note sub = free_sectors_grew(2) [OF grew_disk [OF s2(3)]]
  ultimately have "free_sectors s4 = insert sec (free_sectors s0 - set (sec # ts))" by (auto simp: free_sectors_def)
  moreover note sub
  moreover have "card (set (sec # ts)) = Suc (length ts)" using s2(3) by (simp add: grew_def distinct_card)
  ultimately have "card (free_sectors s4) = card (free_sectors s0) - Suc (length ts) + 1"
    using card_Diff_subset [of "set (sec # ts)" "free_sectors s0"] by simp
  moreover have "free_sectors s5 = free_sectors s4" using s5(3) by (simp add: disk_grew_def free_sectors_def)
  ultimately have "card (free_sectors s5) + sector_count len = card (free_sectors s)" using len0 s2(12) free0 by simp
  then show ?thesis using create es oi s5(2) s0(3) by blast
qed


subsection \<open>An example\<close>

lemma dir_entries_empty:
  assumes fb: "file_bytes c d = dir_entry_bytes e @ replicate m 0" and e: "length (e_name e) = 31"
  shows "dir_entries c d = e # replicate (m div 36) \<lparr>inode_sector = 0, e_name = replicate 31 0, in_use = False\<rparr>"
proof (rule nth_equalityI)
  have l: "length (dir_entry_bytes e) = 36" using e by (rule length_dir_entry_bytes)
  show len: "length (dir_entries c d) = length (e # replicate (m div 36) \<lparr>inode_sector = 0, e_name = replicate 31 0, in_use = False\<rparr>)"
    using l by (simp add: dir_entries_def fb)
  fix i assume "i < length (dir_entries c d)"
  then have i: "i < Suc (m div 36)" using len by simp
  then have at: "dir_entries c d ! i = dir_entry_of (take 36 (drop (36 * i) (dir_entry_bytes e @ replicate m 0)))"
    using l by (simp add: dir_entries_def fb)
  show "dir_entries c d ! i = (e # replicate (m div 36) \<lparr>inode_sector = 0, e_name = replicate 31 0, in_use = False\<rparr>) ! i"
  proof (cases i)
    case 0
    then show ?thesis unfolding at using l by (simp add: dir_entry_of_bytes [OF e])
  next
    case (Suc k)
    then have k: "k < m div 36" using i by simp
    then have "36 * k + 36 \<le> m" by linarith
    then have "take 36 (drop (36 * i) (dir_entry_bytes e @ replicate m 0)) = replicate 36 0"
      using l Suc by (simp add: take_replicate min_def)
    then show ?thesis unfolding at using Suc k by (simp add: dir_entry_of_def take_replicate)
  qed
qed

text \<open>
  Eight sectors: 0 and 2 hold the free map, 1 and 4 the root directory with room for 13 files; 5, 6 and 7 are free. The
  root directory is closed.
\<close>

definition root_example :: inode_disk where
  "root_example = (disk_inode_example [4] 512)\<lparr>is_dir := True\<rparr>"

definition create_example_bytes :: "byte list" where
  "create_example_bytes = inode_disk_bytes (disk_inode_example [2] 8) @ inode_disk_bytes root_example @ le_bytes 8 (31 :: 64 word) @
     replicate 1016 0 @ dir_entry_bytes \<lparr>inode_sector = 1, e_name = replicate 31 0, in_use = True\<rparr>"

definition create_example :: dir_state where
  "create_example = (file_state.extend (fs_state.extend (fs_example create_example_bytes 63) \<lparr>file_table = []\<rparr>)
       \<lparr>dirs = [], cwd = None\<rparr>)
     \<lparr>devs := snd (block_register ''hda'' ''x.dsk'' 9 ide_operations
        \<lparr>host = take 4096 (create_example_bytes @ replicate 4096 0), blocks = [], hard_drive = None\<rparr>),
      free_map := \<lparr>bit_cnt = 8, bits = [31]\<rparr>, inodes := [Some (inode_example 0 [2] 8)], open_inodes := [0]\<rparr>"

lemma create_example_simps [simp]:
  "bc_inv create_example" "bc_sect create_example = bc_sect (fs_example create_example_bytes 63)"
  "bc_dev_valid create_example = bc_dev_valid (fs_example create_example_bytes 63)"
  "get_inode 0 create_example = Some (inode_example 0 [2] 8)" "free_map create_example = \<lparr>bit_cnt = 8, bits = [31]\<rparr>"
  "cwd create_example = None" "open_inodes create_example = [0]" "fm_inode create_example = Some (inode_example 0 [2] 8)"
  "file_table create_example = []"
proof -
  have cong: "bc_inv create_example = bc_inv (fs_example create_example_bytes 63)"
      "bc_sect create_example = bc_sect (fs_example create_example_bytes 63)"
      "bc_dev_valid create_example = bc_dev_valid (fs_example create_example_bytes 63)"
    by (simp_all add: create_example_def bc_inv_def bc_sect_def bc_dev_def bc_dev_valid_def file_state.defs fs_state.defs
        fs_example_def dev_sect_def [abs_def] dev_valid_def [abs_def] dev_base.simps [of _ 0] block_register_def block_set_hd_def Let_def)
  then show "bc_inv create_example" "bc_sect create_example = bc_sect (fs_example create_example_bytes 63)"
    "bc_dev_valid create_example = bc_dev_valid (fs_example create_example_bytes 63)" by simp_all
  show "get_inode 0 create_example = Some (inode_example 0 [2] 8)" "free_map create_example = \<lparr>bit_cnt = 8, bits = [31]\<rparr>"
    "cwd create_example = None" "open_inodes create_example = [0]" "fm_inode create_example = Some (inode_example 0 [2] 8)"
    "file_table create_example = []"
    by (simp_all add: create_example_def get_inode_def deref_def fm_inode_def get_file_def file_state.defs fs_state.defs fs_example_def)
qed

lemma bval_31: assumes "n < 8" shows "bval \<lparr>bit_cnt = 8, bits = [31]\<rparr> n \<longleftrightarrow> n < 5"
proof -
  have "(31 :: 64 word) = mask 5" by (simp add: mask_eq_exp_minus_1)
  then have "bit (31 :: 64 word) n \<longleftrightarrow> n < 5" using assms by (simp only: bit_mask_iff possible_bit_word) auto
  then show ?thesis using assms by (simp add: bval_def)
qed

lemma create_example_used [simp]: "used create_example t \<longleftrightarrow> t < 5"
proof -
  have "t < 5 \<longleftrightarrow> unat t < 5" by (simp add: word_less_nat_alt)
  then show ?thesis using bval_31 [of "unat t"] by (auto simp: used_def)
qed

lemma create_example_free: "card (free_sectors create_example) = 3"
proof -
  have "unat t < 8 \<and> \<not> t < 5 \<longleftrightarrow> t = 5 \<or> t = 6 \<or> t = 7" for t :: block_sector_t
    by (simp add: word_less_nat_alt word_unat_eq_iff) linarith
  then have "free_sectors create_example = {5, 6, 7}" by (auto simp: free_sectors_def)
  then show ?thesis by simp
qed

lemma root_example_simps:
  "direct_blocks root_example = 4 # replicate 122 0" "nsec root_example = 1" "dlength root_example = 512" "disk_wf root_example"
  "length (inode_disk_bytes root_example) = 512" "file_blocks root_example = [4]"
proof -
  show db: "direct_blocks root_example = 4 # replicate 122 0" and "dlength root_example = 512" "nsec root_example = 1"
    by (simp_all add: nsec_def sector_count_def root_example_def disk_inode_example_def)
  show "disk_wf root_example"
    by (simp add: disk_wf_def root_example_def disk_inode_example_def INODE_MAGIC_def)
  show "length (inode_disk_bytes root_example) = 512" using db by (intro length_inode_disk_bytes) simp
  show "file_blocks root_example = [4]" using db by (simp add: file_blocks_def)
qed

lemma create_example_fs: "fs_ok create_example" and create_example_fm [simp]: "fm_sectors create_example = {0, 2}"
proof -
  show fms: "fm_sectors create_example = {0, 2}" by (simp add: fm_sectors_def)
  have "bc_dev_valid create_example t" if "unat t < 8" for t using that by (simp add: word_less_nat_alt)
  moreover have "length (dir_entry_bytes \<lparr>inode_sector = 1, e_name = replicate 31 0, in_use = True\<rparr>) = 36"
    by (simp add: dir_entry_bytes_def)
  then have "fm_saved create_example"
    using fs_example_saved(1) [OF create_example_bytes_def root_example_simps(5), of 63] fs_example_saved(2) [OF create_example_bytes_def root_example_simps(5), of 63 8]
    by (auto simp: fm_saved_def bitmap_inv_def elem_cnt_def DIV_ROUND_UP_def ELEM_BITS_def intro!: exI [of _ "\<lparr>bit_cnt = 8, bits = [31]\<rparr>"])
  ultimately show "fs_ok create_example" using fs_example_files(1,2) [of create_example_bytes 63] fms
    by (simp add: fs_ok_def fm_ok_def bitmap_inv_def elem_cnt_def DIV_ROUND_UP_def ELEM_BITS_def bitmap_file_size_def byte_cnt_def)
qed

lemma create_example_entries:
  "dir_entries (bc_sect create_example) root_example =
     \<lparr>inode_sector = 1, e_name = replicate 31 0, in_use = True\<rparr> #
     replicate 13 \<lparr>inode_sector = 0, e_name = replicate 31 0, in_use = False\<rparr>"
proof -
  let ?e = "\<lparr>inode_sector = 1, e_name = replicate 31 0, in_use = True\<rparr> :: dir_entry"
  have l: "length (dir_entry_bytes ?e) = 36" by (simp add: dir_entry_bytes_def)
  have "bc_sect create_example 4 = dir_entry_bytes ?e @ replicate 476 0"
    using l root_example_simps(5) by (simp add: fs_example_dev [of _ _ 4] create_example_bytes_def word_less_nat_alt take_replicate)
  then have "file_bytes (bc_sect create_example) root_example = dir_entry_bytes ?e @ replicate 476 0"
    using root_example_simps(1-3) l by (simp add: file_bytes_def direct_data_sectors)
  from dir_entries_empty [OF this] show ?thesis by simp
qed

lemma create_example_mounted: "mounted create_example root_example"
proof -
  have s1: "bc_sect create_example 1 = inode_disk_bytes root_example"
    using root_example_simps(5) by (simp add: fs_example_dev [of _ _ 1] create_example_bytes_def word_less_nat_alt)
  have "root_closed create_example root_example"
    using root_example_simps s1 by (simp add: root_closed_def file_ok_def disk_ok_def ROOT_DIR_SECTOR_def)
  moreover have "names_ok (bc_sect create_example) root_example"
    unfolding names_ok_def create_example_entries by (auto simp: terminated_def)
  ultimately show ?thesis using create_example_fs root_example_simps(3) by (simp add: mounted_def)
qed

lemma create_example_slot:
  fixes nm :: string
  defines "es \<equiv> dir_entries (bc_sect create_example) root_example"
  shows "\<forall>j. 1 \<le> j \<longrightarrow> j < length es \<longrightarrow> \<not> (in_use (es ! j) \<and> nm = c_string (e_name (es ! j)))"
    and "find (\<lambda>j. \<not> in_use (es ! j)) [0..<length es] = Some 1" and "length es = 14"
  using create_example_entries by (auto simp: es_def nth_Cons' find_upt_Some less_Suc0)

lemma create_example_path: "split_into (length ''/a.txt'') ''/a.txt'' = Some (''/'', ''a.txt'')"
  by (simp add: split_into_def split_path_filename_def strtok_all_def)

lemma create_example_creatable: "creatable create_example root_example ''/a.txt''"
  using create_example_mounted create_example_slot(1) [of "''a.txt''"] create_example_slot(2) create_example_path split_into_path [OF create_example_path]
  by (auto simp: creatable_def Let_def NAME_MAX_def simp del: create_example_simps)

theorem filesys_create_then_open_witness:
  "\<exists>s1 s2 fp ip i. filesys_create [] ''/a.txt'' 300 False create_example = Some (True, s1) \<and>
     filesys_open ''/a.txt'' s1 = Some (Some fp, s2) \<and> get_file fp s2 = Some \<lparr>f_inode = ip, pos = 0, deny_write = False\<rparr> \<and>
     get_inode ip s2 = Some i \<and> file_bytes (bc_sect s2) (data i) = replicate 300 0"
  using filesys_create_then_open [OF create_example_mounted refl create_example_path _ _ _ create_example_slot(1) _
      create_example_slot(2), of 300 "[]"] create_example_free
  by (auto simp: NAME_MAX_def sector_count_def simp del: create_example_simps)

lemma create_example_created:
  obtains s1 sec where "filesys_create [] ''/a.txt'' 0 False create_example = Some (True, s1)" "mounted s1 root_example"
    "card (free_sectors s1) = 2" "cwd s1 = None" "dir_entries (bc_sect s1) root_example =
       (dir_entries (bc_sect create_example) root_example) [1 := \<lparr>inode_sector = sec, e_name = strncpy 31 ''a.txt'', in_use = True\<rparr>]"
proof -
  let ?es = "dir_entries (bc_sect create_example) root_example"
  have len: "(0 :: int) \<le> 0" "sector_count 0 \<le> 123" "sector_count 0 < card (free_sectors create_example)"
    and nm: "''a.txt'' \<noteq> []" "length ''a.txt'' \<le> 30"
    using create_example_free by (simp_all add: sector_count_def)
  obtain sec ts d' s1 where s1: "filesys_create [] ''/a.txt'' 0 False create_example = Some (True, s1)" "mounted s1 root_example"
    "keeps create_example s1" "disk_grew (set (file_blocks root_example)) (sec # ts) create_example s1"
    "open_inodes s1 = open_inodes create_example" "length ts = sector_count 0"
    "dir_entries (bc_sect s1) root_example = ?es [1 := \<lparr>inode_sector = sec, e_name = strncpy 31 ''a.txt'', in_use = True\<rparr>]"
    "bc_sect s1 sec = inode_disk_bytes d'" "disk_wf d'" "disk_ok s1 d'" "set (file_blocks d') = set ts" "dlength d' = 0"
    "\<not> is_dir d'" "file_bytes (bc_sect s1) d' = replicate (nat 0) 0" "cwd s1 = cwd create_example"
    by (rule filesys_create_mounted [OF create_example_mounted refl create_example_path nm create_example_slot(1,2) len])
  have "card (free_sectors s1) = 2"
    using free_sectors_grew(1) [OF s1(4)] s1(6) create_example_free by (simp add: sector_count_def)
  then show ?thesis by (intro that [OF s1(1,2) _ _ s1(7)]) (use s1(15) in simp_all)
qed

theorem fsutil_ls_names_witness:
  "\<exists>s1 s2. filesys_create [] ''/a.txt'' 0 False create_example = Some (True, s1) \<and> fsutil_ls s1 = Some (0, [''a.txt''], s2)"
proof -
  obtain s1 sec where s1: "filesys_create [] ''/a.txt'' 0 False create_example = Some (True, s1)" "mounted s1 root_example"
    "card (free_sectors s1) = 2" "cwd s1 = None" "dir_entries (bc_sect s1) root_example =
       (dir_entries (bc_sect create_example) root_example) [1 := \<lparr>inode_sector = sec, e_name = strncpy 31 ''a.txt'', in_use = True\<rparr>]"
    by (rule create_example_created)
  have "live_names (drop 1 (dir_entries (bc_sect s1) root_example)) = [''a.txt'']"
    unfolding s1(5) create_example_entries by (simp add: live_names_def c_string_strncpy numeral_eq_Suc)
  then show ?thesis using fsutil_ls_names [OF s1(2,4)] s1(1) by auto
qed

text \<open>The second of two creations under the same name, of a file in one sector: of two free sectors one is left.\<close>

theorem filesys_create_existing_leaks_witness:
  "\<exists>s1 s2. filesys_create [] ''/a.txt'' 0 False create_example = Some (True, s1) \<and>
     filesys_create [] ''/a.txt'' 300 False s1 = Some (False, s2) \<and> card (free_sectors s1) = 2 \<and> card (free_sectors s2) = 1"
proof -
  obtain s1 sec where s1: "filesys_create [] ''/a.txt'' 0 False create_example = Some (True, s1)" "mounted s1 root_example"
    "card (free_sectors s1) = 2" "cwd s1 = None" "dir_entries (bc_sect s1) root_example =
       (dir_entries (bc_sect create_example) root_example) [1 := \<lparr>inode_sector = sec, e_name = strncpy 31 ''a.txt'', in_use = True\<rparr>]"
    by (rule create_example_created)
  then show ?thesis
    using filesys_create_existing_leaks [OF s1(2) s1(5) [symmetric] create_example_path, of 1 300 "[]" False]
      create_example_slot(3) c_string_strncpy [of "''a.txt''" 31]
    by (auto simp: sector_count_def simp del: create_example_simps)
qed

end
