(* ===== verification/Remove.thy ===== *)
theory Remove
  imports Create
begin

text \<open>
  Removing files by name: \<open>filesys_remove\<close> (\<open>src/a3/fs/filesys.c\<close>) on a mounted file system, through \<open>dir_open_path\<close>,
  \<open>dir_remove\<close>, \<open>inode_remove\<close> and the last \<open>inode_close\<close>, which gives the sectors of the file back to the free map.

  \<open>freed\<close> (in \<open>Create\<close>) is what a removal does to the disk: the sectors \<open>ts\<close> are free afterwards, and only the free map's own
  file is written. It is the counterpart of \<open>disk_grew\<close>. \<open>closed_file\<close> describes a file that can be removed; a file that has
  just been created is one (\<open>create_closed\<close>), and so is one that was opened, written and closed (\<open>write_then_close\<close>). A file
  is \<open>tight\<close> when it has no more sectors than its length needs; a removal gives all sectors of such a file back, so that
  creating, writing and removing a file is the identity on the free sectors (\<open>create_write_rm\<close>).
\<close>

subsection \<open>Giving sectors back\<close>

lemma deallocate_direct_gave:
  fixes s :: "'z fs_state_scheme"
  assumes "fs_ok s" and "i + m \<le> length bs" and "distinct (take m (drop i bs))"
    and "\<forall>t \<in> set (take m (drop i bs)). used s t \<and> t \<notin> fm_sectors s \<and> t \<noteq> 0"
  shows "\<exists>s'. deallocate_loop (\<lambda>e _. free_map_release inode_write_at e 1) 1 m i k bs s = Some s' \<and>
    gave (set (take m (drop i bs))) s s'"
  using assms
proof (induction m arbitrary: i k s)
  case 0
  then show ?case using gave_refl by auto
next
  case (Suc m)
  have d: "take (Suc m) (drop i bs) = bs ! i # take m (drop (Suc i) bs)"
    using Suc.prems(2) by (simp add: Cons_nth_drop_Suc [symmetric])
  obtain t where t: "free_map_release inode_write_at (bs ! i) 1 s = Some t" "gave {bs ! i} s t"
    using free_map_release_gave [OF Suc.prems(1), of "bs ! i" 1] Suc.prems(4) d by (auto simp: inode_write_at_def numeral_2_eq_2)
  have g: "fs_ok t" "\<And>u. used t u \<longleftrightarrow> used s u \<and> u \<notin> {bs ! i}" "fm_sectors t = fm_sectors s" using t(2) by (simp_all add: gave_def)
  have "distinct (bs ! i # take m (drop (Suc i) bs))"
    and "\<forall>u \<in> set (bs ! i # take m (drop (Suc i) bs)). used s u \<and> u \<notin> fm_sectors s \<and> u \<noteq> 0"
    using Suc.prems(3,4) unfolding d by blast+
  then have "distinct (take m (drop (Suc i) bs))"
    and "\<forall>u \<in> set (take m (drop (Suc i) bs)). used t u \<and> u \<notin> fm_sectors t \<and> u \<noteq> 0"
    using g(2,3) by auto
  then obtain s' where s': "deallocate_loop (\<lambda>e _. free_map_release inode_write_at e 1) 1 m (Suc i) (k - min k 1) bs t = Some s'"
      "gave (set (take m (drop (Suc i) bs))) t s'"
    using Suc.IH [OF g(1), of "Suc i" "k - min k 1"] Suc.prems(2) by auto
  have "gave (set (take (Suc m) (drop i bs))) s s'" using gave_trans [OF t(2) s'(2)] by (simp add: d)
  then show ?case using t(1) s'(1) Suc.prems(2) by (simp add: Let_def)
qed

text \<open>The sectors that \<open>inode_deallocate\<close> releases: those that the length of the file needs.\<close>

definition owned :: "inode_disk \<Rightarrow> block_sector_t set" where
  "owned d = set (take (nsec d) (direct_blocks d))"

lemma owned_blocks:
  assumes "disk_ok s d"
  shows "owned d \<subseteq> set (file_blocks d)" and "distinct (take (nsec d) (direct_blocks d))" and "0 \<notin> owned d"
proof -
  have d: "length (direct_blocks d) = 123" "nsec d \<le> 123" "\<forall>i < nsec d. direct_blocks d ! i \<noteq> 0" "distinct (file_blocks d)"
    using assms by (simp_all add: disk_ok_def)
  then have nz: "\<forall>t \<in> set (take (nsec d) (direct_blocks d)). t \<noteq> 0" by (auto simp: set_conv_nth)
  then show "0 \<notin> owned d" by (auto simp: owned_def)
  show "owned d \<subseteq> set (file_blocks d)" using nz set_take_subset [of "nsec d" "direct_blocks d"] by (auto simp: owned_def file_blocks_def)
  have "file_blocks d = filter (\<lambda>t. t \<noteq> 0) (take (nsec d) (direct_blocks d)) @ filter (\<lambda>t. t \<noteq> 0) (drop (nsec d) (direct_blocks d))"
    unfolding file_blocks_def by (simp only: filter_append [symmetric] append_take_drop_id)
  moreover have "filter (\<lambda>t. t \<noteq> 0) (take (nsec d) (direct_blocks d)) = take (nsec d) (direct_blocks d)" using nz by simp
  ultimately show "distinct (take (nsec d) (direct_blocks d))" using d(4) by simp
qed

lemma inode_deallocate_gave:
  fixes s :: "'z fs_state_scheme"
  assumes "fs_ok s" and "get_inode ip s = Some i" and "disk_ok s (data i)"
  shows "\<exists>s'. inode_deallocate inode_write_at ip s = Some (True, s') \<and> gave (owned (data i)) s s'"
proof -
  let ?d = "data i"
  have d: "length (direct_blocks ?d) = 123" "nsec ?d \<le> 123" "0 \<le> dlength ?d"
      "\<And>t. t \<in> set (file_blocks ?d) \<Longrightarrow> used s t \<and> t \<notin> fm_sectors s"
    using assms(3) by (simp_all add: disk_ok_def)
  note o = owned_blocks [OF assms(3)]
  obtain s' where "deallocate_loop (\<lambda>e _. free_map_release inode_write_at e 1) 1 (nsec ?d) 0 (nsec ?d) (direct_blocks ?d) s = Some s'"
      "gave (owned ?d) s s'"
    using deallocate_direct_gave [OF assms(1), of 0 "nsec ?d" "direct_blocks ?d" "nsec ?d"] d o by (auto simp: owned_def)
  then show ?thesis
    using assms(2) d(2,3) bytes_to_sectors_small [of "dlength ?d"]
    by (simp add: inode_deallocate_def Let_def DIRECT_BLOCKS_COUNT_def nsec_def)
qed

subsection \<open>The last close of a removed file\<close>

lemma inodes_upd_same:
  fixes s :: "'z fs_state_scheme"
  assumes "fs_ok s" and "get_inode ip s = Some i" and "file_ok s i"
  shows "same_fs s (s\<lparr>inodes := (inodes s)[ip := x], open_inodes := l\<rparr>)" (is "same_fs s ?t")
proof -
  obtain fp f fmi where fp: "free_map_file s = Some fp" "get_file fp s = Some f" "get_inode (f_inode f) s = Some fmi"
    using assms(1) by (auto simp: fs_ok_def fm_ok_def fm_inode_def split: option.splits bind_splits)
  have "f_inode f \<noteq> ip" by (rule fm_not_file [OF assms fp(1,2)])
  then have "fm_inode ?t = fm_inode s" using fp by (simp add: fm_inode_def get_file_def get_inode_def deref_def arr_get_def split: if_splits)
  then show ?thesis by (simp add: same_fs_def bc_inv_def bc_sect_def bc_dev_def bc_dev_valid_def)
qed

lemma same_fs_freed:
  assumes "fs_ok s" and "same_fs s s'" and "fs_state.more s' = fs_state.more s"
  shows "freed {} s s'"
  using assms same_fs_ok(1-3) [OF assms(2)] by (simp add: freed_def same_fs_def)

lemma remove_close:
  fixes s :: "'z fs_state_scheme"
  assumes fs: "fs_ok s" and ip: "get_inode ip s = Some i" and fo: "file_ok s i" and cnt: "open_cnt i = 1" and nz: "sector i \<noteq> 0"
  obtains t s' where "inode_remove ip s = Some t" "inode_close (Some ip) t = Some s'"
    "freed (insert (sector i) (owned (data i))) s s'" "open_inodes s' = remove1 ip (open_inodes s)" "files s' = files s"
    "get_inode ip s' = None" "\<And>j. j \<noteq> ip \<Longrightarrow> get_inode j s' = get_inode j s"
proof -
  let ?i = "i\<lparr>removed := True, open_cnt := 0\<rparr>"
  let ?s1 = "s\<lparr>inodes := (inodes s)[ip := Some ?i], open_inodes := remove1 ip (open_inodes s)\<rparr>"
  have sf1: "same_fs s ?s1" by (rule inodes_upd_same [OF fs ip fo])
  note k1 = same_fs_ok [OF sf1]
  have f1: "freed {} s ?s1" by (rule same_fs_freed [OF fs sf1]) simp
  have i1: "get_inode ip ?s1 = Some ?i" using ip by (simp add: get_inode_def deref_eq_Some)
  have u: "used s (sector i)" "sector i \<notin> fm_sectors s" "disk_ok s (data i)" "sector i \<notin> set (file_blocks (data i))"
    using fo by (simp_all add: file_ok_def)
  obtain s2 where s2: "free_map_release inode_write_at (sector i) 1 ?s1 = Some s2" "gave {sector i} ?s1 s2"
    using free_map_release_gave [of ?s1 "sector i" 1] fs nz u k1 by (auto simp: inode_write_at_def numeral_2_eq_2)
  have g2: "fs_ok s2" "get_inode ip s2 = Some ?i" using s2(2) i1 by (simp_all add: gave_def get_inode_def)
  have "disk_ok s2 (data i)" using u s2(2) k1 by (auto simp: gave_def disk_ok_def)
  then obtain s3 where s3: "inode_deallocate inode_write_at ip s2 = Some (True, s3)" "gave (owned (data i)) s2 s3"
    using inode_deallocate_gave [OF g2] by auto
  let ?s4 = "s3\<lparr>inodes := (inodes s3)[ip := None]\<rparr>"
  have g3: "fs_ok s3" "get_inode ip s3 = Some ?i" "inodes s3 = (inodes s)[ip := Some ?i]" "open_inodes s3 = remove1 ip (open_inodes s)"
      "files s3 = files s" using s2(2) s3(2) g2 by (simp_all add: gave_def get_inode_def)
  obtain fp f fmi where fp: "free_map_file s = Some fp" "get_file fp s = Some f" "get_inode (f_inode f) s = Some fmi"
    using fs by (auto simp: fs_ok_def fm_ok_def fm_inode_def split: option.splits bind_splits)
  have "f_inode f \<noteq> ip" by (rule fm_not_file [OF fs ip fo fp(1,2)])
  moreover have "free_map_file s3 = free_map_file s" using s2(2) s3(2) by (simp add: gave_def)
  ultimately have "fm_inode ?s4 = fm_inode s3" using fp g3
    by (simp add: fm_inode_def get_file_def get_inode_def deref_def arr_get_def split: if_splits)
  then have "same_fs s3 ?s4" by (simp add: same_fs_def)
  then have f4: "freed {} s3 ?s4" by (rule same_fs_freed [OF g3(1)]) simp
  have rm: "inode_remove ip s = Some (set_inode ip (i\<lparr>removed := True\<rparr>) s)" using ip by (simp add: inode_remove_def)
  have "inode_close (Some ip) (set_inode ip (i\<lparr>removed := True\<rparr>) s) = Some ?s4"
    using get_set_inode [OF ip, of "i\<lparr>removed := True\<rparr>"] cnt s2(1) s3(1)
    by (simp add: inode_close_def set_inode_def Let_def)
  note close = this
  have fr: "freed (insert (sector i) (owned (data i))) s ?s4"
    using freed_trans [OF freed_trans [OF f1 gave_freed [OF s2(2)]] freed_trans [OF gave_freed [OF s3(2)] f4]] by simp
  have gi: "get_inode j ?s4 = get_inode j s" if "j \<noteq> ip" for j
    using that g3(3) by (simp add: get_inode_def deref_def arr_get_def)
  have none: "get_inode ip ?s4 = None" using ip g3(3) by (auto simp: get_inode_def deref_def arr_get_def split: if_splits)
  show ?thesis by (rule that [OF rm close fr _ _ none gi]) (use g3 in simp_all)
qed

subsection \<open>Removing a name from the root directory\<close>

text \<open>
  A file that can be removed: its inode \<open>dk\<close> is on disk in the sector \<open>sec\<close>, the file is intact, and neither the root
  directory nor an open inode lies in its sectors.
\<close>

definition closed_inode :: "block_sector_t \<Rightarrow> inode_disk \<Rightarrow> inode" where
  "closed_inode sec dk = \<lparr>sector = sec, open_cnt = 1, removed = False, deny_write_cnt = 0, data = dk\<rparr>"

lemma closed_inode_simps [simp]:
  "sector (closed_inode sec dk) = sec" "open_cnt (closed_inode sec dk) = 1" "\<not> removed (closed_inode sec dk)"
  "data (closed_inode sec dk) = dk" "deny_write_cnt (closed_inode sec dk) = 0"
  "file_sectors (closed_inode sec dk) = insert sec (set (file_blocks dk))"
  by (simp_all add: closed_inode_def file_sectors_def)

definition closed_file :: "'z fs_state_scheme \<Rightarrow> block_sector_t \<Rightarrow> inode_disk \<Rightarrow> bool" where
  "closed_file s sec dk \<longleftrightarrow> bc_sect s sec = inode_disk_bytes dk \<and> disk_wf dk \<and> \<not> is_dir dk \<and> sec \<noteq> 0 \<and>
     file_ok s (closed_inode sec dk) \<and> ROOT_DIR_SECTOR \<notin> file_sectors (closed_inode sec dk) \<and>
     (\<forall>ip \<in> set (open_inodes s). \<forall>i. get_inode ip s = Some i \<longrightarrow> sector i \<notin> file_sectors (closed_inode sec dk))"

lemma closed_file_facts:
  assumes "closed_file s sec dk"
  shows "bc_sect s sec = inode_disk_bytes dk" "inode_disk_of (bc_sect s sec) = dk" "\<not> is_dir dk" "sec \<noteq> 0"
    "file_ok s (closed_inode sec dk)" "used s sec" "disk_ok s dk" "ROOT_DIR_SECTOR \<notin> file_sectors (closed_inode sec dk)"
    "\<And>ip i. ip \<in> set (open_inodes s) \<Longrightarrow> get_inode ip s = Some i \<Longrightarrow> sector i \<notin> file_sectors (closed_inode sec dk)"
  using assms inode_disk_of_bytes [of dk] by (auto simp: closed_file_def file_ok_def)

lemma dir_remove_closable:
  fixes s :: "'z dir_state_scheme"
  assumes cl: "closable s dp d ino" and es: "es = dir_entries (bc_sect s) (data ino)"
    and j: "find (\<lambda>j. in_use (es ! j) \<and> nm = c_string (e_name (es ! j))) [1..<length es] = Some j"
    and cf: "closed_file s (inode_sector (es ! j)) dk"
    and apart: "file_sectors (closed_inode (inode_sector (es ! j)) dk) \<inter> set (file_blocks (data ino)) = {}"
  obtains m s' where "dir_remove dp nm s = Some (True, s')" "closable s' dp d ino"
    "disk_grew (set (file_blocks (data ino))) [] s m" "freed (insert (inode_sector (es ! j)) (owned dk)) m s'"
    "dir_entries (bc_sect s') (data ino) = es[j := (es ! j)\<lparr>in_use := False\<rparr>]" "open_inodes s' = open_inodes s"
    "\<forall>jp i. get_inode jp s = Some i \<longrightarrow> get_inode jp s' = Some i" "files s' = files s" "file_table s' = file_table s"
    "bc_dev_valid s' = bc_dev_valid s" "cwd s' = cwd s"
proof -
  let ?sec = "inode_sector (es ! j)" and ?W = "set (file_blocks (data ino))"
  let ?i = "closed_inode ?sec dk" and ?T = "insert (inode_sector (es ! j)) (owned dk)"
  note root = closable_root [OF cl] and f = root_ok_facts [OF closable_root [OF cl]] and c = closed_file_facts [OF cf]
  have di: "d_inode d \<in> set (open_inodes s)" using root by (simp add: root_ok_def)
  have sub: "?T \<subseteq> file_sectors ?i" using owned_blocks(1) [OF c(7)] by auto
  have jl: "j < length es" using j by (simp add: find_upt_Some)
  obtain s1 where s1: "lookup dp nm s = Some (Some (es ! j, 36 * int j), s1)" "bc_step s s1"
    using lookup_step [OF root_dir_ok [OF root] es, of nm] closable_names [OF cl] j by auto
  note m1 = bc_step_more_open [OF s1(2)] and v1 = bc_step_view [OF s1(2)] bc_step_fs [OF s1(2)]
  have cl1: "closable s1 dp d ino" using closable_more_open [OF cl m1] bc_step_fs(5) [OF s1(2)] by simp
  note mo1 = more_open_fs [OF f(1) m1] and f1 = root_ok_facts [OF closable_root [OF cl1]]
  let ?n = "length (inodes s1)"
  have "\<forall>ip \<in> set (open_inodes s1). \<exists>i. get_inode ip s1 = Some i \<and> sector i \<noteq> ?sec"
    using f(7) c(9) bc_step_fs(5,6) [OF s1(2)] by fastforce
  moreover have "bc_dev_valid s1 ?sec" using fs_ok_facts(5) [OF f1(1)] mo1(3) c(6) by simp
  moreover have sect1: "bc_sect s1 = bc_sect s" using m1 by (simp add: more_open_def)
  ultimately obtain s2 where s2: "inode_open ?sec s1 = Some (?n, s2)" "more_open s1 s2" "open_inodes s2 = ?n # open_inodes s1"
      "get_inode ?n s2 = Some ?i" "files s2 = files s1"
    using inode_open_new [OF fs_ok_facts(1) [OF f1(1)], of ?sec] c(2) unfolding closed_inode_def by metis
  have n: "?n \<noteq> jp" if "get_inode jp s = Some i" for jp i
    using that bc_step_fs(1) [OF s1(2)] by (auto simp: get_inode_def deref_eq_Some)
  have other: "?sec \<noteq> sector ino" using c(9) [OF di f(4)] by auto
  have cl2: "closable s2 dp d ino" using closable_more_open [OF cl1 s2(2)] s2(3,4) mo1(3) c(6) n [OF f(4)] other by auto
  note mo2 = more_open_fs [OF f1(1) s2(2)] and root2 = closable_root [OF cl2]
  have sect2: "bc_sect s2 = bc_sect s" and dv2: "bc_dev_valid s2 = bc_dev_valid s" and more2: "fs_state.more s2 = fs_state.more s"
    and fm2: "free_map s2 = free_map s"
    using m1 s2(2) by (simp_all add: more_open_def)
  have es2: "es = dir_entries (bc_sect s2) (data ino)" using es sect2 by simp
  have nl: "length (e_name ((es ! j)\<lparr>in_use := False\<rparr>)) = 31" using jl length_entry_name unfolding es by simp
  obtain s3 where s3: "inode_write_at (d_inode d) (dir_entry_bytes ((es ! j)\<lparr>in_use := False\<rparr>)) 36 (36 * int j) s2 = Some (36, s3)"
      "data_step (data ino) s2 s3" "dir_entries (bc_sect s3) (data ino) = es[j := (es ! j)\<lparr>in_use := False\<rparr>]"
    using write_entry_step [OF root_dir_ok [OF root2] es2 jl nl] by blast
  note d3 = data_step_fs [OF s3(2)]
  have g3: "grew 0 ?W [] s2 s3" by (rule data_step_grew [OF mo2(1) root_ok_facts(6) [OF root2] s3(2)])
  have "sector ino \<notin> ?W" using f(5) by (simp add: file_ok_def)
  moreover have "names_ok (bc_sect s3) (data ino)"
    by (rule names_ok_update [OF closable_names [OF cl2] s3(3) [unfolded es2]]) simp
  ultimately have cl3: "closable s3 dp d ino" using closable_grew [OF cl2 g3 d3(1)] by simp
  have "file_ok s2 ?i" using c(5) mo1(5) mo2(5) by simp
  then have fo3: "file_ok s3 ?i" using disk_grew_other_file(1) [OF grew_disk [OF g3] mo2(1)] apart by (simp add: Int_commute)
  have i3: "get_inode ?n s3 = Some ?i" using s2(4) d3(6) by simp
  have fs3: "fs_ok s3" using g3 by (simp add: grew_def)
  obtain t s4 where s4: "inode_remove ?n s3 = Some t" "inode_close (Some ?n) t = Some s4"
    "freed (insert (sector ?i) (owned (data ?i))) s3 s4" "open_inodes s4 = remove1 ?n (open_inodes s3)" "files s4 = files s3"
    "get_inode ?n s4 = None" "\<And>j. j \<noteq> ?n \<Longrightarrow> get_inode j s4 = get_inode j s3"
    by (rule remove_close [OF fs3 i3 fo3]) (use c(4) in simp_all)
  have fr: "freed ?T s3 s4" using s4(3) by simp
  have oi: "open_inodes s4 = open_inodes s" "open_inodes s3 = ?n # open_inodes s"
    using s4(4) d3(5) s2(3) bc_step_fs(5) [OF s1(2)] by simp_all
  have kept: "get_inode jp s4 = Some i \<and> get_inode jp s3 = Some i" if "get_inode jp s = Some i" for jp i
    using that n [OF that] s4(7) [of jp] d3(6) m1 s2(2) by (simp add: more_open_def)
  have cl4: "closable s4 dp d ino"
  proof (rule closable_freed [OF cl3 fr])
    show "?T \<inter> file_sectors ino = {}" using sub apart c(9) [OF di f(4)] by (auto simp: file_sectors_def)
    show "ROOT_DIR_SECTOR \<notin> ?T" using sub c(8) by blast
    show "d_inode d \<in> set (open_inodes s4)" using oi di by simp
    show "set (remove1 (d_inode d) (open_inodes s4)) \<subseteq> set (remove1 (d_inode d) (open_inodes s3))"
      using oi n [OF f(4)] by auto
    fix ip assume ip: "ip \<in> set (open_inodes s4)"
    then obtain i where i: "get_inode ip s = Some i" using f(7) oi by auto
    then show "ip \<in> set (open_inodes s3) \<and> get_inode ip s4 = get_inode ip s3 \<and> (\<forall>i. get_inode ip s3 = Some i \<longrightarrow> sector i \<notin> ?T)"
      using kept [OF i] c(9) [of ip i] ip oi sub by auto
  qed
  have rm: "dir_remove dp nm s = Some (True, s4)"
    using f(3) s1(1) s2(1,4) c(3) s3(1) s4(1,2) by (simp add: dir_remove_def inode_is_directory_def dir_entry_size_def)
  have "disk_grew {} [] s s2" using mo1 mo2 sect2 fm2 by (simp add: disk_grew_def)
  then have dg: "disk_grew ?W [] s s3" using disk_grew_trans [OF _ grew_disk [OF g3], of "{}" "[]" s ?W] by simp
  have "file_bytes (bc_sect s4) (data ino) = file_bytes (bc_sect s3) (data ino)"
    using fr root_ok_facts(6) [OF closable_root [OF cl3]] by (rule freed_bytes)
  then have es4: "dir_entries (bc_sect s4) (data ino) = es[j := (es ! j)\<lparr>in_use := False\<rparr>]" using s3(3) by (simp add: dir_entries_def)
  have "fs_state.more s4 = fs_state.more s" using fr d3(7) more2 by (simp add: freed_def)
  note dirs = bc_step_dirs [OF this]
  have "files s4 = files s" using s4(5) d3(2) s2(5) bc_step_fs(2) [OF s1(2)] by simp
  moreover have "bc_dev_valid s4 = bc_dev_valid s" using fr g3 dv2 by (simp add: freed_def grew_def)
  ultimately show ?thesis by (intro that [OF rm cl4 dg fr es4 oi(1)]) (use kept dirs in simp_all)
qed

subsection \<open>Removing a file\<close>

lemma mounted_disk: "mounted s rd \<Longrightarrow> disk_ok s rd"
  by (auto simp: mounted_def root_closed_def file_ok_def root_ok_def split: option.splits)

text \<open>A path without directories leads to the root directory.\<close>

lemma dir_open_path_root:
  assumes "cwd s = None" and "strtok_all (CHR ''/'') dn = []" and "dir_open_root s = Some (Some dp, s')" and "closable s' dp d ino"
    and "d_open_cnt d = 1"
  shows "dir_open_path dn s = Some (Some dp, s')"
proof -
  have "\<not> removed ino" using assms(4,5) by (auto simp: closable_def)
  then show ?thesis
    using assms(1-3) root_ok_facts(3,4) [OF closable_root [OF assms(4)]]
    by (simp add: dir_open_path_def dir_get_inode_def inode_is_removed_def)
qed

lemma filesys_remove_mounted:
  fixes s :: "'z dir_state_scheme"
  assumes m: "mounted s rd" and closed: "cwd s = None" and es: "es = dir_entries (bc_sect s) rd"
    and path: "split_into (length path) path = Some (dn, nm)" "strtok_all (CHR ''/'') dn = []"
    and j: "find (\<lambda>j. in_use (es ! j) \<and> nm = c_string (e_name (es ! j))) [1..<length es] = Some j"
    and cf: "closed_file s (inode_sector (es ! j)) dk"
    and apart: "file_sectors (closed_inode (inode_sector (es ! j)) dk) \<inter> set (file_blocks rd) = {}"
  obtains s' where "filesys_remove path s = Some (True, s')" "mounted s' rd" "keeps s s'" "cwd s' = None" "open_inodes s' = open_inodes s"
    "dir_entries (bc_sect s') rd = es[j := (es ! j)\<lparr>in_use := False\<rparr>]"
    "free_sectors s' = free_sectors s \<union> insert (inode_sector (es ! j)) (owned dk)"
    "\<forall>other. file_ok s other \<and> (file_sectors (closed_inode (inode_sector (es ! j)) dk) \<union> set (file_blocks rd)) \<inter> file_sectors other = {} \<longrightarrow>
       file_ok s' other \<and> file_bytes (bc_sect s') (data other) = file_bytes (bc_sect s) (data other)"
proof -
  let ?sec = "inode_sector (es ! j)" and ?W = "set (file_blocks rd)" and ?T = "insert (inode_sector (es ! j)) (owned dk)"
  let ?i = "closed_inode ?sec dk"
  obtain s0 dp d ino where s0: "dir_open_root s = Some (Some dp, s0)" "closable s0 dp d ino" "data ino = rd" "keeps s s0"
    "disk_grew {} [] s s0" "bc_sect s0 = bc_sect s"
    "if d_open_cnt d = 1 then get_inode (d_inode d) s = None \<and> open_inodes s0 = d_inode d # open_inodes s
     else open_inodes s0 = open_inodes s"
    "(d_open_cnt d = 1 \<longleftrightarrow> cwd s = None) \<and> (if cwd s = None then d_pos d = 36 else cwd s = Some dp)"
    by (rule mounted_open [OF m])
  have one: "d_open_cnt d = 1" using s0(8) closed by simp
  note fs = mounted_fs [OF m] and c = closed_file_facts [OF cf] and f0 = root_ok_facts [OF closable_root [OF s0(2)]]
  have "sector ino = ROOT_DIR_SECTOR" using s0(2) one by (auto simp: closable_def)
  moreover have "file_ok s0 ?i" by (rule disk_grew_other_file(1) [OF s0(5) fs c(5)]) simp
  moreover have "sector i \<notin> file_sectors ?i" if ip: "ip \<in> set (open_inodes s)" "get_inode ip s0 = Some i" for ip i
  proof -
    obtain i' where "get_inode ip s = Some i'" using m ip(1) by (auto simp: mounted_def)
    then show ?thesis using c(9) [OF ip(1)] s0(4) ip(2) by (auto simp: keeps_def)
  qed
  ultimately have cf0: "closed_file s0 ?sec dk"
    using cf s0(6,7) one f0(4) by (auto simp: closed_file_def)
  have es0: "es = dir_entries (bc_sect s0) (data ino)" using es s0(3,6) by simp
  obtain v s1 where s1: "dir_remove dp nm s0 = Some (True, s1)" "closable s1 dp d ino"
    "disk_grew (set (file_blocks (data ino))) [] s0 v" "freed ?T v s1"
    "dir_entries (bc_sect s1) (data ino) = es[j := (es ! j)\<lparr>in_use := False\<rparr>]" "open_inodes s1 = open_inodes s0"
    "\<forall>jp i. get_inode jp s0 = Some i \<longrightarrow> get_inode jp s1 = Some i" "files s1 = files s0" "file_table s1 = file_table s0"
    "bc_dev_valid s1 = bc_dev_valid s0" "cwd s1 = cwd s0"
    by (rule dir_remove_closable [OF s0(2) es0 j cf0]) (use apart s0(3) in auto)
  obtain s' where s': "dir_close (Some dp) s1 = Some s'" "mounted s' (data ino)" "disk_grew {} [] s1 s'" "bc_sect s' = bc_sect s1"
    "files s' = files s1" "file_table s' = file_table s1" "bc_dev_valid s' = bc_dev_valid s1"
    "open_inodes s' = (if d_open_cnt d = 1 then remove1 (d_inode d) (open_inodes s1) else open_inodes s1)"
    "\<forall>j i. get_inode j s1 = Some i \<longrightarrow> (d_open_cnt d = 1 \<longrightarrow> j \<noteq> d_inode d) \<longrightarrow> get_inode j s' = Some i"
    "cwd s' = (if d_open_cnt d = 1 then None else cwd s1)"
    by (rule mounted_close [OF s1(2)])
  have rm: "filesys_remove path s = Some (True, s')"
    using path dir_open_path_root [OF closed path(2) s0(1,2) one] s1(1) s'(1) by (simp add: filesys_remove_def)
  have g: "disk_grew ?W [] s v" using disk_grew_trans [OF s0(5) s1(3), of ?W] s0(3) by simp
  have "free_sectors v = free_sectors s" "free_sectors s' = free_sectors s1" "used v = used s"
    using g s'(3) by (simp_all add: disk_grew_def free_sectors_def fun_eq_iff)
  moreover have "used s t" if "t \<in> ?T" for t using that c(6,7) owned_blocks(1) [OF c(7)] by (auto simp: disk_ok_def)
  ultimately have free: "free_sectors s' = free_sectors s \<union> ?T" using free_sectors_freed [OF s1(4)] by simp
  have other: "file_ok s' x \<and> file_bytes (bc_sect s') (data x) = file_bytes (bc_sect s) (data x)"
    if x: "file_ok s x" "(file_sectors ?i \<union> ?W) \<inter> file_sectors x = {}" for x
  proof -
    have "?W \<inter> file_sectors x = {}" "?T \<inter> file_sectors x = {}" using x(2) owned_blocks(1) [OF c(7)] by auto
    note a = disk_grew_other_file [OF g fs x(1) this(1)] and b = freed_file_ok [OF _ s1(4) this(2)]
    have fs1: "fs_ok s1" using s1(4) by (simp add: freed_def)
    have "disk_ok v (data x)" using a(1) by (simp add: file_ok_def)
    then show ?thesis
      using a(1,2) b [OF a(1)] freed_bytes [OF s1(4)] disk_grew_other_file(1,2) [OF s'(3) fs1 b [OF a(1)]] by simp
  qed
  have k: "keeps s s'"
    by (rule keeps_session [OF s0(4,7) _ s'(9)]) (use s1(7-10) s'(5-7) in simp_all)
  show ?thesis by (intro that [OF rm _ k _ _ _ free]) (use other s'(2,4,8,10) s0(3,7) s1(5,6) one in simp_all)
qed

subsection \<open>Closing a file\<close>

lemma files_upd_same:
  fixes s :: "'z fs_state_scheme"
  assumes "fs_ok s" and "get_file fp s = Some f" and "get_inode (f_inode f) s = Some i" and "file_ok s i"
  shows "same_fs s (s\<lparr>files := (files s)[fp := x]\<rparr>)" (is "same_fs s ?t")
proof -
  obtain fp0 f0 fmi where fp: "free_map_file s = Some fp0" "get_file fp0 s = Some f0" "get_inode (f_inode f0) s = Some fmi"
    using assms(1) by (auto simp: fs_ok_def fm_ok_def fm_inode_def split: option.splits bind_splits)
  have "f_inode f0 \<noteq> f_inode f" by (rule fm_not_file [OF assms(1,3,4) fp(1,2)])
  then have "fp0 \<noteq> fp" using fp(2) assms(2) by auto
  then have "fm_inode ?t = fm_inode s" using fp by (simp add: fm_inode_def get_file_def get_inode_def deref_def arr_get_def split: if_splits)
  then show ?thesis by (simp add: same_fs_def bc_inv_def bc_sect_def bc_dev_def bc_dev_valid_def)
qed

lemma same_fs_trans: "same_fs s t \<Longrightarrow> same_fs t u \<Longrightarrow> same_fs s u"
  by (simp add: same_fs_def)

lemma disk_grew_same:
  assumes "disk_grew W ts s t" and "same_fs t u"
  shows "disk_grew W ts s u"
  using assms(1) same_fs_ok(1-3) [OF assms(2)] assms(2) by (simp add: disk_grew_def same_fs_def)

lemma same_disk_grew:
  assumes "same_fs s t" and "disk_grew W ts t u"
  shows "disk_grew W ts s u"
  using assms(2) same_fs_ok(2,3) [OF assms(1)] assms(1) by (simp add: disk_grew_def same_fs_def)

lemma file_close_same:
  fixes s :: "'z fs_state_scheme"
  assumes "fs_ok s" and f: "get_file fp s = Some f" "\<not> deny_write f" and i: "get_inode (f_inode f) s = Some i" "file_ok s i"
    and c: "open_cnt i = 1" "\<not> removed i"
  obtains s' where "file_close (Some fp) s = Some s'" "same_fs s s'" "open_inodes s' = remove1 (f_inode f) (open_inodes s)"
    "\<forall>j. j \<noteq> f_inode f \<longrightarrow> get_inode j s' = get_inode j s" "fs_state.more s' = fs_state.more s"
proof -
  let ?s1 = "s\<lparr>files := (files s)[fp := None]\<rparr>"
  let ?s' = "?s1\<lparr>inodes := (inodes ?s1)[f_inode f := None], open_inodes := remove1 (f_inode f) (open_inodes s)\<rparr>"
  have s1: "same_fs s ?s1" by (rule files_upd_same [OF assms(1) f(1) i])
  have i1: "get_inode (f_inode f) ?s1 = Some i" using i(1) by (simp add: get_inode_def)
  have "same_fs ?s1 ?s'" by (rule inodes_upd_same [OF _ i1]) (use same_fs_ok(1,4) [OF s1] assms(1) i(2) in simp_all)
  then have sf: "same_fs s ?s'" by (rule same_fs_trans [OF s1])
  have close: "file_close (Some fp) s = Some ?s'"
    using f i(1) c by (simp add: file_close_def file_allow_write_def inode_close_def Let_def set_inode_def)
  have gi: "\<forall>j. j \<noteq> f_inode f \<longrightarrow> get_inode j ?s' = get_inode j s" by (simp add: get_inode_def deref_def arr_get_def)
  show ?thesis by (rule that [OF close sf _ gi]) simp_all
qed

lemma mounted_outside:
  fixes s :: "'z dir_state_scheme"
  assumes m: "mounted s rd" "cwd s = None" and g: "disk_grew W ts s s'" and W: "W \<inter> insert ROOT_DIR_SECTOR (set (file_blocks rd)) = {}"
    and cwd: "cwd s' = None"
    and mem: "\<And>jp. jp \<in> set (open_inodes s') \<Longrightarrow> jp \<in> set (open_inodes s) \<and> get_inode jp s' = get_inode jp s"
  shows "mounted s' rd"
proof -
  have rc: "root_closed s rd" "36 \<le> dlength rd" "\<forall>ip \<in> set (open_inodes s). \<exists>i. get_inode ip s = Some i \<and> used s (sector i)"
    using m by (simp_all add: mounted_def)
  let ?r = "\<lparr>sector = ROOT_DIR_SECTOR, open_cnt = 1, removed = False, deny_write_cnt = 0, data = rd\<rparr>"
  have r: "file_ok s ?r" "W \<inter> file_sectors ?r = {}" using rc(1) W by (simp_all add: root_closed_def file_sectors_def)
  note o = disk_grew_other_file(1,3) [OF g mounted_fs [OF m(1)] r]
  have "root_closed s' rd" using rc(1) o mem by (fastforce simp: root_closed_def)
  moreover have "\<exists>i. get_inode ip s' = Some i \<and> used s' (sector i)" if "ip \<in> set (open_inodes s')" for ip
    using rc(3) mem [OF that] g by (auto simp: disk_grew_def)
  moreover have "set (file_blocks rd) \<inter> W = {}" using W by auto
  then have "file_bytes (bc_sect s') rd = file_bytes (bc_sect s) rd"
    using disk_grew_other(2) [OF g mounted_fs [OF m(1)] mounted_disk [OF m(1)]] by (simp add: Int_commute)
  from names_ok_bytes [OF this] have "names_ok (bc_sect s') rd" using mounted_names [OF m(1)] by simp
  ultimately show ?thesis using rc(2) g cwd by (simp add: mounted_def disk_grew_def)
qed

lemma tight_owned:
  assumes "disk_ok s d"
  shows "tight d \<longleftrightarrow> owned d = set (file_blocks d)"
proof
  have l: "length (direct_blocks d) = 123" and dist: "distinct (file_blocks d)" using assms by (simp_all add: disk_ok_def)
  have split: "file_blocks d = filter (\<lambda>t. t \<noteq> 0) (take (nsec d) (direct_blocks d)) @ filter (\<lambda>t. t \<noteq> 0) (drop (nsec d) (direct_blocks d))"
    unfolding file_blocks_def by (simp only: filter_append [symmetric] append_take_drop_id)
  have own: "owned d = set (filter (\<lambda>t. t \<noteq> 0) (take (nsec d) (direct_blocks d)))"
    using owned_blocks(3) [OF assms] by (auto simp: owned_def)
  show "owned d = set (file_blocks d)" if "tight d"
  proof -
    have "\<forall>t \<in> set (drop (nsec d) (direct_blocks d)). t = 0" using that l by (auto simp: tight_def set_conv_nth)
    then show ?thesis using split own by simp
  qed
  show "tight d" if "owned d = set (file_blocks d)"
  proof -
    have "filter (\<lambda>t. t \<noteq> 0) (drop (nsec d) (direct_blocks d)) = []" using that split own dist by (auto simp: filter_empty_conv)
    then have "\<forall>t \<in> set (drop (nsec d) (direct_blocks d)). t = 0" by (auto simp: filter_empty_conv)
    moreover have "direct_blocks d ! j \<in> set (drop (nsec d) (direct_blocks d))" if "nsec d \<le> j" "j < 123" for j
      using that l by (auto simp: in_set_conv_nth intro!: exI [of _ "j - nsec d"])
    ultimately show ?thesis by (simp add: tight_def)
  qed
qed

subsection \<open>Writing to a file and closing it\<close>

lemma remove_entry_last: "nm \<notin> fst ` set es \<Longrightarrow> remove_entry nm (es @ [(nm, x)]) = es"
  by (induction nm es rule: remove_entry.induct) auto

lemma find_entry_last: "nm \<notin> fst ` set es \<Longrightarrow> find (\<lambda>(n, _). n = nm) (es @ [(nm, x)]) = Some (nm, x)"
  by (induction es) auto

lemma free_sectors_taken: "disk_grew W ts s s' \<Longrightarrow> free_sectors s' = free_sectors s - set ts"
  by (auto simp: disk_grew_def free_sectors_def)

text \<open>
  The first write opens the file and enters it in the table, and \<open>fsutil_rm\<close> first takes it out of the table and closes
  it. Between them the file system is mounted with one more open inode; afterwards it is as before, but for the
  sectors the file has taken.
\<close>

lemma write_then_close:
  fixes s :: "'z dir_state_scheme"
  assumes m: "mounted s rd" "cwd s = None" and es: "es = dir_entries (bc_sect s) rd" and path: "split_path_filename path = (dn, nm)"
    and nm: "nm \<noteq> []" "nm \<noteq> ''.''" "nm \<noteq> ''..''"
    and j: "find (\<lambda>j. in_use (es ! j) \<and> nm = c_string (e_name (es ! j))) [1..<length es] = Some j"
    and sec: "sec = inode_sector (es ! j)" and cf: "closed_file s sec d" and tight: "tight d"
    and apart: "file_sectors (closed_inode sec d) \<inter> set (file_blocks rd) = {}" and tab: "path \<notin> fst ` set (file_table s)"
    and sz: "sz = int (length buf)" "0 < sz" "sector_count sz \<le> 123" "sector_count sz \<le> card (free_sectors s)"
    and b: "put_at buf (nat sz - 1) [0] = buf"
  obtains s1 s2 d' ts where "fsutil_write path buf sz s = Some (sz, buf, s1)" "remove_from_file_table path s1 = Some (True, s2)"
    "mounted s2 rd" "cwd s2 = None" "closed_file s2 sec d'" "tight d'" "file_sectors (closed_inode sec d') \<inter> set (file_blocks rd) = {}"
    "dir_entries (bc_sect s2) rd = es" "open_inodes s2 = open_inodes s" "file_table s2 = file_table s"
    "disk_grew (file_sectors (closed_inode sec d)) ts s s2" "set (file_blocks d') = set (file_blocks d) \<union> set ts"
proof -
  let ?i = "closed_inode sec d" and ?W = "set (file_blocks rd)"
  note c = closed_file_facts [OF cf] and fs = mounted_fs [OF m(1)]
  have others: "\<forall>ip \<in> set (open_inodes s). \<forall>i. get_inode ip s = Some i \<longrightarrow> sector i \<noteq> sec" using c(9) by auto
  have nr: "sec \<noteq> ROOT_DIR_SECTOR" using c(8) by auto
  obtain t fp ip where t: "filesys_open path s = Some (Some fp, t)" "mounted t rd" "disk_grew {} [] s t" "bc_sect t = bc_sect s"
    "file_table t = file_table s" "\<forall>j i. get_inode j s = Some i \<longrightarrow> get_inode j t = Some i"
    "get_file fp t = Some \<lparr>f_inode = ip, pos = 0, deny_write = False\<rparr>"
    "get_inode ip t = Some \<lparr>sector = sec, open_cnt = 1, removed = False, deny_write_cnt = 0, data = inode_disk_of (bc_sect s sec)\<rparr>"
    "open_inodes t = ip # open_inodes s" "cwd t = cwd s"
    by (rule filesys_open_mounted [OF m(1) es path nm j sec c(6) others nr])
  have i: "get_inode ip t = Some ?i" using t(8) c(2) by (simp add: closed_inode_def)
  have fo: "file_ok t ?i" by (rule disk_grew_other_file(1) [OF t(3) fs c(5)]) simp
  have free_t: "free_sectors t = free_sectors s" using free_sectors_taken [OF t(3)] by simp
  have fst: "fs_ok t" by (rule mounted_fs [OF t(2)])
  let ?f = "\<lparr>f_inode = ip, pos = sz - 2, deny_write = False\<rparr>" and ?t = "t\<lparr>file_table := file_table t @ [(path, Some fp)]\<rparr>"
  have "find (\<lambda>(n, _). n = path) (file_table t) = None" using tab t(5) by (force simp: find_None_iff)
  then have add: "add_to_file_table (Some fp) path t = ?t" by (simp add: add_to_file_table_def get_file_by_fname_def)
  obtain s1 i' v ts where w: "fsutil_write path buf sz s = Some (sz, buf, s1)" "open_as path fp ?f i' s1"
    and v: "s1 = set_file fp ?f v" "file_ok v i'" "grew ip (file_sectors ?i) ts ?t v"
    and d': "mset (file_blocks (data i')) = mset (file_blocks d) + mset ts" "i' = ?i\<lparr>data := data i'\<rparr>" "\<not> is_dir (data i')" "tight (data i')"
      "bc_sect v sec = inode_disk_bytes (data i')"
    using fsutil_write_new [OF tab t(1,5) fst t(7) i fo sz(1-3) _ b] sz(4) free_t t(4) tight c(1,3) unfolding add file_written_def by auto
  have i': "i' = closed_inode sec (data i')" using d'(2) by (simp add: closed_inode_def)
  have blocks: "set (file_blocks (data i')) = set (file_blocks d) \<union> set ts" using arg_cong [OF d'(1), of set_mset] by simp
  have g: "fs_ok v" "files v = files t" "fs_state.more v = fs_state.more ?t" "open_inodes v = ip # open_inodes s"
    "\<And>j. j \<noteq> ip \<Longrightarrow> get_inode j v = get_inode j t" using v(3) t(9) by (simp_all add: grew_def)
  have mem1: "get_inode ip v = Some i'" "get_file fp s1 = Some ?f" "get_inode (f_inode ?f) s1 = Some i'"
    using w(2) v(1) by (simp_all add: open_as_def)
  have fv: "get_file fp v = Some \<lparr>f_inode = ip, pos = 0, deny_write = False\<rparr>" using t(7) g(2) by (simp add: get_file_def)
  have "same_fs v (v\<lparr>files := (files v)[fp := Some ?f]\<rparr>)"
    by (rule files_upd_same [OF g(1) fv _ v(2)]) (use mem1(1) in simp)
  then have sf1: "same_fs v s1" by (simp add: v(1) set_file_def)
  have fs1: "fs_ok s1" "file_ok s1 i'" using same_fs_ok(1,4) [OF sf1] g(1) v(2) by simp_all
  have oc: "open_cnt i' = 1" "\<not> removed i'" by (subst i', simp)+
  have dw: "\<not> deny_write ?f" by simp
  obtain u where u: "file_close (Some fp) s1 = Some u" "same_fs s1 u" "open_inodes u = remove1 (f_inode ?f) (open_inodes s1)"
    "\<forall>j. j \<noteq> f_inode ?f \<longrightarrow> get_inode j u = get_inode j s1" "fs_state.more u = fs_state.more s1"
    by (rule file_close_same [OF fs1(1) mem1(2) dw mem1(3) fs1(2) oc])
  let ?s2 = "u\<lparr>file_table := file_table s\<rparr>"
  have more1: "fs_state.more s1 = fs_state.more ?t" using g(3) v(1) by simp
  note dirs = bc_step_dirs [OF more1] bc_step_dirs [OF u(5)]
  have rm: "remove_from_file_table path s1 = Some (True, ?s2)"
    using u(1) dirs t(5) tab by (simp add: remove_from_file_table_def find_entry_last remove_entry_last)
  have same: "same_fs t ?t" "same_fs v ?s2"
    using same_fs_trans [OF same_fs_trans [OF sf1 u(2)]] by (simp_all add: same_fs_upd)
  have dg: "disk_grew (file_sectors ?i) ts t ?s2" by (rule disk_grew_same [OF same_disk_grew [OF same(1) grew_disk [OF v(3)]] same(2)])
  have dg0: "disk_grew (file_sectors ?i) ts s ?s2" using disk_grew_trans [OF t(3) dg, of "file_sectors ?i"] by simp
  have oi: "open_inodes ?s2 = open_inodes s" using u(3) v(1) g(4) by (simp add: set_file_def)
  have ne: "jp \<noteq> ip" "get_inode jp ?s2 = get_inode jp t" "\<And>i. get_inode jp t = Some i \<Longrightarrow> used s (sector i) \<and> sector i \<notin> file_sectors ?i"
    if jp: "jp \<in> set (open_inodes s)" for jp
  proof -
    obtain x where x: "get_inode jp s = Some x" "used s (sector x)" using m(1) jp by (auto simp: mounted_def)
    then have xt: "get_inode jp t = Some x" "sector x \<notin> file_sectors ?i" using t(6) c(9) [OF jp] by simp_all
    then show "jp \<noteq> ip" using i by auto
    then show "get_inode jp ?s2 = get_inode jp t" using u(4) v(1) g(5) by simp
    show "\<And>i. get_inode jp t = Some i \<Longrightarrow> used s (sector i) \<and> sector i \<notin> file_sectors ?i" using xt x(2) by simp
  qed
  have cwd: "cwd ?s2 = None" using dirs t(10) m(2) by simp
  have m2: "mounted ?s2 rd"
  proof (rule mounted_outside [OF t(2) _ dg _ cwd])
    show "cwd t = None" using t(10) m(2) by simp
    show "file_sectors ?i \<inter> insert ROOT_DIR_SECTOR ?W = {}" using c(8) apart by blast
  qed (use oi t(9) ne(2) in auto)
  have fresh: "\<And>x. x \<in> set ts \<Longrightarrow> \<not> used s x" using dg0 by (simp add: disk_grew_def)
  have fsec: "file_sectors (closed_inode sec (data i')) = file_sectors ?i \<union> set ts" using blocks by auto
  have "used s x" if "x \<in> ?W" for x using that mounted_disk [OF m(1)] by (simp add: disk_ok_def)
  then have apart': "file_sectors (closed_inode sec (data i')) \<inter> ?W = {}" using fsec apart fresh by blast
  have dok: "disk_ok v (data i')" using v(2) by (simp add: file_ok_def)
  then have wf: "disk_wf (data i')" using nsec_small [of "data i'"] by (simp add: disk_ok_def disk_wf_def)
  have fo2: "file_ok ?s2 (closed_inode sec (data i'))" using v(2) same_fs_ok(4) [OF same(2)] by (simp only: i' [symmetric])
  have "sector i \<notin> file_sectors (closed_inode sec (data i'))" if "ip \<in> set (open_inodes s)" "get_inode ip ?s2 = Some i" for ip i
    using ne [OF that(1)] that(2) fresh fsec by auto
  then have cl: "\<forall>ip \<in> set (open_inodes ?s2). \<forall>i. get_inode ip ?s2 = Some i \<longrightarrow> sector i \<notin> file_sectors (closed_inode sec (data i'))"
    unfolding oi by blast
  have "ROOT_DIR_SECTOR \<notin> file_sectors (closed_inode sec (data i'))"
    using c(8) fresh mounted_root_used [OF m(1)] unfolding fsec by blast
  moreover have "bc_sect ?s2 sec = inode_disk_bytes (data i')" using d'(5) same(2) by (simp add: same_fs_def)
  ultimately have cf2: "closed_file ?s2 sec (data i')" using wf d'(3) c(4) fo2 cl unfolding closed_file_def by (intro conjI) assumption+
  have "?W \<inter> file_sectors ?i = {}" using apart by blast
  then have es2: "dir_entries (bc_sect ?s2) rd = es"
    using disk_grew_other(2) [OF dg0 fs mounted_disk [OF m(1)]] es by (simp add: dir_entries_def Int_commute)
  have ft: "file_table ?s2 = file_table s" by simp
  show ?thesis by (rule that [OF w(1) rm m2 cwd cf2 d'(4) apart' es2 oi ft dg0 blocks])
qed

subsection \<open>Properties\<close>


text \<open>A file that has just been created is such a file.\<close>

lemma create_closed:
  fixes s :: "'z dir_state_scheme"
  assumes m: "mounted s rd" and es: "es = dir_entries (bc_sect s) rd" and path: "split_into (length path) path = Some (dn, nm)"
    and nm: "nm \<notin> {[], ''.'', ''..''}" "length nm \<le> NAME_MAX" "CHR 0x00 \<notin> set nm"
    and new: "\<forall>j. 1 \<le> j \<longrightarrow> j < length es \<longrightarrow> \<not> (in_use (es ! j) \<and> nm = c_string (e_name (es ! j)))"
    and slot: "1 \<le> k" "find (\<lambda>j. \<not> in_use (es ! j)) [0..<length es] = Some k"
    and len: "0 \<le> len" "sector_count len \<le> 123" "sector_count len < card (free_sectors s)"
  obtains s1 sec d ts es1 where "filesys_create junk path len False s = Some (True, s1)" "mounted s1 rd" "keeps s s1" "cwd s1 = cwd s"
    "open_inodes s1 = open_inodes s" "es1 = dir_entries (bc_sect s1) rd"
    "es1 = es[k := \<lparr>inode_sector = sec, e_name = strncpy 31 nm, in_use = True\<rparr>]"
    "find (\<lambda>j. in_use (es1 ! j) \<and> nm = c_string (e_name (es1 ! j))) [1..<length es1] = Some k" "inode_sector (es1 ! k) = sec"
    "closed_file s1 sec d" "file_sectors (closed_inode sec d) = insert sec (owned d)" "insert sec (owned d) = set (sec # ts)"
    "file_sectors (closed_inode sec d) \<inter> set (file_blocks rd) = {}" "disk_grew (set (file_blocks rd)) (sec # ts) s s1"
    "length ts = sector_count len"
proof -
  have nm': "nm \<noteq> []" "length nm \<le> 30" using nm(1,2) by (simp_all add: NAME_MAX_def)
  let ?W = "set (file_blocks rd)"
  obtain sec ts d s1 where s1: "filesys_create junk path len False s = Some (True, s1)" "mounted s1 rd" "keeps s s1"
    "disk_grew ?W (sec # ts) s s1" "open_inodes s1 = open_inodes s" "length ts = sector_count len"
    "dir_entries (bc_sect s1) rd = es[k := \<lparr>inode_sector = sec, e_name = strncpy 31 nm, in_use = True\<rparr>]"
    "bc_sect s1 sec = inode_disk_bytes d" "disk_wf d" "disk_ok s1 d" "set (file_blocks d) = set ts" "dlength d = len"
    "\<not> is_dir d" "file_bytes (bc_sect s1) d = replicate (nat len) 0" "cwd s1 = cwd s"
    by (rule filesys_create_mounted [OF m es path nm' new slot(2) len])
  define es1 where "es1 = dir_entries (bc_sect s1) rd"
  have k: "k < length es" using slot(2) by (simp add: find_upt_Some)
  have find: "find (\<lambda>j. in_use (es1 ! j) \<and> nm = c_string (e_name (es1 ! j))) [1..<length es1] = Some k"
    using new nm(3) nm'(2) slot(1) k s1(7) by (auto simp: es1_def find_upt_Some nth_list_update c_string_strncpy)
  have fresh: "\<And>t. t \<in> set (sec # ts) \<Longrightarrow> \<not> used s t" "distinct (sec # ts)" "used s1 sec" "fm_sectors s1 = fm_sectors s"
    using s1(4) by (auto simp: disk_grew_def)
  have d: "length (direct_blocks d) = 123" "nsec d = sector_count len" using s1(10,12) by (simp_all add: disk_ok_def nsec_def)
  note o = owned_blocks [OF s1(10)]
  have "card (owned d) = card (set ts)"
    using o(2) d len(2) s1(6) fresh(2) by (simp add: owned_def distinct_card)
  then have own: "owned d = set ts" using card_subset_eq [of "set ts" "owned d"] o(1) s1(11) by simp
  have fsec: "file_sectors (closed_inode sec d) = set (sec # ts)" using s1(11) by simp
  have "used s t" if "t \<in> ?W" for t using that mounted_disk [OF m] by (simp add: disk_ok_def)
  then have apart: "file_sectors (closed_inode sec d) \<inter> ?W = {}" using fresh(1) fsec by blast
  have nz: "sec \<noteq> 0" using fresh(1) [of sec] fs_ok_facts(3) [OF mounted_fs [OF m]] by auto
  have nr: "ROOT_DIR_SECTOR \<notin> set (sec # ts)" using fresh(1) mounted_root_used [OF m] by blast
  have "sec \<notin> fm_sectors s" using fresh(1) [of sec] fs_ok_facts(2) [OF mounted_fs [OF m]] by auto
  then have fo: "file_ok s1 (closed_inode sec d)" using s1(10,11) fresh by (simp add: file_ok_def)
  have "sector i \<notin> set (sec # ts)" if ip: "ip \<in> set (open_inodes s1)" "get_inode ip s1 = Some i" for ip i
  proof -
    obtain i0 where "get_inode ip s = Some i0" "used s (sector i0)" using m ip(1) s1(5) by (auto simp: mounted_def)
    then show ?thesis using ip(2) s1(3) fresh(1) by (auto simp: keeps_def)
  qed
  then have "closed_file s1 sec d" using s1(8,9,13) nz nr fo fsec unfolding closed_file_def by auto
  then show ?thesis
    by (intro that [OF s1(1-3,15,5) es1_def _ find _ _ _ _ apart s1(4,6)]) (use own s1(7,11) k in \<open>simp_all add: es1_def\<close>)
qed

lemma live_names_unused:
  assumes "1 \<le> k" and "\<not> in_use (es ! k)" and "\<not> in_use e"
  shows "live_names (drop 1 (es[k := e])) = live_names (drop 1 es)"
proof -
  have "filter in_use (xs[i := e]) = filter in_use xs" if "\<not> in_use (xs ! i)" for xs i
    using that assms(3) by (induction xs arbitrary: i) (auto split: nat.split)
  moreover have "drop 1 (es[k := e]) = (drop 1 es)[k - 1 := e]" using assms(1) by (simp add: drop_update_swap)
  ultimately show ?thesis using assms(1,2) by (cases "k < length es") (simp_all add: live_names_def list_update_beyond)
qed

text \<open>
  Creating a file and removing it gives everything back: \<open>fsutil_create\<close> of a new name followed by \<open>fsutil_rm\<close> of
  that name succeed, and afterwards exactly those sectors are free that were free before, the root directory lists the
  same names, the same inodes are open, and every file that was open with sectors of its own keeps its inode and its
  bytes.
\<close>

theorem fsutil_create_then_rm:
  fixes s :: "'z dir_state_scheme"
  assumes "mounted s rd" and "cwd s = None" and "es = dir_entries (bc_sect s) rd"
    and "split_into (length path) path = Some (dn, nm)" "strtok_all (CHR ''/'') dn = []"
    and "nm \<notin> {[], ''.'', ''..''}" "length nm \<le> NAME_MAX" "CHR 0x00 \<notin> set nm"
    and "\<forall>j. 1 \<le> j \<longrightarrow> j < length es \<longrightarrow> \<not> (in_use (es ! j) \<and> nm = c_string (e_name (es ! j)))"
    and "1 \<le> k" "find (\<lambda>j. \<not> in_use (es ! j)) [0..<length es] = Some k"
    and "0 \<le> len" "sector_count len \<le> 123" "sector_count len < card (free_sectors s)"
    and "path \<noteq> []" "length path < 255" "path \<notin> fst ` set (file_table s)"
  shows "\<exists>s1 s2. fsutil_create junk path len s = Some (1, s1) \<and> fsutil_rm path s1 = Some (1, s2) \<and> mounted s2 rd \<and>
    free_sectors s1 \<subset> free_sectors s \<and> free_sectors s2 = free_sectors s \<and> open_inodes s2 = open_inodes s \<and>
    live_names (drop 1 (dir_entries (bc_sect s2) rd)) = live_names (drop 1 es) \<and>
    (\<forall>ip other. get_inode ip s = Some other \<and> file_ok s other \<and> set (file_blocks rd) \<inter> file_sectors other = {} \<longrightarrow>
       get_inode ip s2 = Some other \<and> file_ok s2 other \<and>
       file_bytes (bc_sect s2) (data other) = file_bytes (bc_sect s) (data other))"
proof -
  let ?W = "set (file_blocks rd)"
  obtain s1 sec d ts es1 where s1: "filesys_create junk path len False s = Some (True, s1)" "mounted s1 rd" "keeps s s1" "cwd s1 = cwd s"
    "open_inodes s1 = open_inodes s" "es1 = dir_entries (bc_sect s1) rd"
    "es1 = es[k := \<lparr>inode_sector = sec, e_name = strncpy 31 nm, in_use = True\<rparr>]"
    "find (\<lambda>j. in_use (es1 ! j) \<and> nm = c_string (e_name (es1 ! j))) [1..<length es1] = Some k" "inode_sector (es1 ! k) = sec"
    "closed_file s1 sec d" "file_sectors (closed_inode sec d) = insert sec (owned d)" "insert sec (owned d) = set (sec # ts)"
    "file_sectors (closed_inode sec d) \<inter> ?W = {}" "disk_grew ?W (sec # ts) s s1"
    "length ts = sector_count len"
    by (rule create_closed [OF assms(1,3,4,6-14)])
  have cwd1: "cwd s1 = None" using s1(4) assms(2) by simp
  have cf1: "closed_file s1 (inode_sector (es1 ! k)) d" "file_sectors (closed_inode (inode_sector (es1 ! k)) d) \<inter> ?W = {}"
    using s1(9,10,13) by simp_all
  obtain s2 where s2: "filesys_remove path s1 = Some (True, s2)" "mounted s2 rd" "keeps s1 s2" "cwd s2 = None" "open_inodes s2 = open_inodes s1"
    "dir_entries (bc_sect s2) rd = es1[k := (es1 ! k)\<lparr>in_use := False\<rparr>]"
    "free_sectors s2 = free_sectors s1 \<union> insert (inode_sector (es1 ! k)) (owned d)"
    "\<forall>other. file_ok s1 other \<and> (file_sectors (closed_inode (inode_sector (es1 ! k)) d) \<union> ?W) \<inter> file_sectors other = {} \<longrightarrow>
       file_ok s2 other \<and> file_bytes (bc_sect s2) (data other) = file_bytes (bc_sect s1) (data other)"
    by (rule filesys_remove_mounted [OF s1(2) cwd1 s1(6) assms(4,5) s1(8) cf1])
  have tab: "path \<notin> fst ` set (file_table s1)" using assms(17) s1(3) by (simp add: keeps_def)
  then have "find (\<lambda>(n, _). n = path) (file_table s1) = None" by (force simp: find_None_iff)
  then have rm: "fsutil_rm path s1 = Some (1, s2)" using s2(1) by (simp add: fsutil_rm_def remove_from_file_table_def)
  have cr: "fsutil_create junk path len s = Some (1, s1)" using s1(1) assms(15,16) by (simp add: fsutil_create_def)
  have "free_sectors s1 = free_sectors s - set (sec # ts)" using s1(14) by (auto simp: free_sectors_def disk_grew_def)
  then have free: "free_sectors s1 \<subset> free_sectors s" "free_sectors s2 = free_sectors s"
    using free_sectors_grew(2) [OF s1(14)] s2(7) s1(9,12) by auto
  have "\<not> in_use (es ! k)" "k < length es" using assms(11) by (simp_all add: find_upt_Some)
  then have names: "live_names (drop 1 (dir_entries (bc_sect s2) rd)) = live_names (drop 1 es)"
    using s2(6) s1(7) live_names_unused [OF assms(10), of es] by simp
  have other: "get_inode ip s2 = Some x \<and> file_ok s2 x \<and> file_bytes (bc_sect s2) (data x) = file_bytes (bc_sect s) (data x)"
    if x: "get_inode ip s = Some x \<and> file_ok s x \<and> ?W \<inter> file_sectors x = {}" for ip x
  proof -
    have xs: "file_ok s x" "?W \<inter> file_sectors x = {}" using x by simp_all
    note a = disk_grew_other_file [OF s1(14) mounted_fs [OF assms(1)] xs]
    have "file_sectors (closed_inode (inode_sector (es1 ! k)) d) = set (sec # ts)" using s1(9,11,12) by simp
    then have "(file_sectors (closed_inode (inode_sector (es1 ! k)) d) \<union> ?W) \<inter> file_sectors x = {}" using a(4) xs(2) by blast
    then have "file_ok s2 x \<and> file_bytes (bc_sect s2) (data x) = file_bytes (bc_sect s) (data x)" using s2(8) a(1,2) by simp
    then show ?thesis using x s1(3) s2(3) by (simp add: keeps_def)
  qed
  show ?thesis using cr rm s2(2,5) s1(5) free names other by auto
qed

subsection \<open>The life of a file\<close>

lemma create_write_rm:
  fixes s :: "'z dir_state_scheme"
  assumes "creatable s rd path" and cwd: "cwd s = None" and top: "strtok_all (CHR ''/'') (fst (split_path_filename path)) = []"
    and len: "0 \<le> len" "sector_count len \<le> 123" "sector_count len + sector_count sz < card (free_sectors s)"
    and pl: "path \<noteq> []" "length path < 255" "path \<notin> fst ` set (file_table s)"
    and sz: "sz = int (length buf)" "0 < sz" "sector_count sz \<le> 123" and b: "put_at buf (nat sz - 1) [0] = buf"
  shows "\<exists>s1 s2 s3. fsutil_create junk path len s = Some (1, s1) \<and> fsutil_write path buf sz s1 = Some (sz, buf, s2) \<and>
    fsutil_rm path s2 = Some (1, s3) \<and> mounted s3 rd \<and> cwd s3 = None \<and> free_sectors s3 = free_sectors s \<and>
    open_inodes s3 = open_inodes s \<and> file_table s3 = file_table s \<and>
    live_names (drop 1 (dir_entries (bc_sect s3) rd)) = live_names (drop 1 (dir_entries (bc_sect s) rd))"
proof -
  define es where "es = dir_entries (bc_sect s) rd"
  obtain dn nm where path: "split_into (length path) path = Some (dn, nm)" using assms(1) by (auto simp: creatable_def Let_def)
  note parts = split_into_path [OF path]
  obtain k where m: "mounted s rd" and nm: "nm \<notin> {[], ''.'', ''..''}" "length nm \<le> NAME_MAX" "CHR 0x00 \<notin> set nm"
    and new: "\<forall>j. 1 \<le> j \<longrightarrow> j < length es \<longrightarrow> \<not> (in_use (es ! j) \<and> nm = c_string (e_name (es ! j)))"
    and k: "1 \<le> k" "find (\<lambda>j. \<not> in_use (es ! j)) [0..<length es] = Some k"
    using assms(1) parts by (auto simp: creatable_def Let_def es_def)
  have dn: "strtok_all (CHR ''/'') dn = []" using top parts by simp
  have len': "sector_count len < card (free_sectors s)" using len(3) by simp
  let ?W = "set (file_blocks rd)"
  obtain s1 sec d ts es1 where s1: "filesys_create junk path len False s = Some (True, s1)" "mounted s1 rd" "keeps s s1" "cwd s1 = cwd s"
    "open_inodes s1 = open_inodes s" "es1 = dir_entries (bc_sect s1) rd"
    "es1 = es[k := \<lparr>inode_sector = sec, e_name = strncpy 31 nm, in_use = True\<rparr>]"
    "find (\<lambda>j. in_use (es1 ! j) \<and> nm = c_string (e_name (es1 ! j))) [1..<length es1] = Some k" "inode_sector (es1 ! k) = sec"
    "closed_file s1 sec d" "file_sectors (closed_inode sec d) = insert sec (owned d)" "insert sec (owned d) = set (sec # ts)"
    "file_sectors (closed_inode sec d) \<inter> ?W = {}" "disk_grew ?W (sec # ts) s s1" "length ts = sector_count len"
    by (rule create_closed [OF m es_def path nm new k len(1,2) len'])
  have cwd1: "cwd s1 = None" using s1(4) cwd by simp
  have nm': "nm \<noteq> []" "nm \<noteq> ''.''" "nm \<noteq> ''..''" using nm(1) by simp_all
  have tab1: "file_table s1 = file_table s" using s1(3) by (simp add: keeps_def)
  note c1 = closed_file_facts [OF s1(10)]
  have "sec \<notin> set (file_blocks d)" using c1(5) by (simp add: file_ok_def)
  moreover have "sec \<notin> owned d" using owned_blocks(1) [OF c1(7)] calculation by blast
  ultimately have own: "owned d = set (file_blocks d)" using s1(11) by auto
  then have tight: "tight d" using tight_owned [OF c1(7)] by simp
  have room: "sector_count sz \<le> card (free_sectors s1)" using free_sectors_grew(1) [OF s1(14)] s1(15) len(3) by simp
  have pn: "path \<notin> fst ` set (file_table s1)" using pl(3) tab1 by simp
  obtain s2 s3 d' us where w: "fsutil_write path buf sz s1 = Some (sz, buf, s2)" "remove_from_file_table path s2 = Some (True, s3)"
    "mounted s3 rd" "cwd s3 = None" "closed_file s3 sec d'" "tight d'" "file_sectors (closed_inode sec d') \<inter> ?W = {}"
    "dir_entries (bc_sect s3) rd = es1" "open_inodes s3 = open_inodes s1" "file_table s3 = file_table s1"
    "disk_grew (file_sectors (closed_inode sec d)) us s1 s3" "set (file_blocks d') = set (file_blocks d) \<union> set us"
    by (rule write_then_close [OF s1(2) cwd1 s1(6) parts nm' s1(8) s1(9) [symmetric] s1(10) tight s1(13) pn sz room b])
  have cf3: "closed_file s3 (inode_sector (es1 ! k)) d'" "file_sectors (closed_inode (inode_sector (es1 ! k)) d') \<inter> ?W = {}"
    using w(5,7) s1(9) by simp_all
  obtain s4 where s4: "filesys_remove path s3 = Some (True, s4)" "mounted s4 rd" "keeps s3 s4" "cwd s4 = None" "open_inodes s4 = open_inodes s3"
    "dir_entries (bc_sect s4) rd = es1[k := (es1 ! k)\<lparr>in_use := False\<rparr>]"
    "free_sectors s4 = free_sectors s3 \<union> insert (inode_sector (es1 ! k)) (owned d')"
    "\<forall>other. file_ok s3 other \<and> (file_sectors (closed_inode (inode_sector (es1 ! k)) d') \<union> ?W) \<inter> file_sectors other = {} \<longrightarrow>
       file_ok s4 other \<and> file_bytes (bc_sect s4) (data other) = file_bytes (bc_sect s3) (data other)"
    by (rule filesys_remove_mounted [OF w(3,4) w(8) [symmetric] path dn s1(8) cf3])
  have create: "fsutil_create junk path len s = Some (1, s1)" using s1(1) pl(1,2) by (simp add: fsutil_create_def)
  have rm: "fsutil_rm path s2 = Some (1, s4)" using w(2) s4(1) by (simp add: fsutil_rm_def)
  have "owned d' = set (file_blocks d')" using w(6) tight_owned closed_file_facts(7) [OF w(5)] by blast
  then have "insert sec (owned d') = set (sec # ts) \<union> set us" using own s1(12) w(12) by auto
  moreover have "set (sec # ts) \<subseteq> free_sectors s" "set us \<subseteq> free_sectors s1"
    using free_sectors_grew(2) [OF s1(14)] free_sectors_grew(2) [OF w(11)] by blast+
  ultimately have free: "free_sectors s4 = free_sectors s"
    using s4(7) s1(9) free_sectors_taken [OF s1(14)] free_sectors_taken [OF w(11)] by auto
  have "\<not> in_use (es ! k)" "k < length es" using k(2) by (simp_all add: find_upt_Some)
  then have names: "live_names (drop 1 (dir_entries (bc_sect s4) rd)) = live_names (drop 1 es)"
    using s4(6) s1(7) live_names_unused [OF k(1), of es] by simp
  have "file_table s4 = file_table s" using s4(3) w(10) tab1 by (simp add: keeps_def)
  then show ?thesis using create w(1,9) rm s4(2,4,5) free s1(5) names es_def by auto
qed

subsection \<open>An example\<close>


theorem fsutil_create_then_rm_witness:
  "\<exists>s1 s2. fsutil_create [] ''/a.txt'' 300 create_example = Some (1, s1) \<and> fsutil_rm ''/a.txt'' s1 = Some (1, s2) \<and>
     card (free_sectors s2) = 3"
proof -
  have dn: "strtok_all (CHR ''/'') ''/'' = []" by (simp add: strtok_all_def)
  have "cwd create_example = None" by simp
  from fsutil_create_then_rm [OF create_example_mounted this refl create_example_path dn _ _ _ create_example_slot(1) order_refl
      create_example_slot(2), of 300 "[]"] show ?thesis
    using create_example_free by (auto simp: NAME_MAX_def sector_count_def simp del: create_example_simps(1-6,8))
qed

end
