(* ===== verification/Mount.thy ===== *)
theory Mount
  imports Create
begin

text \<open>
  Formatting and mounting: \<open>filesys_init\<close> and \<open>filesys_done\<close> (\<open>src/a3/fs/filesys.c\<close>).

  While a disk is formatted the free map has no file yet: \<open>blank\<close> is the invariant of that time and \<open>claimed\<close> its
  allocations, which take sectors without saving the map. \<open>free_map_create\<close> leads from \<open>blank\<close> to \<open>fs_ok\<close>, and \<open>dir_create\<close>
  makes the root directory of \<open>mounted\<close>. \<open>saved\<close> describes a free map on the disk alone, by the contents of the sectors;
  it is what \<open>free_map_open\<close> needs and what every mounted file system leaves behind, so that a disk can be mounted again.
\<close>

subsection \<open>A disk without a file of the free map\<close>

definition blank :: "'z fs_state_scheme \<Rightarrow> bool" where
  "blank s \<longleftrightarrow> bc_inv s \<and> bitmap_inv (free_map s) \<and> bit_cnt (free_map s) < 2 ^ 32 - 1 \<and> free_map_file s = None \<and> used s 0 \<and>
     (\<forall>t. unat t < bit_cnt (free_map s) \<longrightarrow> bc_dev_valid s t)"

definition claimed :: "block_sector_t list \<Rightarrow> 'z fs_state_scheme \<Rightarrow> 'z fs_state_scheme \<Rightarrow> bool" where
  "claimed ts s s' \<longleftrightarrow> blank s' \<and> distinct ts \<and> bit_cnt (free_map s') = bit_cnt (free_map s) \<and>
     (\<forall>t \<in> set ts. \<not> used s t \<and> bc_sect s' t = zeros) \<and> (\<forall>t. used s' t \<longleftrightarrow> used s t \<or> t \<in> set ts) \<and>
     (\<forall>t. t \<notin> set ts \<longrightarrow> bc_sect s' t = bc_sect s t) \<and>
     inodes s' = inodes s \<and> files s' = files s \<and> open_inodes s' = open_inodes s \<and>
     bc_dev_valid s' = bc_dev_valid s \<and> fs_state.more s' = fs_state.more s"

lemma blank_facts:
  assumes "blank s"
  shows "bc_inv s" and "fm_sectors s = {}" and "used s 0" and "\<not> used s (- 1)" and "\<And>t. used s t \<Longrightarrow> bc_dev_valid s t"
    and "\<And>t. unat t < bit_cnt (free_map s) \<Longrightarrow> bc_dev_valid s t" and "\<And>t. used s t \<Longrightarrow> length (bc_sect s t) = 512"
proof -
  show inv: "bc_inv s" and "used s 0" and v: "unat t < bit_cnt (free_map s) \<Longrightarrow> bc_dev_valid s t" for t
    using assms by (simp_all add: blank_def)
  show "fm_sectors s = {}" using assms by (simp add: blank_def fm_sectors_def fm_inode_def)
  show "used s t \<Longrightarrow> bc_dev_valid s t" for t using v by (simp add: used_def)
  then show "used s t \<Longrightarrow> length (bc_sect s t) = 512" for t
    using bc.sect_length [of s t] inv by (simp add: bc_valid_def)
  have "unat (- 1 :: block_sector_t) = 2 ^ 32 - 1" by (simp add: unsigned_minus_1_eq_mask mask_eq_exp_minus_1)
  then show "\<not> used s (- 1)" using assms by (simp add: used_def blank_def)
qed

lemma blank_allocate:
  fixes s :: "'z fs_state_scheme"
  assumes "blank s"
  shows "\<exists>r s'. free_map_allocate wr 1 s = Some (r, s') \<and>
     (case r of
        None \<Rightarrow> s' = s \<and> (\<forall>t. unat t < bit_cnt (free_map s) \<longrightarrow> used s t)
      | Some t \<Rightarrow> \<not> used s t \<and> t \<noteq> 0 \<and> unat t < bit_cnt (free_map s) \<and> blank s' \<and> (\<forall>u. used s' u \<longleftrightarrow> used s u \<or> u = t) \<and>
          (\<exists>b. s' = s\<lparr>free_map := b\<rparr> \<and> bit_cnt b = bit_cnt (free_map s)))"
proof -
  let ?b = "free_map s"
  have b: "bitmap_inv ?b" "bit_cnt ?b < BITMAP_ERROR" and none: "free_map_file s = None"
    using assms by (simp_all add: blank_def BITMAP_ERROR_def)
  obtain idx b' where sf: "bitmap_scan_and_flip ?b 0 1 False = Some (idx, b')" "bitmap_inv b'"
      "bit_cnt b' = bit_cnt ?b" "if idx = BITMAP_ERROR then b' = ?b \<and> (\<forall>i < bit_cnt ?b. bval ?b i)
     else idx < bit_cnt ?b \<and> \<not> bval ?b idx \<and> (\<forall>i < bit_cnt ?b. bval b' i \<longleftrightarrow> i = idx \<or> bval ?b i)"
    using bitmap_take_one [OF b] by blast
  show ?thesis
  proof (cases "idx = BITMAP_ERROR")
    case True
    then have "s\<lparr>free_map := b'\<rparr> = s" using sf(4) by simp
    then show ?thesis using True sf by (auto simp: free_map_allocate_def Let_def BITMAP_ERROR_def used_def)
  next
    case False
    let ?t = "of_nat idx :: block_sector_t" and ?s = "s\<lparr>free_map := b'\<rparr>"
    have i: "idx < bit_cnt ?b" "\<not> bval ?b idx" "\<forall>i < bit_cnt ?b. bval b' i \<longleftrightarrow> i = idx \<or> bval ?b i"
      using sf(4) False by auto
    have un: "unat ?t = idx" using i(1) b(2) by (simp add: unat_of_nat BITMAP_ERROR_def take_bit_nat_eq_self)
    have us: "used ?s u \<longleftrightarrow> used s u \<or> u = ?t" for u using i sf(3) un by (auto simp: used_def word_unat_eq_iff)
    have "used s 0" using assms by (simp add: blank_def)
    then have nu: "\<not> used s ?t" "?t \<noteq> 0" using i(2) un by (auto simp: used_def)
    have "blank ?s" using assms sf(2,3) us [of 0] by (simp add: blank_def)
    have "\<exists>b. ?s = s\<lparr>free_map := b\<rparr> \<and> bit_cnt b = bit_cnt ?b" using sf(3) by blast
    then show ?thesis
      using sf(1) False none un i(1) nu us \<open>blank ?s\<close> by (simp add: free_map_allocate_def Let_def BITMAP_ERROR_def)
  qed
qed

lemma blank_write:
  fixes s :: "'z fs_state_scheme"
  assumes "blank s" and "unat t < bit_cnt (free_map s)" and "length b = 512"
  obtains s' where "buffer_cache_write t b s = Some s'" "blank s'" "bc_sect s' = (bc_sect s)(t := b)" "used s' = used s"
    "inodes s' = inodes s" "free_map s' = free_map s" "files s' = files s" "open_inodes s' = open_inodes s"
    "bc_dev_valid s' = bc_dev_valid s" "fs_state.more s' = fs_state.more s"
proof -
  obtain s' where s': "buffer_cache_write t b s = Some s'" "bc_inv s'" "bc_dev_valid s' = bc_dev_valid s"
    "bc_sect s' = (bc_sect s)(t := b)" "bc_state.more s' = bc_state.more s" "inodes s' = inodes s"
    "free_map s' = free_map s" "free_map_file s' = free_map_file s" "files s' = files s" "open_inodes s' = open_inodes s"
    by (rule buffer_cache_write_fs [OF blank_facts(1,6) [OF assms(1)] assms(3)]) (use assms(2) in simp)
  have us: "used s' = used s" using s'(7) by (simp add: used_def fun_eq_iff)
  have "blank s'" using assms(1) s' us by (simp add: blank_def)
  then show ?thesis using that s' us bc_more_fs [OF s'(5)] by simp
qed

lemma blank_entry:
  fixes s :: "'z fs_state_scheme"
  assumes "blank s"
  shows "\<exists>ok e s' ts. reserve_entry wr p s = Some (ok, e, s') \<and> claimed ts s s' \<and>
     (if p \<noteq> 0 then ok \<and> e = p \<and> ts = []
      else if ok then e \<noteq> 0 \<and> ts = [e]
      else e = 0 \<and> ts = [] \<and> (\<forall>t. unat t < bit_cnt (free_map s') \<longrightarrow> used s' t))"
proof (cases "p = 0")
  case False
  then show ?thesis using assms by (auto simp: reserve_entry_def claimed_def)
next
  case p: True
  obtain r s1 where a: "free_map_allocate wr 1 s = Some (r, s1)"
     "case r of
        None \<Rightarrow> s1 = s \<and> (\<forall>t. unat t < bit_cnt (free_map s) \<longrightarrow> used s t)
      | Some t \<Rightarrow> \<not> used s t \<and> t \<noteq> 0 \<and> unat t < bit_cnt (free_map s) \<and> blank s1 \<and> (\<forall>u. used s1 u \<longleftrightarrow> used s u \<or> u = t) \<and>
          (\<exists>b. s1 = s\<lparr>free_map := b\<rparr> \<and> bit_cnt b = bit_cnt (free_map s))"
    using blank_allocate [OF assms, of wr] by blast
  show ?thesis
  proof (cases r)
    case None
    then show ?thesis using a p assms by (auto simp: reserve_entry_def claimed_def)
  next
    case (Some t)
    then obtain b where al: "\<not> used s t" "t \<noteq> 0" "unat t < bit_cnt (free_map s1)" "blank s1" "\<And>u. used s1 u \<longleftrightarrow> used s u \<or> u = t"
        "s1 = s\<lparr>free_map := b\<rparr>" "bit_cnt (free_map s1) = bit_cnt (free_map s)"
      using a(2) by auto
    obtain s2 where s2: "buffer_cache_write t zeros s1 = Some s2" "blank s2" "bc_sect s2 = (bc_sect s1)(t := zeros)" "used s2 = used s1"
        "inodes s2 = inodes s1" "free_map s2 = free_map s1" "files s2 = files s1" "open_inodes s2 = open_inodes s1"
        "bc_dev_valid s2 = bc_dev_valid s1" "fs_state.more s2 = fs_state.more s1"
      by (rule blank_write [OF al(4,3), of zeros]) (simp add: zeros_def)
    have "claimed [t] s s2" using s2(2-10) al by (simp add: claimed_def)
    then show ?thesis using a(1) Some p s2(1) al(2) by (auto simp: reserve_entry_def)
  qed
qed

lemma claimed_trans: "blank s \<Longrightarrow> claimed ts s t \<Longrightarrow> claimed us t u \<Longrightarrow> claimed (ts @ us) s u"
  unfolding claimed_def by auto

interpretation fmt: sector_taking wr blank claimed for wr
proof unfold_locales
  show "claimed ts s s' \<Longrightarrow> blank s'" for ts and s s' :: "'a fs_state_scheme" by (simp add: claimed_def)
  show "blank s \<Longrightarrow> claimed [] s s" for s :: "'a fs_state_scheme" by (simp add: claimed_def)
qed (rule claimed_trans blank_entry; assumption)+

text \<open>When all sectors are taken, there were no more than those that were taken.\<close>

lemma claimed_full:
  assumes "claimed ts s s'" and "\<forall>t. unat t < bit_cnt (free_map s') \<longrightarrow> used s' t"
  shows "card (free_sectors s) = length ts"
proof -
  have "unat t < bit_cnt (free_map s)" if "t \<in> set ts" for t using assms(1) that by (auto simp: claimed_def used_def)
  then have "free_sectors s = set ts" using assms by (auto simp: claimed_def free_sectors_def)
  then show ?thesis using assms(1) by (simp add: claimed_def distinct_card)
qed

lemma inode_create_blank:
  fixes s :: "'z fs_state_scheme"
  assumes "blank s" and sec: "used s sec" and len: "0 \<le> len" "sector_count len \<le> 123" "sector_count len \<le> card (free_sectors s)"
  obtains d s' ts where "inode_create sec len isdir s = Some (True, s')" "blank s'" "bit_cnt (free_map s') = bit_cnt (free_map s)"
    "distinct ts" "length ts = sector_count len" "\<forall>t \<in> set ts. \<not> used s t" "\<forall>t. used s' t \<longleftrightarrow> used s t \<or> t \<in> set ts"
    "\<forall>t. t \<noteq> sec \<longrightarrow> t \<notin> set ts \<longrightarrow> bc_sect s' t = bc_sect s t" "inodes s' = inodes s" "files s' = files s"
    "open_inodes s' = open_inodes s" "bc_dev_valid s' = bc_dev_valid s" "fs_state.more s' = fs_state.more s"
    "bc_sect s' sec = inode_disk_bytes d" "disk_wf d" "disk_ok s' d" "set (file_blocks d) = set ts" "dlength d = len"
proof -
  define d where "d = \<lparr>direct_blocks = replicate 123 0, indirect_block = 0, doubly_indirect_block = 0,
              is_dir = isdir, dlength = len, magic = INODE_MAGIC\<rparr>"
  let ?k = "sector_count len" and ?e = "d\<lparr>dlength := 0\<rparr>"
  note bf = blank_facts [OF assms(1)]
  have d0: "disk_ok s ?e" by (simp add: disk_ok_def d_def nsec_def sector_count_def file_blocks_def)
  have l0: "length (direct_blocks d) = 123" by (simp add: d_def)
  obtain ok bs s1 ts where r: "reserve_loop (\<lambda>e _. reserve_entry inode_write_at e) 1 ?k 0 ?k (direct_blocks d) s = Some (ok, bs, s1)"
     "claimed ts s s1" "length bs = 123" "blocks_of bs = blocks_of (direct_blocks d) + mset ts"
     "\<forall>j < 123. direct_blocks d ! j \<noteq> 0 \<longrightarrow> bs ! j = direct_blocks d ! j"
     "length ts \<le> ?k \<and> (\<not> ok \<longrightarrow> length ts < ?k)"
     "if ok then \<forall>j. 0 \<le> j \<and> j < 0 + ?k \<longrightarrow> bs ! j \<noteq> 0 else \<forall>t. unat t < bit_cnt (free_map s1) \<longrightarrow> used s1 t"
    using fmt.reserve_direct [OF assms(1), of 0 ?k "direct_blocks d" inode_write_at ?k] len(2) l0 by auto
  have ok: "ok" using r(6,7) claimed_full [OF r(2)] len(3) by (auto split: if_splits)
  have c: "blank s1" "distinct ts" "bit_cnt (free_map s1) = bit_cnt (free_map s)" "\<forall>t \<in> set ts. \<not> used s t" "\<forall>t. used s1 t \<longleftrightarrow> used s t \<or> t \<in> set ts"
      "\<forall>t. t \<notin> set ts \<longrightarrow> bc_sect s1 t = bc_sect s t" "inodes s1 = inodes s" "files s1 = files s" "open_inodes s1 = open_inodes s"
      "bc_dev_valid s1 = bc_dev_valid s" "fs_state.more s1 = fs_state.more s"
    using r(2) by (simp_all add: claimed_def)
  let ?d = "d\<lparr>direct_blocks := bs\<rparr>"
  have dd: "?e\<lparr>direct_blocks := bs, dlength := len\<rparr> = ?d" by (simp add: d_def)
  have fms: "fm_sectors s1 = fm_sectors s" using bf(2) blank_facts(2) [OF c(1)] by simp
  have fresh: "\<forall>t \<in> set ts. \<not> used s t \<and> t \<notin> fm_sectors s" using c(4) bf(2) by simp
  have none0: "file_blocks ?e = []" unfolding file_blocks_def d_def by simp
  have bl: "blocks_of bs = blocks_of (direct_blocks ?e) + mset ts" using r(4) by simp
  have set1: "\<And>j. j < 123 \<Longrightarrow> direct_blocks ?e ! j \<noteq> 0 \<Longrightarrow> bs ! j = direct_blocks ?e ! j" "\<And>j. j < ?k \<Longrightarrow> bs ! j \<noteq> 0"
    using r(5,7) ok by simp_all
  have d1: "disk_ok s1 ?d" "mset (file_blocks ?d) = mset ts"
    using grown_disk_ok [OF d0 c(2) fresh c(5) fms r(3) bl set1(1) len(1,2) set1(2)] unfolding dd none0 by simp_all
  have "inode_allocate inode_write_at d s = Some (True, ?d, s1)"
    using r(1) ok len(1,2) by (simp add: inode_allocate_def inode_reserve_short d_def)
  moreover have lenb: "length (inode_disk_bytes ?d) = 512" using r(3) by (intro length_inode_disk_bytes) simp
  have secb: "unat sec < bit_cnt (free_map s1)" using sec c(3) by (simp add: used_def)
  obtain s2 where s2: "buffer_cache_write sec (inode_disk_bytes ?d) s1 = Some s2" "blank s2"
      "bc_sect s2 = (bc_sect s1)(sec := inode_disk_bytes ?d)" "used s2 = used s1" "inodes s2 = inodes s1"
      "free_map s2 = free_map s1" "files s2 = files s1" "open_inodes s2 = open_inodes s1"
      "bc_dev_valid s2 = bc_dev_valid s1" "fs_state.more s2 = fs_state.more s1"
    by (rule blank_write [OF c(1) secb lenb])
  ultimately have cr: "inode_create sec len isdir s = Some (True, s2)" by (simp add: inode_create_def d_def Let_def)
  have nsec: "nsec ?d = ?k" by (simp add: nsec_def d_def)
  have "?k \<le> length (file_blocks ?d)"
    using filter_prefix_length [of ?k bs "\<lambda>t. t \<noteq> 0"] d1(1) nsec r(3) len(2) by (auto simp: disk_ok_def file_blocks_def)
  then have lents: "length ts = ?k" using r(6) arg_cong [OF d1(2), of size] by simp
  have "disk_ok s2 ?d" using d1(1) s2(4) blank_facts(2) [OF s2(2)] blank_facts(2) [OF c(1)] by (simp add: disk_ok_def)
  moreover have "disk_wf ?d" using r(3) nsec_small [of ?d] len nsec by (simp add: disk_wf_def d_def)
  moreover have "set (file_blocks ?d) = set ts" using arg_cong [OF d1(2), of set_mset] by simp
  moreover have "dlength ?d = len" by (simp add: d_def)
  ultimately show ?thesis using that [of s2 ts ?d] cr c s2 lents by simp
qed

subsection \<open>The free map on the disk\<close>

definition marked :: "bitmap \<Rightarrow> block_sector_t \<Rightarrow> bool" where
  "marked b t \<longleftrightarrow> unat t < bit_cnt b \<and> bval b (unat t)"

text \<open>The sectors of a file: those with sector numbers and those with data.\<close>

definition all_sectors :: "(block_sector_t \<Rightarrow> byte list) \<Rightarrow> inode_disk \<Rightarrow> block_sector_t set" where
  "all_sectors c d = set (index_blocks c d (nsec d)) \<union> set (data_sectors c d)"

text \<open>
  The sectors \<open>c\<close>, of which those of \<open>v\<close> exist, hold the free map \<open>b\<close>: its inode \<open>fmd\<close> is in sector 0, its file has its
  elements, and it marks the sectors of its own file.
\<close>

definition saved :: "(block_sector_t \<Rightarrow> byte list) \<Rightarrow> (block_sector_t \<Rightarrow> bool) \<Rightarrow> inode_disk \<Rightarrow> bitmap \<Rightarrow> bool" where
  "saved c v fmd b \<longleftrightarrow> c 0 = inode_disk_bytes fmd \<and> disk_wf fmd \<and> inode_ok v c fmd \<and> inode_sep c fmd \<and>
     bitmap_inv b \<and> 0 < bit_cnt b \<and> bit_cnt b < 2 ^ 32 - 1 \<and> dlength fmd = int (bitmap_file_size b) \<and>
     file_bytes c fmd = bitmap_image b \<and> 0 \<notin> all_sectors c fmd \<and> (\<forall>t \<in> insert 0 (all_sectors c fmd). marked b t) \<and>
     (\<forall>t. unat t < bit_cnt b \<longrightarrow> v t)"

lemma bitmap_bits_eq:
  assumes "bitmap_bits b' = bitmap_bits b"
  shows "bit_cnt b' = bit_cnt b" and "marked b' = marked b"
proof -
  show c: "bit_cnt b' = bit_cnt b" using arg_cong [OF assms, of length] by simp
  have "bval b' i = bval b i" if "i < bit_cnt b" for i
    using arg_cong [OF assms, of "\<lambda>bs. bs ! i"] that c by (simp add: bitmap_bits_def)
  then show "marked b' = marked b" using c by (auto simp: marked_def fun_eq_iff)
qed

lemma used_marked: "used s = marked (free_map s)"
  by (simp add: used_def marked_def fun_eq_iff)

lemma fm_sectors_all: "fm_inode s = Some fmi \<Longrightarrow> fm_sectors s = insert 0 (all_sectors (bc_sect s) (data fmi))"
  by (simp add: fm_sectors_def all_sectors_def)

text \<open>A mounted file system has saved its free map, and one that has is mounted by opening the file.\<close>

lemma fs_ok_saved:
  assumes "fs_ok s"
  obtains fmi b where "fm_inode s = Some fmi" "saved (bc_sect s) (bc_dev_valid s) (data fmi) b" "bitmap_bits b = bitmap_bits (free_map s)"
    "fm_sectors s = insert 0 (all_sectors (bc_sect s) (data fmi))" "open_cnt fmi = 1" "\<not> removed fmi" "sector fmi = 0"
proof -
  obtain fmi b where f: "fm_inode s = Some fmi" "sector fmi = 0" "open_cnt fmi = 1" "\<not> removed fmi" "bc_sect s 0 = inode_disk_bytes (data fmi)"
      "disk_wf (data fmi)" "0 \<notin> all_sectors (bc_sect s) (data fmi)" "bitmap_inv b" "bitmap_bits b = bitmap_bits (free_map s)"
      "file_bytes (bc_sect s) (data fmi) = bitmap_image b"
    using assms by (auto simp: fs_ok_def fm_saved_def all_sectors_def)
  note be = bitmap_bits_eq [OF f(9)] and fs = fm_sectors_all [OF f(1)]
  have "saved (bc_sect s) (bc_dev_valid s) (data fmi) b"
    using assms f be fs by (simp add: saved_def fs_ok_def fm_ok_def used_marked bitmap_file_size_def)
  then show ?thesis using that f fs by blast
qed

lemma saved_fs_ok:
  assumes "bc_inv s" and fmi: "fm_inode s = Some fmi" "sector fmi = 0" "open_cnt fmi = 1" "\<not> removed fmi" "deny_write_cnt fmi = 0"
    and "saved (bc_sect s) (bc_dev_valid s) (data fmi) b" and b: "bitmap_inv (free_map s)" "bitmap_bits (free_map s) = bitmap_bits b"
  shows "fs_ok s" and "used s = marked b" and "fm_sectors s = insert 0 (all_sectors (bc_sect s) (data fmi))"
proof -
  note be = bitmap_bits_eq [OF b(2)]
  show fs: "fm_sectors s = insert 0 (all_sectors (bc_sect s) (data fmi))" using fmi(1) by (rule fm_sectors_all)
  show us: "used s = marked b" using be(2) by (simp add: used_marked)
  have "fm_ok s" using assms be(1) by (simp add: fm_ok_def saved_def bitmap_file_size_def)
  moreover have "fm_saved s" using assms by (auto simp: fm_saved_def saved_def all_sectors_def)
  ultimately show "fs_ok s" using assms(7) fs us be(1) by (simp add: fs_ok_def saved_def)
qed

lemma free_map_file_upd [simp]:
  fixes s :: "'z fs_state_scheme"
  shows "bc_inv (s\<lparr>free_map_file := x\<rparr>) = bc_inv s" "bc_sect (s\<lparr>free_map_file := x\<rparr>) = bc_sect s"
    "bc_dev_valid (s\<lparr>free_map_file := x\<rparr>) = bc_dev_valid s" "get_inode ip (s\<lparr>free_map_file := x\<rparr>) = get_inode ip s"
    "get_file fp (s\<lparr>free_map_file := x\<rparr>) = get_file fp s"
  by (simp_all add: bc_inv_def bc_sect_def bc_dev_def bc_dev_valid_def get_inode_def get_file_def)

text \<open>The inode of the free map and its file, opened.\<close>

lemma free_map_file_opened:
  fixes s :: "'z fs_state_scheme"
  assumes "bc_inv s" and "bc_dev_valid s 0" and d: "bc_sect s 0 = inode_disk_bytes d" "disk_wf d"
    and none: "\<forall>ip \<in> set (open_inodes s). \<exists>i. get_inode ip s = Some i \<and> sector i \<noteq> 0"
  obtains s1 s2 s3 where "inode_open FREE_MAP_SECTOR s = Some (length (inodes s), s1)"
    "file_open (Some (length (inodes s))) s1 = Some (Some (length (files s)), s2)" "s3 = s2\<lparr>free_map_file := Some (length (files s))\<rparr>"
    "bc_inv s3" "bc_sect s3 = bc_sect s" "bc_dev_valid s3 = bc_dev_valid s" "free_map s3 = free_map s" "fs_state.more s3 = fs_state.more s"
    "open_inodes s3 = length (inodes s) # open_inodes s" "\<forall>j i. get_inode j s = Some i \<longrightarrow> get_inode j s3 = Some i"
    "get_file (length (files s)) s3 = Some \<lparr>f_inode = length (inodes s), pos = 0, deny_write = False\<rparr>"
    "get_inode (length (inodes s)) s3 = Some \<lparr>sector = 0, open_cnt = 1, removed = False, deny_write_cnt = 0, data = d\<rparr>"
proof -
  obtain s1 where s1: "inode_open 0 s = Some (length (inodes s), s1)" "more_open s s1" "open_inodes s1 = length (inodes s) # open_inodes s"
      "get_inode (length (inodes s)) s1 = Some \<lparr>sector = 0, open_cnt = 1, removed = False, deny_write_cnt = 0,
        data = inode_disk_of (bc_sect s 0)\<rparr>" "files s1 = files s"
    using inode_open_new [OF assms(1,2) none] by blast
  have m1: "bc_inv s1" using s1(2) by (simp add: more_open_def)
  obtain s2 where s2: "file_open (Some (length (inodes s))) s1 = Some (Some (length (files s1)), s2)" "more_open s1 s2"
      "open_inodes s2 = open_inodes s1"
      "get_file (length (files s1)) s2 = Some \<lparr>f_inode = length (inodes s), pos = 0, deny_write = False\<rparr>"
    using file_open_step [OF m1, of "length (inodes s)"] by blast
  have m2: "more_open s s2" using s1(2) s2(2) by (rule more_open_trans)
  have op: "inode_open FREE_MAP_SECTOR s = Some (length (inodes s), s1)"
      "file_open (Some (length (inodes s))) s1 = Some (Some (length (files s)), s2)"
    using s1(1,5) s2(1) by (simp_all add: FREE_MAP_SECTOR_def)
  let ?s3 = "s2\<lparr>free_map_file := Some (length (files s))\<rparr>"
  have "get_inode (length (inodes s)) s2 = Some \<lparr>sector = 0, open_cnt = 1, removed = False, deny_write_cnt = 0, data = d\<rparr>"
    using s1(4) s2(2) d inode_disk_of_bytes [OF d(2)] by (simp add: more_open_def)
  then show ?thesis
    using that [OF op refl] m2 s1(3,5) s2(3,4) by (simp add: more_open_def)
qed

lemma free_map_open_mounts:
  fixes s :: "'z fs_state_scheme"
  assumes "bc_inv s" and sv: "saved (bc_sect s) (bc_dev_valid s) fmd b" and b0: "bitmap_inv (free_map s)" "bit_cnt (free_map s) = bit_cnt b"
    and none: "\<forall>ip \<in> set (open_inodes s). \<exists>i. get_inode ip s = Some i \<and> sector i \<noteq> 0"
  obtains s' where "free_map_open s = Some s'" "fs_ok s'" "used s' = marked b" "bc_sect s' = bc_sect s" "bc_dev_valid s' = bc_dev_valid s"
    "fm_sectors s' = insert 0 (all_sectors (bc_sect s) fmd)" "open_inodes s' = length (inodes s) # open_inodes s"
    "\<exists>i. get_inode (length (inodes s)) s' = Some i \<and> sector i = 0" "\<forall>j i. get_inode j s = Some i \<longrightarrow> get_inode j s' = Some i"
    "bit_cnt (free_map s') = bit_cnt b" "fs_state.more s' = fs_state.more s"
proof -
  have sd: "bc_sect s 0 = inode_disk_bytes fmd" "disk_wf fmd" "inode_ok (bc_dev_valid s) (bc_sect s) fmd" "bitmap_inv b" "0 < bit_cnt b"
      "file_bytes (bc_sect s) fmd = bitmap_image b" "bc_dev_valid s 0"
    using sv by (simp_all add: saved_def)
  let ?i = "\<lparr>sector = 0, open_cnt = 1, removed = False, deny_write_cnt = 0, data = fmd\<rparr>"
  obtain s1 s2 s3 where o: "inode_open FREE_MAP_SECTOR s = Some (length (inodes s), s1)"
    "file_open (Some (length (inodes s))) s1 = Some (Some (length (files s)), s2)" "s3 = s2\<lparr>free_map_file := Some (length (files s))\<rparr>"
    "bc_inv s3" "bc_sect s3 = bc_sect s" "bc_dev_valid s3 = bc_dev_valid s" "free_map s3 = free_map s" "fs_state.more s3 = fs_state.more s"
    "open_inodes s3 = length (inodes s) # open_inodes s" "\<forall>j i. get_inode j s = Some i \<longrightarrow> get_inode j s3 = Some i"
    "get_file (length (files s)) s3 = Some \<lparr>f_inode = length (inodes s), pos = 0, deny_write = False\<rparr>"
    "get_inode (length (inodes s)) s3 = Some ?i"
    by (rule free_map_file_opened [OF assms(1) sd(7,1,2) none])
  have ino: "get_inode (f_inode \<lparr>f_inode = length (inodes s), pos = 0, deny_write = False\<rparr>) s3 = Some ?i" using o(12) by simp
  obtain b' s4 where r: "bitmap_read (free_map s) (length (files s)) s3 = Some (True, b', s4)" "bitmap_inv b'"
      "bitmap_bits b' = bitmap_bits b" "bc_step s3 s4"
    using bitmap_read_loads [OF o(4,11) ino _ sd(4,5) b0] sd(3,6) o(5,6) by auto
  let ?s = "s4\<lparr>free_map := b'\<rparr>"
  note v = bc_step_view [OF r(4)] and f = bc_step_fs [OF r(4)]
  have fm: "fm_inode ?s = Some ?i" using o(3,11,12) f by (simp add: fm_inode_def get_file_def get_inode_def)
  have sv': "saved (bc_sect ?s) (bc_dev_valid ?s) (data ?i) b" using sv v o(5,6) by simp
  have ok: "fs_ok ?s" "used ?s = marked b" "fm_sectors ?s = insert 0 (all_sectors (bc_sect ?s) (data ?i))"
    by (rule saved_fs_ok [OF _ fm _ _ _ _ sv']; use v(1) r(2,3) in simp)+
  have "free_map_open s = Some ?s" using o(1-3,7) r(1) by (simp add: free_map_open_def Let_def)
  then show ?thesis
    using that [of ?s] ok v f o(5-10,12) bitmap_bits_eq(1) [OF r(3)] by simp
qed

text \<open>\<open>free_map_create\<close> makes the file of the free map and saves the map in it.\<close>

lemma free_map_create_mounts:
  fixes s :: "'z fs_state_scheme"
  assumes "blank s" and len: "sector_count (int (bitmap_file_size (free_map s))) \<le> 123"
      "sector_count (int (bitmap_file_size (free_map s))) \<le> card (free_sectors s)"
    and none: "open_inodes s = []"
  obtains s' ts where "free_map_create s = Some s'" "fs_ok s'" "bit_cnt (free_map s') = bit_cnt (free_map s)"
    "length ts = sector_count (int (bitmap_file_size (free_map s)))" "distinct ts" "\<forall>t \<in> set ts. \<not> used s t"
    "\<forall>t. used s' t \<longleftrightarrow> used s t \<or> t \<in> set ts" "fm_sectors s' = insert 0 (set ts)" "open_inodes s' = [length (inodes s)]"
    "fm_inode s' = get_inode (length (inodes s)) s'" "free_map_file s' = Some (length (files s))"
    "get_file (length (files s)) s' = Some \<lparr>f_inode = length (inodes s), pos = 0, deny_write = False\<rparr>"
    "bc_dev_valid s' = bc_dev_valid s" "fs_state.more s' = fs_state.more s"
proof -
  let ?n = "int (bitmap_file_size (free_map s))"
  note bf = blank_facts [OF assms(1)]
  obtain d s0 ts where c: "inode_create 0 ?n False s = Some (True, s0)" "blank s0" "bit_cnt (free_map s0) = bit_cnt (free_map s)"
    "distinct ts" "length ts = sector_count ?n" "\<forall>t \<in> set ts. \<not> used s t" "\<forall>t. used s0 t \<longleftrightarrow> used s t \<or> t \<in> set ts"
    "\<forall>t. t \<noteq> 0 \<longrightarrow> t \<notin> set ts \<longrightarrow> bc_sect s0 t = bc_sect s t" "inodes s0 = inodes s" "files s0 = files s"
    "open_inodes s0 = open_inodes s" "bc_dev_valid s0 = bc_dev_valid s" "fs_state.more s0 = fs_state.more s"
    "bc_sect s0 0 = inode_disk_bytes d" "disk_wf d" "disk_ok s0 d" "set (file_blocks d) = set ts" "dlength d = ?n"
    by (rule inode_create_blank [OF assms(1) bf(3) _ len, of False]) simp_all
  note b0 = blank_facts [OF c(2)]
  have none0: "\<forall>ip \<in> set (open_inodes s0). \<exists>i. get_inode ip s0 = Some i \<and> sector i \<noteq> 0" using none c(11) by simp
  let ?ip = "length (inodes s)" and ?fp = "length (files s)"
  let ?i = "\<lparr>sector = 0, open_cnt = 1, removed = False, deny_write_cnt = 0, data = d\<rparr>"
  obtain s1 s2 s3 where o: "inode_open FREE_MAP_SECTOR s0 = Some (?ip, s1)" "file_open (Some ?ip) s1 = Some (Some ?fp, s2)"
    "s3 = s2\<lparr>free_map_file := Some ?fp\<rparr>" "bc_inv s3" "bc_sect s3 = bc_sect s0" "bc_dev_valid s3 = bc_dev_valid s0"
    "free_map s3 = free_map s0" "fs_state.more s3 = fs_state.more s0" "open_inodes s3 = [?ip]"
    "get_file ?fp s3 = Some \<lparr>f_inode = ?ip, pos = 0, deny_write = False\<rparr>" "get_inode ?ip s3 = Some ?i"
    by (rule free_map_file_opened [OF b0(1) b0(5) [OF b0(3)] c(14,15) none0]) (use c(9-11) none in simp)
  have us3: "used s3 = used s0" using o(7) by (simp add: used_def fun_eq_iff)
  have fm3: "fm_inode s3 = Some ?i" using o(3,10,11) by (simp add: fm_inode_def)
  have io: "inode_ok (bc_dev_valid s3) (bc_sect s3) d" "inode_sep (bc_sect s3) d"
    using disk_ok_inode_via [OF b0(5,7,4) c(16)] o(5,6) by simp_all
  have pos: "0 < bit_cnt (free_map s)" using bf(3) by (simp add: used_def)
  have ok3: "fm_ok s3"
    using io fm3 o(4,7) c(2,3,18) pos by (simp add: fm_ok_def blank_def bitmap_file_size_def)
  obtain s4 where w: "bitmap_write inode_write_at (free_map s3) ?fp s3 = Some (True, s4)" "data_step d s3 s4"
      "file_bytes (bc_sect s4) d = bitmap_image (free_map s3)"
    using bitmap_write_saves [OF ok3 fm3 _ _ refl, of ?fp 1] ok3 o(3) by (auto simp: inode_write_at_def numeral_2_eq_2 fm_ok_def)
  note ds = data_step_fs [OF w(2)] and lay = data_step_layout [OF w(2) io(2)]
  have fm4: "fm_inode s4 = Some ?i" using data_step_fm_inode [OF w(2)] fm3 by simp
  have dd: "length (direct_blocks d) = 123" "nsec d \<le> 123" using c(16) by (simp_all add: disk_ok_def)
  have all: "all_sectors (bc_sect s4) d \<subseteq> set ts"
    using disk_ok_data [OF c(16)] c(17) direct_data_sectors(2) [OF dd] by (simp add: all_sectors_def)
  have out: "0 \<notin> set ts" using bf(3) c(6) by blast
  have "0 \<notin> set (data_sectors (bc_sect s3) d)" using disk_ok_data [OF c(16)] c(17) out by blast
  then have "bc_sect s4 0 = inode_disk_bytes d" using w(2) o(5) c(14) by (simp add: data_step_def)
  moreover have v4: "bc_inv s4" "bc_dev_valid s4 = bc_dev_valid s0" using w(2) o(6) by (simp_all add: data_step_def)
  moreover have mk: "marked (free_map s0) t \<longleftrightarrow> used s t \<or> t \<in> set ts" for t using c(7) by (simp add: used_marked)
  ultimately have sv: "saved (bc_sect s4) (bc_dev_valid s4) (data ?i) (free_map s4)"
    using c(2,3,15,18) lay(3,5) io(1) pos w(3) o(7) ds(3) all out bf(3) by (auto simp: saved_def blank_def bitmap_file_size_def)
  have b4: "bitmap_inv (free_map s4)" using c(2) o(7) ds(3) by (simp add: blank_def)
  have ok4: "fs_ok s4" "fm_sectors s4 = insert 0 (all_sectors (bc_sect s4) (data ?i))"
    by (rule saved_fs_ok [OF v4(1) fm4 _ _ _ _ sv b4 refl]; simp)+
  have us4: "used s4 = used s0" using o(7) ds(3) by (simp add: used_def fun_eq_iff)
  have cr: "free_map_create s = Some s4"
    using c(1) o(1-3,7) w(1) by (simp add: free_map_create_def FREE_MAP_SECTOR_def Let_def)
  have "card (set (data_sectors (bc_sect s4) d)) = nsec d" using lay(3) by (simp add: inode_sep_def distinct_card)
  moreover have "nsec d = length ts" using c(5,18) by (simp add: nsec_def)
  moreover have "card (set ts) = length ts" using c(4) by (rule distinct_card)
  ultimately have "all_sectors (bc_sect s4) d = set ts"
    using all card_subset_eq [of "set ts" "set (data_sectors (bc_sect s4) d)"] by (auto simp: all_sectors_def)
  moreover have "get_file ?fp s4 = get_file ?fp s3" using ds(2) by (simp add: get_file_def)
  ultimately show ?thesis
    using that [OF cr ok4(1)] c us4 ok4(2) ds o fm4 v4 by simp
qed

subsection \<open>Closing what was opened\<close>

text \<open>The last close of a directory and of the free map file, when nothing has been removed.\<close>

lemma dir_close_last:
  assumes "get_dir dp s = Some d" and "d_open_cnt d = 1" and "get_inode (d_inode d) s = Some ino" and "open_cnt ino = 1" "\<not> removed ino"
  shows "dir_close (Some dp) s = Some (s\<lparr>inodes := (inodes s)[d_inode d := None], open_inodes := remove1 (d_inode d) (open_inodes s),
    dirs := (dirs s)[dp := None], cwd := None\<rparr>)"
  using assms by (simp add: dir_close_def inode_close_def set_dir_def set_inode_def get_inode_def Let_def)

lemma free_map_close_step:
  assumes "free_map_file s = Some fp" and "get_file fp s = Some f" and "get_inode (f_inode f) s = Some ino" and "open_cnt ino = 1" "\<not> removed ino"
    and "deny_write_cnt ino = 0"
  shows "free_map_close s = Some (s\<lparr>inodes := (inodes s)[f_inode f := None], open_inodes := remove1 (f_inode f) (open_inodes s),
    files := (files s)[fp := None]\<rparr>)"
proof (cases "deny_write f")
  case False
  then show ?thesis using assms
    by (simp add: free_map_close_def file_close_def file_allow_write_def inode_close_def set_inode_def Let_def get_inode_def)
next
  case True
  let ?f = "f\<lparr>deny_write := False\<rparr>" and ?i = "ino\<lparr>deny_write_cnt := - 1\<rparr>"
  let ?s = "set_inode (f_inode f) ?i (set_file fp ?f s)"
  have "file_allow_write fp s = Some ?s" using assms True by (simp add: file_allow_write_def inode_allow_write_def)
  moreover have "get_file fp ?s = Some ?f" "get_inode (f_inode f) ?s = Some ?i"
    using assms(2,3) by (simp_all add: get_file_def get_inode_def set_file_def set_inode_def deref_eq_Some)
  ultimately show ?thesis using assms
    by (simp add: free_map_close_def file_close_def inode_close_def set_file_def set_inode_def Let_def get_inode_def)
qed

text \<open>A disk as a mounted file system leaves it can be mounted, with the same sectors in use and the same root directory.\<close>

lemma mounted_again:
  fixes s :: "'y dir_state_scheme" and t :: "'z dir_state_scheme"
  assumes m: "mounted s rd" "cwd s = None" and "bc_inv t" "bc_sect t = bc_sect s" "bc_dev_valid t = bc_dev_valid s" "bitmap_inv (free_map t)"
      "bit_cnt (free_map t) = bit_cnt (free_map s)" "open_inodes t = []" "cwd t = None"
  obtains t' where "free_map_open t = Some t'" "mounted (init_file_table t') rd" "used t' = used s" "bc_sect t' = bc_sect s"
    "bit_cnt (free_map t') = bit_cnt (free_map s)" "fs_state.more t' = fs_state.more t"
proof -
  have fs: "fs_ok s" and rc: "root_closed s rd" "36 \<le> dlength rd" using m by (simp_all add: mounted_def)
  obtain fmi b where f: "fm_inode s = Some fmi" "saved (bc_sect s) (bc_dev_valid s) (data fmi) b" "bitmap_bits b = bitmap_bits (free_map s)"
      "fm_sectors s = insert 0 (all_sectors (bc_sect s) (data fmi))"
    using fs_ok_saved [OF fs] by metis
  note be = bitmap_bits_eq [OF f(3)]
  have sv: "saved (bc_sect t) (bc_dev_valid t) (data fmi) b" using f(2) assms(4,5) by simp
  obtain t' where o: "free_map_open t = Some t'" "fs_ok t'" "used t' = marked b" "bc_sect t' = bc_sect t" "bc_dev_valid t' = bc_dev_valid t"
    "fm_sectors t' = insert 0 (all_sectors (bc_sect t) (data fmi))" "open_inodes t' = [length (inodes t)]"
    "\<exists>i. get_inode (length (inodes t)) t' = Some i \<and> sector i = 0" "bit_cnt (free_map t') = bit_cnt b" "fs_state.more t' = fs_state.more t"
    by (rule free_map_open_mounts [OF assms(3) sv assms(6)]) (use assms(7,8) be(1) in simp_all)
  have us: "used t' = used s" and fms: "fm_sectors t' = fm_sectors s" using o(3,6) be(2) f(4) assms(4) by (simp_all add: used_marked)
  have "file_ok t' = file_ok s" using us fms by (simp add: file_ok_def disk_ok_def fun_eq_iff)
  moreover have "ROOT_DIR_SECTOR \<noteq> 0" by (simp add: ROOT_DIR_SECTOR_def)
  ultimately have "root_closed (init_file_table t') rd"
    using rc(1) o(4,7,8) assms(4) by (auto simp: root_closed_def init_file_table_def)
  moreover have "used s 0" by (rule fs_ok_facts(3) [OF fs])
  ultimately have "mounted (init_file_table t') rd"
    using o(2,4,7,8) rc(2) us bc_step_dirs [OF o(10)] assms(4,9) mounted_names [OF m(1)] by (auto simp: mounted_def init_file_table_def)
  then show ?thesis using that [OF o(1)] us o(4,9,10) assms(4) be(1) by simp
qed

subsection \<open>The root directory\<close>

lemma dir_create_root:
  fixes s :: "'z dir_state_scheme"
  assumes "fs_ok s" and root: "used s ROOT_DIR_SECTOR" "ROOT_DIR_SECTOR \<notin> fm_sectors s" and "cwd s = None"
    and open_i: "\<forall>ip \<in> set (open_inodes s). \<exists>i. get_inode ip s = Some i \<and> used s (sector i) \<and> sector i \<noteq> ROOT_DIR_SECTOR"
    and len: "0 < cnt" "sector_count (int (cnt * 36)) \<le> 123" "sector_count (int (cnt * 36)) \<le> card (free_sectors s)"
  obtains rd ts s' where "dir_create ROOT_DIR_SECTOR cnt s = Some (True, s')" "mounted s' rd" "cwd s' = None"
    "disk_grew {ROOT_DIR_SECTOR} ts s s'" "length ts = sector_count (int (cnt * 36))" "dlength rd = int (cnt * 36)"
    "file_bytes (bc_sect s') rd = dir_entry_bytes \<lparr>inode_sector = ROOT_DIR_SECTOR, e_name = replicate 31 0, in_use = True\<rparr> @ replicate (cnt * 36 - 36) 0"
    "open_inodes s' = open_inodes s" "files s' = files s" "free_map_file s' = free_map_file s" "fm_inode s' = fm_inode s"
    "\<forall>j i. get_inode j s = Some i \<longrightarrow> get_inode j s' = Some i"
proof -
  let ?n = "int (cnt * 36)" and ?r = "ROOT_DIR_SECTOR"
  let ?e = "dir_entry_bytes \<lparr>inode_sector = ?r, e_name = replicate 31 0, in_use = True\<rparr>"
  have len0: "0 \<le> ?n" by simp
  obtain ok d s1 ts where c: "inode_create ?r ?n True s = Some (ok, s1)" "grew 0 {?r} ts s s1" "inodes s1 = inodes s"
    "ok \<longrightarrow> bc_sect s1 ?r = inode_disk_bytes d \<and> disk_wf d \<and> disk_ok s1 d \<and> set (file_blocks d) = set ts \<and>
      dlength d = ?n \<and> is_dir d = True \<and> length ts = sector_count ?n \<and> file_bytes (bc_sect s1) d = replicate (nat ?n) 0"
    "length ts \<le> sector_count ?n \<and> (\<not> ok \<longrightarrow> length ts < sector_count ?n \<and> (\<forall>t. unat t < bit_cnt (free_map s1) \<longrightarrow> used s1 t))"
    by (rule inode_create_grew [OF assms(1) root len0 len(2)])
  have ok: ok using c(5) grew_full [OF grew_disk [OF c(2)]] len(3) by auto
  have d: "bc_sect s1 ?r = inode_disk_bytes d" "disk_wf d" "disk_ok s1 d" "set (file_blocks d) = set ts" "dlength d = ?n"
      "length ts = sector_count ?n" "file_bytes (bc_sect s1) d = replicate (nat ?n) 0"
    using c(4) ok by simp_all
  have g1: "fs_ok s1" "used s1 ?r" "?r \<notin> fm_sectors s1" "?r \<notin> set ts" "open_inodes s1 = open_inodes s" "files s1 = files s"
      "free_map_file s1 = free_map_file s" "fs_state.more s1 = fs_state.more s" "get_inode j s1 = get_inode j s" for j
    using c(2,3) root by (auto simp: grew_def get_inode_def)
  let ?ip = "length (inodes s)" and ?i = "\<lparr>sector = ?r, open_cnt = 1, removed = False, deny_write_cnt = 0, data = d\<rparr>"
  have "\<forall>ip \<in> set (open_inodes s1). \<exists>i. get_inode ip s1 = Some i \<and> sector i \<noteq> ?r" using open_i g1(5,9) by auto
  then obtain s2 where o: "inode_open ?r s1 = Some (?ip, s2)" "more_open s1 s2" "open_inodes s2 = ?ip # open_inodes s"
      "get_inode ?ip s2 = Some ?i" "files s2 = files s"
    using inode_open_new [OF fs_ok_facts(1) [OF g1(1)] fs_ok_facts(5) [OF g1(1,2)]] d(1) inode_disk_of_bytes [OF d(2)] c(3) g1(5,6) by metis
  note m2 = more_open_fs [OF g1(1) o(2)]
  have s2: "bc_sect s2 = bc_sect s1" "free_map_file s2 = free_map_file s" "fs_state.more s2 = fs_state.more s" "free_map s2 = free_map s1"
      "\<And>j i. get_inode j s = Some i \<Longrightarrow> get_inode j s2 = Some i"
    using o(2) g1(7,8,9) by (simp_all add: more_open_def)
  let ?dp = "length (dirs s2)" and ?d = "\<lparr>d_inode = ?ip, d_pos = 36, d_open_cnt = 1\<rparr>"
  let ?s3 = "s2\<lparr>dirs := dirs s2 @ [Some ?d]\<rparr>"
  have ok3: "fs_ok ?s3" "disk_ok ?s3 d" "used ?s3 = used s1" "fm_sectors ?s3 = fm_sectors s1" "get_inode ?ip ?s3 = Some ?i"
    using m2 d(3) o(4) by simp_all
  note io = disk_ok_inode [OF ok3(1,2)]
  have le: "length ?e = 36" by (rule length_dir_entry_bytes) simp
  obtain s4 where w: "inode_write_at ?ip ?e 36 0 ?s3 = Some (36, s4)" "data_step d ?s3 s4"
      "file_bytes (bc_sect s4) d = put_at (file_bytes (bc_sect ?s3) d) (nat 0) (take (nat 36) ?e)"
    using inode_write_via_in_place [of ?s3 ?ip ?i 0 36 ?e "inode_write_at_depth 1"] fs_ok_facts(1) [OF ok3(1)] ok3(5) io le d(5) len(1)
    unfolding inode_write_at_Suc [symmetric] by auto
  have fb: "file_bytes (bc_sect s4) d = ?e @ replicate (cnt * 36 - 36) 0"
    using w(3) le d(7) s2(1) by (simp add: put_at_def)
  note ds = data_step_fs [OF w(2)]
  have g2: "grew ?ip (set (file_blocks d)) [] ?s3 s4" using ok3(1,2) w(2) by (rule data_step_grew)
  have ok4: "fs_ok s4" "disk_ok s4 d" "used s4 = used s1" "fm_sectors s4 = fm_sectors s1"
    using g2 ok3(2-4) by (auto simp: grew_def disk_ok_def)
  have r4: "bc_sect s4 ?r = inode_disk_bytes d" using g2 g1(3,4) d(1,4) ok3(4) s2(1) by (simp add: grew_def)
  have f4: "get_inode j s4 = get_inode j s2" "files s4 = files s" "free_map_file s4 = free_map_file s" "open_inodes s4 = ?ip # open_inodes s" for j
    using ds o(3,5) s2(2) by (simp_all add: get_inode_def)
  have more4: "fs_state.more s4 = fs_state.more ?s3" using ds(7) .
  have dirs4: "dirs s4 = dirs s2 @ [Some ?d]" "cwd s4 = cwd s2" using bc_step_dirs [OF more4] by simp_all
  let ?s = "s4\<lparr>inodes := (inodes s4)[?ip := None], open_inodes := open_inodes s, dirs := (dirs s4)[?dp := None], cwd := None\<rparr>"
  have gd: "get_dir ?dp s4 = Some ?d" using dirs4(1) by (simp add: get_dir_def deref_eq_Some)
  have gi: "get_inode ?ip s4 = Some ?i" using f4(1) o(4) by simp
  have cl: "dir_close (Some ?dp) s4 = Some ?s" using dir_close_last [OF gd _ _ _ _, of ?i] gi f4(4) by simp
  have dc: "dir_create ?r cnt s = Some (True, ?s)"
    using c(1) ok o(1) w(1) cl by (simp add: dir_create_def dir_open_def dir_entry_size_def Let_def)
  have old: "get_inode j ?s = Some i" if "get_inode j s = Some i" for j i
  proof -
    have "j < ?ip" using that by (simp add: get_inode_def deref_eq_Some)
    then have "get_inode j ?s = get_inode j s4" by (simp add: get_inode_def deref_def arr_get_def)
    then show ?thesis using that s2(5) f4(1) by simp
  qed
  obtain fp f fmi where fm: "free_map_file s = Some fp" "get_file fp s = Some f" "get_inode (f_inode f) s = Some fmi"
    using assms(1) by (auto simp: fs_ok_def fm_ok_def fm_inode_def split: option.splits bind_splits)
  then have fmS: "fm_inode ?s = fm_inode s" using old f4(2,3) by (simp add: fm_inode_def get_file_def)
  have fm4: "fm_inode s4 = fm_inode s" using fm s2(5) f4 by (simp add: fm_inode_def get_file_def)
  have same: "same_fs s4 ?s"
    using fmS fm4 by (simp add: same_fs_def bc_inv_def bc_sect_def bc_dev_def bc_dev_valid_def)
  note sf = same_fs_ok [OF same] and se = same [unfolded same_fs_def]
  have "file_ok ?s ?i" using sf ok4(2-4) g1(2-4) d(4) by (simp add: file_ok_def)
  moreover have "sector i \<noteq> ?r \<and> used s (sector i)" if ip: "ip \<in> set (open_inodes s)" "get_inode ip ?s = Some i" for ip i
    using open_i ip old by fastforce
  ultimately have rc: "root_closed ?s d" using se r4 d(2) by (auto simp: root_closed_def)
  have "used s t \<Longrightarrow> used s1 t" for t using c(2) by (simp add: grew_def)
  then have "\<forall>ip \<in> set (open_inodes ?s). \<exists>i. get_inode ip ?s = Some i \<and> used ?s (sector i)"
    using open_i old sf(2) ok4(3) by fastforce
  moreover have "bc_sect ?s = bc_sect s4" by (simp add: bc_sect_def bc_dev_def)
  then have "file_bytes (bc_sect ?s) d = ?e @ replicate (cnt * 36 - 36) 0" using fb by simp
  from dir_entries_empty [OF this] have "names_ok (bc_sect ?s) d" by (auto simp: names_ok_def terminated_def)
  ultimately have m: "mounted ?s d" using sf(1) ok4(1) rc d(5) len(1) by (simp add: mounted_def)
  have "bc_sect s4 t = bc_sect s t" if "t \<noteq> ?r" "t \<notin> set ts" "t \<notin> fm_sectors s" for t
    using that c(2) g2 d(4) s2(1) ok3(4) by (simp add: grew_def)
  then have "disk_grew {?r} ts s ?s"
    using sf se ok4 c(2) g2 s2(4) by (simp add: disk_grew_def grew_def)
  then show ?thesis using that [OF dc m] d(5,6) fb f4 fmS old se by simp
qed

subsection \<open>Starting up\<close>

text \<open>The state in which the program starts: static storage is zero.\<close>

definition cold :: "'z dir_state_scheme \<Rightarrow> bool" where
  "cold s \<longleftrightarrow> cache s = replicate 64 cache_entry0 \<and> clock s = 0 \<and> free_map_file s = None \<and> cwd s = None"

lemma free_map_init_step:
  assumes "block_size (devs s) (fs_device s) = Some n" and "2 \<le> unat (n - 1)"
  obtains b where "free_map_init s = Some (s\<lparr>free_map := b\<rparr>)" "bitmap_inv b" "bit_cnt b = unat (n - 1)" "\<And>t. marked b t \<longleftrightarrow> t = 0 \<or> t = 1"
proof -
  let ?m = "unat (n - 1)"
  obtain b0 where b0: "bitmap_create ?m = Some b0" "bitmap_inv b0" "bit_cnt b0 = ?m" "bitmap_bits b0 = replicate ?m False"
    using bitmap_create_correct by blast
  obtain b1 where b1: "bitmap_mark b0 0 = Some b1" "bitmap_inv b1" "bitmap_bits b1 = (replicate ?m False)[0 := True]"
    using bitmap_mark_correct [OF b0(2), of 0] b0(3,4) assms(2) by auto
  have c1: "bit_cnt b1 = ?m" using arg_cong [OF b1(3), of length] by simp
  obtain b2 where b2: "bitmap_mark b1 1 = Some b2" "bitmap_inv b2" "bitmap_bits b2 = (replicate ?m False)[0 := True, 1 := True]"
    using bitmap_mark_correct [OF b1(2), of 1] b1(3) c1 assms(2) by auto
  have c2: "bit_cnt b2 = ?m" using arg_cong [OF b2(3), of length] by simp
  have "bval b2 i \<longleftrightarrow> i = 0 \<or> i = 1" if "i < ?m" for i
  proof -
    have "bval b2 i = bitmap_bits b2 ! i" using that c2 by (simp add: bitmap_bits_def)
    then show ?thesis using that b2(3) by (auto simp: nth_list_update split: if_splits)
  qed
  then have "marked b2 t \<longleftrightarrow> t = 0 \<or> t = 1" for t :: block_sector_t
    using c2 assms(2) by (auto simp: marked_def word_unat_eq_iff)
  moreover have "free_map_init s = Some (s\<lparr>free_map := b2\<rparr>)"
    using assms(1) b0(1) b1(1) b2(1) by (simp add: free_map_init_def FREE_MAP_SECTOR_def ROOT_DIR_SECTOR_def)
  ultimately show ?thesis using that b2(2) c2 by blast
qed

lemma filesys_init_start:
  fixes s :: "'z dir_state_scheme"
  assumes "cold s" and "block_get_hd (devs s) = Some dv" "block_size (devs s) dv = Some n" "2 \<le> unat (n - 1)"
  obtains u :: "'z dir_state_scheme"
  where "\<forall>format. filesys_init format s = do { s \<leftarrow> (if format then do_format u else Some u); s \<leftarrow> free_map_open s; Some (init_file_table s) }"
    "bc_inv u" "bc_sect u = dev_sect dv (devs s)" "bc_dev_valid u = dev_valid dv (devs s)" "bitmap_inv (free_map u)"
    "bit_cnt (free_map u) = unat (n - 1)" "\<forall>t. used u t \<longleftrightarrow> t = 0 \<or> t = 1" "free_map_file u = None" "open_inodes u = []" "cwd u = None"
proof -
  let ?s = "inode_init (s\<lparr>fs_device := dv\<rparr>)"
  obtain b where b: "free_map_init ?s = Some (?s\<lparr>free_map := b\<rparr>)" "bitmap_inv b" "bit_cnt b = unat (n - 1)"
      "\<And>t. marked b t \<longleftrightarrow> t = 0 \<or> t = 1"
    using free_map_init_step [of ?s n] assms(3,4) by (auto simp: inode_init_def)
  let ?t = "?s\<lparr>free_map := b\<rparr>"
  let ?u = "buffer_cache_init ?t"
  have c: "cache ?t = replicate 64 cache_entry0" "clock ?t = 0" using assms(1) by (simp_all add: cold_def inode_init_def)
  have st: "bc_inv ?u" "bc_sect ?u = bc_dev ?t"
    using buffer_cache_init_step [of ?t] c by (auto simp: cache_entry0_def)
  have "bc_sect ?u = dev_sect dv (devs s)" using st(2) by (simp add: bc_dev_def inode_init_def)
  moreover have "bc_dev_valid ?u = dev_valid dv (devs s)"
    by (simp add: bc_dev_valid_def inode_init_def buffer_cache_init_def)
  moreover have "free_map ?u = b" "free_map_file ?u = None" "open_inodes ?u = []" "cwd ?u = None"
    using assms(1) by (simp_all add: buffer_cache_init_def inode_init_def cold_def)
  moreover have "filesys_init format s = do { s \<leftarrow> (if format then do_format ?u else Some ?u); s \<leftarrow> free_map_open s; Some (init_file_table s) }" for format
    using assms(2) b(1) by (simp add: filesys_init_def Let_def)
  ultimately show ?thesis using that [of ?u] st(1) b by (simp add: used_marked)
qed

lemma card_sectors_below:
  assumes "m < 2 ^ 32" shows "card {t :: block_sector_t. unat t < m} = m"
proof -
  have "unat ` {t :: block_sector_t. unat t < m} = {..<m}"
  proof
    show "{..<m} \<subseteq> unat ` {t :: block_sector_t. unat t < m}"
    proof
      fix i assume i: "i \<in> {..<m}"
      then have "unat (of_nat i :: block_sector_t) = i" using assms by (simp add: unat_of_nat take_bit_nat_eq_self)
      then show "i \<in> unat ` {t :: block_sector_t. unat t < m}" using i by (metis (mono_tags) image_eqI lessThan_iff mem_Collect_eq)
    qed
  qed auto
  moreover have "inj_on unat {t :: block_sector_t. unat t < m}" by (auto simp: inj_on_def word_unat_eq_iff)
  ultimately show ?thesis using card_image by fastforce
qed

text \<open>The number of sectors of the file of a free map of \<open>m\<close> bits.\<close>

definition map_sectors :: "nat \<Rightarrow> nat" where
  "map_sectors m = sector_count (int (byte_cnt m))"

text \<open>After \<open>free_map_init\<close> two sectors are in use.\<close>

lemma blank_start:
  fixes u :: "'z dir_state_scheme"
  assumes "bc_inv u" "bitmap_inv (free_map u)" "free_map_file u = None" "2 \<le> bit_cnt (free_map u)" "bit_cnt (free_map u) < 2 ^ 32 - 1"
    and "\<forall>t. used u t \<longleftrightarrow> t = 0 \<or> t = 1" and "\<forall>t. unat t < bit_cnt (free_map u) \<longrightarrow> bc_dev_valid u t"
  shows "blank u" and "card (free_sectors u) = bit_cnt (free_map u) - 2"
proof -
  let ?m = "bit_cnt (free_map u)"
  show "blank u" using assms by (simp add: blank_def)
  have "free_sectors u = {t. unat t < ?m} - {0, 1}" using assms(6) by (auto simp: free_sectors_def)
  moreover have "{0, 1} \<subseteq> {t :: block_sector_t. unat t < ?m}" using assms(4) by simp
  ultimately show "card (free_sectors u) = ?m - 2"
    using card_sectors_below [of ?m] assms(5) by (simp add: card_Diff_subset)
qed

lemma do_format_mounts:
  fixes u :: "'z dir_state_scheme"
  assumes "blank u" and us: "\<forall>t. used u t \<longleftrightarrow> t = 0 \<or> t = 1" and "open_inodes u = []" "cwd u = None"
    and m: "m = bit_cnt (free_map u)" "map_sectors m \<le> 123" "map_sectors m + 71 \<le> card (free_sectors u)"
  obtains s t :: "'z dir_state_scheme" and rd where "do_format u = Some t" "mounted s rd" "cwd s = None" "dlength rd = 36000"
    "file_bytes (bc_sect s) rd = dir_entry_bytes \<lparr>inode_sector = 1, e_name = replicate 31 0, in_use = True\<rparr> @ replicate 35964 0"
    "card (free_sectors s) = card (free_sectors u) - map_sectors m - 71"
    "bc_inv t" "bc_sect t = bc_sect s" "bc_dev_valid t = bc_dev_valid s" "free_map t = free_map s" "open_inodes t = []" "cwd t = None"
proof -
  let ?ip = "length (inodes u)" and ?fp = "length (files u)"
  have ms: "sector_count (int (bitmap_file_size (free_map u))) = map_sectors m" by (simp add: m(1) map_sectors_def bitmap_file_size_def)
  obtain s1 ts where f: "free_map_create u = Some s1" "fs_ok s1" "bit_cnt (free_map s1) = bit_cnt (free_map u)"
    "length ts = map_sectors m" "distinct ts" "\<forall>t \<in> set ts. \<not> used u t" "\<forall>t. used s1 t \<longleftrightarrow> used u t \<or> t \<in> set ts"
    "fm_sectors s1 = insert 0 (set ts)" "open_inodes s1 = [?ip]" "fm_inode s1 = get_inode ?ip s1" "free_map_file s1 = Some ?fp"
    "get_file ?fp s1 = Some \<lparr>f_inode = ?ip, pos = 0, deny_write = False\<rparr>" "bc_dev_valid s1 = bc_dev_valid u" "fs_state.more s1 = fs_state.more u"
    by (rule free_map_create_mounts [OF assms(1) _ _ assms(3), unfolded ms]) (use m in simp_all)
  obtain fmi where fmi: "get_inode ?ip s1 = Some fmi" "open_cnt fmi = 1" "\<not> removed fmi" "sector fmi = 0"
    using fs_ok_saved [OF f(2)] f(10) by metis
  have deny: "deny_write_cnt fmi = 0" using f(2,10) fmi(1) by (simp add: fs_ok_def fm_ok_def)
  have free1: "card (free_sectors s1) = card (free_sectors u) - map_sectors m"
  proof -
    have sub: "set ts \<subseteq> free_sectors u" using f(3,6,7) by (auto simp: free_sectors_def used_def)
    have "free_sectors s1 = free_sectors u - set ts" using f(3,7) by (auto simp: free_sectors_def)
    then show ?thesis using f(4,5) sub by (simp add: card_Diff_subset distinct_card)
  qed
  have r: "used s1 ROOT_DIR_SECTOR" "ROOT_DIR_SECTOR \<notin> fm_sectors s1" "cwd s1 = None"
    using f(6,7,8) us assms(4) bc_step_dirs [OF f(14)] by (auto simp: ROOT_DIR_SECTOR_def)
  have op: "\<forall>ip \<in> set (open_inodes s1). \<exists>i. get_inode ip s1 = Some i \<and> used s1 (sector i) \<and> sector i \<noteq> ROOT_DIR_SECTOR"
    using f(9) fmi fs_ok_facts(3) [OF f(2)] by (simp add: ROOT_DIR_SECTOR_def)
  have k: "sector_count (int (1000 * 36)) = 71" by (simp add: sector_count_def)
  obtain rd us s2 where d: "dir_create ROOT_DIR_SECTOR 1000 s1 = Some (True, s2)" "mounted s2 rd" "cwd s2 = None"
    "disk_grew {ROOT_DIR_SECTOR} us s1 s2" "length us = 71" "dlength rd = int (1000 * 36)"
    "file_bytes (bc_sect s2) rd = dir_entry_bytes \<lparr>inode_sector = ROOT_DIR_SECTOR, e_name = replicate 31 0, in_use = True\<rparr> @ replicate (1000 * 36 - 36) 0"
    "open_inodes s2 = open_inodes s1" "files s2 = files s1" "free_map_file s2 = free_map_file s1" "fm_inode s2 = fm_inode s1"
    "\<forall>j i. get_inode j s1 = Some i \<longrightarrow> get_inode j s2 = Some i"
    by (rule dir_create_root [OF f(2) r op, of 1000, unfolded k]) (use free1 m(3) in simp_all)
  let ?t = "s2\<lparr>inodes := (inodes s2)[?ip := None], open_inodes := remove1 ?ip (open_inodes s2), files := (files s2)[?fp := None]\<rparr>"
  have "free_map_close s2 = Some ?t"
    using free_map_close_step [of s2 ?fp "\<lparr>f_inode = ?ip, pos = 0, deny_write = False\<rparr>" fmi] d(9,10,12) f(11,12) fmi deny
    by (simp add: get_file_def)
  then have df: "do_format u = Some ?t" using f(1) d(1) by (simp add: do_format_def MAX_FILES_IN_DIRECTORY_def)
  have t: "bc_inv ?t" "bc_sect ?t = bc_sect s2" "bc_dev_valid ?t = bc_dev_valid s2" "free_map ?t = free_map s2" "open_inodes ?t = []" "cwd ?t = None"
    using fs_ok_facts(1) [OF mounted_fs [OF d(2)]] d(3,8) f(9)
    by (simp_all add: bc_inv_def bc_sect_def bc_dev_def bc_dev_valid_def)
  have "card (free_sectors s2) = card (free_sectors u) - map_sectors m - 71"
    using free_sectors_grew(1) [OF d(4)] d(5) free1 by simp
  then show ?thesis using that [of ?t s2 rd] df d(2,3,6,7) t \<open>card (free_sectors s2) = _\<close> by (simp add: ROOT_DIR_SECTOR_def)
qed

lemma init_file_table_fs [simp]:
  "bc_sect (init_file_table s) = bc_sect s" "file_table (init_file_table s) = []" "free_sectors (init_file_table s) = free_sectors s"
  "used (init_file_table s) = used s"
  by (simp_all add: init_file_table_def)

lemma mounted_free:
  "used t = used s \<Longrightarrow> bit_cnt (free_map t) = bit_cnt (free_map s) \<Longrightarrow> free_sectors t = free_sectors s"
  by (simp add: free_sectors_def)

subsection \<open>Shutting down\<close>

lemma block_write_shape: "block_write d blk t b = Some d' \<Longrightarrow> dev_shape d' = dev_shape d"
proof (induction blk arbitrary: t d' rule: less_induct)
  case (less blk)
  obtain x where x: "arr_get (blocks d) blk = Some x"
    using less.prems by (subst (asm) block_write.simps) (simp split: option.splits)
  show ?case
  proof (cases "ops x")
    case ide_operations
    then show ?thesis using less.prems x by (subst (asm) block_write.simps) auto
  next
    case (partition_operations base start)
    then obtain d1 where "base < blk" "block_write d base (start + t + 1) b = Some d1" "d' = bump_write blk d1"
      using less.prems x by (subst (asm) block_write.simps) (auto split: if_splits option.splits)
    then show ?thesis using less.IH by simp
  qed
qed

lemma for_range_keeps:
  assumes "for_range i n f s = Some s'" and "\<And>j t t'. f j t = Some t' \<Longrightarrow> g t' = g t"
  shows "g s' = g s"
  using assms
proof (induction i n f s rule: for_range.induct)
  case (1 i n f s)
  show ?case
  proof (cases "i < n")
    case True
    then obtain t where "f i s = Some t" "for_range (Suc i) n f t = Some s'"
      using 1(2) by (subst (asm) for_range.simps) (auto split: option.splits)
    then show ?thesis using 1(1) [OF True] 1(3) by metis
  qed (use 1(2) in \<open>simp add: for_range.simps\<close>)
qed

lemma buffer_cache_close_shape:
  assumes "buffer_cache_close s = Some s'" shows "dev_shape (devs s') = dev_shape (devs s)"
proof -
  have "dev_shape (devs t') = dev_shape (devs t)"
    if "do { e \<leftarrow> arr_get (cache t) j; if \<not> occupied e then Some t else buffer_cache_flush j t } = Some t'" for j and t t' :: "'a bc_state_scheme"
    using that by (auto simp: buffer_cache_flush_def set_entry_def split: bind_splits if_splits dest: block_write_shape)
  then show ?thesis using for_range_keeps [OF assms [unfolded buffer_cache_close_def], of "\<lambda>s. dev_shape (devs s)"] by blast
qed

lemma filesys_done_saves:
  fixes s :: "'z dir_state_scheme"
  assumes "fs_ok s" and "file_table s = []"
  obtains s' where "filesys_done s = Some s'" "dev_sect (fs_device s') (devs s') = bc_sect s" "fs_device s' = fs_device s"
    "dev_shape (devs s') = dev_shape (devs s)" "dev_valid (fs_device s') (devs s') = bc_dev_valid s"
proof -
  obtain fmi b where fmi: "fm_inode s = Some fmi" "saved (bc_sect s) (bc_dev_valid s) (data fmi) b" "open_cnt fmi = 1" "\<not> removed fmi"
    using fs_ok_saved [OF assms(1)] by metis
  then obtain fp f where fp: "free_map_file s = Some fp" "get_file fp s = Some f" "get_inode (f_inode f) s = Some fmi"
    by (auto simp: fm_inode_def split: bind_splits)
  have "deny_write_cnt fmi = 0" using assms(1) fmi(1) by (simp add: fs_ok_def fm_ok_def)
  then have c: "free_map_close s = Some (s\<lparr>inodes := (inodes s)[f_inode f := None], open_inodes := remove1 (f_inode f) (open_inodes s),
      files := (files s)[fp := None]\<rparr>)" (is "_ = Some ?t")
    using free_map_close_step [OF fp] fmi(3,4) by simp
  have t: "bc_inv ?t" "bc_sect ?t = bc_sect s" "bc_dev_valid ?t = bc_dev_valid s"
    using fs_ok_facts(1) [OF assms(1)] by (simp_all add: bc_inv_def bc_sect_def bc_dev_def bc_dev_valid_def)
  obtain s' where s': "buffer_cache_close ?t = Some s'" "bc_step ?t s'" "bc_dev s' = bc_sect ?t"
    using buffer_cache_close_steps [OF t(1)] by blast
  have fd: "fs_device s' = fs_device s" using s'(2) by (simp add: bc_step_def)
  have v: "dev_valid (fs_device s') (devs s') = bc_dev_valid s" using bc_step_view(2) [OF s'(2)] t(3) by (simp add: bc_dev_valid_def)
  have "file_table s' = []" using bc_step_dirs [OF bc_step_fs(7) [OF s'(2)]] assms(2) by simp
  then have "filesys_done s = Some s'" using c s'(1) by (simp add: filesys_done_def free_file_table_def)
  moreover have "dev_shape (devs s') = dev_shape (devs s)" using buffer_cache_close_shape [OF s'(1)] by simp
  ultimately show ?thesis
    using that [of s'] fd v s'(3) t(2) by (simp add: bc_dev_def)
qed

subsection \<open>Properties\<close>

text \<open>
  C4. Formatting works: on a hard drive with enough sectors, \<open>filesys_init(true)\<close> from the start of the program leaves a
  mounted file system whose root directory has the entry of its parent, itself, and 999 free entries. In use are the sectors of
  the two inodes, the free map and the root directory, and no others.
\<close>

theorem filesys_init_formats:
  fixes s :: "'z dir_state_scheme"
  assumes "cold s" and "block_get_hd (devs s) = Some dv" "block_size (devs s) dv = Some n" "n \<noteq> 0"
    and "\<forall>t. unat t < unat (n - 1) \<longrightarrow> dev_valid dv (devs s) t"
    and "map_sectors (unat (n - 1)) \<le> 123" "map_sectors (unat (n - 1)) + 73 \<le> unat (n - 1)"
  shows "\<exists>s' rd. filesys_init True s = Some s' \<and> mounted s' rd \<and> dlength rd = 36000 \<and>
     dir_entries (bc_sect s') rd = \<lparr>inode_sector = 1, e_name = replicate 31 0, in_use = True\<rparr> #
       replicate 999 \<lparr>inode_sector = 0, e_name = replicate 31 0, in_use = False\<rparr> \<and>
     card (free_sectors s') = unat (n - 1) - (map_sectors (unat (n - 1)) + 73) \<and> cwd s' = None \<and> file_table s' = []"
proof -
  have n: "unat (n - 1) < 2 ^ 32 - 1" using unat_minus_one [OF assms(4)] unsigned_less [of n, where ?'a = nat] unat_gt_0 [of n] assms(4) by simp
  have two: "2 \<le> unat (n - 1)" using assms(7) by simp
  obtain u :: "'z dir_state_scheme"
  where u: "\<forall>format. filesys_init format s = do { s \<leftarrow> (if format then do_format u else Some u); s \<leftarrow> free_map_open s; Some (init_file_table s) }"
    "bc_inv u" "bc_sect u = dev_sect dv (devs s)" "bc_dev_valid u = dev_valid dv (devs s)" "bitmap_inv (free_map u)"
    "bit_cnt (free_map u) = unat (n - 1)" "\<forall>t. used u t \<longleftrightarrow> t = 0 \<or> t = 1" "free_map_file u = None" "open_inodes u = []" "cwd u = None"
    by (rule filesys_init_start [OF assms(1-3) two])
  have "\<forall>t. unat t < bit_cnt (free_map u) \<longrightarrow> bc_dev_valid u t" using assms(5) u(4,6) by simp
  then have b: "blank u" "card (free_sectors u) = unat (n - 1) - 2"
    using blank_start [OF u(2,5,8) _ _ u(7)] u(6) n assms(7) by simp_all
  obtain v t :: "'z dir_state_scheme" and rd where f: "do_format u = Some t" "mounted v rd" "cwd v = None" "dlength rd = 36000"
    "file_bytes (bc_sect v) rd = dir_entry_bytes \<lparr>inode_sector = 1, e_name = replicate 31 0, in_use = True\<rparr> @ replicate 35964 0"
    "card (free_sectors v) = card (free_sectors u) - map_sectors (unat (n - 1)) - 71"
    "bc_inv t" "bc_sect t = bc_sect v" "bc_dev_valid t = bc_dev_valid v" "free_map t = free_map v" "open_inodes t = []" "cwd t = None"
    by (rule do_format_mounts [OF b(1) u(7,9,10) refl]) (use u(6) b(2) assms(6,7) in simp_all)
  have "bitmap_inv (free_map t)" using mounted_fs [OF f(2)] f(10) by (simp add: fs_ok_def fm_ok_def)
  then obtain t' where o: "free_map_open t = Some t'" "mounted (init_file_table t') rd" "used t' = used v" "bc_sect t' = bc_sect v"
    "bit_cnt (free_map t') = bit_cnt (free_map v)" "fs_state.more t' = fs_state.more t"
    by (rule mounted_again [OF f(2,3,7,8,9) _ _ f(11,12)]) (simp add: f(10))
  have "dir_entries (bc_sect v) rd = \<lparr>inode_sector = 1, e_name = replicate 31 0, in_use = True\<rparr> #
       replicate (35964 div 36) \<lparr>inode_sector = 0, e_name = replicate 31 0, in_use = False\<rparr>"
    by (rule dir_entries_empty [OF f(5)]) simp
  moreover have "filesys_init True s = Some (init_file_table t')" using u(1) f(1) o(1) by simp
  moreover have "cwd (init_file_table t') = None" using bc_step_dirs(2) [OF o(6)] f(12) by (simp add: init_file_table_def)
  ultimately show ?thesis
    using o(2,4) f(4,6) b(2) mounted_free [OF o(3,5)] by (intro exI [of _ "init_file_table t'"] exI [of _ rd]) simp
qed

text \<open>
  C3. Nothing is lost when the program ends and starts again: after \<open>filesys_done\<close> of a mounted file system with no open
  files, \<open>filesys_init(false)\<close> of a new run on the same device mounts the same root directory, with the same contents of all
  sectors and the same sectors in use.
\<close>

theorem filesys_restart:
  fixes s :: "'z dir_state_scheme"
  assumes "mounted s rd" "cwd s = None" "file_table s = []"
    and "block_get_hd (devs s) = Some (fs_device s)" "block_size (devs s) (fs_device s) = Some n" "bit_cnt (free_map s) = unat (n - 1)"
  shows "\<exists>s1. filesys_done s = Some s1 \<and>
     (\<forall>t :: 'z dir_state_scheme. cold t \<and> devs t = devs s1 \<longrightarrow>
        (\<exists>t'. filesys_init False t = Some t' \<and> mounted t' rd \<and> bc_sect t' = bc_sect s \<and> used t' = used s \<and> file_table t' = []))"
proof -
  have fs: "fs_ok s" by (rule mounted_fs [OF assms(1)])
  obtain s1 where s1: "filesys_done s = Some s1" "dev_sect (fs_device s1) (devs s1) = bc_sect s" "fs_device s1 = fs_device s"
    "dev_shape (devs s1) = dev_shape (devs s)" "dev_valid (fs_device s1) (devs s1) = bc_dev_valid s"
    by (rule filesys_done_saves [OF fs assms(3)])
  have hd: "block_get_hd (devs s1) = Some (fs_device s)" using s1(4) assms(4) by (simp add: dev_shape_def block_get_hd_def)
  have sz: "block_size (devs s1) (fs_device s) = Some n" using dev_shape_get(2) [OF s1(4)] assms(5) by simp
  have "used s ROOT_DIR_SECTOR" by (rule mounted_root_used [OF assms(1)])
  then have two: "2 \<le> unat (n - 1)" using assms(6) by (simp add: used_def ROOT_DIR_SECTOR_def)
  have "\<exists>t'. filesys_init False t = Some t' \<and> mounted t' rd \<and> bc_sect t' = bc_sect s \<and> used t' = used s \<and> file_table t' = []"
    if t: "cold t" "devs t = devs s1" for t :: "'z dir_state_scheme"
  proof -
    have hd': "block_get_hd (devs t) = Some (fs_device s)" and sz': "block_size (devs t) (fs_device s) = Some n" using t(2) hd sz by simp_all
    obtain u :: "'z dir_state_scheme"
    where u: "\<forall>format. filesys_init format t = do { s \<leftarrow> (if format then do_format u else Some u); s \<leftarrow> free_map_open s; Some (init_file_table s) }"
      "bc_inv u" "bc_sect u = dev_sect (fs_device s) (devs t)" "bc_dev_valid u = dev_valid (fs_device s) (devs t)" "bitmap_inv (free_map u)"
      "bit_cnt (free_map u) = unat (n - 1)" "\<forall>t. used u t \<longleftrightarrow> t = 0 \<or> t = 1" "free_map_file u = None" "open_inodes u = []" "cwd u = None"
      by (rule filesys_init_start [OF t(1) hd' sz' two])
    obtain t' where "free_map_open u = Some t'" "mounted (init_file_table t') rd" "used t' = used s" "bc_sect t' = bc_sect s"
      by (rule mounted_again [OF assms(1,2) u(2) _ _ u(5) _ u(9,10)]) (use s1(2,3,5) t(2) u(3,4,6) assms(6) in simp_all)
    then show ?thesis using u(1) by simp
  qed
  then show ?thesis using s1(1) by blast
qed

text \<open>
  The order of \<open>filesys_done\<close> is wrong for a file that has been removed while it was open: its sectors are released when the
  table of files is freed, after the file of the free map has been closed, and the release uses that file.
\<close>

theorem filesys_done_after_remove:
  fixes s :: "'z dir_state_scheme"
  assumes "fs_ok s" and "file_table s = [(nm, Some fp)]" and f: "get_file fp s = Some f" "\<not> deny_write f" "free_map_file s \<noteq> Some fp"
    and ino: "get_inode (f_inode f) s = Some ino" "open_cnt ino = 1" "removed ino"
  shows "filesys_done s = None"
proof -
  obtain fmi b where fmi: "fm_inode s = Some fmi" "open_cnt fmi = 1" "\<not> removed fmi"
    using fs_ok_saved [OF assms(1)] by metis
  then obtain mp g where mp: "free_map_file s = Some mp" "get_file mp s = Some g" "get_inode (f_inode g) s = Some fmi"
    by (auto simp: fm_inode_def split: bind_splits)
  have "deny_write_cnt fmi = 0" using assms(1) fmi(1) by (simp add: fs_ok_def fm_ok_def)
  then have c: "free_map_close s = Some (s\<lparr>inodes := (inodes s)[f_inode g := None], open_inodes := remove1 (f_inode g) (open_inodes s),
      files := (files s)[mp := None]\<rparr>)" (is "_ = Some ?t")
    using free_map_close_step [OF mp] fmi(2,3) by simp
  have "bc_inv ?t" using fs_ok_facts(1) [OF assms(1)] by (simp add: bc_inv_def bc_dev_def bc_dev_valid_def)
  then obtain u where u: "buffer_cache_close ?t = Some u" "bc_step ?t u" using buffer_cache_close_steps by blast
  have ft: "file_table u = [(nm, Some fp)]" using bc_step_dirs(4) [OF bc_step_fs(7) [OF u(2)]] assms(2) by simp
  have ne: "f_inode f \<noteq> f_inode g" "fp \<noteq> mp" using mp f(3) ino fmi(3) by auto
  let ?u = "u\<lparr>file_table := []\<rparr>"
  have lu: "get_file fp ?u = Some f" "get_inode (f_inode f) ?u = Some ino" "get_file mp ?u = None" "free_map_file ?u = Some mp"
    using bc_step_fs [OF u(2)] ne f(1) ino(1) mp(1) by (simp_all add: get_file_def get_inode_def deref_def arr_get_def split: if_splits)
  have "free_map_release inode_write_at sec 1 v = None" if "get_file mp v = None" "free_map_file v = Some mp" for sec and v :: "'z dir_state_scheme"
    using that by (cases "bitmap_set_multiple (free_map v) (unat sec) 1 False")
      (simp_all add: free_map_release_def bitmap_write_def file_write_at_via_def get_file_def Let_def)
  then have "inode_close (Some (f_inode f)) ?u = None"
    using lu ino(2,3) by (simp add: inode_close_def set_inode_def get_file_def Let_def)
  then have "file_close (Some fp) ?u = None" using lu(1) f(2) by (simp add: file_close_def file_allow_write_def)
  then show ?thesis using c u(1) ft by (simp add: filesys_done_def free_file_table_def)
qed

subsection \<open>Examples\<close>

text \<open>An empty drive of 128 sectors at the start of the program.\<close>

definition cold_example :: dir_state where
  "cold_example = create_example\<lparr>cache := replicate 64 cache_entry0, clock := 0, free_map_file := None, cwd := None,
     devs := snd (block_register ''hda'' ''x.dsk'' 128 ide_operations
       \<lparr>host = replicate 65536 0, blocks = [], hard_drive = None\<rparr>)\<rparr>"

lemma cold_example_devs:
  "cold cold_example" "block_get_hd (devs cold_example) = Some 0" "block_size (devs cold_example) 0 = Some 128"
  "\<forall>t. unat t < 127 \<longrightarrow> dev_valid 0 (devs cold_example) t"
  by (simp_all add: cold_example_def cold_def block_get_hd_def block_size_def block_register_def block_set_hd_def Let_def
      dev_valid_def dev_base.simps [of _ 0] img_valid_def)

theorem filesys_init_formats_witness:
  "\<exists>s' rd. filesys_init True cold_example = Some s' \<and> mounted s' rd \<and> card (free_sectors s') = 53 \<and> file_table s' = []"
proof -
  have m: "map_sectors 127 = 1"
    by (simp add: map_sectors_def byte_cnt_def elem_cnt_def DIV_ROUND_UP_def ELEM_BITS_def sector_count_def)
  show ?thesis using filesys_init_formats [OF cold_example_devs(1-3)] cold_example_devs(4) m by fastforce
qed

theorem filesys_restart_witness:
  "\<exists>s1 t'. filesys_done create_example = Some s1 \<and> filesys_init False (cold_example\<lparr>devs := devs s1\<rparr>) = Some t' \<and>
     mounted t' root_example \<and> bc_sect t' = bc_sect create_example"
proof -
  have d: "block_get_hd (devs create_example) = Some (fs_device create_example)" "block_size (devs create_example) (fs_device create_example) = Some 9"
    by (simp_all add: create_example_def fs_example_def file_state.defs fs_state.defs block_get_hd_def block_size_def block_register_def
        block_set_hd_def Let_def)
  have "cold (cold_example\<lparr>devs := x\<rparr>)" for x by (simp add: cold_def cold_example_def)
  then show ?thesis using filesys_restart [OF create_example_mounted _ _ d] by fastforce
qed

definition removed_example :: dir_state where
  "removed_example = create_example\<lparr>file_table := [(''a'', Some 1)],
     inodes := [Some (inode_example 0 [2] 8), Some ((inode_example 5 [6] 10)\<lparr>removed := True\<rparr>)], open_inodes := [1, 0],
     files := [Some \<lparr>f_inode = 0, pos = 0, deny_write = False\<rparr>, Some \<lparr>f_inode = 1, pos = 0, deny_write = False\<rparr>]\<rparr>"

theorem filesys_done_after_remove_witness: "filesys_done removed_example = None"
proof (rule filesys_done_after_remove)
  have fm: "free_map_file create_example = Some 0"
    by (simp add: create_example_def fs_example_def file_state.defs fs_state.defs)
  have i0: "get_inode 0 removed_example = Some (inode_example 0 [2] 8)" by (simp add: removed_example_def get_inode_def deref_def arr_get_def)
  have "fm_inode removed_example = Some (inode_example 0 [2] 8)"
    using i0 fm by (simp add: fm_inode_def get_file_def removed_example_def deref_def arr_get_def get_inode_def)
  moreover have "bc_inv removed_example = bc_inv create_example" "bc_sect removed_example = bc_sect create_example"
      "bc_dev_valid removed_example = bc_dev_valid create_example" "free_map removed_example = free_map create_example"
    unfolding removed_example_def bc_inv_def bc_sect_def bc_dev_def bc_dev_valid_def by simp_all
  ultimately have "same_fs create_example removed_example" by (simp add: same_fs_def)
  then show "fs_ok removed_example" using same_fs_ok(1) create_example_fs by blast
  show "file_table removed_example = [(''a'', Some 1)]" by (simp add: removed_example_def)
  show "get_file 1 removed_example = Some \<lparr>f_inode = 1, pos = 0, deny_write = False\<rparr>"
    by (simp add: removed_example_def get_file_def deref_def arr_get_def)
  show "free_map_file removed_example \<noteq> Some 1" using fm by (simp add: removed_example_def)
  show "get_inode (f_inode \<lparr>f_inode = 1, pos = 0, deny_write = False\<rparr>) removed_example = Some ((inode_example 5 [6] 10)\<lparr>removed := True\<rparr>)"
    by (simp add: removed_example_def get_inode_def deref_def arr_get_def)
qed simp_all

end
