(* ===== verification/Spec2Isabelle.thy ===== *)
theory Spec2Isabelle
  imports Pintos_List Linked_List Debug Shell1 Shell2 Shell3 Create Remove Mount
begin

text \<open>
  Verification of the Mock-OS shells: three versions of a command shell, the second with processes and paged memory,
  the third with processes, paged memory and a file system on a disk image.

  \<^bold>\<open>The program and its theories.\<close>

  \<^item> \<open>src/a1\<close>: a shell with variables and scripts. \<open>shellmemory.c\<close> is in \<open>Shell_Memory\<close>, \<open>shell.c\<close> and \<open>interpreter.c\<close>
    are in \<open>Shell1\<close>.
  \<^item> \<open>src/a2\<close>: scripts become processes whose lines are loaded in pages of three. \<open>shellmemory.c\<close> is in \<open>Shell_Memory\<close>,
    \<open>ready_queue.c\<close> in \<open>Ready_Queue\<close>, \<open>pcb.c\<close> and \<open>kernel.c\<close> in \<open>Kernel2\<close>, \<open>shell.c\<close> and \<open>interpreter.c\<close> in \<open>Shell2\<close>.
  \<^item> \<open>src/a3\<close>: the same with demand paging and a file system. \<open>shellmemory.c\<close> is in \<open>Shell_Memory\<close>, \<open>linked_list.c\<close> in
    \<open>Linked_List\<close>, \<open>pcb.c\<close>, \<open>cpu.c\<close> and \<open>kernel.c\<close> in \<open>Process\<close>, \<open>shell.c\<close> and \<open>interpreter.c\<close> in \<open>Shell3\<close>.
  \<^item> \<open>src/a3/fs\<close>: \<open>bitmap.c\<close> in \<open>Bitmap\<close>, \<open>debug.c\<close> in \<open>Debug\<close>; \<open>block.c\<close>, \<open>ide.c\<close>, \<open>partition.c\<close> in \<open>Block_Device\<close>; \<open>cache.c\<close> in \<open>Buffer_Cache\<close>;
    \<open>inode.c\<close> and \<open>free-map.c\<close> in \<open>Inode_Disk\<close> (layout, index, reading, writing in place) and \<open>Inode\<close> (allocation, growth,
    open inodes), with \<open>Inode_Growth\<close> for what growing, creating and releasing do to the disk; \<open>file.c\<close> in \<open>File_Table\<close>; \<open>directory.c\<close> in \<open>Directory\<close>; \<open>filesys.c\<close> and \<open>fsutil.c\<close> in \<open>Filesys\<close>;
    \<open>fsutil2.c\<close> in \<open>Fsutil2\<close>; \<open>list.c\<close> in \<open>Pintos_List\<close>. \<open>Mount\<close>, \<open>Create\<close> and \<open>Remove\<close> compose them: a disk that
    is formatted, closed and mounted again, and files that are made, opened, written and removed by name.
  \<^item> \<open>Prelude\<close> has checked array accesses, counting loops, little-endian encodings and rounding; \<open>Links\<close> has heaps of
    linked nodes and the interfaces of queues.

  \<^bold>\<open>How the parts interact.\<close> The user's line goes through \<open>parseInput\<close> to the interpreter, which changes variables, calls
  the file system or creates processes and starts the scheduler. The scheduler takes a process from the queue, and
  runs its lines through \<open>parseInput\<close> again; a page that is not in memory is loaded from the script. In the model the
  kernel operations take the parser as an argument, and \<open>a1_parse\<close>, \<open>a2_parse\<close> and \<open>a3_parse\<close> tie the knot with a
  number that bounds the depth of the recursion. In the file system a command goes through the file table, the
  directory, the inode and its index blocks to the cache, and from there through partitions to the disk image.

  \<^bold>\<open>How code becomes definitions.\<close> Global variables and heap objects are fields of a record, which the operations take
  and return; the records of the file system extend each other from the cache to the directories, and the shells
  extend their kernels. A C function is one definition of the same name, with a prefix \<open>a1_\<close>, \<open>a2_\<close>, \<open>a3_\<close> where shells
  share the name. The result \<open>None\<close> is undefined behaviour: an access out of bounds, a null pointer, an object that has
  been freed, an overflow of \<open>int\<close>, or a loop that does not end; \<open>Inl n\<close> is \<open>exit(n)\<close>. \<open>ASSERT\<close> and \<open>PANIC\<close> only print,
  as in the source. \<open>malloc\<close> succeeds. Uninitialised memory is an argument \<open>junk\<close>. The host's files and system calls,
  the sizes chosen on the compiler's command line and the interpreter below a kernel are arguments too. Sector
  numbers are 32-bit words, file offsets integers with checked overflow.

  \<^bold>\<open>Loops and fuel.\<close> Counting loops are total by \<open>for_range\<close> and \<open>first_range\<close>. Loops over linked nodes, schedulers and the
  parsers of the second and third shell are partial functions, so that a theorem with a result states that they end.
  The scan of partitions takes fuel: on images without extended partitions one step is enough, on the others no fuel
  is. The loops over directory entries and \<open>cat\<close> take as many steps as the file has entries, or bytes and two more.
  The writer of an inode calls itself through the free map, at most once: depth two is used. The depth of \<open>a2_parse\<close> is
  shown to be two; a script of the first or third shell that runs itself needs any depth.

  \<^bold>\<open>What is shown.\<close>

  \<^item> Block devices and cache: a sector is read back as it was written, through partitions and evictions; closing the
    cache leaves the device with what the cache showed; eviction always finds a slot. \<open>Buffer_Cache\<close> refines a function
    from sectors to bytes: in any sequence of accesses every read returns what was last written.
  \<^item> Inodes: reading gives the slice of the file's bytes, writing in place changes exactly that slice; the free map
    gives out free sectors and is saved; what happens on a full disk and for empty writes. \<open>fs_ok\<close> and \<open>file_ok\<close> are the
    invariants of a mounted file system, whose free map on the disk is up to date, and of one open file: a file that grows takes sectors that were free, and files
    with different sectors do not see each other. Growth is shown for files of up to 123 sectors, which need no index
    blocks; reading and writing in place for all sizes.
  \<^item> Files and directories: consecutive reads continue; the table is a map; an added name is found, lookup is exact,
    listing gives the names in use. The invariant between two commands is \<open>mounted\<close>: every command opens the root
    directory and closes it. A file that is created can be opened, is all zeros, and leaves the other files as they
    were; creating a name that exists loses the sectors of the new file's data. Removing a file frees its sectors; creating,
    writing and removing it is the identity on the free sectors and on the names.
  \<^item> Paths: \<open>filesys_create\<close> and \<open>filesys_remove\<close> split a path into arrays of as many bytes as the path has characters. A
    name without a separator does not fit, and the model has no result for it; what is shown of files that are made
    and removed by name is shown for paths with a separator, such as \<open>/a.txt\<close>. \<open>filesys_open\<close> has room for all.
  \<^item> Mounting: formatting a disk establishes \<open>mounted\<close>, so that what is shown of mounted file systems holds of every disk that
    the program has made; ending the program and starting it again keeps all sectors, the free map and the root directory.
  \<^item> Lists: \<open>list_sort\<close> agrees with a stable sort; every history of allowed calls on a list is defined and refines a
    specification over plain sequences; the kernel's lists and the ready queue are queues, by one interface with three
    interpretations.
  \<^item> Memory and processes: frames are given out exclusively, frames and variables do not overlap; a page fault loads
    the next lines; a round-robin turn under the parser of the second shell keeps the order of the queue, which is what
    the locale \<open>background_parser\<close> asks of a parser; a script whose size counts a line too much gives the scheduler of
    the third shell an infinite run.
  \<^item> Output: a hexadecimal dump reads back as the bytes it shows; sizes are printed in the unit that fits.
  \<^item> Shells: a variable is echoed as it was set; text written by commands is read back by commands, from a file that
    was open and from one that is created first; a file that is created, written and removed leaves nothing behind; \<open>cat\<close> shows the whole file; depth and divergence of the second parser. Three runs of concrete scripts are worked
    examples: scripts that run each other's lines, lines that are lost behind \<open>run\<close>, processes used after they were freed.
  \<^item> Faults of the code that the proofs met are theorems as well, and say what the code does instead.

  \<^bold>\<open>Not modelled.\<close> \<open>print_ready_queue\<close>, \<open>printShellMemory\<close> and \<open>bitmap_destroy\<close> only print or free memory. The trace that the kernel of \<open>a2\<close>
  prints while it runs, messages from inside the file system, the prompt and the terminal handling of \<open>main\<close> are left
  out. The headers hold prototypes and macros whose meaning is in the definitions that use them.
\<close>

section \<open>Properties of the composed system\<close>

lemma strip_line: "fits_line ws \<Longrightarrow> map strip ws = ws"
  using strip_word by (simp add: fits_line_def is_word_def map_idI)

text \<open>The buffer of \<open>write\<close>: the text, a zero and the byte that \<open>file_write\<close> overwrites; two sectors hold it.\<close>

lemma write_buffer:
  assumes "fits_line (''write'' # nm # ts)" and "ts \<noteq> []" and "buf = bytes_of_string (join_tokens ts) @ [0, 0]"
  shows "0 < int (length buf)" "sector_count (int (length buf)) \<le> 2" "int (length (join_tokens ts)) + 1 < 2 ^ 31"
    "put_at buf (nat (int (length buf)) - 1) [0] = buf"
proof -
  have "length (join_tokens ts) < 999" using assms(1,2) by (cases ts) (auto simp: fits_line_def)
  then show "0 < int (length buf)" "sector_count (int (length buf)) \<le> 2" "int (length (join_tokens ts)) + 1 < 2 ^ 31"
    by (simp_all add: assms(3) sector_count_def)
  show "put_at buf (nat (int (length buf)) - 1) [0] = buf" unfolding assms(3) nat_int by (simp add: put_at_def)
qed

text \<open>
  C5. Text written to a file from the shell is read back: two \<open>write\<close> commands for an open file with enough room
  append their tokens one behind the other, and after \<open>seek\<close> to the place of the first a \<open>read\<close> of that many characters
  prints the two texts as one. The line goes through \<open>parseInput\<close>, the interpreter, the file table, the inode, its
  index blocks and the cache, and nothing else is printed.
\<close>

theorem shell_writes_are_read_back:
  assumes "open_as nm fp f ino (fsys s)" and "0 \<le> pos f"
    and "pos f + int (length (join_tokens ts1)) + int (length (join_tokens ts2)) + 2 \<le> dlength (data ino)"
    and "fits_line (''write'' # nm # ts1)" "fits_line (''write'' # nm # ts2)" "ts1 \<noteq> []" "ts2 \<noteq> []"
    and "fits_line [''seek'', nm, dec_string (nat (pos f))]"
    and "fits_line [''read'', nm, dec_string (length (join_tokens ts1) + length (join_tokens ts2))]"
    and "CHR 0x00 \<notin> set (join_tokens ts1 @ join_tokens ts2)"
  shows "\<exists>s'. a3_lines (Suc n) env
      [join_tokens (''write'' # nm # ts1) @ [newline], join_tokens (''write'' # nm # ts2) @ [newline],
       join_tokens [''seek'', nm, dec_string (nat (pos f))] @ [newline],
       join_tokens [''read'', nm, dec_string (length (join_tokens ts1) + length (join_tokens ts2))] @ [newline]] s = Some (Inr s') \<and>
    a3_out s' = a3_out s @ [Line (join_tokens ts1 @ join_tokens ts2)]"
proof -
  let ?t = "join_tokens ts1" and ?u = "join_tokens ts2"
  let ?fb = "\<lambda>s. file_bytes (bc_sect (fsys s)) (data ino)"
  let ?p = "a3_parse n env"
  have dl: "dlength (data ino) < 2 ^ 31" "length (?fb s) = nat (dlength (data ino))"
    using assms(1) length_file_bytes by (auto simp: open_as_def inode_ok_def)
  obtain s1 where s1: "write_command nm ts1 (s\<lparr>strtok_save := []\<rparr>) = a3_ok (0, s1)" "a3_out s1 = a3_out s" "strtok_save s1 = []"
      "open_as nm fp (f\<lparr>pos := pos f + int (length ?t)\<rparr>) ino (fsys s1)"
      "?fb s1 = put_at (?fb s) (nat (pos f)) (bytes_of_string ?t @ [0, 0])"
    using write_command_step [of nm fp f ino "s\<lparr>strtok_save := []\<rparr>" ts1] assms(1-3) by auto
  obtain s2 where s2: "write_command nm ts2 (s1\<lparr>strtok_save := []\<rparr>) = a3_ok (0, s2)" "a3_out s2 = a3_out s" "strtok_save s2 = []"
      "open_as nm fp (f\<lparr>pos := pos f + int (length ?t) + int (length ?u)\<rparr>) ino (fsys s2)"
      "?fb s2 = put_at (?fb s1) (nat (pos f) + length ?t) (bytes_of_string ?u @ [0, 0])"
    using write_command_step [of nm fp "f\<lparr>pos := pos f + int (length ?t)\<rparr>" ino "s1\<lparr>strtok_save := []\<rparr>" ts2] s1(2-4) assms(2,3) by (auto simp: nat_add_distrib)
  obtain s3 where s3: "seek_command nm (dec_string (nat (pos f))) (s2\<lparr>strtok_save := []\<rparr>) = a3_ok (0, s3)" "a3_out s3 = a3_out s"
      "strtok_save s3 = []" "open_as nm fp (f\<lparr>pos := pos f\<rparr>) ino (fsys s3)" "bc_sect (fsys s3) = bc_sect (fsys s2)"
    using seek_command_step [of nm fp "f\<lparr>pos := pos f + int (length ?t) + int (length ?u)\<rparr>" ino "s2\<lparr>strtok_save := []\<rparr>" "nat (pos f)"] s2(2-4) assms(2,3) dl by auto
  obtain s4 where s4: "read_command nm (dec_string (length ?t + length ?u)) (s3\<lparr>strtok_save := []\<rparr>) = a3_ok (1, s4)" "strtok_save s4 = []"
      "a3_out s4 = a3_out s @ [Line (c_string (take (length ?t + length ?u) (drop (nat (pos f)) (?fb s3)) @ [0]))]"
    using read_command_step [of nm fp f ino "s3\<lparr>strtok_save := []\<rparr>" "length ?t + length ?u"] s3(2-4) assms(2,3) dl by auto
  have "take (length ?t + length ?u) (drop (nat (pos f)) (?fb s3)) = bytes_of_string ?t @ bytes_of_string ?u"
    using put_at_twice_slice [of "nat (pos f)" "bytes_of_string ?t" "bytes_of_string ?u" "?fb s" 0 0 0 0] s1(5) s2(5) s3(5) dl(2) assms(2,3)
    by simp
  then have out: "a3_out s4 = a3_out s @ [Line (?t @ ?u)]"
    using s4(3) c_string_bytes_of_string [of "?t @ ?u" "[]"] assms(10) by simp
  have i1: "a3_interpreter env ?p (''write'' # nm # ts1) (s\<lparr>strtok_save := []\<rparr>) = a3_ok (0, s1)"
    and i2: "a3_interpreter env ?p (''write'' # nm # ts2) (s1\<lparr>strtok_save := []\<rparr>) = a3_ok (0, s2)"
    and i3: "a3_interpreter env ?p [''seek'', nm, dec_string (nat (pos f))] (s2\<lparr>strtok_save := []\<rparr>) = a3_ok (0, s3)"
    and i4: "a3_interpreter env ?p [''read'', nm, dec_string (length ?t + length ?u)] (s3\<lparr>strtok_save := []\<rparr>) = a3_ok (1, s4)"
    using strip_line [OF assms(4)] strip_line [OF assms(5)] strip_line [OF assms(8)] strip_line [OF assms(9)] assms(6,7) s1(1) s2(1) s3(1) s4(1)
    by (simp_all add: a3_interpreter_def Let_def)
  show ?thesis
    using a3_lines_line [OF assms(4) i1 s1(3)] a3_lines_line [OF assms(5) i2 s2(3)] a3_lines_line [OF assms(8) i3 s3(3)]
      a3_lines_line [OF assms(9) i4 s4(2)] out by simp
qed

text \<open>A state with one open file of eight bytes.\<close>

definition a3_example :: "unit a3_shell" where
  "a3_example = kernel.extend kernel0
     \<lparr>fsys = dir_example\<lparr>file_table := [(''f'', Some 0)]\<rparr>, a3_host = (), a3_out = [], new_name_count = 1, strtok_save = []\<rparr>"

definition a3_no_host :: "unit a3_env" where
  "a3_no_host = \<lparr>host_system = (\<lambda>_ h. h), host_read = (\<lambda>_ _. None), host_store = (\<lambda>_ _ _. None), FRAME_STORE_SIZE = 6,
     VAR_STORE_SIZE = 2, cwd_path = ''/'', a3_help_text = [], a3_junk = []\<rparr>"

lemma a3_example_open:
  "open_as ''f'' 0 \<lparr>f_inode = 0, pos = 0, deny_write = False\<rparr> (inode_example 0 [2] 8) (fsys a3_example)"
proof -
  have "fsys a3_example = dir_example\<lparr>file_table := [(''f'', Some 0)]\<rparr>" by (simp add: a3_example_def kernel.defs)
  moreover have "bc_inv (dir_example\<lparr>file_table := ft\<rparr>) = bc_inv dir_example" "bc_sect (dir_example\<lparr>file_table := ft\<rparr>) = bc_sect dir_example"
      "bc_dev_valid (dir_example\<lparr>file_table := ft\<rparr>) = bc_dev_valid dir_example" "get_inode ip (dir_example\<lparr>file_table := ft\<rparr>) = get_inode ip dir_example"
      "get_file 0 (dir_example\<lparr>file_table := ft\<rparr>) = Some \<lparr>f_inode = 0, pos = 0, deny_write = False\<rparr>" for ft ip
    by (simp_all add: bc_inv_def bc_sect_def bc_dev_def bc_dev_valid_def get_inode_def get_file_def deref_def dir_example_def
        file_state.defs fs_state.defs fs_example_def)
  ultimately show ?thesis
    using fs_example_files(1,2) [of dir_example_bytes 63] by (simp add: open_as_def get_file_by_fname_def)
qed

theorem shell_writes_are_read_back_witness:
  "\<exists>s'. a3_lines (Suc 0) a3_no_host
      [join_tokens [''write'', ''f'', ''ab''] @ [newline], join_tokens [''write'', ''f'', ''c''] @ [newline],
       join_tokens [''seek'', ''f'', ''0''] @ [newline], join_tokens [''read'', ''f'', ''3''] @ [newline]] a3_example = Some (Inr s') \<and>
    a3_out s' = [Line ''abc'']"
proof -
  have d: "dec_string 0 = ''0''" "dec_string (Suc (Suc (Suc 0))) = ''3''" by code_simp+
  have "a3_out a3_example = []" by (simp add: a3_example_def kernel.defs)
  then show ?thesis
    using shell_writes_are_read_back [OF a3_example_open, of "[''ab'']" "[''c'']" 0 a3_no_host] d
    by (simp add: fits_line_def is_word_def a1_sep_def del: a3_lines.simps)
qed

text \<open>
  C6. \<open>cat\<close> shows the whole file: for a file that is in the table and well-formed, the command prints its two
  messages and between them a hexadecimal dump that reads back as the bytes of the file, wherever its position is.
\<close>

theorem cat_shows_file:
  assumes "open_as nm fp f ino (fsys s)" and "fits_line [''cat'', nm]"
  shows "\<exists>s' t. a3_lines (Suc n) env [join_tokens [''cat'', nm] @ [newline]] s = Some (Inr s') \<and>
    a3_out s' = a3_out s @ [Line (''Printing <'' @ nm @ ''> to the console...''), Text t, Line ''Done printing''] \<and>
    dump_bytes t = file_bytes (bc_sect (fsys s)) (data ino)"
proof -
  obtain s1 t where c: "cat_command env nm (s\<lparr>strtok_save := []\<rparr>) = a3_ok (0, s1)" "strtok_save s1 = []"
      "a3_out s1 = a3_out s @ [Line (''Printing <'' @ nm @ ''> to the console...''), Text t, Line ''Done printing'']"
      "dump_bytes t = file_bytes (bc_sect (fsys s)) (data ino)"
    using cat_command_step [of nm fp f ino "s\<lparr>strtok_save := []\<rparr>" env] assms(1) by auto
  have "strip nm = nm" "strip ''cat'' = ''cat''" using assms(2) strip_word by (simp_all add: fits_line_def is_word_def)
  then have "a3_interpreter env (a3_parse n env) [''cat'', nm] (s\<lparr>strtok_save := []\<rparr>) = a3_ok (0, s1)"
    using c(1) by (simp add: a3_interpreter_def Let_def)
  from a3_lines_line [OF assms(2) this c(2)] c(3,4) show ?thesis by simp
qed

theorem cat_shows_file_witness:
  "\<exists>s' t. a3_lines (Suc 0) a3_no_host [join_tokens [''cat'', ''f''] @ [newline]] a3_example = Some (Inr s') \<and>
    a3_out s' = a3_out a3_example @ [Line (''Printing <'' @ ''f'' @ ''> to the console...''), Text t, Line ''Done printing''] \<and>
    dump_bytes t = file_bytes (bc_sect (fsys a3_example)) (data (inode_example 0 [2] 8))"
  by (rule cat_shows_file [OF a3_example_open]) (simp add: fits_line_def is_word_def a1_sep_def)

text \<open>A shell that has run nothing, on a file system.\<close>

definition a3_at :: "dir_state \<Rightarrow> unit a3_shell" where
  "a3_at fs = kernel.extend kernel0 \<lparr>fsys = fs, a3_host = (), a3_out = [], new_name_count = 1, strtok_save = []\<rparr>"

text \<open>
  C1. A file is made and filled from the shell: when the root directory has a free slot and no such name, the name has a
  separator, so that its parts fit the arrays of \<open>filesys_create\<close>, and enough sectors are free, \<open>create\<close> with any size of up to 123 sectors, \<open>write\<close>, \<open>seek\<close> to 0 and \<open>read\<close> print the tokens that
  were written, and nothing else. The file may be created shorter than the text: the write then makes it longer. The
  first \<open>write\<close> opens the file and enters it in the table.
\<close>

theorem shell_creates_and_reads_back:
  assumes "creatable (fsys s) rd nm" and "nm \<notin> fst ` set (file_table (fsys s))" and "length nm < 255"
    and "n \<le> 62976" and "sector_count (int n) + 2 < card (free_sectors (fsys s))"
    and "fits_line [''create'', nm, dec_string n]" and "fits_line (''write'' # nm # ts)" and "ts \<noteq> []"
    and "fits_line [''seek'', nm, dec_string 0]" and "fits_line [''read'', nm, dec_string (length (join_tokens ts))]"
    and "CHR 0x00 \<notin> set (join_tokens ts)"
  shows "\<exists>s'. a3_lines (Suc m) env
      [join_tokens [''create'', nm, dec_string n] @ [newline], join_tokens (''write'' # nm # ts) @ [newline],
       join_tokens [''seek'', nm, dec_string 0] @ [newline],
       join_tokens [''read'', nm, dec_string (length (join_tokens ts))] @ [newline]] s = Some (Inr s') \<and>
    a3_out s' = a3_out s @ [Line (join_tokens ts)]"
proof -
  let ?t = "join_tokens ts" and ?p = "a3_parse m env"
  define buf where "buf = bytes_of_string ?t @ [0, 0]"
  let ?sz = "int (length buf)"
  note sz = write_buffer(1-3) [OF assms(7,8) buf_def] and b = write_buffer(4) [OF assms(7,8) buf_def]
  have len: "sector_count (int n) \<le> 123" using assms(4) by (simp add: sector_count_def)
  have nm: "nm \<noteq> []" using assms(6) by (simp add: fits_line_def is_word_def)
  obtain g1 g2 fp ip i where g: "fsutil_create (a3_junk env) nm (int n) (fsys s) = Some (1, g1)"
    "fsutil_write nm buf ?sz g1 = Some (?sz, buf, g2)"
    "open_as nm fp \<lparr>f_inode = ip, pos = ?sz - 2, deny_write = False\<rparr> i g2" "?sz \<le> dlength (data i)"
    "take (nat ?sz) (file_bytes (bc_sect g2) (data i)) = buf"
    using creatable_write [OF assms(1) _ len _ nm assms(3,2) refl sz(1) _ b, of "a3_junk env"] sz(2) assms(5) by auto
  have at: "atoi (dec_string n) = Some (int n)" using assms(4) by (intro atoi_dec_string) simp
  define s1 where "s1 = s\<lparr>strtok_save := [], fsys := g1\<rparr>"
  define s2 where "s2 = s1\<lparr>strtok_save := [], fsys := g2\<rparr>"
  have c1: "create_command env nm (dec_string n) (s\<lparr>strtok_save := []\<rparr>) = a3_ok (0, s1)"
    using at g(1) by (simp add: create_command_def s1_def)
  have c2: "write_command nm ts (s1\<lparr>strtok_save := []\<rparr>) = a3_ok (0, s2)"
    using g(2) by (simp add: write_command_def buf_def [symmetric] Let_def s1_def s2_def)
  obtain s3 where s3: "seek_command nm (dec_string 0) (s2\<lparr>strtok_save := []\<rparr>) = a3_ok (0, s3)" "a3_out s3 = a3_out s2"
      "strtok_save s3 = []" "open_as nm fp \<lparr>f_inode = ip, pos = 0, deny_write = False\<rparr> i (fsys s3)" "bc_sect (fsys s3) = bc_sect g2"
    using seek_command_step [of nm fp "\<lparr>f_inode = ip, pos = ?sz - 2, deny_write = False\<rparr>" i "s2\<lparr>strtok_save := []\<rparr>" 0] g(3)
    by (auto simp: s2_def)
  obtain s4 where s4: "read_command nm (dec_string (length ?t)) (s3\<lparr>strtok_save := []\<rparr>) = a3_ok (1, s4)" "strtok_save s4 = []"
      "a3_out s4 = a3_out s @ [Line (c_string (take (length ?t) (file_bytes (bc_sect g2) (data i)) @ [0]))]"
    using read_command_step [of nm fp "\<lparr>f_inode = ip, pos = 0, deny_write = False\<rparr>" i "s3\<lparr>strtok_save := []\<rparr>" "length ?t"] s3(2-5) g(4) sz(3)
    by (auto simp: buf_def s1_def s2_def)
  have "take (length ?t) (file_bytes (bc_sect g2) (data i)) = take (length ?t) (take (nat ?sz) (file_bytes (bc_sect g2) (data i)))"
    by (simp add: buf_def)
  also have "\<dots> = bytes_of_string ?t" unfolding g(5) by (simp add: buf_def)
  finally have out: "a3_out s4 = a3_out s @ [Line ?t]"
    using s4(3) c_string_bytes_of_string [of ?t "[]"] assms(11) by simp
  have i1: "a3_interpreter env ?p [''create'', nm, dec_string n] (s\<lparr>strtok_save := []\<rparr>) = a3_ok (0, s1)"
    and i2: "a3_interpreter env ?p (''write'' # nm # ts) (s1\<lparr>strtok_save := []\<rparr>) = a3_ok (0, s2)"
    and i3: "a3_interpreter env ?p [''seek'', nm, dec_string 0] (s2\<lparr>strtok_save := []\<rparr>) = a3_ok (0, s3)"
    and i4: "a3_interpreter env ?p [''read'', nm, dec_string (length ?t)] (s3\<lparr>strtok_save := []\<rparr>) = a3_ok (1, s4)"
    using strip_line [OF assms(6)] strip_line [OF assms(7)] strip_line [OF assms(9)] strip_line [OF assms(10)] assms(8) c1 c2 s3(1) s4(1)
    by (simp_all add: a3_interpreter_def Let_def)
  have "strtok_save s1 = []" "strtok_save s2 = []" by (simp_all add: s1_def s2_def)
  then show ?thesis
    using a3_lines_line [OF assms(6) i1] a3_lines_line [OF assms(7) i2] a3_lines_line [OF assms(9) i3 s3(3)]
      a3_lines_line [OF assms(10) i4 s4(2)] out by simp
qed

text \<open>A file system with three free sectors; the file is created empty.\<close>

theorem shell_creates_and_reads_back_witness:
  "\<exists>s'. a3_lines (Suc 0) a3_no_host
      [join_tokens [''create'', ''/a.txt'', ''0''] @ [newline], join_tokens [''write'', ''/a.txt'', ''ab'', ''c''] @ [newline],
       join_tokens [''seek'', ''/a.txt'', ''0''] @ [newline], join_tokens [''read'', ''/a.txt'', ''4''] @ [newline]]
      (a3_at create_example) = Some (Inr s') \<and> a3_out s' = [Line ''ab c'']"
proof -
  have d: "dec_string 0 = ''0''" "dec_string (Suc (Suc (Suc (Suc 0)))) = ''4''" by code_simp+
  have f: "fsys (a3_at create_example) = create_example" "a3_out (a3_at create_example) = []" by (simp_all add: a3_at_def kernel.defs)
  have "sector_count (int 0) = 0" by (simp add: sector_count_def)
  then show ?thesis
    using shell_creates_and_reads_back [of "a3_at create_example" _ "''/a.txt''" 0 "[''ab'', ''c'']" 0 a3_no_host]
      create_example_creatable create_example_free d f
    by (simp add: fits_line_def is_word_def a1_sep_def del: a3_lines.simps)
qed



subsection \<open>Scripts of the third shell\<close>

text \<open>A host with two scripts in the backing store.\<close>

definition a3_scripts :: "string \<Rightarrow> string \<Rightarrow> unit a3_env" where
  "a3_scripts f g = a3_no_host\<lparr>host_read := (\<lambda>nm _.
     if nm = ''./backing_store/fa'' then Some (bytes_of_string f)
     else if nm = ''./backing_store/gaa'' then Some (bytes_of_string g) else None)\<rparr>"

declare a3_parse_loop.simps [code] rr_loop.simps [code]

text \<open>
  An example: commands behind \<open>run\<close> on the same line are lost: when the script with the one line \<open>echo a\<close> is run, its output is
  all there is, whatever follows the semicolon. The lines of the script have moved the pointer of \<open>strtok\<close> that the
  outer \<open>parseInput\<close> goes on with. This holds for every depth of the model that is enough to run the script.
\<close>

lemma commands_after_run_lost:
  "map_option (map_sum id (\<lambda>(r, s). (r, a3_out s))) (a3_parse (Suc (Suc n)) (a3_scripts ''echo a'' g) (''run f;'' @ rest) (a3_at fs)) =
   Some (Inr (0, [Line ''a'']))"
  by code_simp

text \<open>
  An example: a script that runs another script uses memory after it has been freed: the inner \<open>run_proc_RR\<close> frees every
  process, the one that is running too, and the processor then counts up its program counter. The model has no result,
  at any depth, although the inner script alone runs.
\<close>

lemma nested_run_uses_freed_process:
  "a3_parse (Suc (Suc (Suc n))) (a3_scripts ''run g'' ''echo a'') ''run f'' (a3_at fs) = None"
  by code_simp

end
